(* ===== verification/Prelude.thy ===== *)
theory Prelude
  imports Main "HOL-Library.Word" "HOL-Library.List_Lexorder" "HOL-Library.AList"
begin

unbundle bit_operations_syntax

text \<open>
  Shared vocabulary of the development: JavaScript strings as lists of UTF-16 code units,
  bytes, JavaScript values, insertion-ordered \<open>Map\<close> objects as association lists
  (\<open>AList.update\<close> and \<open>AList.delete\<close> keep the order the way \<open>Map.set\<close> and
  \<open>Map.delete\<close> do), the contract of an encoder/decoder pair as a locale, and the
  generic lemmas the components share.
\<close>

section \<open>Machine types\<close>

type_synonym u8 = "8 word"
type_synonym u16 = "16 word"
type_synonym u32 = "32 word"

text \<open>A JavaScript string is its list of UTF-16 code units.\<close>

type_synonym jstr = "u16 list"

definition js :: "string \<Rightarrow> jstr" where
  "js s = map of_char s"

named_theorems guards \<open>unfolding rules of the shape checks\<close>
named_theorems outcomes \<open>what a successful run of an operation tells\<close>

section \<open>String literals\<close>

lemma of_char_nat_less: "of_char c < (256 :: nat)"
proof -
  have "char_of (of_char c :: nat) = c" by simp
  then have "of_char c = (of_char c mod 256 :: nat)" by (metis of_char_of)
  then show ?thesis by (metis mod_less_divisor zero_less_numeral)
qed

lemma of_char_word16_inj [simp]: "(of_char c :: u16) = of_char d \<longleftrightarrow> c = d"
proof
  assume "(of_char c :: u16) = of_char d"
  moreover have "(of_char x :: u16) = word_of_nat (of_char x)" for x
    by (simp add: of_nat_of_char)
  ultimately have "(word_of_nat (of_char c) :: u16) = word_of_nat (of_char d)"
    by simp
  moreover have "of_char x < (2 ^ 16 :: nat)" for x :: char
    using of_char_nat_less [of x] by (rule less_trans) simp
  ultimately have "(of_char c :: nat) = of_char d"
    by (simp add: word_of_nat_eq_iff take_bit_nat_eq_self)
  then show "c = d" by simp
qed simp

lemma js_eq [simp]: "js s = js t \<longleftrightarrow> s = t"
proof -
  have "inj (of_char :: char \<Rightarrow> u16)" by (rule injI) simp
  then show ?thesis by (simp add: js_def inj_map_eq_map)
qed

lemma js_Nil [simp]: "js [] = []"
  by (simp add: js_def)

lemma js_eq_Nil [simp]: "js s = [] \<longleftrightarrow> s = []"
  by (simp add: js_def)

lemma length_js [simp]: "length (js s) = length s"
  by (simp add: js_def)

section \<open>Lists\<close>

text \<open>\<open>indexOf\<close>: the first position of an element.\<close>

fun index_of :: "'a list \<Rightarrow> 'a \<Rightarrow> nat option" where
  "index_of [] x = None"
| "index_of (y # ys) x = (if y = x then Some 0 else map_option Suc (index_of ys x))"

lemma index_of_Some: "index_of xs x = Some i \<Longrightarrow> i < length xs \<and> xs ! i = x"
  by (induction xs arbitrary: i) (auto split: if_splits)

lemma index_of_nth: "distinct xs \<Longrightarrow> i < length xs \<Longrightarrow> index_of xs (xs ! i) = Some i"
  by (induction xs arbitrary: i) (auto simp: nth_Cons split: nat.splits dest: nth_mem)

lemma index_of_None: "index_of xs x = None \<longleftrightarrow> x \<notin> set xs"
  by (induction xs) auto

text \<open>A read with a default: \<open>xs[i] ?? d\<close>.\<close>

definition nth_or :: "'a \<Rightarrow> 'a list \<Rightarrow> nat \<Rightarrow> 'a" where
  "nth_or d xs i = (if i < length xs then xs ! i else d)"

lemma nth_or_simps [simp]:
  "nth_or d [] i = d"
  "nth_or d (x # xs) 0 = x"
  "nth_or d (x # xs) (Suc i) = nth_or d xs i"
  by (simp_all add: nth_or_def)

lemma take_append_drop_eq: "take n xs = ys \<Longrightarrow> drop n xs = zs \<Longrightarrow> xs = ys @ zs"
  by (metis append_take_drop_id)

lemma append_one: "append [a] = Cons a"
  by (simp add: fun_eq_iff)

lemma sort_key_eq_Nil [simp]: "sort_key f xs = [] \<longleftrightarrow> xs = []"
  using set_sort [of f xs] by (metis set_empty)

section \<open>Words and division\<close>

lemma unat_take_bit: "unat (take_bit n (w :: 'a::len word)) = unat w mod 2 ^ n"
  by (simp only: unsigned_take_bit_eq) (simp only: take_bit_eq_mod)

lemma unat_drop_bit: "unat (drop_bit n (w :: 'a::len word)) = unat w div 2 ^ n"
  by (simp only: unat_drop_bit_eq) (simp only: drop_bit_eq_div)

lemma div_mod_split:
  fixes a :: nat
  assumes "0 < k"
  obtains q r where "a = q * k + r" "r < k" "a div k = q" "a mod k = r"
  using assms div_mult_mod_eq [of a k] mod_less_divisor [of k a] by metis

lemma unat_word_of_nat_u8: "n < 256 \<Longrightarrow> unat (word_of_nat n :: u8) = n"
  by (simp add: unsigned_of_nat take_bit_nat_eq_self)

lemma unat_u8_less: "unat (b :: u8) < 256"
  using unsigned_less [of b] by simp

lemma word_of_nat_unat_u8: "word_of_nat (unat (b :: u8)) = b"
  by simp

lemma list_by_three:
  assumes "P []" "\<And>a. P [a]" "\<And>a b. P [a, b]" "\<And>a b c xs. P xs \<Longrightarrow> P (a # b # c # xs)"
  shows "P xs"
proof (induction xs rule: length_induct)
  case (1 xs)
  then show ?case
    using assms by (cases xs; cases "tl xs"; cases "tl (tl xs)") auto
qed

lemma list_by_four:
  assumes "P []" "\<And>a. P [a]" "\<And>a b. P [a, b]" "\<And>a b c. P [a, b, c]"
    "\<And>a b c d xs. P xs \<Longrightarrow> P (a # b # c # d # xs)"
  shows "P xs"
proof (induction xs rule: length_induct)
  case (1 xs)
  then show ?case
    using assms by (cases xs; cases "tl xs"; cases "tl (tl xs)"; cases "tl (tl (tl xs))") auto
qed

section \<open>Insertion-ordered maps\<close>

lemma map_of_AList_update [simp]: "map_of (AList.update k v al) = (map_of al)(k \<mapsto> v)"
  by (rule update_conv')

lemma map_of_AList_delete [simp]: "map_of (AList.delete k al) = (map_of al)(k := None)"
  by (rule delete_conv')

lemma length_AList_delete_le: "length (AList.delete k al) \<le> length al"
  by (simp add: AList.delete_eq)

lemma length_AList_update_new:
  "map_of al k = None \<Longrightarrow> length (AList.update k v al) = Suc (length al)"
  by (induction al) (auto split: if_splits)

lemma AList_update_new: "map_of al k = None \<Longrightarrow> AList.update k v al = al @ [(k, v)]"
  by (induction al) (auto split: if_splits)

lemma AList_update_append: "k \<notin> fst ` set m \<Longrightarrow> AList.update k v m = m @ [(k, v)]"
  by (rule AList_update_new) (simp add: map_of_eq_None_iff)

lemma fold_AList_update_distinct:
  assumes "distinct (map fst ps)"
  shows "fold (\<lambda>(k, v). AList.update k v) ps [] = ps"
proof -
  have "distinct (map fst (m @ ps)) \<Longrightarrow> fold (\<lambda>(k, v). AList.update k v) ps m = m @ ps" for m
  proof (induction ps arbitrary: m)
    case (Cons x ps)
    obtain k v where x: "x = (k, v)" by (cases x)
    from Cons.prems x have "k \<notin> fst ` set m" by auto
    with x Cons.prems show ?case by (simp add: AList_update_append Cons.IH)
  qed simp
  with assms show ?thesis by simp
qed

section \<open>Encoders and decoders\<close>

text \<open>
  What a reader of an encoded value relies on: decoding what was encoded gives it back
  (\<open>codec\<close>), and, for the strict codecs, each value has exactly one spelling.
\<close>

locale codec =
  fixes enc :: "'a \<Rightarrow> 'b"
    and dec :: "'b \<Rightarrow> 'a option"
    and ok :: "'a \<Rightarrow> bool"
  assumes dec_enc: "ok x \<Longrightarrow> dec (enc x) = Some x"
begin

lemma enc_inj: "ok x \<Longrightarrow> ok y \<Longrightarrow> enc x = enc y \<longleftrightarrow> x = y"
  using dec_enc by (metis option.inject)

lemma dec_enc_Some: "ok x \<Longrightarrow> dec (enc x) = Some y \<longleftrightarrow> y = x"
  using dec_enc by auto

end

locale strict_codec = codec +
  assumes dec_sound: "dec t = Some x \<Longrightarrow> ok x \<and> enc x = t"
begin

lemma dec_eq_Some: "dec t = Some x \<longleftrightarrow> ok x \<and> enc x = t"
  using dec_enc dec_sound by auto

lemma dec_inj: "dec t = Some x \<Longrightarrow> dec u = Some x \<Longrightarrow> t = u"
  using dec_sound by metis

lemma dec_eq_None: "dec t = None \<longleftrightarrow> (\<forall>x. ok x \<longrightarrow> enc x \<noteq> t)"
  using dec_eq_Some by (metis not_Some_eq)

end

lemma set_map_filter: "y \<in> set (List.map_filter f xs) \<longleftrightarrow> (\<exists>x \<in> set xs. f x = Some y)"
  by (force simp: List.map_filter_def)

end
