(* ===== verification/Encoding.thy ===== *)
theory Encoding
  imports Prelude
begin

text \<open>
  The byte encodings of \<^verbatim>\<open>packages/provenance/lib/encoding.ts\<close>: unpadded base64url and
  lowercase hex. The bit operations are those of the source on 32-bit integers. The loop of
  \<open>toBase64Url\<close> over an index that grows by three is a recursion on the bytes that are
  left; \<open>fromBase64Url\<close> keeps the source's buffer and bit count. The main facts are the two
  round trips, which make base64url a strict codec: every byte string has one spelling.
\<close>

section \<open>Definitions\<close>

definition BASE64URL :: jstr where
  "BASE64URL = js ''ABCDEFGHIJKLMNOPQRSTUVWXYZabcdefghijklmnopqrstuvwxyz0123456789-_''"

text \<open>\<open>ceil(n * 8 / 6)\<close> capped at four: the characters one chunk prints.\<close>

definition chunk_chars :: "nat \<Rightarrow> nat" where
  "chunk_chars remaining = min 4 ((remaining * 8 + 5) div 6)"

definition chunk_bits :: "u8 list \<Rightarrow> u32" where
  "chunk_bits bs =
     push_bit 16 (ucast (nth_or 0 bs 0)) OR push_bit 8 (ucast (nth_or 0 bs 1))
       OR ucast (nth_or 0 bs 2)"

definition chunk_text :: "u32 \<Rightarrow> nat \<Rightarrow> jstr" where
  "chunk_text chunk chars =
     map (\<lambda>c. BASE64URL ! unat (drop_bit (18 - c * 6) chunk AND 0x3f)) [0..<chars]"

function toBase64Url :: "u8 list \<Rightarrow> jstr" where
  "toBase64Url bs =
     (if bs = [] then []
      else chunk_text (chunk_bits bs) (chunk_chars (length bs)) @ toBase64Url (drop 3 bs))"
  by pat_completeness auto
termination by (relation "measure length") auto

declare toBase64Url.simps [simp del]

fun fromBase64_loop :: "jstr \<Rightarrow> u32 \<Rightarrow> nat \<Rightarrow> u8 list \<Rightarrow> (u32 \<times> nat \<times> u8 list) option" where
  "fromBase64_loop [] buffer bits bytes = Some (buffer, bits, bytes)"
| "fromBase64_loop (char # text) buffer bits bytes =
     (case index_of BASE64URL char of
        None \<Rightarrow> None
      | Some value \<Rightarrow>
          let buffer' = (push_bit 6 buffer OR word_of_nat value) AND 0xffffff;
              bits' = bits + 6
          in if 8 \<le> bits'
             then fromBase64_loop text buffer' (bits' - 8)
                    (bytes @ [ucast (drop_bit (bits' - 8) buffer' AND 0xff)])
             else fromBase64_loop text buffer' bits' bytes)"

text \<open>Bits left in the buffer after the last whole byte: \<open>buffer & ((1 << bits) - 1)\<close>.\<close>

definition strayBits :: "u32 \<Rightarrow> nat \<Rightarrow> bool" where
  "strayBits buffer bits = (buffer AND (push_bit bits 1 - 1) \<noteq> 0)"

definition fromBase64Url :: "jstr \<Rightarrow> u8 list option" where
  "fromBase64Url text =
     (if length text mod 4 = 1 then None
      else case fromBase64_loop text 0 0 [] of
             None \<Rightarrow> None
           | Some (buffer, bits, bytes) \<Rightarrow>
               if strayBits buffer bits then None else Some bytes)"

text \<open>\<open>byte.toString(16).padStart(2, '0')\<close>.\<close>

definition HEX_DIGITS :: jstr where
  "HEX_DIGITS = js ''0123456789abcdef''"

definition hexByte :: "u8 \<Rightarrow> jstr" where
  "hexByte b = [HEX_DIGITS ! unat (drop_bit 4 b), HEX_DIGITS ! unat (b AND 0xf)]"

definition toHex :: "u8 list \<Rightarrow> jstr" where
  "toHex bs = concat (map hexByte bs)"

definition sha256Hex :: "(u8 list \<Rightarrow> u8 list) \<Rightarrow> u8 list \<Rightarrow> jstr" where
  "sha256Hex sha256 bytes = toHex (sha256 bytes)"

section \<open>The alphabet\<close>

lemma BASE64URL_length [simp]: "length BASE64URL = 64"
  by (simp add: BASE64URL_def)

lemma BASE64URL_distinct: "distinct BASE64URL"
  by (simp add: BASE64URL_def js_def distinct_map inj_on_def)

lemma index_BASE64URL: "i < 64 \<Longrightarrow> index_of BASE64URL (BASE64URL ! i) = Some i"
  by (simp add: index_of_nth BASE64URL_distinct)

lemma index_BASE64URL_Some: "index_of BASE64URL c = Some v \<Longrightarrow> v < 64 \<and> BASE64URL ! v = c"
  using index_of_Some by fastforce

lemma unat_sextet: "unat (drop_bit k (w :: u32) AND 0x3f) = unat w div 2 ^ k mod 64"
proof -
  have "drop_bit k w AND 0x3f = take_bit 6 (drop_bit k w)"
    by (simp add: take_bit_eq_mask mask_eq_exp_minus_1)
  then show ?thesis by (simp only: unat_take_bit unat_drop_bit) simp
qed

lemma unat_chunk_bits:
  "unat (chunk_bits bs) =
     unat (nth_or 0 bs 0) * 65536 + unat (nth_or 0 bs 1) * 256 + unat (nth_or 0 bs 2)"
  (is "_ = ?a * 65536 + ?b * 256 + ?c")
proof -
  define a b c where abc: "a = nth_or 0 bs 0" "b = nth_or 0 bs 1" "c = nth_or 0 bs 2"
  have lt: "unat a < 256" "unat b < 256" "unat c < 256"
    using unsigned_less [of a] unsigned_less [of b] unsigned_less [of c] by simp_all
  have 1: "push_bit 8 (ucast b) OR ucast c = (push_bit 8 (ucast b) + ucast c :: u32)"
    by (rule disjunctive_add [symmetric]) (auto simp: bit_simps dest: bit_imp_le_length)
  have 2: "push_bit 16 (ucast a) OR (push_bit 8 (ucast b) OR ucast c) =
     (push_bit 16 (ucast a) + (push_bit 8 (ucast b) OR ucast c) :: u32)"
    by (rule disjunctive_add [symmetric]) (auto simp: bit_simps dest: bit_imp_le_length)
  have "chunk_bits bs = word_of_nat (unat a * 65536 + unat b * 256 + unat c)"
    unfolding chunk_bits_def abc [symmetric] 2 unfolding 1 by (simp add: push_bit_eq_mult)
  then show ?thesis using lt unfolding abc
    by (simp only: unsigned_of_nat) (simp add: take_bit_nat_eq_self)
qed

lemma unat_buffer_step:
  assumes "v < 64"
  shows "unat ((push_bit 6 (B :: u32) OR word_of_nat v) AND 0xffffff) = (unat B * 64 + v) mod 2 ^ 24"
proof -
  have "push_bit 6 B OR word_of_nat v = push_bit 6 B + word_of_nat v"
  proof (rule disjunctive_add [symmetric])
    fix n
    have "n < 6" if "bit (word_of_nat v :: u32) n"
    proof (rule ccontr)
      assume "\<not> n < 6"
      then have "(2::nat) ^ 6 \<le> 2 ^ n" by (intro power_increasing) simp_all
      with assms have "v < 2 ^ n" by simp
      with that show False by (simp add: bit_simps bit_nat_def)
    qed
    then show "\<not> bit (push_bit 6 B) n \<or> \<not> bit (word_of_nat v :: u32) n"
      by (auto simp: bit_simps)
  qed
  then have "(push_bit 6 B OR word_of_nat v) AND 0xffffff
      = take_bit 24 (push_bit 6 B + word_of_nat v :: u32)"
    by (simp add: take_bit_eq_mask mask_eq_exp_minus_1)
  moreover have "unat (push_bit 6 B + word_of_nat v :: u32) = (unat B * 64 + v) mod 2 ^ 32"
    using assms by (simp add: push_bit_eq_mult unat_word_ariths unat_of_nat mod_simps mult.commute)
  ultimately show ?thesis
    by (simp only: unat_take_bit) (simp add: mod_mod_cancel)
qed

lemma byte_of_buffer: "(ucast (drop_bit k (B :: u32) AND 0xff) :: u8) = word_of_nat (unat B div 2 ^ k)"
proof -
  have "drop_bit k B AND 0xff = take_bit 8 (drop_bit k B)"
    by (simp add: take_bit_eq_mask mask_eq_exp_minus_1)
  then have "(ucast (drop_bit k B AND 0xff) :: u8) = word_of_nat (unat (take_bit 8 (drop_bit k B)))"
    by simp
  also have "\<dots> = word_of_nat (unat B div 2 ^ k)"
    by (simp only: unat_take_bit unat_drop_bit) (simp add: word_of_nat_eq_iff take_bit_eq_mod)
  finally show ?thesis .
qed

lemma strayBits_iff: "strayBits B k \<longleftrightarrow> unat B mod 2 ^ k \<noteq> 0"
proof -
  have "B AND (push_bit k 1 - 1) = take_bit k B"
    by (simp add: take_bit_eq_mask mask_eq_exp_minus_1 push_bit_eq_mult)
  then have "strayBits B k \<longleftrightarrow> unat (take_bit k B) \<noteq> 0"
    by (simp only: strayBits_def unat_eq_0 simp_thms)
  then show ?thesis by (simp only: unat_take_bit)
qed

lemma strayBits_0 [simp]: "\<not> strayBits B 0"
  by (simp add: strayBits_iff)

lemma strayBits_mod_64: "k \<le> 6 \<Longrightarrow> strayBits B k \<longleftrightarrow> unat B mod 64 mod 2 ^ k \<noteq> 0"
  using mod_mod_cancel [of "2 ^ k" "2 ^ 6" "unat B"] le_imp_power_dvd [of k 6 "2::nat"]
  by (simp add: strayBits_iff)

lemma base64_low:
  fixes v X :: nat
  assumes "v < 64"
  shows "(v + 64 * X) div 64 = X" "(v + 64 * X) mod 64 = v"
  using assms by simp_all

lemma base64_digits:
  fixes v0 :: nat
  assumes v: "v1 < 64" "v2 < 64" "v3 < (64::nat)" and N: "N = v3 + 64 * (v2 + 64 * (v1 + 64 * v0))"
  shows "N div 262144 = v0" "N div 4096 mod 64 = v1" "N div 64 mod 64 = v2" "N mod 64 = v3"
proof -
  have 1: "N div 64 = v2 + 64 * (v1 + 64 * v0)" unfolding N by (rule base64_low(1) [OF v(3)])
  have "N div 4096 = N div 64 div 64" using div_mult2_eq [of N 64 64] by simp
  then have 2: "N div 4096 = v1 + 64 * v0" by (simp only: 1 base64_low(1) [OF v(2)])
  have "N div 262144 = N div 4096 div 64" using div_mult2_eq [of N 4096 64] by simp
  then show "N div 262144 = v0" by (simp only: 2 base64_low(1) [OF v(1)])
  show "N div 4096 mod 64 = v1" by (simp only: 2 base64_low(2) [OF v(1)])
  show "N div 64 mod 64 = v2" by (simp only: 1 base64_low(2) [OF v(2)])
  show "N mod 64 = v3" unfolding N by (rule base64_low(2) [OF v(3)])
qed

lemma sextets:
  assumes "a < 256" "b < 256" "c < (256::nat)" and N: "N = a * 65536 + b * 256 + c"
  shows "N div 262144 mod 64 = a div 4"
    and "N div 4096 mod 64 = (a mod 4) * 16 + b div 16"
    and "N div 64 mod 64 = (b mod 16) * 4 + c div 64"
    and "N mod 64 = c mod 64"
proof -
  obtain a0 a1 where a: "a = a0 * 4 + a1" "a1 < 4" "a div 4 = a0" "a mod 4 = a1"
    by (rule div_mod_split [of 4 a]) auto
  obtain b0 b1 where b: "b = b0 * 16 + b1" "b1 < 16" "b div 16 = b0" "b mod 16 = b1"
    by (rule div_mod_split [of 16 b]) auto
  obtain c0 c1 where c: "c = c0 * 64 + c1" "c1 < 64" "c div 64 = c0" "c mod 64 = c1"
    by (rule div_mod_split [of 64 c]) auto
  have bounds: "a1 * 16 + b0 < 64" "b1 * 4 + c0 < 64" "a0 < 64"
    using assms(1-3) a(1,2) b(1,2) c(1,2) by linarith+
  have eq: "N = c1 + 64 * ((b1 * 4 + c0) + 64 * ((a1 * 16 + b0) + 64 * a0))"
    unfolding N a(1) b(1) c(1) by (simp add: algebra_simps)
  note digits = base64_digits [OF bounds(1,2) c(2) eq]
  show "N div 262144 mod 64 = a div 4" using bounds(3) by (simp add: digits(1) a(3))
  show "N div 4096 mod 64 = (a mod 4) * 16 + b div 16" by (simp only: digits(2) a(4) b(3))
  show "N div 64 mod 64 = (b mod 16) * 4 + c div 64" by (simp only: digits(3) b(4) c(3))
  show "N mod 64 = c mod 64" by (simp only: digits(4) c(4))
qed

lemma chunk_text_2_3_4:
  "chunk_text w 4 = [BASE64URL ! (unat w div 262144 mod 64), BASE64URL ! (unat w div 4096 mod 64),
     BASE64URL ! (unat w div 64 mod 64), BASE64URL ! (unat w mod 64)]"
  "chunk_text w 3 = [BASE64URL ! (unat w div 262144 mod 64), BASE64URL ! (unat w div 4096 mod 64),
     BASE64URL ! (unat w div 64 mod 64)]"
  "chunk_text w 2 = [BASE64URL ! (unat w div 262144 mod 64), BASE64URL ! (unat w div 4096 mod 64)]"
  unfolding chunk_text_def unat_sextet by (simp_all add: upt_rec)

lemma chunk_text_chunk_bits:
  fixes bs defines "a \<equiv> unat (nth_or 0 bs 0)" and "b \<equiv> unat (nth_or 0 bs 1)"
    and "c \<equiv> unat (nth_or 0 bs 2)"
  shows "chunk_text (chunk_bits bs) 4 =
     [BASE64URL ! (a div 4), BASE64URL ! ((a mod 4) * 16 + b div 16),
      BASE64URL ! ((b mod 16) * 4 + c div 64), BASE64URL ! (c mod 64)]"
    and "chunk_text (chunk_bits bs) 3 =
     [BASE64URL ! (a div 4), BASE64URL ! ((a mod 4) * 16 + b div 16),
      BASE64URL ! ((b mod 16) * 4 + c div 64)]"
    and "chunk_text (chunk_bits bs) 2 =
     [BASE64URL ! (a div 4), BASE64URL ! ((a mod 4) * 16 + b div 16)]"
proof -
  have "a < 256" "b < 256" "c < 256"
    unfolding a_def b_def c_def
    using unsigned_less [of "nth_or 0 bs 0"] unsigned_less [of "nth_or 0 bs 1"]
      unsigned_less [of "nth_or 0 bs 2"] by simp_all
  note sextets = sextets [OF this unat_chunk_bits [of bs, folded a_def b_def c_def]]
  show "chunk_text (chunk_bits bs) 4 =
     [BASE64URL ! (a div 4), BASE64URL ! ((a mod 4) * 16 + b div 16),
      BASE64URL ! ((b mod 16) * 4 + c div 64), BASE64URL ! (c mod 64)]"
    and "chunk_text (chunk_bits bs) 3 =
     [BASE64URL ! (a div 4), BASE64URL ! ((a mod 4) * 16 + b div 16),
      BASE64URL ! ((b mod 16) * 4 + c div 64)]"
    and "chunk_text (chunk_bits bs) 2 =
     [BASE64URL ! (a div 4), BASE64URL ! ((a mod 4) * 16 + b div 16)]"
    by (simp_all only: chunk_text_2_3_4 sextets)
qed

text \<open>Decoding: what the buffer holds after each character, modulo \<open>2 ^ 12\<close>.\<close>

lemma buffer_mod:
  fixes X v :: nat
  assumes "v < 64"
  shows "(X * 64 + v) mod 2 ^ 24 mod 64 = v"
    and "(X * 64 + v) mod 2 ^ 24 mod 4096 = X mod 64 * 64 + v"
proof -
  have m: "(X * 64 + v) mod 2 ^ 24 mod 64 = (X * 64 + v) mod 64"
    "(X * 64 + v) mod 2 ^ 24 mod 4096 = (X * 64 + v) mod 4096"
    by (rule mod_mod_cancel, simp)+
  show "(X * 64 + v) mod 2 ^ 24 mod 64 = v" using assms unfolding m by simp
  obtain q r where X: "X = q * 64 + r" "r < 64" "X mod 64 = r"
    by (rule div_mod_split [of 64 X]) auto
  have "X * 64 + v = r * 64 + v + 4096 * q" by (simp add: X(1) algebra_simps)
  moreover have "r * 64 + v < 4096" using X(2) assms by linarith
  ultimately show "(X * 64 + v) mod 2 ^ 24 mod 4096 = X mod 64 * 64 + v"
    unfolding m X(3) by (simp only: mod_mult_self2 mod_less)
qed

lemma word_of_nat_u8_cong: "m mod 256 = n mod 256 \<Longrightarrow> (word_of_nat m :: u8) = word_of_nat n"
  by (simp add: word_of_nat_eq_iff take_bit_eq_mod)

lemma buffer_byte:
  fixes Y u v :: nat
  assumes Y: "Y mod 4096 = u * 64 + v" and v: "v < 64"
  shows "(word_of_nat (Y div 2 ^ 4) :: u8) = word_of_nat (u * 4 + v div 16)"
    and "(word_of_nat (Y div 2 ^ 2) :: u8) = word_of_nat (u mod 16 * 16 + v div 4)"
    and "(word_of_nat (Y div 2 ^ 0) :: u8) = word_of_nat (u mod 4 * 64 + v)"
proof -
  define q where "q = Y div 4096"
  have eq: "Y = q * 4096 + u * 64 + v" using Y div_mult_mod_eq [of Y 4096] unfolding q_def by linarith
  obtain a b where u: "u = a * 16 + b" "b < 16" "u mod 16 = b" by (rule div_mod_split [of 16 u]) auto
  obtain c d where u4: "u = c * 4 + d" "d < 4" "u mod 4 = d" by (rule div_mod_split [of 4 u]) auto
  obtain e f where v16: "v = e * 16 + f" "f < 16" "v div 16 = e" by (rule div_mod_split [of 16 v]) auto
  obtain g h where v4: "v = g * 4 + h" "h < 4" "v div 4 = g" by (rule div_mod_split [of 4 v]) auto
  have "Y = f + 16 * (q * 256 + u * 4 + e)" by (simp add: eq v16(1))
  then have "Y div 2 ^ 4 = u * 4 + e + 256 * q" using v16(2) by simp
  then show "(word_of_nat (Y div 2 ^ 4) :: u8) = word_of_nat (u * 4 + v div 16)"
    by (intro word_of_nat_u8_cong) (simp only: v16(3) mod_mult_self2)
  have "Y = h + 4 * (q * 1024 + a * 256 + b * 16 + g)" by (simp add: eq u(1) v4(1))
  then have "Y div 2 ^ 2 = b * 16 + g + 256 * (q * 4 + a)" using v4(2) by simp
  then show "(word_of_nat (Y div 2 ^ 2) :: u8) = word_of_nat (u mod 16 * 16 + v div 4)"
    by (intro word_of_nat_u8_cong) (simp only: u(3) v4(3) mod_mult_self2)
  have "Y div 2 ^ 0 = d * 64 + v + 256 * (q * 16 + c)" by (simp add: eq u4(1))
  then show "(word_of_nat (Y div 2 ^ 0) :: u8) = word_of_nat (u mod 4 * 64 + v)"
    by (intro word_of_nat_u8_cong) (simp only: u4(3) mod_mult_self2)
qed

lemma loop_char:
  fixes B :: u32
  assumes "index_of BASE64URL c = Some v"
  defines "B' \<equiv> (push_bit 6 B OR word_of_nat v) AND 0xffffff"
  shows "fromBase64_loop (c # t) B bits out =
     (if 2 \<le> bits then fromBase64_loop t B' (bits - 2) (out @ [word_of_nat (unat B' div 2 ^ (bits - 2))])
      else fromBase64_loop t B' (bits + 6) out)"
    and "unat B' = (unat B * 64 + v) mod 2 ^ 24"
proof -
  show "unat B' = (unat B * 64 + v) mod 2 ^ 24"
    unfolding B'_def by (rule unat_buffer_step) (use index_BASE64URL_Some [OF assms(1)] in simp)
  show "fromBase64_loop (c # t) B bits out =
     (if 2 \<le> bits then fromBase64_loop t B' (bits - 2) (out @ [word_of_nat (unat B' div 2 ^ (bits - 2))])
      else fromBase64_loop t B' (bits + 6) out)"
    by (simp only: fromBase64_loop.simps assms(1) option.case Let_def B'_def [symmetric]
        byte_of_buffer) simp
qed

lemma loop_two:
  assumes "index_of BASE64URL c0 = Some v0" "index_of BASE64URL c1 = Some v1"
  shows "\<exists>B'. fromBase64_loop (c0 # c1 # t) B 0 out =
      fromBase64_loop t B' 4 (out @ [word_of_nat (v0 * 4 + v1 div 16)])
    \<and> unat B' mod 64 = v1"
proof -
  define B1 where "B1 = (push_bit 6 B OR word_of_nat v0) AND 0xffffff"
  define B2 where "B2 = (push_bit 6 B1 OR word_of_nat v1) AND 0xffffff"
  note v = index_BASE64URL_Some [OF assms(1), THEN conjunct1] index_BASE64URL_Some [OF assms(2), THEN conjunct1]
  note s1 = loop_char [OF assms(1), where B = B, folded B1_def]
  note s2 = loop_char [OF assms(2), where B = B1, folded B2_def]
  have m: "unat B2 mod 64 = v1" "unat B2 mod 4096 = v0 * 64 + v1"
    by (simp_all only: s1(2) s2(2) buffer_mod v)
  have "fromBase64_loop (c0 # c1 # t) B 0 out =
      fromBase64_loop t B2 4 (out @ [word_of_nat (unat B2 div 2 ^ 4)])"
    by (simp add: s1(1) s2(1) del: fromBase64_loop.simps)
  then show ?thesis unfolding buffer_byte(1) [OF m(2) v(2)] using m(1) by blast
qed

lemma loop_third:
  assumes "index_of BASE64URL c = Some v" "unat B mod 64 = u"
  shows "\<exists>B'. fromBase64_loop (c # t) B 4 out =
      fromBase64_loop t B' 2 (out @ [word_of_nat (u mod 16 * 16 + v div 4)])
    \<and> unat B' mod 64 = v"
proof -
  define B' where "B' = (push_bit 6 B OR word_of_nat v) AND 0xffffff"
  note v = index_BASE64URL_Some [OF assms(1), THEN conjunct1]
  note s = loop_char [OF assms(1), where B = B, folded B'_def]
  have m: "unat B' mod 64 = v" "unat B' mod 4096 = u * 64 + v"
    by (simp_all only: s(2) buffer_mod v assms(2))
  have "fromBase64_loop (c # t) B 4 out =
      fromBase64_loop t B' 2 (out @ [word_of_nat (unat B' div 2 ^ 2)])"
    by (simp add: s(1) del: fromBase64_loop.simps)
  then show ?thesis unfolding buffer_byte(2) [OF m(2) v] using m(1) by blast
qed

lemma loop_fourth:
  assumes "index_of BASE64URL c = Some v" "unat B mod 64 = u"
  shows "\<exists>B'. fromBase64_loop (c # t) B 2 out =
      fromBase64_loop t B' 0 (out @ [word_of_nat (u mod 4 * 64 + v)])"
proof -
  define B' where "B' = (push_bit 6 B OR word_of_nat v) AND 0xffffff"
  note v = index_BASE64URL_Some [OF assms(1), THEN conjunct1]
  note s = loop_char [OF assms(1), where B = B, folded B'_def]
  have m: "unat B' mod 4096 = u * 64 + v"
    by (simp_all only: s(2) buffer_mod v assms(2))
  have "fromBase64_loop (c # t) B 2 out =
      fromBase64_loop t B' 0 (out @ [word_of_nat (unat B' div 2 ^ 0)])"
    by (simp add: s(1) del: fromBase64_loop.simps)
  then show ?thesis unfolding buffer_byte(3) [OF m v] by blast
qed

lemma fromBase64_loop_Nil: "fromBase64_loop [] B bits out = Some (B, bits, out)"
  by simp

declare fromBase64_loop.simps [simp del]
declare fromBase64_loop_Nil [simp]

lemma toBase64Url_simps:
  fixes a b c :: u8
  defines "x \<equiv> unat a" and "y \<equiv> unat b" and "z \<equiv> unat c"
  shows "toBase64Url [] = []"
    "toBase64Url [a] = [BASE64URL ! (x div 4), BASE64URL ! (x mod 4 * 16)]"
    "toBase64Url [a, b] =
       [BASE64URL ! (x div 4), BASE64URL ! (x mod 4 * 16 + y div 16), BASE64URL ! (y mod 16 * 4)]"
    "toBase64Url (a # b # c # bs) =
       BASE64URL ! (x div 4) # BASE64URL ! (x mod 4 * 16 + y div 16)
         # BASE64URL ! (y mod 16 * 4 + z div 64) # BASE64URL ! (z mod 64) # toBase64Url bs"
proof -
  show nil: "toBase64Url [] = []" by (subst toBase64Url.simps) simp
  have n: "chunk_chars 1 = 2" "chunk_chars 2 = 3" "chunk_chars (length (a # b # c # bs)) = 4"
    by (simp_all add: chunk_chars_def)
  have "toBase64Url [a] = chunk_text (chunk_bits [a]) 2"
    by (subst toBase64Url.simps) (simp add: nil n(1) [unfolded One_nat_def])
  then show "toBase64Url [a] = [BASE64URL ! (x div 4), BASE64URL ! (x mod 4 * 16)]"
    by (simp only: chunk_text_chunk_bits) (simp add: x_def)
  have "toBase64Url [a, b] = chunk_text (chunk_bits [a, b]) 3"
    by (subst toBase64Url.simps) (simp add: nil n(2) [unfolded numeral_2_eq_2])
  then show "toBase64Url [a, b] =
      [BASE64URL ! (x div 4), BASE64URL ! (x mod 4 * 16 + y div 16), BASE64URL ! (y mod 16 * 4)]"
    by (simp only: chunk_text_chunk_bits) (simp add: x_def y_def nth_or_def)
  have "toBase64Url (a # b # c # bs) = chunk_text (chunk_bits (a # b # c # bs)) 4 @ toBase64Url bs"
    by (subst toBase64Url.simps) (simp only: n(3), simp)
  then show "toBase64Url (a # b # c # bs) =
      BASE64URL ! (x div 4) # BASE64URL ! (x mod 4 * 16 + y div 16)
        # BASE64URL ! (y mod 16 * 4 + z div 64) # BASE64URL ! (z mod 64) # toBase64Url bs"
    by (simp only: chunk_text_chunk_bits) (simp add: x_def y_def z_def numeral_2_eq_2)
qed

text \<open>The three bytes of a group and its four sextets determine each other.\<close>

lemma sextet_bounds:
  fixes x y z :: nat
  assumes "x < 256" "y < 256"
  shows "x div 4 < 64" "x mod 4 * 16 < 64" "x mod 4 * 16 + y div 16 < 64"
    "y mod 16 * 4 < 64" "y mod 16 * 4 + z mod 256 div 64 < 64" "z mod 64 < 64"
proof -
  have "x mod 4 < 4" "y mod 16 < 16" "z mod 256 < 256" by simp_all
  then show "x div 4 < 64" "x mod 4 * 16 < 64" "x mod 4 * 16 + y div 16 < 64"
    "y mod 16 * 4 < 64" "y mod 16 * 4 + z mod 256 div 64 < 64" "z mod 64 < 64"
    using assms by linarith+
qed

lemma bytes_of_sextets:
  fixes x y z :: nat
  shows "x div 4 * 4 + x mod 4 * 16 div 16 = x"
    "y < 256 \<Longrightarrow> x div 4 * 4 + (x mod 4 * 16 + y div 16) div 16 = x"
    "y < 256 \<Longrightarrow> (x mod 4 * 16 + y div 16) mod 16 * 16 + y mod 16 * 4 div 4 = y"
    "y < 256 \<Longrightarrow> z < 256 \<Longrightarrow>
       (x mod 4 * 16 + y div 16) mod 16 * 16 + (y mod 16 * 4 + z div 64) div 4 = y"
    "z < 256 \<Longrightarrow> (y mod 16 * 4 + z div 64) mod 4 * 64 + z mod 64 = z"
proof -
  show "x div 4 * 4 + x mod 4 * 16 div 16 = x" by simp
  have y: "y div 16 < 16" if "y < 256" using that by linarith
  have z: "z div 64 < 4" if "z < 256" using that by linarith
  show "x div 4 * 4 + (x mod 4 * 16 + y div 16) div 16 = x" if "y < 256"
    using y [OF that] by simp
  have 1: "(x mod 4 * 16 + y div 16) mod 16 = y div 16" if "y < 256"
    using y [OF that] by simp
  show "(x mod 4 * 16 + y div 16) mod 16 * 16 + y mod 16 * 4 div 4 = y" if "y < 256"
    unfolding 1 [OF that] by simp
  show "(x mod 4 * 16 + y div 16) mod 16 * 16 + (y mod 16 * 4 + z div 64) div 4 = y"
    if "y < 256" "z < 256"
    unfolding 1 [OF that(1)] using z [OF that(2)] by simp
  show "(y mod 16 * 4 + z div 64) mod 4 * 64 + z mod 64 = z" if "z < 256"
    using z [OF that] by simp
qed

lemma fromBase64_loop_three:
  assumes "index_of BASE64URL c0 = Some v0" "index_of BASE64URL c1 = Some v1"
    "index_of BASE64URL c2 = Some v2"
  shows "\<exists>B'. fromBase64_loop (c0 # c1 # c2 # t) B 0 out = fromBase64_loop t B' 2
      (out @ [word_of_nat (v0 * 4 + v1 div 16), word_of_nat (v1 mod 16 * 16 + v2 div 4)])
    \<and> unat B' mod 64 = v2"
proof -
  obtain B1 where B1: "fromBase64_loop (c0 # c1 # c2 # t) B 0 out
      = fromBase64_loop (c2 # t) B1 4 (out @ [word_of_nat (v0 * 4 + v1 div 16)])"
    and m1: "unat B1 mod 64 = v1"
    using loop_two [OF assms(1,2)] by blast
  show ?thesis
    using loop_third [OF assms(3) m1, of t "out @ [word_of_nat (v0 * 4 + v1 div 16)]"]
    by (simp only: B1 append_assoc append_Cons append_Nil)
qed

lemma fromBase64_loop_four:
  assumes "index_of BASE64URL c0 = Some v0" "index_of BASE64URL c1 = Some v1"
    "index_of BASE64URL c2 = Some v2" "index_of BASE64URL c3 = Some v3"
  shows "\<exists>B'. fromBase64_loop (c0 # c1 # c2 # c3 # t) B 0 out = fromBase64_loop t B' 0
    (out @ [word_of_nat (v0 * 4 + v1 div 16), word_of_nat (v1 mod 16 * 16 + v2 div 4),
            word_of_nat (v2 mod 4 * 64 + v3)])"
proof -
  let ?out = "out @ [word_of_nat (v0 * 4 + v1 div 16), word_of_nat (v1 mod 16 * 16 + v2 div 4)]"
  obtain B1 where B1: "fromBase64_loop (c0 # c1 # c2 # c3 # t) B 0 out
      = fromBase64_loop (c3 # t) B1 2 ?out"
    and m1: "unat B1 mod 64 = v2"
    using fromBase64_loop_three [OF assms(1-3)] by blast
  show ?thesis
    using loop_fourth [OF assms(4) m1, of t ?out] by (simp only: B1 append_assoc append_Cons append_Nil)
qed

lemma loop_toBase64Url:
  "\<exists>B' bits. fromBase64_loop (toBase64Url bs) B 0 out = Some (B', bits, out @ bs)
     \<and> \<not> strayBits B' bits \<and> length (toBase64Url bs) mod 4 \<noteq> 1"
proof (induction bs arbitrary: B out rule: list_by_three)
  case 1
  then show ?case by (simp add: toBase64Url_simps)
next
  case (2 a)
  let ?x = "unat a"
  have x: "?x < 256" by (rule unat_u8_less)
  obtain B' where B': "fromBase64_loop [BASE64URL ! (?x div 4), BASE64URL ! (?x mod 4 * 16)] B 0 out
      = fromBase64_loop [] B' 4 (out @ [word_of_nat (?x div 4 * 4 + ?x mod 4 * 16 div 16)])"
    and m: "unat B' mod 64 = ?x mod 4 * 16"
    using loop_two [OF index_BASE64URL [OF sextet_bounds(1) [OF x x]]
        index_BASE64URL [OF sextet_bounds(2) [OF x x]], of "[]" B out] by blast
  have "\<not> strayBits B' 4" by (simp add: strayBits_mod_64 m)
  then show ?case unfolding toBase64Url_simps B' bytes_of_sextets by simp
next
  case (3 a b)
  let ?x = "unat a" and ?y = "unat b"
  have x: "?x < 256" and y: "?y < 256" by (rule unat_u8_less)+
  obtain B2 where B2: "fromBase64_loop [BASE64URL ! (?x div 4), BASE64URL ! (?x mod 4 * 16 + ?y div 16),
        BASE64URL ! (?y mod 16 * 4)] B 0 out = fromBase64_loop [] B2 2
      (out @ [word_of_nat (?x div 4 * 4 + (?x mod 4 * 16 + ?y div 16) div 16),
        word_of_nat ((?x mod 4 * 16 + ?y div 16) mod 16 * 16 + ?y mod 16 * 4 div 4)])"
    and m: "unat B2 mod 64 = ?y mod 16 * 4"
    using fromBase64_loop_three [OF index_BASE64URL [OF sextet_bounds(1) [OF x x]]
        index_BASE64URL [OF sextet_bounds(3) [OF x y]] index_BASE64URL [OF sextet_bounds(4) [OF x y]]]
    by blast
  have "\<not> strayBits B2 2" by (simp add: strayBits_mod_64 m)
  then show ?case
    unfolding toBase64Url_simps B2 bytes_of_sextets(2) [OF y] bytes_of_sextets(3) [OF y] by simp
next
  case (4 a b c bs)
  let ?x = "unat a" and ?y = "unat b" and ?z = "unat c" and ?t = "toBase64Url bs"
  have x: "?x < 256" and y: "?y < 256" and z: "?z < 256" by (rule unat_u8_less)+
  have v2: "?y mod 16 * 4 + ?z div 64 < 64" using sextet_bounds(5) [OF x y, of ?z] z by simp
  obtain B3 where "fromBase64_loop (toBase64Url (a # b # c # bs)) B 0 out = fromBase64_loop ?t B3 0
      (out @ [word_of_nat (?x div 4 * 4 + (?x mod 4 * 16 + ?y div 16) div 16),
        word_of_nat ((?x mod 4 * 16 + ?y div 16) mod 16 * 16 + (?y mod 16 * 4 + ?z div 64) div 4),
        word_of_nat ((?y mod 16 * 4 + ?z div 64) mod 4 * 64 + ?z mod 64)])"
    unfolding toBase64Url_simps
    using fromBase64_loop_four [OF index_BASE64URL [OF sextet_bounds(1) [OF x x]]
        index_BASE64URL [OF sextet_bounds(3) [OF x y]] index_BASE64URL [OF v2]
        index_BASE64URL [OF sextet_bounds(6) [OF x y]]] by blast
  then have "fromBase64_loop (toBase64Url (a # b # c # bs)) B 0 out
      = fromBase64_loop ?t B3 0 (out @ [a, b, c])"
    by (simp only: bytes_of_sextets(2) [OF y] bytes_of_sextets(4) [OF y z]
        bytes_of_sextets(5) [OF z] word_of_nat_unat_u8)
  with 4 [of B3 "out @ [a, b, c]"] show ?case by (auto simp: toBase64Url_simps)
qed

lemma fromBase64_loop_alphabet:
  "fromBase64_loop t B bits out = Some r \<Longrightarrow> c \<in> set t \<Longrightarrow> \<exists>v < 64. index_of BASE64URL c = Some v \<and> BASE64URL ! v = c"
proof (induction t B bits out rule: fromBase64_loop.induct)
  case (2 char t buffer bits bytes)
  then obtain v where v: "index_of BASE64URL char = Some v"
    by (auto simp: fromBase64_loop.simps split: option.splits)
  with 2 have "c \<in> set t \<Longrightarrow> ?case" by (auto simp: fromBase64_loop.simps Let_def split: if_splits)
  with v 2(4) show ?case by (auto dest: index_BASE64URL_Some)
qed simp

lemma sextets_of_bytes:
  fixes v0 v1 v2 v3 :: nat
  assumes "v0 < 64" "v1 < 64" "v2 < 64" "v3 < 64"
  shows "v0 * 4 + v1 div 16 < 256" "v1 mod 16 * 16 + v2 div 4 < 256" "v2 mod 4 * 64 + v3 < 256"
    "(v0 * 4 + v1 div 16) div 4 = v0" "(v0 * 4 + v1 div 16) mod 4 = v1 div 16"
    "(v1 mod 16 * 16 + v2 div 4) div 16 = v1 mod 16" "(v1 mod 16 * 16 + v2 div 4) mod 16 = v2 div 4"
    "(v2 mod 4 * 64 + v3) div 64 = v2 mod 4" "(v2 mod 4 * 64 + v3) mod 64 = v3"
proof -
  have d: "v1 div 16 < 4" "v2 div 4 < 16" "v1 mod 16 < 16" "v2 mod 4 < 4" using assms by simp_all
  then show "v0 * 4 + v1 div 16 < 256" "v1 mod 16 * 16 + v2 div 4 < 256" "v2 mod 4 * 64 + v3 < 256"
    using assms by linarith+
  show "(v0 * 4 + v1 div 16) div 4 = v0" "(v0 * 4 + v1 div 16) mod 4 = v1 div 16"
    "(v1 mod 16 * 16 + v2 div 4) div 16 = v1 mod 16" "(v1 mod 16 * 16 + v2 div 4) mod 16 = v2 div 4"
    "(v2 mod 4 * 64 + v3) div 64 = v2 mod 4" "(v2 mod 4 * 64 + v3) mod 64 = v3"
    using d assms by simp_all
qed

lemma fromBase64_loop_sound:
  assumes "fromBase64_loop t B 0 out = Some (B', bits, out')"
    and "\<not> strayBits B' bits" and "length t mod 4 \<noteq> 1"
  shows "\<exists>bs. out' = out @ bs \<and> toBase64Url bs = t"
  using assms
proof (induction t arbitrary: B out rule: list_by_four)
  case 1
  then show ?case by (auto simp: toBase64Url_simps)
next
  case (2 a)
  then show ?case by simp
next
  case (3 c0 c1)
  obtain v0 v1 where v: "index_of BASE64URL c0 = Some v0" "v0 < 64" "BASE64URL ! v0 = c0"
      "index_of BASE64URL c1 = Some v1" "v1 < 64" "BASE64URL ! v1 = c1"
    using fromBase64_loop_alphabet [OF 3(1), of c0] fromBase64_loop_alphabet [OF 3(1), of c1] by auto
  obtain B2 where B2: "fromBase64_loop [c0, c1] B 0 out
      = fromBase64_loop [] B2 4 (out @ [word_of_nat (v0 * 4 + v1 div 16)])"
    and m: "unat B2 mod 64 = v1"
    using loop_two [OF v(1,4)] by blast
  with 3(1) have r: "B' = B2" "bits = 4" "out' = out @ [word_of_nat (v0 * 4 + v1 div 16)]"
    by simp_all
  from 3(2) have "v1 mod 16 = 0" by (simp add: r strayBits_mod_64 m)
  then have z: "v1 div 16 * 16 = v1" by (simp add: mod_0_imp_dvd)
  note d = sextets_of_bytes [OF v(2,5,5,5)]
  have "toBase64Url [word_of_nat (v0 * 4 + v1 div 16)] = [c0, c1]"
    by (simp only: toBase64Url_simps unat_word_of_nat_u8 [OF d(1)] d(4,5) z v)
  with r show ?case by blast
next
  case (4 c0 c1 c2)
  obtain v0 v1 v2 where v: "index_of BASE64URL c0 = Some v0" "v0 < 64" "BASE64URL ! v0 = c0"
      "index_of BASE64URL c1 = Some v1" "v1 < 64" "BASE64URL ! v1 = c1"
      "index_of BASE64URL c2 = Some v2" "v2 < 64" "BASE64URL ! v2 = c2"
    using fromBase64_loop_alphabet [OF 4(1), of c0] fromBase64_loop_alphabet [OF 4(1), of c1]
      fromBase64_loop_alphabet [OF 4(1), of c2] by auto
  let ?bs = "[word_of_nat (v0 * 4 + v1 div 16), word_of_nat (v1 mod 16 * 16 + v2 div 4)] :: u8 list"
  obtain B2 where B2: "fromBase64_loop [c0, c1, c2] B 0 out = fromBase64_loop [] B2 2 (out @ ?bs)"
    and m: "unat B2 mod 64 = v2"
    using fromBase64_loop_three [OF v(1,4,7)] by blast
  with 4(1) have r: "B' = B2" "bits = 2" "out' = out @ ?bs"
    by simp_all
  from 4(2) have "v2 mod 4 = 0" by (simp add: r strayBits_mod_64 m)
  then have z: "v2 div 4 * 4 = v2" by (simp add: mod_0_imp_dvd)
  note d = sextets_of_bytes [OF v(2,5,8,8)]
  have "toBase64Url ?bs = [c0, c1, c2]"
    by (simp only: toBase64Url_simps unat_word_of_nat_u8 [OF d(1)] unat_word_of_nat_u8 [OF d(2)] d(4-7)
        div_mult_mod_eq z v)
  with r show ?case by blast
next
  case (5 c0 c1 c2 c3 t)
  obtain v0 v1 v2 v3 where v: "index_of BASE64URL c0 = Some v0" "v0 < 64" "BASE64URL ! v0 = c0"
      "index_of BASE64URL c1 = Some v1" "v1 < 64" "BASE64URL ! v1 = c1"
      "index_of BASE64URL c2 = Some v2" "v2 < 64" "BASE64URL ! v2 = c2"
      "index_of BASE64URL c3 = Some v3" "v3 < 64" "BASE64URL ! v3 = c3"
    using fromBase64_loop_alphabet [OF 5(2), of c0] fromBase64_loop_alphabet [OF 5(2), of c1]
      fromBase64_loop_alphabet [OF 5(2), of c2] fromBase64_loop_alphabet [OF 5(2), of c3] by auto
  let ?bs = "[word_of_nat (v0 * 4 + v1 div 16), word_of_nat (v1 mod 16 * 16 + v2 div 4),
    word_of_nat (v2 mod 4 * 64 + v3)] :: u8 list"
  obtain B3 where "fromBase64_loop (c0 # c1 # c2 # c3 # t) B 0 out = fromBase64_loop t B3 0 (out @ ?bs)"
    using fromBase64_loop_four [OF v(1,4,7,10)] by blast
  with 5(2) have "fromBase64_loop t B3 0 (out @ ?bs) = Some (B', bits, out')" by simp
  moreover have "length t mod 4 \<noteq> 1" using 5(4) by simp
  ultimately obtain bs where bs: "out' = (out @ ?bs) @ bs" "toBase64Url bs = t"
    using 5(1) 5(3) by blast
  note d = sextets_of_bytes [OF v(2,5,8,11)]
  have "toBase64Url (?bs @ bs) = c0 # c1 # c2 # c3 # t"
    by (simp only: append_Cons append_Nil toBase64Url_simps unat_word_of_nat_u8 [OF d(1)]
        unat_word_of_nat_u8 [OF d(2)] unat_word_of_nat_u8 [OF d(3)] d(4-9) div_mult_mod_eq bs(2) v)
  with bs(1) show ?case by (metis append_assoc)
qed

interpretation base64url: strict_codec toBase64Url fromBase64Url "\<lambda>_. True"
proof unfold_locales
  fix bs show "fromBase64Url (toBase64Url bs) = Some bs"
    using loop_toBase64Url [of bs 0 "[]"] by (auto simp: fromBase64Url_def)
next
  fix t bs assume "fromBase64Url t = Some bs"
  then obtain B bits where "fromBase64_loop t 0 0 [] = Some (B, bits, bs)" "\<not> strayBits B bits"
      "length t mod 4 \<noteq> 1"
    by (auto simp: fromBase64Url_def split: if_splits option.splits prod.splits)
  then show "True \<and> toBase64Url bs = t"
    using fromBase64_loop_sound [of t 0 "[]"] by fastforce
qed

section \<open>Properties\<close>

text \<open>
  C10. Base64url is strict: a text decodes to some bytes exactly when it is the text those bytes
  encode to. Every byte string has one spelling, and any other text (a stray bit, a padding
  character, a length of 1 modulo 4) decodes to nothing.
\<close>

theorem base64url_one_spelling: "fromBase64Url t = Some bs \<longleftrightarrow> toBase64Url bs = t"
  using base64url.dec_eq_Some by simp

end
