(* ===== verification/Js_Value.thy ===== *)
theory Js_Value
  imports Prelude
begin

text \<open>
  The JavaScript values a signed statement is made of, and the text layer under them: UTF-16
  well-formedness, \<open>TextEncoder\<close> and the fatal \<open>TextDecoder\<close>, and the printing of numbers.

  A finite number other than zero is kept as what ECMAScript's \<open>Number::toString\<close> prints:
  \<open>Finite neg [d1, \<dots>, dk] n\<close> is \<open>0.d1\<dots>dk * 10 ^ n\<close> with the shortest digits that name the
  number, so equality of numbers is equality of these. An object is the list of its own
  properties in insertion order. \<open>JOther\<close> stands for anything that is not plain data
  (functions, symbols, class instances).
\<close>

section \<open>Values\<close>

datatype jsnum = NaN | Infinite bool | Zero bool | Finite bool "nat list" int

datatype jsval =
    JUndefined
  | JNull
  | JBool bool
  | JNumber jsnum
  | JString jstr
  | JArray "jsval list"
  | JObject "(jstr \<times> jsval) list"
  | JOther jstr

definition wf_number :: "jsnum \<Rightarrow> bool" where
  "wf_number x = (case x of
     Finite neg digits n \<Rightarrow>
       digits \<noteq> [] \<and> hd digits \<noteq> 0 \<and> last digits \<noteq> 0 \<and> list_all (\<lambda>d. d < 10) digits
   | _ \<Rightarrow> True)"

definition isFinite :: "jsnum \<Rightarrow> bool" where
  "isFinite x = (case x of NaN \<Rightarrow> False | Infinite _ \<Rightarrow> False | _ \<Rightarrow> True)"

text \<open>\<open>===\<close> on numbers: \<open>NaN\<close> differs from itself and the two zeros are equal.\<close>

fun num_eq :: "jsnum \<Rightarrow> jsnum \<Rightarrow> bool" where
  "num_eq NaN y = False"
| "num_eq (Zero _) (Zero _) = True"
| "num_eq x y = (x = y)"

text \<open>
  Reading a property. A value without own properties reads as \<open>undefined\<close>; the code guards
  every read that could throw on \<open>null\<close> or \<open>undefined\<close>.
\<close>

fun getprop :: "jsval \<Rightarrow> jstr \<Rightarrow> jsval" where
  "getprop (JObject ps) k = (case map_of ps k of Some v \<Rightarrow> v | None \<Rightarrow> JUndefined)"
| "getprop _ k = JUndefined"

abbreviation field :: "jsval \<Rightarrow> string \<Rightarrow> jsval" where
  "field v k \<equiv> getprop v (js k)"

text \<open>\<open>'k' in obj\<close> for an object's own properties.\<close>

fun has_prop :: "jsval \<Rightarrow> jstr \<Rightarrow> bool" where
  "has_prop (JObject ps) k = (map_of ps k \<noteq> None)"
| "has_prop _ k = False"

text \<open>\<open>typeof v === 'object' && v !== null\<close>.\<close>

fun is_object :: "jsval \<Rightarrow> bool" where
  "is_object (JObject _) = True"
| "is_object (JArray _) = True"
| "is_object _ = False"

fun as_string :: "jsval \<Rightarrow> jstr option" where
  "as_string (JString s) = Some s"
| "as_string _ = None"

fun as_number :: "jsval \<Rightarrow> jsnum option" where
  "as_number (JNumber x) = Some x"
| "as_number _ = None"

fun as_array :: "jsval \<Rightarrow> jsval list option" where
  "as_array (JArray xs) = Some xs"
| "as_array _ = None"

abbreviation is_string :: "jsval \<Rightarrow> bool" where
  "is_string v \<equiv> as_string v \<noteq> None"

lemma as_string_eq_Some [simp]: "as_string v = Some s \<longleftrightarrow> v = JString s"
  by (cases v) auto

lemma as_number_eq_Some [simp]: "as_number v = Some x \<longleftrightarrow> v = JNumber x"
  by (cases v) auto

lemma as_array_eq_Some [simp]: "as_array v = Some xs \<longleftrightarrow> v = JArray xs"
  by (cases v) auto

section \<open>Strings as text\<close>

definition high_surrogate :: "u16 \<Rightarrow> bool" where
  "high_surrogate u = (0xd800 \<le> u \<and> u \<le> 0xdbff)"

definition low_surrogate :: "u16 \<Rightarrow> bool" where
  "low_surrogate u = (0xdc00 \<le> u \<and> u \<le> 0xdfff)"

text \<open>
  \<open>TextEncoder.encode\<close>: UTF-8, with a lone surrogate written as U+FFFD.
\<close>

definition utf8_2 :: "u16 \<Rightarrow> u8 list" where
  "utf8_2 u = [ucast (drop_bit 6 u) OR 0xc0, ucast (u AND 0x3f) OR 0x80]"

definition utf8_3 :: "u16 \<Rightarrow> u8 list" where
  "utf8_3 u = [ucast (drop_bit 12 u) OR 0xe0, ucast (drop_bit 6 u AND 0x3f) OR 0x80,
     ucast (u AND 0x3f) OR 0x80]"

definition code_point :: "u16 \<Rightarrow> u16 \<Rightarrow> u32" where
  "code_point hi lo = 0x10000 + (push_bit 10 (ucast (hi - 0xd800)) + ucast (lo - 0xdc00))"

definition utf8_4 :: "u32 \<Rightarrow> u8 list" where
  "utf8_4 p = [ucast (drop_bit 18 p) OR 0xf0, ucast (drop_bit 12 p AND 0x3f) OR 0x80,
     ucast (drop_bit 6 p AND 0x3f) OR 0x80, ucast (p AND 0x3f) OR 0x80]"

definition utf8_unit :: "u16 \<Rightarrow> u8 list" where
  "utf8_unit u =
     (if u < 0x80 then [ucast u] else if u < 0x800 then utf8_2 u
      else if high_surrogate u \<or> low_surrogate u then [0xef, 0xbf, 0xbd] else utf8_3 u)"

fun utf8_encode :: "jstr \<Rightarrow> u8 list" where
  "utf8_encode [] = []"
| "utf8_encode (u # us) =
     (if high_surrogate u \<and> us \<noteq> [] \<and> low_surrogate (hd us)
      then utf8_4 (code_point u (hd us)) @ utf8_encode (tl us)
      else utf8_unit u @ utf8_encode us)"

text \<open>
  \<open>new TextDecoder('utf-8', { fatal: true }).decode\<close>: \<open>None\<close> on ill-formed bytes
  (overlong forms, surrogates, anything past U+10FFFF), a leading byte order mark is dropped.
\<close>

definition cont :: "u8 \<Rightarrow> bool" where
  "cont b = (b AND 0xc0 = 0x80)"

definition low6 :: "u8 \<Rightarrow> u32" where
  "low6 b = ucast (b AND 0x3f)"

definition units_of :: "u32 \<Rightarrow> jstr" where
  "units_of p = (if p < 0x10000 then [ucast p]
     else [0xd800 + ucast (drop_bit 10 (p - 0x10000)), 0xdc00 + ucast ((p - 0x10000) AND 0x3ff)])"

fun utf8_units :: "u8 list \<Rightarrow> jstr option" where
  "utf8_units [] = Some []"
| "utf8_units (a # bs) =
     (if a < 0x80 then map_option (Cons (ucast a)) (utf8_units bs)
      else case bs of [] \<Rightarrow> None | b # cs \<Rightarrow>
        if 0xc2 \<le> a \<and> a \<le> 0xdf then
          (if cont b
           then map_option (append (units_of (push_bit 6 (ucast (a AND 0x1f)) OR low6 b)))
                  (utf8_units cs)
           else None)
        else case cs of [] \<Rightarrow> None | c # ds \<Rightarrow>
          if 0xe0 \<le> a \<and> a \<le> 0xef then
            (let p = push_bit 12 (ucast (a AND 0x0f)) OR (push_bit 6 (low6 b) OR low6 c)
             in if cont b \<and> cont c \<and> 0x800 \<le> p \<and> \<not> (0xd800 \<le> p \<and> p \<le> 0xdfff)
                then map_option (append (units_of p)) (utf8_units ds) else None)
          else case ds of [] \<Rightarrow> None | d # es \<Rightarrow>
            if 0xf0 \<le> a \<and> a \<le> 0xf4 then
              (let p = push_bit 18 (ucast (a AND 0x07))
                   OR (push_bit 12 (low6 b) OR (push_bit 6 (low6 c) OR low6 d))
               in if cont b \<and> cont c \<and> cont d \<and> 0x10000 \<le> p \<and> p \<le> 0x10ffff
                  then map_option (append (units_of p)) (utf8_units es) else None)
            else None)"

definition utf8_decode :: "u8 list \<Rightarrow> jstr option" where
  "utf8_decode bs = utf8_units (if take 3 bs = [0xef, 0xbb, 0xbf] then drop 3 bs else bs)"

section \<open>Numbers as text\<close>

function decimal :: "nat \<Rightarrow> nat list" where
  "decimal n = (if n < 10 then [n] else decimal (n div 10) @ [n mod 10])"
  by pat_completeness auto
termination by (relation "measure id") auto

declare decimal.simps [simp del]

definition digit_unit :: "nat \<Rightarrow> u16" where
  "digit_unit d = word_of_nat (48 + d)"

abbreviation digits_text :: "nat list \<Rightarrow> jstr" where
  "digits_text ds \<equiv> map digit_unit ds"

text \<open>\<open>Number::toString\<close> with radix ten, case by case as ECMAScript states it.\<close>

definition exponent_text :: "int \<Rightarrow> jstr" where
  "exponent_text e = js ''e'' @ (if e < 0 then js ''-'' else js ''+'')
     @ digits_text (decimal (nat \<bar>e\<bar>))"

definition magnitude_text :: "nat list \<Rightarrow> int \<Rightarrow> jstr" where
  "magnitude_text ds n =
     (let k = int (length ds) in
      if k \<le> n \<and> n \<le> 21 then digits_text ds @ digits_text (replicate (nat (n - k)) 0)
      else if 0 < n \<and> n \<le> 21 then
        digits_text (take (nat n) ds) @ js ''.'' @ digits_text (drop (nat n) ds)
      else if -6 < n \<and> n \<le> 0 then
        js ''0.'' @ digits_text (replicate (nat (- n)) 0) @ digits_text ds
      else if k = 1 then digits_text ds @ exponent_text (n - 1)
      else digits_text (take 1 ds) @ js ''.'' @ digits_text (drop 1 ds) @ exponent_text (n - 1))"

fun number_text :: "jsnum \<Rightarrow> jstr" where
  "number_text NaN = js ''NaN''"
| "number_text (Infinite neg) = (if neg then js ''-'' else []) @ js ''Infinity''"
| "number_text (Zero _) = js ''0''"
| "number_text (Finite neg ds n) = (if neg then js ''-'' else []) @ magnitude_text ds n"

text \<open>A whole number as a JavaScript number.\<close>

definition strip_zeros :: "nat list \<Rightarrow> nat list" where
  "strip_zeros ds = rev (dropWhile (\<lambda>d. d = 0) (rev ds))"

definition num_of_nat :: "nat \<Rightarrow> jsnum" where
  "num_of_nat n = (if n = 0 then Zero False
     else Finite False (strip_zeros (decimal n)) (int (length (decimal n))))"

end
