(* ===== verification/Canonical_Json.thy ===== *)
theory Canonical_Json
  imports Js_Value
begin

text \<open>
  \<^verbatim>\<open>packages/provenance/lib/canonicalJson.ts\<close>: RFC 8785 serialization. Every
  \<open>throw new TypeError\<close> of the source is a value of \<open>json_error\<close>; the order of the checks is
  the source's order.
\<close>

section \<open>Definitions\<close>

datatype json_error = NotFinite | LoneSurrogate | UndefinedInArray | NotPlainData

fun wellFormed :: "jstr \<Rightarrow> bool" where
  "wellFormed [] = True"
| "wellFormed (unit # rest) =
     (if high_surrogate unit
      then (case rest of [] \<Rightarrow> False
            | next # rest' \<Rightarrow> if low_surrogate next then wellFormed rest' else False)
      else if low_surrogate unit then False
      else wellFormed rest)"

definition assertWellFormed :: "jstr \<Rightarrow> json_error + unit" where
  "assertWellFormed value = (if wellFormed value then Inr () else Inl LoneSurrogate)"

text \<open>
  \<open>JSON.stringify\<close> of a string. It is only reached for well-formed strings, so the escape
  of a lone surrogate is not needed.
\<close>

definition HEX_LOWER :: jstr where
  "HEX_LOWER = js ''0123456789abcdef''"

definition quote_unit :: "u16 \<Rightarrow> jstr" where
  "quote_unit u =
     (if u = 0x22 then [0x5c, 0x22] else if u = 0x5c then [0x5c, 0x5c]
      else if u = 0x08 then js (CHR 0x5c # ''b'') else if u = 0x0c then js (CHR 0x5c # ''f'')
      else if u = 0x0a then js (CHR 0x5c # ''n'') else if u = 0x0d then js (CHR 0x5c # ''r'')
      else if u = 0x09 then js (CHR 0x5c # ''t'')
      else if u < 0x20
        then js (CHR 0x5c # ''u00'')
          @ [HEX_LOWER ! unat (drop_bit 4 u AND 0xf), HEX_LOWER ! unat (u AND 0xf)]
      else [u])"

definition stringify_string :: "jstr \<Rightarrow> jstr" where
  "stringify_string s = 0x22 # concat (map quote_unit s) @ [0x22]"

fun join :: "'a list \<Rightarrow> 'a list list \<Rightarrow> 'a list" where
  "join sep [] = []"
| "join sep [x] = x"
| "join sep (x # y # ys) = x @ sep @ join sep (y # ys)"

text \<open>A \<open>map\<close> whose function may throw: the first throw ends it.\<close>

fun mapE :: "('a \<Rightarrow> 'e + 'b) \<Rightarrow> 'a list \<Rightarrow> 'e + 'b list" where
  "mapE f [] = Inr []"
| "mapE f (x # xs) = (case f x of Inl e \<Rightarrow> Inl e
     | Inr y \<Rightarrow> (case mapE f xs of Inl e \<Rightarrow> Inl e | Inr ys \<Rightarrow> Inr (y # ys)))"

lemma mapE_cong [fundef_cong]:
  "xs = ys \<Longrightarrow> (\<And>x. x \<in> set ys \<Longrightarrow> f x = g x) \<Longrightarrow> mapE f xs = mapE g ys"
  by (induction ys arbitrary: xs) (auto split: sum.splits)

definition sorted_members :: "(jstr \<times> jsval) list \<Rightarrow> (jstr \<times> jsval) list" where
  "sorted_members ps = sort_key fst (filter (\<lambda>(k, v). v \<noteq> JUndefined) ps)"

lemma set_sorted_members: "set (sorted_members ps) = {(k, v) \<in> set ps. v \<noteq> JUndefined}"
  by (auto simp: sorted_members_def)

lemma size_sorted_members: "(k, v) \<in> set (sorted_members ps) \<Longrightarrow> size v < Suc (size_list (size_prod (\<lambda>_. 0) size) ps)"
  by (induction ps) (auto simp: set_sorted_members)

function canonicalJson :: "jsval \<Rightarrow> json_error + jstr" where
  "canonicalJson JNull = Inr (js ''null'')"
| "canonicalJson (JBool b) = Inr (if b then js ''true'' else js ''false'')"
| "canonicalJson (JNumber x) = (if \<not> isFinite x then Inl NotFinite else Inr (number_text x))"
| "canonicalJson (JString s) = (case assertWellFormed s of Inl e \<Rightarrow> Inl e
     | Inr _ \<Rightarrow> Inr (stringify_string s))"
| "canonicalJson (JArray items) =
     (case mapE (\<lambda>item. if item = JUndefined then Inl UndefinedInArray else canonicalJson item) items of
        Inl e \<Rightarrow> Inl e
      | Inr texts \<Rightarrow> Inr (js ''['' @ join (js '','') texts @ js '']''))"
| "canonicalJson (JObject ps) =
     (case mapE (\<lambda>(key, v). case assertWellFormed key of Inl e \<Rightarrow> Inl e
              | Inr _ \<Rightarrow> (case canonicalJson v of Inl e \<Rightarrow> Inl e
                  | Inr text \<Rightarrow> Inr (stringify_string key @ js '':'' @ text)))
            (sorted_members ps) of
        Inl e \<Rightarrow> Inl e
      | Inr members \<Rightarrow> Inr (js ''{'' @ join (js '','') members @ js ''}''))"
| "canonicalJson JUndefined = Inl NotPlainData"
| "canonicalJson (JOther tag) = Inl NotPlainData"
  by pat_completeness auto
termination
  by (relation "measure size") (auto simp: less_Suc_eq_le size_list_estimation' dest: size_sorted_members)

end
