(* ===== verification/Json_Text.thy ===== *)
theory Json_Text
  imports Canonical_Json
begin

text \<open>
  \<open>JSON.parse\<close>, as \<open>parseSignedStatement\<close> uses it: a lexer from UTF-16 units to tokens and a
  parser over the tokens, following the JSON grammar. A repeated member name keeps the place of
  the first and the value of the last, as the built-in does. The parser spends one unit of fuel
  per call; \<open>parse_fuel_enough\<close> shows that the length of the input is always enough, so \<open>None\<close>
  is the built-in's \<open>SyntaxError\<close> and never lack of fuel.

  A numeric literal names a decimal; the double it denotes is the nearest one. That rounding is
  the parameter \<open>nearest\<close>, a function on numbers in their shortest form.
\<close>

section \<open>Lexer\<close>

datatype token = Punct u16 | Atom jsval

definition is_ws :: "u16 \<Rightarrow> bool" where
  "is_ws c = (c = 0x20 \<or> c = 0x09 \<or> c = 0x0a \<or> c = 0x0d)"

definition is_punct :: "u16 \<Rightarrow> bool" where
  "is_punct c = (c \<in> set (js ''{}[]:,''))"

definition is_digit :: "u16 \<Rightarrow> bool" where
  "is_digit c = (0x30 \<le> c \<and> c \<le> 0x39)"

definition is_number_char :: "u16 \<Rightarrow> bool" where
  "is_number_char c = (is_digit c \<or> c \<in> set (js ''+-.eE''))"

definition digit_value :: "u16 \<Rightarrow> nat" where
  "digit_value c = unat c - 48"

definition hex_value :: "u16 \<Rightarrow> nat option" where
  "hex_value c =
     (if is_digit c then Some (unat c - 48)
      else if 0x61 \<le> c \<and> c \<le> 0x66 then Some (unat c - 87)
      else if 0x41 \<le> c \<and> c \<le> 0x46 then Some (unat c - 55)
      else None)"

definition hex4 :: "u16 \<Rightarrow> u16 \<Rightarrow> u16 \<Rightarrow> u16 \<Rightarrow> u16 option" where
  "hex4 a b c d =
     (case (hex_value a, hex_value b, hex_value c, hex_value d) of
        (Some p, Some q, Some r, Some s) \<Rightarrow> Some (word_of_nat (((p * 16 + q) * 16 + r) * 16 + s))
      | _ \<Rightarrow> None)"

definition unescape :: "u16 \<Rightarrow> u16 option" where
  "unescape c =
     (if c = 0x22 \<or> c = 0x5c \<or> c = 0x2f then Some c
      else if c = of_char CHR ''b'' then Some 0x08 else if c = of_char CHR ''f'' then Some 0x0c
      else if c = of_char CHR ''n'' then Some 0x0a else if c = of_char CHR ''r'' then Some 0x0d
      else if c = of_char CHR ''t'' then Some 0x09 else None)"

text \<open>The characters of a string literal up to its closing quote, and what follows it.\<close>

fun lex_string :: "jstr \<Rightarrow> (jstr \<times> jstr) option" where
  "lex_string [] = None"
| "lex_string (c # cs) =
     (if c = 0x22 then Some ([], cs)
      else if c = 0x5c then
        (case cs of
           [] \<Rightarrow> None
         | e # rest \<Rightarrow>
             if e = of_char CHR ''u'' then
               (case rest of
                  h1 # h2 # h3 # h4 # rest' \<Rightarrow>
                    (case hex4 h1 h2 h3 h4 of
                       None \<Rightarrow> None
                     | Some u \<Rightarrow> map_option (apfst (Cons u)) (lex_string rest'))
                | _ \<Rightarrow> None)
             else (case unescape e of
                     None \<Rightarrow> None
                   | Some u \<Rightarrow> map_option (apfst (Cons u)) (lex_string rest)))
      else if c < 0x20 then None
      else map_option (apfst (Cons c)) (lex_string cs))"

lemma lex_string_shorter: "lex_string cs = Some (s, rest) \<Longrightarrow> length rest < length cs"
  by (induction cs arbitrary: s rule: lex_string.induct)
    (fastforce split: if_splits list.splits option.splits)+

text \<open>A number: \<open>-? int frac? exp?\<close>, its digits trimmed to the shortest form.\<close>

definition shortest :: "bool \<Rightarrow> nat list \<Rightarrow> int \<Rightarrow> jsnum" where
  "shortest neg ds n =
     (let ds' = dropWhile (\<lambda>d. d = 0) ds; n' = n - int (length ds - length ds')
      in if ds' = [] then Zero neg else Finite neg (strip_zeros ds') n')"

definition nat_of_digits :: "nat list \<Rightarrow> nat" where
  "nat_of_digits ds = foldl (\<lambda>acc d. acc * 10 + d) 0 ds"

definition parse_exponent :: "jstr \<Rightarrow> int option" where
  "parse_exponent cs =
     (case cs of
        [] \<Rightarrow> Some 0
      | c # rest \<Rightarrow>
          if c = of_char CHR ''e'' \<or> c = of_char CHR ''E'' then
            (let (sign, ds) = (case rest of
                 s # r \<Rightarrow> if s = of_char CHR ''-'' then (-1, r)
                          else if s = of_char CHR ''+'' then (1, r) else (1, rest)
               | [] \<Rightarrow> (1, []))
             in if ds \<noteq> [] \<and> list_all is_digit ds
                then Some (sign * int (nat_of_digits (map digit_value ds))) else None)
          else None)"

definition parse_unsigned :: "bool \<Rightarrow> jstr \<Rightarrow> jsnum option" where
  "parse_unsigned neg cs =
     (let whole = takeWhile is_digit cs; rest = dropWhile is_digit cs
      in if whole = [] \<or> (hd whole = of_char CHR ''0'' \<and> length whole > 1) then None
         else (case rest of
             c # r \<Rightarrow>
               if c = of_char CHR ''.'' then
                 (let frac = takeWhile is_digit r; rest' = dropWhile is_digit r
                  in if frac = [] then None
                     else map_option (\<lambda>e. shortest neg (map digit_value (whole @ frac))
                            (int (length whole) + e)) (parse_exponent rest'))
               else map_option (\<lambda>e. shortest neg (map digit_value whole) (int (length whole) + e))
                      (parse_exponent rest)
           | [] \<Rightarrow> Some (shortest neg (map digit_value whole) (int (length whole)))))"

definition parse_number :: "jstr \<Rightarrow> jsnum option" where
  "parse_number text =
     (case text of
        [] \<Rightarrow> None
      | c # r \<Rightarrow> if c = of_char CHR ''-'' then parse_unsigned True r else parse_unsigned False text)"

definition lex_word :: "jstr \<Rightarrow> (jsval \<times> nat) option" where
  "lex_word cs =
     (if take 4 cs = js ''null'' then Some (JNull, 4)
      else if take 4 cs = js ''true'' then Some (JBool True, 4)
      else if take 5 cs = js ''false'' then Some (JBool False, 5)
      else None)"

function lex :: "(jsnum \<Rightarrow> jsnum) \<Rightarrow> jstr \<Rightarrow> token list option" where
  "lex nearest cs =
     (case cs of
        [] \<Rightarrow> Some []
      | c # rest \<Rightarrow>
          if is_ws c then lex nearest rest
          else if is_punct c then map_option (Cons (Punct c)) (lex nearest rest)
          else if c = 0x22 then
            (case lex_string rest of
               None \<Rightarrow> None
             | Some (s, rest') \<Rightarrow> map_option (Cons (Atom (JString s))) (lex nearest rest'))
          else if is_number_char c then
            (case parse_number (takeWhile is_number_char cs) of
               None \<Rightarrow> None
             | Some x \<Rightarrow> map_option (Cons (Atom (JNumber (nearest x))))
                           (lex nearest (dropWhile is_number_char cs)))
          else (case lex_word cs of
                  None \<Rightarrow> None
                | Some (v, n) \<Rightarrow> map_option (Cons (Atom v)) (lex nearest (drop n cs))))"
  by pat_completeness auto
termination
  by (relation "measure (length \<circ> snd)")
    (auto dest: lex_string_shorter simp: lex_word_def less_Suc_eq_le length_dropWhile_le split: if_splits)

declare lex.simps [simp del]

section \<open>Parser\<close>

abbreviation punct :: "string \<Rightarrow> token" where
  "punct s \<equiv> Punct (hd (js s))"

fun parse_value :: "nat \<Rightarrow> token list \<Rightarrow> (jsval \<times> token list) option"
and parse_items :: "nat \<Rightarrow> token list \<Rightarrow> (jsval list \<times> token list) option"
and parse_members :: "nat \<Rightarrow> token list \<Rightarrow> ((jstr \<times> jsval) list \<times> token list) option" where
  "parse_value 0 ts = None"
| "parse_value (Suc f) ts =
     (case ts of
        Atom v # r \<Rightarrow> Some (v, r)
      | Punct c # r \<Rightarrow>
          if c = 0x5b then
            (case r of
               t # r' \<Rightarrow> if t = punct '']'' then Some (JArray [], r')
                         else map_option (apfst JArray) (parse_items f r)
             | [] \<Rightarrow> None)
          else if c = 0x7b then
            (case r of
               t # r' \<Rightarrow> if t = punct ''}'' then Some (JObject [], r')
                         else map_option (apfst (\<lambda>ms. JObject (fold (\<lambda>(k, v). AList.update k v) ms [])))
                                (parse_members f r)
             | [] \<Rightarrow> None)
          else None
      | [] \<Rightarrow> None)"
| "parse_items 0 ts = None"
| "parse_items (Suc f) ts =
     (case parse_value f ts of
        Some (v, t # r) \<Rightarrow>
          if t = punct '','' then map_option (apfst (Cons v)) (parse_items f r)
          else if t = punct '']'' then Some ([v], r) else None
      | _ \<Rightarrow> None)"
| "parse_members 0 ts = None"
| "parse_members (Suc f) ts =
     (case ts of
        Atom (JString k) # c # r \<Rightarrow>
          if c = punct '':'' then
            (case parse_value f r of
               Some (v, t # r') \<Rightarrow>
                 if t = punct '','' then map_option (apfst (Cons (k, v))) (parse_members f r')
                 else if t = punct ''}'' then Some ([(k, v)], r') else None
             | _ \<Rightarrow> None)
          else None
      | _ \<Rightarrow> None)"

definition JSON_parse :: "(jsnum \<Rightarrow> jsnum) \<Rightarrow> jstr \<Rightarrow> jsval option" where
  "JSON_parse nearest text =
     (case lex nearest text of
        None \<Rightarrow> None
      | Some ts \<Rightarrow> (case parse_value (2 * length ts) ts of
            Some (v, []) \<Rightarrow> Some v
          | _ \<Rightarrow> None))"

section \<open>The fuel is enough\<close>

lemma parse_consumes:
  "parse_value f ts = Some (v, r) \<Longrightarrow> length r < length ts"
  "parse_items f ts = Some (vs, r) \<Longrightarrow> length r < length ts"
  "parse_members f ts = Some (ms, r) \<Longrightarrow> length r < length ts"
proof (induction f ts and f ts and f ts arbitrary: v r and vs r and ms r
    rule: parse_value_parse_items_parse_members.induct)
  case (2 f ts)
  then show ?case
    by (fastforce split: list.splits token.splits if_splits)
next
  case (4 f ts)
  then show ?case
    by (fastforce split: list.splits token.splits if_splits option.splits prod.splits)
next
  case (6 f ts)
  then show ?case
    by (fastforce split: list.splits token.splits if_splits option.splits prod.splits jsval.splits)
qed simp_all

lemma parse_fuel_step:
  "2 * length ts \<le> f \<Longrightarrow> parse_value (Suc f) ts = parse_value f ts"
  "2 * length ts < f \<Longrightarrow> parse_items (Suc f) ts = parse_items f ts"
  "2 * length ts < f \<Longrightarrow> parse_members (Suc f) ts = parse_members f ts"
proof (induction f arbitrary: ts)
  case 0
  { case 1 then show ?case by simp
  next case 2 then show ?case by simp
  next case 3 then show ?case by simp }
next
  case (Suc f)
  { case 1
    have "parse_items (Suc f) r = parse_items f r" "parse_members (Suc f) r = parse_members f r"
      if "ts = t # r" for t r
      using 1 that Suc.IH(2,3) [of r] by simp_all
    then show ?case
      by (subst (1 2) parse_value.simps)
        (simp del: parse_value.simps parse_items.simps parse_members.simps split: list.split token.split)
  next
    case 2
    have v: "parse_value (Suc f) ts = parse_value f ts" using 2 Suc.IH(1) by simp
    have i: "parse_items (Suc f) r = parse_items f r" if "parse_value f ts = Some (v, t # r)" for v t r
      using parse_consumes(1) [OF that] 2 Suc.IH(2) [of r] by simp
    show ?case
      by (subst (1 2) parse_items.simps)
        (auto simp: v i simp del: parse_value.simps parse_items.simps parse_members.simps
          split: list.split option.split)
  next
    case 3
    have v: "parse_value (Suc f) r = parse_value f r" if "ts = k # c # r" for k c r
      using 3 that Suc.IH(1) [of r] by simp
    have i: "parse_members (Suc f) r' = parse_members f r'"
      if "parse_value f r = Some (v, t # r')" "ts = k # c # r" for v t k c r r'
      using parse_consumes(1) [OF that(1)] that(2) 3 Suc.IH(3) [of r'] by simp
    show ?case
      by (subst (1 2) parse_members.simps)
        (auto simp: v i simp del: parse_value.simps parse_items.simps parse_members.simps
          split: list.split option.split token.split jsval.split)
  }
qed

lemma parse_fuel_enough:
  assumes "2 * length ts \<le> f"
  shows "parse_value f ts = parse_value (2 * length ts) ts"
  using assms
proof (induction f rule: dec_induct)
  case (step f)
  then show ?case using parse_fuel_step(1) by simp
qed simp

end
