(* ===== verification/Js_Date.thy ===== *)
theory Js_Date
  imports Js_Value
begin

text \<open>
  \<open>Date.prototype.toISOString\<close> on a time value in milliseconds since 1970, for the proleptic
  Gregorian calendar of ECMAScript. \<open>civil\<close> turns a day number into year, month and day.
\<close>

definition DAY_MS :: int where
  "DAY_MS = 24 * 60 * 60 * 1000"

definition civil :: "int \<Rightarrow> int \<times> int \<times> int" where
  "civil days =
     (let z = days + 719468;
          era = z div 146097;
          doe = z mod 146097;
          yoe = (doe - doe div 1460 + doe div 36524 - doe div 146096) div 365;
          doy = doe - (365 * yoe + yoe div 4 - yoe div 100);
          mp = (5 * doy + 2) div 153;
          d = doy - (153 * mp + 2) div 5 + 1;
          m = (if mp < 10 then mp + 3 else mp - 9);
          y = yoe + era * 400 + (if m \<le> 2 then 1 else 0)
      in (y, m, d))"

definition padded :: "nat \<Rightarrow> int \<Rightarrow> jstr" where
  "padded width n =
     (let ds = decimal (nat n) in digits_text (replicate (width - length ds) 0 @ ds))"

definition year_text :: "int \<Rightarrow> jstr" where
  "year_text y = (if 0 \<le> y \<and> y \<le> 9999 then padded 4 y
     else (if y < 0 then js ''-'' else js ''+'') @ padded 6 \<bar>y\<bar>)"

definition date_text :: "int \<Rightarrow> jstr" where
  "date_text days =
     (case civil days of (y, m, d) \<Rightarrow> year_text y @ js ''-'' @ padded 2 m @ js ''-'' @ padded 2 d)"

definition time_text :: "int \<Rightarrow> jstr" where
  "time_text ms =
     js ''T'' @ padded 2 (ms div 3600000) @ js '':'' @ padded 2 (ms div 60000 mod 60) @ js '':''
       @ padded 2 (ms div 1000 mod 60) @ js ''.'' @ padded 3 (ms mod 1000) @ js ''Z''"

definition toISOString :: "int \<Rightarrow> jstr" where
  "toISOString t = date_text (t div DAY_MS) @ time_text (t mod DAY_MS)"

text \<open>The range of time values: a \<open>Date\<close> outside it is invalid.\<close>

definition time_value :: "int \<Rightarrow> bool" where
  "time_value t = (\<bar>t\<bar> \<le> 8640000000000000)"

text \<open>The number of a calendar day, by which \<open>Date.parse\<close> finds its midnight.\<close>

definition day_number :: "int \<Rightarrow> int \<Rightarrow> int \<Rightarrow> int" where
  "day_number y m d =
     (let y' = (if m \<le> 2 then y - 1 else y);
          era = y' div 400;
          yoe = y' mod 400;
          doy = (153 * ((m + 9) mod 12) + 2) div 5 + d - 1;
          doe = yoe * 365 + yoe div 4 - yoe div 100 + doy
      in era * 146097 + doe - 719468)"

lemma time_text_midnight: "time_text 0 = js ''T00:00:00.000Z''"
  by (simp add: time_text_def padded_def decimal.simps digit_unit_def js_def eval_nat_numeral)

lemma toISOString_day_start: "toISOString (t div DAY_MS * DAY_MS) = date_text (t div DAY_MS) @ js ''T00:00:00.000Z''"
  by (simp add: toISOString_def DAY_MS_def time_text_midnight)

end
