(* ===== verification/Signing.thy ===== *)
theory Signing
  imports Encoding Json_Text Js_Date
begin

text \<open>
  \<^verbatim>\<open>packages/provenance/lib/signing.ts\<close> and the statement wrapper of \<^verbatim>\<open>recordingClaim.ts\<close>.

  The primitives that are not in the repository are the fields of the record \<open>platform\<close>:
  SHA-256 and Ed25519 of WebCrypto, the rounding of a decimal to a double, and \<open>Date.parse\<close>.
  \<open>platform_ok\<close> states the documented behaviour of the cryptography: digest, key and signature
  lengths, and that a signature made with a private key verifies under its public key.
  \<open>dates_ok\<close> says that parsing an ISO string gives back the time it was printed from.
  Unforgeability is never assumed.
\<close>

section \<open>Platform\<close>

record platform =
  sha256 :: "u8 list \<Rightarrow> u8 list"
  importKey :: "u8 list \<Rightarrow> bool"
  ed_verify :: "u8 list \<Rightarrow> u8 list \<Rightarrow> u8 list \<Rightarrow> bool"
  ed_sign :: "u8 list \<Rightarrow> u8 list \<Rightarrow> u8 list"
  ed_public :: "u8 list \<Rightarrow> u8 list"
  nearest :: "jsnum \<Rightarrow> jsnum"
  Date_parse :: "jstr \<Rightarrow> int option"

definition platform_ok :: "platform \<Rightarrow> bool" where
  "platform_ok p \<longleftrightarrow>
     (\<forall>m. length (sha256 p m) = 32) \<and>
     (\<forall>sk. length (ed_public p sk) = 32 \<and> importKey p (ed_public p sk)) \<and>
     (\<forall>sk m. length (ed_sign p sk m) = 64 \<and> ed_verify p (ed_public p sk) (ed_sign p sk m) m)"

definition dates_ok :: "platform \<Rightarrow> bool" where
  "dates_ok p \<longleftrightarrow> (\<forall>t. time_value t \<longrightarrow> Date_parse p (toISOString t) = Some t)"

section \<open>Signed statements\<close>

record signed =
  payload :: jsval
  signature :: jstr

definition signed_value :: "signed \<Rightarrow> jsval" where
  "signed_value s = JObject [(js ''payload'', payload s), (js ''signature'', JString (signature s))]"

text \<open>A key the caller hands over: an imported \<open>CryptoKey\<close> or its text form.\<close>

datatype verify_key = CryptoKey "u8 list" | KeyText jstr

definition exportPublicKey :: "u8 list \<Rightarrow> jstr" where
  "exportPublicKey raw = toBase64Url raw"

definition importPublicKey :: "platform \<Rightarrow> jstr \<Rightarrow> u8 list option" where
  "importPublicKey p text =
     (case fromBase64Url text of
        None \<Rightarrow> None
      | Some raw \<Rightarrow> if length raw \<noteq> 32 then None
                   else if importKey p raw then Some raw else None)"

fun join_groups :: "jstr list \<Rightarrow> jstr" where
  "join_groups gs = join (js ''-'') gs"

fun groups_of_4 :: "jstr \<Rightarrow> jstr list" where
  "groups_of_4 (a # b # c # d # rest) = [a, b, c, d] # groups_of_4 rest"
| "groups_of_4 _ = []"

definition keyFingerprint :: "platform \<Rightarrow> jstr \<Rightarrow> jstr option" where
  "keyFingerprint p publicKey =
     (case fromBase64Url publicKey of
        None \<Rightarrow> None
      | Some raw \<Rightarrow> if length raw \<noteq> 32 then None
          else Some (join_groups (groups_of_4 (take 12 (sha256Hex (sha256 p) raw)))))"

definition signStatement :: "platform \<Rightarrow> jsval \<Rightarrow> u8 list \<Rightarrow> json_error + signed" where
  "signStatement p v privateKey =
     (case canonicalJson v of
        Inl e \<Rightarrow> Inl e
      | Inr text \<Rightarrow>
          Inr \<lparr>payload = v, signature = toBase64Url (ed_sign p privateKey (utf8_encode text))\<rparr>)"

definition verifyStatement :: "platform \<Rightarrow> signed \<Rightarrow> verify_key \<Rightarrow> bool" where
  "verifyStatement p s publicKey =
     (let key = (case publicKey of CryptoKey raw \<Rightarrow> Some raw | KeyText text \<Rightarrow> importPublicKey p text);
          sig = fromBase64Url (signature s)
      in case (key, sig) of
           (Some k, Some bytes) \<Rightarrow>
             if length bytes \<noteq> 64 then False
             else (case canonicalJson (payload s) of
                     Inl _ \<Rightarrow> False
                   | Inr text \<Rightarrow> ed_verify p k bytes (utf8_encode text))
         | _ \<Rightarrow> False)"

definition STATEMENT_MIME_TYPE :: jstr where
  "STATEMENT_MIME_TYPE = js ''application/json''"

definition statementBytes :: "signed \<Rightarrow> json_error + u8 list" where
  "statementBytes s = map_sum id utf8_encode (canonicalJson (signed_value s))"

definition statementAddress :: "platform \<Rightarrow> signed \<Rightarrow> json_error + jstr" where
  "statementAddress p s = map_sum id (sha256Hex (sha256 p)) (statementBytes s)"

section \<open>The wrapper as text and as bytes\<close>

definition encodeSignedStatement :: "signed \<Rightarrow> json_error + jstr" where
  "encodeSignedStatement s = map_sum id (\<lambda>t. toBase64Url (utf8_encode t)) (canonicalJson (signed_value s))"

definition parseSignedStatement :: "platform \<Rightarrow> u8 list \<Rightarrow> signed option" where
  "parseSignedStatement p bytes =
     (case utf8_decode bytes of
        None \<Rightarrow> None
      | Some text \<Rightarrow>
          (case JSON_parse (nearest p) text of
             None \<Rightarrow> None
           | Some v \<Rightarrow>
               if \<not> is_object v \<or> as_array v \<noteq> None \<or> as_string (field v ''signature'') = None
                    \<or> \<not> has_prop v (js ''payload'')
               then None
               else Some \<lparr>payload = field v ''payload'', signature = the (as_string (field v ''signature''))\<rparr>))"

definition decodeSignedStatement :: "platform \<Rightarrow> jstr \<Rightarrow> signed option" where
  "decodeSignedStatement p text =
     (case fromBase64Url text of None \<Rightarrow> None | Some bytes \<Rightarrow> parseSignedStatement p bytes)"

definition statementType :: "signed \<Rightarrow> jsval" where
  "statementType s = (if is_object (payload s) then field (payload s) ''type'' else JUndefined)"

section \<open>Lemmas\<close>

lemma verifyStatement_sign:
  assumes "platform_ok p" "signStatement p v sk = Inr s"
  shows "verifyStatement p s (KeyText (exportPublicKey (ed_public p sk)))"
    and "verifyStatement p s (CryptoKey (ed_public p sk))" and "payload s = v"
  using assms
  by (auto simp: signStatement_def verifyStatement_def importPublicKey_def exportPublicKey_def
      platform_ok_def base64url.dec_enc split: sum.splits)

lemma verifyStatement_key:
  "verifyStatement p s (KeyText k) \<Longrightarrow> \<exists>raw. length raw = 32 \<and> toBase64Url raw = k \<and> importKey p raw"
  by (auto simp: verifyStatement_def importPublicKey_def base64url.dec_eq_Some Let_def
      split: option.splits if_splits)

text \<open>What a signature covers: every payload that canonicalizes to the same text, and no other.\<close>

lemma verifyStatement_canonical:
  "canonicalJson v = canonicalJson (payload s) \<Longrightarrow>
     verifyStatement p (s\<lparr>payload := v\<rparr>) key = verifyStatement p s key"
  by (simp add: verifyStatement_def Let_def split: option.split sum.split)

end
