(* ===== verification/Json_Roundtrip.thy ===== *)
theory Json_Roundtrip
  imports Json_Text
begin

text \<open>
  \<open>JSON.parse\<close> reads back what \<open>canonicalJson\<close> wrote: the value with its members sorted and
  its \<open>undefined\<close> members gone. The proof follows the layers of the text: digits, numbers,
  string literals, tokens, values.
\<close>

section \<open>Digits\<close>

lemma decimal_digits: "list_all (\<lambda>d. d < 10) (decimal n)"
  by (induction n rule: decimal.induct) (subst decimal.simps, simp)

lemma decimal_ne: "decimal n \<noteq> []"
  by (subst decimal.simps) simp

lemma nat_of_digits_decimal: "nat_of_digits (decimal n) = n"
proof (induction n rule: decimal.induct)
  case (1 n)
  then show ?case
    by (subst decimal.simps) (auto simp: nat_of_digits_def)
qed

lemma digit_unit_props:
  assumes "d < 10"
  shows "is_digit (digit_unit d)" "is_number_char (digit_unit d)" "digit_value (digit_unit d) = d"
    "\<not> is_ws (digit_unit d)" "\<not> is_punct (digit_unit d)" "digit_unit d \<noteq> 0x22"
    "digit_unit d \<noteq> of_char CHR ''-''" "digit_unit d \<noteq> of_char CHR ''+''"
    "digit_unit d = of_char CHR ''0'' \<longleftrightarrow> d = 0"
proof -
  have "d \<in> {0, 1, 2, 3, 4, 5, 6, 7, 8, 9}" using assms by simp arith
  then show "is_digit (digit_unit d)" "digit_value (digit_unit d) = d"
    "\<not> is_ws (digit_unit d)" "\<not> is_punct (digit_unit d)" "digit_unit d \<noteq> 0x22"
    "digit_unit d \<noteq> of_char CHR ''-''" "digit_unit d \<noteq> of_char CHR ''+''"
    "digit_unit d = of_char CHR ''0'' \<longleftrightarrow> d = 0"
    by (elim insertE emptyE; simp add: digit_unit_def is_digit_def is_ws_def is_punct_def digit_value_def js_def)+
  then show "is_number_char (digit_unit d)" by (simp add: is_number_char_def)
qed

lemmas digit_unit_simps = digit_unit_props digit_unit_props [simplified]

lemma digits_text_props:
  assumes "list_all (\<lambda>d. d < 10) ds"
  shows "list_all is_digit (digits_text ds)" "list_all is_number_char (digits_text ds)"
    "map digit_value (digits_text ds) = ds" "map (digit_value \<circ> digit_unit) ds = ds"
  using assms by (induction ds) (simp_all add: digit_unit_props)

lemma takeWhile_digits:
  assumes "list_all (\<lambda>d. d < 10) ds" "rest = [] \<or> \<not> is_digit (hd rest)"
  shows "takeWhile is_digit (digits_text ds @ rest) = digits_text ds"
    "dropWhile is_digit (digits_text ds @ rest) = rest"
  using assms by (induction ds) (cases rest; auto simp: digit_unit_props)+

section \<open>Numbers\<close>

lemma strip_zeros_id: "ds \<noteq> [] \<Longrightarrow> last ds \<noteq> 0 \<Longrightarrow> strip_zeros (ds @ replicate k 0) = ds"
proof -
  assume *: "ds \<noteq> []" "last ds \<noteq> 0"
  have "dropWhile (\<lambda>d. d = 0) (replicate k 0 @ rev ds) = dropWhile (\<lambda>d. d = 0) (rev ds)"
    by (induction k) simp_all
  also have "\<dots> = rev ds"
    using * by (cases ds rule: rev_cases) simp_all
  finally show ?thesis by (simp add: strip_zeros_def)
qed

lemma shortest_pad:
  assumes "ds \<noteq> []" "hd ds \<noteq> 0" "last ds \<noteq> 0"
  shows "shortest neg (replicate j 0 @ ds @ replicate k 0) n = Finite neg ds (n - int j)"
proof -
  have d: "dropWhile (\<lambda>d. d = 0) (replicate j 0 @ ds @ replicate k 0) = ds @ replicate k 0"
    using assms(1,2) by (induction j) (cases ds; simp)+
  show ?thesis
    unfolding shortest_def Let_def d using assms by (simp add: strip_zeros_id)
qed

lemmas shortest_plain = shortest_pad [of _ _ 0 0, simplified]
lemmas shortest_right = shortest_pad [of _ _ 0, simplified]
lemmas shortest_left = shortest_pad [of _ _ _ 0, simplified]

lemma parse_exponent_text: "parse_exponent (exponent_text e) = Some e"
proof -
  let ?ds = "decimal (nat \<bar>e\<bar>)"
  have v: "map digit_value (digits_text ?ds) = ?ds" and d: "list_all is_digit (digits_text ?ds)"
    using digits_text_props [OF decimal_digits] by blast+
  have n: "digits_text ?ds \<noteq> []" by (simp add: decimal_ne)
  have m: "sign * int (nat_of_digits (map digit_value (digits_text ?ds))) = sign * \<bar>e\<bar>" for sign
    unfolding v nat_of_digits_decimal by simp
  show ?thesis
  proof (cases "e < 0")
    case True
    have "exponent_text e = of_char CHR ''e'' # of_char CHR ''-'' # digits_text ?ds"
      using True by (simp add: exponent_text_def js_def)
    then show ?thesis
      using True n d m [of "-1"] by (simp add: parse_exponent_def del: map_map map_is_Nil_conv)
  next
    case False
    have "exponent_text e = of_char CHR ''e'' # of_char CHR ''+'' # digits_text ?ds"
      using False by (simp add: exponent_text_def js_def)
    then show ?thesis
      using False n d m [of 1] by (simp add: parse_exponent_def del: map_map map_is_Nil_conv)
  qed
qed

lemma parse_exponent_Nil: "parse_exponent [] = Some 0"
  by (simp add: parse_exponent_def)

definition body_ok :: "jstr \<Rightarrow> bool" where
  "body_ok cs \<longleftrightarrow> cs \<noteq> [] \<and> hd cs \<noteq> of_char CHR ''-''"

lemma parse_sign:
  "body_ok cs \<Longrightarrow> parse_number ((if neg then js ''-'' else []) @ cs) = parse_unsigned neg cs"
  unfolding parse_number_def body_ok_def by (cases cs) (auto simp: js_def)

text \<open>The shapes a printed number has: an integer, a fraction, each with or without an exponent.\<close>

lemma parse_integer:
  assumes "list_all (\<lambda>d. d < 10) ds" "ds \<noteq> []" "hd ds \<noteq> 0 \<or> length ds = 1"
  shows "parse_number ((if neg then js ''-'' else []) @ digits_text ds) =
      Some (shortest neg ds (int (length ds)))"
proof -
  have b: "body_ok (digits_text ds)"
    using assms by (cases ds) (simp_all add: body_ok_def digit_unit_simps)
  have t: "takeWhile is_digit (digits_text ds) = digits_text ds"
      "dropWhile is_digit (digits_text ds) = []"
    using takeWhile_digits [OF assms(1), of "[]"] by simp_all
  show ?thesis
    unfolding parse_sign [OF b] parse_unsigned_def Let_def t
    using assms by (cases ds) (auto simp: digits_text_props digit_unit_simps)
qed

lemma exponent_text_hd:
  obtains xs where "exponent_text e = of_char CHR ''e'' # xs"
  by (simp add: exponent_text_def js_def)

lemma not_digit_e: "\<not> is_digit (of_char CHR ''e'')" and not_digit_dot: "\<not> is_digit (of_char CHR ''.'')"
  by (simp_all add: is_digit_def)

lemma parse_integer_exp:
  assumes "list_all (\<lambda>d. d < 10) ds" "ds \<noteq> []" "hd ds \<noteq> 0 \<or> length ds = 1"
  shows "parse_number ((if neg then js ''-'' else []) @ digits_text ds @ exponent_text e) =
      Some (shortest neg ds (int (length ds) + e))"
proof -
  have b: "body_ok (digits_text ds @ exponent_text e)"
    using assms by (cases ds) (simp_all add: body_ok_def digit_unit_simps)
  have t: "takeWhile is_digit (digits_text ds @ exponent_text e) = digits_text ds"
      "dropWhile is_digit (digits_text ds @ exponent_text e) = exponent_text e"
    using takeWhile_digits [OF assms(1), of "exponent_text e"] exponent_text_hd [of e] not_digit_e
    by (metis list.sel(1))+
  have c: "(case exponent_text e of c # r \<Rightarrow> if c = of_char CHR ''.'' then X r else Y | [] \<Rightarrow> Z) = Y"
    for X :: "jstr \<Rightarrow> jsnum option" and Y Z
    by (rule exponent_text_hd [of e]) simp
  show ?thesis
    unfolding parse_sign [OF b] parse_unsigned_def Let_def t c parse_exponent_text
    using assms by (cases ds) (auto simp: digits_text_props digit_unit_simps)
qed

lemma parse_fraction:
  assumes "list_all (\<lambda>d. d < 10) (ds @ fs)" "ds \<noteq> []" "fs \<noteq> []" "hd ds \<noteq> 0 \<or> length ds = 1"
    and tail: "(ex = [] \<and> e = 0) \<or> ex = exponent_text e"
  shows "parse_number ((if neg then js ''-'' else []) @ digits_text ds @ js ''.'' @ digits_text fs @ ex) =
      Some (shortest neg (ds @ fs) (int (length ds) + e))"
proof -
  have d: "list_all (\<lambda>d. d < 10) ds" "list_all (\<lambda>d. d < 10) fs"
    using assms(1) by simp_all
  have b: "body_ok (digits_text ds @ js ''.'' @ digits_text fs @ ex)"
    using assms d by (cases ds) (simp_all add: body_ok_def digit_unit_simps)
  have t: "takeWhile is_digit (digits_text ds @ js ''.'' @ digits_text fs @ ex) = digits_text ds"
      "dropWhile is_digit (digits_text ds @ js ''.'' @ digits_text fs @ ex)
         = of_char CHR ''.'' # digits_text fs @ ex"
    using takeWhile_digits [OF d(1), of "js ''.'' @ digits_text fs @ ex"]
    using not_digit_dot by (simp_all add: js_def)
  have "ex = [] \<or> \<not> is_digit (hd ex)"
    using tail exponent_text_hd [of e] not_digit_e by (metis list.sel(1))
  note u = takeWhile_digits [OF d(2) this]
  have x: "parse_exponent ex = Some e"
    using tail by (auto simp: parse_exponent_text parse_exponent_Nil)
  show ?thesis
    unfolding parse_sign [OF b] parse_unsigned_def Let_def t
    using assms d by (cases ds) (auto simp: digits_text_props digit_unit_simps u x)
qed

lemma number_text_zero: "js ''0'' = digits_text [0]"
  by (simp add: js_def digit_unit_def)

definition plain_zero :: "jsnum \<Rightarrow> jsnum" where
  "plain_zero x = (case x of Zero _ \<Rightarrow> Zero False | _ \<Rightarrow> x)"

lemma list_all_replicate: "P x \<Longrightarrow> list_all P (replicate n x)"
  by (induction n) simp_all

lemma list_all_drop_take: "list_all P xs \<Longrightarrow> list_all P (take n xs) \<and> list_all P (drop n xs)"
  by (auto simp: list_all_iff dest: in_set_takeD in_set_dropD)

lemma parse_number_text:
  assumes "wf_number x" "isFinite x"
  shows "parse_number (number_text x) = Some (plain_zero x)"
proof (cases x)
  case (Zero neg)
  have "parse_number ((if False then js ''-'' else []) @ digits_text [0]) = Some (shortest False [0] 1)"
    by (subst parse_integer) simp_all
  then show ?thesis
    by (simp add: Zero number_text_zero plain_zero_def) (simp add: shortest_def)
next
  case (Finite neg ds n)
  let ?s = "if neg then js ''-'' else []"
  from assms Finite have ds: "ds \<noteq> []" "hd ds \<noteq> 0" "last ds \<noteq> 0" and d: "list_all (\<lambda>d. d < 10) ds"
    by (simp_all add: wf_number_def)
  let ?k = "int (length ds)"
  have k: "1 \<le> ?k" using ds(1) by (cases ds) simp_all
  consider (int) "?k \<le> n" "n \<le> 21" | (frac) "0 < n" "n < ?k" "n \<le> 21" | (small) "-6 < n" "n \<le> 0"
    | (one) "n \<le> -6 \<or> 21 < n" "?k = 1" | (many) "n \<le> -6 \<or> 21 < n" "1 < ?k"
    using k by linarith
  then have "parse_number (?s @ magnitude_text ds n) = Some (Finite neg ds n)"
  proof cases
    case int
    then have "magnitude_text ds n = digits_text (ds @ replicate (nat (n - ?k)) 0)"
      by (simp add: magnitude_text_def Let_def)
    moreover have "parse_number (?s @ digits_text (ds @ replicate (nat (n - ?k)) 0)) =
        Some (shortest neg (ds @ replicate (nat (n - ?k)) 0) n)"
      using ds d int by (subst parse_integer) (simp_all add: list_all_replicate)
    ultimately show ?thesis using ds by (simp add: shortest_right)
  next
    case frac
    then have "magnitude_text ds n = digits_text (take (nat n) ds) @ js ''.'' @ digits_text (drop (nat n) ds) @ []"
      by (simp add: magnitude_text_def Let_def)
    moreover have "parse_number (?s @ digits_text (take (nat n) ds) @ js ''.'' @ digits_text (drop (nat n) ds) @ [])
        = Some (shortest neg (take (nat n) ds @ drop (nat n) ds) (int (length (take (nat n) ds)) + 0))"
      using ds d frac by (intro parse_fraction) (simp_all add: hd_take)
    ultimately show ?thesis using ds frac by (simp add: shortest_plain)
  next
    case small
    then have m: "magnitude_text ds n
        = digits_text [0] @ js ''.'' @ digits_text (replicate (nat (- n)) 0 @ ds) @ []"
      using k by (simp add: magnitude_text_def Let_def js_def digit_unit_def)
    have "parse_number (?s @ magnitude_text ds n)
        = Some (shortest neg ([0] @ replicate (nat (- n)) 0 @ ds) (int (length [0::nat]) + 0))"
      unfolding m using ds d small by (intro parse_fraction) (simp_all add: list_all_replicate)
    also have "[0] @ replicate (nat (- n)) 0 @ ds = replicate (Suc (nat (- n))) 0 @ ds" by simp
    finally show ?thesis using shortest_left [OF ds(1) _ _, of neg "Suc (nat (- n))" 1] ds small by simp
  next
    case one
    then have m: "magnitude_text ds n = digits_text ds @ exponent_text (n - 1)"
      using k by (auto simp: magnitude_text_def Let_def)
    show ?thesis
      unfolding m using ds d one by (subst parse_integer_exp) (simp_all add: shortest_plain)
  next
    case many
    then have m: "magnitude_text ds n = digits_text (take 1 ds) @ js ''.'' @ digits_text (drop 1 ds) @ exponent_text (n - 1)"
      using k by (auto simp: magnitude_text_def Let_def)
    have "parse_number (?s @ magnitude_text ds n)
        = Some (shortest neg (take 1 ds @ drop 1 ds) (int (length (take 1 ds)) + (n - 1)))"
      unfolding m using ds d many
      by (intro parse_fraction) (auto simp: list_all_drop_take)
    then show ?thesis using ds many by (simp add: shortest_plain)
  qed
  then show ?thesis by (simp add: Finite plain_zero_def)
qed (use assms in \<open>simp_all add: isFinite_def\<close>)


text \<open>Every character of a printed number is a number character, and the first one starts a number.\<close>

definition number_start :: "u16 \<Rightarrow> bool" where
  "number_start c \<longleftrightarrow> \<not> is_ws c \<and> \<not> is_punct c \<and> c \<noteq> 0x22"

lemma number_char_start: "is_number_char c \<Longrightarrow> number_start c"
  by (auto simp: is_number_char_def number_start_def is_digit_def is_ws_def is_punct_def js_def)

lemma exponent_chars: "list_all is_number_char (exponent_text e)"
  by (simp add: exponent_text_def js_def digits_text_props decimal_digits is_number_char_def)

lemma number_text_chars:
  assumes "wf_number x" "isFinite x"
  shows "list_all is_number_char (number_text x)" "number_text x \<noteq> []"
proof -
  have lit: "list_all is_number_char (js ''-'')" "list_all is_number_char (js ''.'')"
      "list_all is_number_char (js ''0'')" "list_all is_number_char (js ''0.'')"
    by (simp_all add: js_def is_number_char_def is_digit_def)
  have m: "list_all is_number_char (magnitude_text ds n)" "magnitude_text ds n \<noteq> []"
    if ds: "list_all (\<lambda>d. d < 10) ds" "ds \<noteq> []" for ds n
  proof -
    have parts: "list_all is_number_char (digits_text ds)"
        "list_all is_number_char (digits_text (replicate j 0))"
        "list_all is_number_char (digits_text (take j ds))" "list_all is_number_char (digits_text (drop j ds))" for j
      using ds by (intro digits_text_props; simp add: list_all_replicate list_all_drop_take)+
    show "list_all is_number_char (magnitude_text ds n)"
      unfolding magnitude_text_def Let_def
      by (simp only: if_split [of "list_all is_number_char"] list_all_append parts lit exponent_chars simp_thms)
    show "magnitude_text ds n \<noteq> []"
      unfolding magnitude_text_def Let_def using ds(2) by simp
  qed
  show "list_all is_number_char (number_text x)" "number_text x \<noteq> []"
    using assms m lit by (cases x; simp add: wf_number_def isFinite_def)+
qed

section \<open>String literals\<close>

lemma HEX_value: "n < 16 \<Longrightarrow> hex_value (HEX_LOWER ! n) = Some n"
proof -
  assume "n < 16"
  then have "n \<in> {0, 1, 2, 3, 4, 5, 6, 7, 8, 9, 10, 11, 12, 13, 14, 15}" by simp arith
  then show ?thesis
    by (elim insertE emptyE) (simp_all add: HEX_LOWER_def js_def hex_value_def is_digit_def)
qed

lemma control_hex:
  assumes "u < (0x20 :: u16)"
  shows "hex4 (of_char CHR ''0'') (of_char CHR ''0'') (HEX_LOWER ! unat (drop_bit 4 u AND 0xf))
    (HEX_LOWER ! unat (u AND 0xf)) = Some u"
proof -
  have n: "unat u < 32" using assms by (simp add: word_less_nat_alt)
  have m: "(x AND 0xf) = take_bit 4 x" for x :: u16
    by (simp add: take_bit_eq_mask mask_eq_exp_minus_1)
  have a: "unat (drop_bit 4 u AND 0xf) = unat u div 16"
    using n by (simp add: m unat_take_bit unat_drop_bit)
  have b: "unat (u AND 0xf) = unat u mod 16"
    by (simp add: m unat_take_bit)
  have z: "hex_value (of_char CHR ''0'') = Some 0"
    by (simp add: hex_value_def is_digit_def)
  have "unat u div 16 * 16 + unat u mod 16 = unat u" by simp
  then have "word_of_nat (unat u div 16 * 16 + unat u mod 16) = u" by (simp del: of_nat_add of_nat_mult)
  then show ?thesis
    unfolding hex4_def a b z using n by (simp add: HEX_value)
qed

lemma lex_string_quote_unit:
  "lex_string (quote_unit u @ cs) = map_option (apfst (Cons u)) (lex_string cs)"
proof -
  consider (esc) "u = 0x22 \<or> u = 0x5c \<or> u = 0x08 \<or> u = 0x0c \<or> u = 0x0a \<or> u = 0x0d \<or> u = 0x09"
    | (control) "u < 0x20" "u \<noteq> 0x08" "u \<noteq> 0x0c" "u \<noteq> 0x0a" "u \<noteq> 0x0d" "u \<noteq> 0x09"
    | (plain) "\<not> u < 0x20" "u \<noteq> 0x22" "u \<noteq> 0x5c"
    by blast
  then show ?thesis
  proof cases
    case esc
    then show ?thesis
      by (elim disjE) (simp_all add: quote_unit_def unescape_def js_def)
  next
    case control
    then have ne: "u \<noteq> 0x22" "u \<noteq> 0x5c" by auto
    have q: "quote_unit u = [0x5c, of_char CHR ''u'', of_char CHR ''0'', of_char CHR ''0'',
        HEX_LOWER ! unat (drop_bit 4 u AND 0xf), HEX_LOWER ! unat (u AND 0xf)]"
      using control ne by (simp add: quote_unit_def js_def)
    show ?thesis
      unfolding q using control_hex [OF control(1)] by simp
  next
    case plain
    then have "u \<noteq> 0x08" "u \<noteq> 0x0c" "u \<noteq> 0x0a" "u \<noteq> 0x0d" "u \<noteq> 0x09" by auto
    with plain show ?thesis by (simp add: quote_unit_def)
  qed
qed

lemma lex_string_quote: "lex_string (concat (map quote_unit s) @ 0x22 # rest) = Some (s, rest)"
  by (induction s) (simp_all add: lex_string_quote_unit del: lex_string.simps, simp)

section \<open>Tokens\<close>

text \<open>The text \<open>t\<close> reads as the tokens \<open>ts\<close>, whatever follows that could not extend a number.\<close>

definition lexes :: "(jsnum \<Rightarrow> jsnum) \<Rightarrow> jstr \<Rightarrow> token list \<Rightarrow> bool" where
  "lexes nearest t ts \<longleftrightarrow> (\<forall>rest. rest = [] \<or> \<not> is_number_char (hd rest) \<longrightarrow>
     lex nearest (t @ rest) = map_option (append ts) (lex nearest rest))"

lemma append_none: "append [] = id"
  by (simp add: fun_eq_iff)

lemma append_two: "append (ts @ ts') = (\<lambda>x. ts @ ts' @ x)" and append_Cons_eq: "append (c # ts) = (\<lambda>x. c # ts @ x)"
  by (simp_all add: fun_eq_iff)

lemma lexes_append:
  assumes "lexes n t ts" "lexes n t' ts'" "t' \<noteq> []" "\<not> is_number_char (hd t')"
  shows "lexes n (t @ t') (ts @ ts')"
  using assms by (auto simp: lexes_def append_two option.map_comp comp_def)

lemma lexes_punct_append:
  assumes "is_punct c" "lexes n t ts"
  shows "lexes n (c # t) (Punct c # ts)"
proof -
  have "\<not> is_ws c" using assms(1) by (auto simp: is_punct_def is_ws_def js_def)
  then have "lex n (c # cs) = map_option (Cons (Punct c)) (lex n cs)" for cs
    using assms(1) by (subst lex.simps) simp
  with assms show ?thesis by (auto simp: lexes_def append_Cons_eq option.map_comp comp_def)
qed

lemma lexes_Nil: "lexes n [] []"
  by (simp add: lexes_def append_none option.map_id0)

lemmas lexes_punct = lexes_punct_append [OF _ lexes_Nil]

lemma lexes_string: "lexes n (stringify_string s) [Atom (JString s)]"
proof -
  have "lex n (stringify_string s @ rest) = map_option (Cons (Atom (JString s))) (lex n rest)" for rest
    using lex_string_quote [of s rest]
    by (subst lex.simps) (simp add: stringify_string_def is_ws_def is_punct_def js_def)
  then show ?thesis by (simp add: lexes_def append_one)
qed

lemma lexes_word:
  assumes "t \<noteq> []" "\<not> is_ws (hd t)" "\<not> is_punct (hd t)" "hd t \<noteq> 0x22" "\<not> is_number_char (hd t)"
    "\<And>rest. lex_word (t @ rest) = Some (v, length t)"
  shows "lexes n t [Atom v]"
proof -
  have "lex n (t @ rest) = map_option (Cons (Atom v)) (lex n rest)" for rest
    using assms by (cases t) (simp, subst lex.simps, simp)
  then show ?thesis by (simp add: lexes_def append_one)
qed

lemma lexes_number:
  assumes "wf_number x" "isFinite x" "n (plain_zero x) = plain_zero x"
  shows "lexes n (number_text x) [Atom (JNumber (plain_zero x))]"
proof -
  obtain c t where t: "number_text x = c # t" and c: "is_number_char c" "number_start c"
    using number_text_chars [OF assms(1,2)] number_char_start by (cases "number_text x") auto
  have all: "list_all is_number_char (number_text x)" using number_text_chars [OF assms(1,2)] by simp
  have "lex n (number_text x @ rest) = map_option (Cons (Atom (JNumber (plain_zero x)))) (lex n rest)"
    if rest: "rest = [] \<or> \<not> is_number_char (hd rest)" for rest
  proof -
    have tk: "takeWhile is_number_char (number_text x @ rest) = number_text x"
        "dropWhile is_number_char (number_text x @ rest) = rest"
      using all rest by (simp_all add: takeWhile_append2 dropWhile_append2 list_all_iff)
        (cases rest; simp)+
    have l: "number_text x @ rest = c # (t @ rest)" by (simp add: t)
    have "lex n (number_text x @ rest) =
        (case parse_number (takeWhile is_number_char (number_text x @ rest)) of
           None \<Rightarrow> None
         | Some y \<Rightarrow> map_option (Cons (Atom (JNumber (n y))))
             (lex n (dropWhile is_number_char (number_text x @ rest))))"
      unfolding l using c by (subst lex.simps) (simp add: number_start_def)
    then show ?thesis
      unfolding tk parse_number_text [OF assms(1,2)] using assms(3) by simp
  qed
  then show ?thesis by (simp add: lexes_def append_one)
qed

lemma not_number_char_punct: "is_punct c \<Longrightarrow> \<not> is_number_char c"
  by (auto simp: is_punct_def is_number_char_def is_digit_def js_def)

lemma is_punct_chars:
  "is_punct 0x7b" "is_punct 0x7d" "is_punct 0x5b" "is_punct 0x5d" "is_punct 0x3a" "is_punct 0x2c"
  by (simp_all add: is_punct_def js_def)

lemma lexes_join:
  assumes "list_all2 (lexes n) texts tss" "texts \<noteq> []"
  shows "lexes n (join (js '','') texts) (join [punct '',''] tss)"
  using assms
proof (induction rule: list_all2_induct)
  case (Cons t texts ts tss)
  show ?case
  proof (cases "texts = []")
    case True
    with Cons show ?thesis by simp
  next
    case False
    then obtain u us v vs where eq: "texts = u # us" "tss = v # vs"
      using Cons.hyps by (cases texts; cases tss) auto
    have "lexes n (0x2c # join (js '','') texts) (Punct 0x2c # join [punct '',''] tss)"
      using Cons False by (intro lexes_punct_append is_punct_chars) simp
    from lexes_append [OF Cons.hyps(1) this] show ?thesis
      using not_number_char_punct [OF is_punct_chars(6)] by (simp add: eq js_def)
  qed
qed simp

section \<open>Values\<close>

text \<open>What a canonical text keeps of a value: sorted members, no \<open>undefined\<close> ones, one zero.\<close>

function sorted_form :: "jsval \<Rightarrow> jsval" where
  "sorted_form (JNumber x) = JNumber (plain_zero x)"
| "sorted_form (JArray vs) = JArray (map sorted_form vs)"
| "sorted_form (JObject ps) = JObject (map (\<lambda>(k, v). (k, sorted_form v)) (sorted_members ps))"
| "sorted_form JUndefined = JUndefined"
| "sorted_form JNull = JNull"
| "sorted_form (JBool b) = JBool b"
| "sorted_form (JString s) = JString s"
| "sorted_form (JOther t) = JOther t"
  by pat_completeness auto
termination
  by (relation "measure size") (auto simp: less_Suc_eq_le size_list_estimation' dest: size_sorted_members)

text \<open>
  A value as the language has it: distinct member names, numbers in shortest form, each of them
  a double (\<open>nearest\<close> leaves it alone).
\<close>

lemma size_member: "kv \<in> set ps \<Longrightarrow> size (snd kv) \<le> size_list (size_prod (\<lambda>_. 0) size) ps"
  by (induction ps) auto

function wf_json :: "(jsnum \<Rightarrow> jsnum) \<Rightarrow> jsval \<Rightarrow> bool" where
  "wf_json n (JNumber x) = (wf_number x \<and> n (plain_zero x) = plain_zero x)"
| "wf_json n (JArray vs) = (\<forall>v \<in> set vs. wf_json n v)"
| "wf_json n (JObject ps) = (distinct (map fst ps) \<and> (\<forall>kv \<in> set ps. wf_json n (snd kv)))"
| "wf_json n JUndefined = True"
| "wf_json n JNull = True"
| "wf_json n (JBool b) = True"
| "wf_json n (JString s) = True"
| "wf_json n (JOther t) = True"
  by pat_completeness auto
termination
  by (relation "measure (size \<circ> snd)") (auto simp: less_Suc_eq_le size_list_estimation' size_member)

definition parses :: "jsval \<Rightarrow> token list \<Rightarrow> bool" where
  "parses v ts \<longleftrightarrow> ts \<noteq> [] \<and> hd ts \<noteq> punct '']'' \<and>
     (\<forall>r f. 2 * length (ts @ r) \<le> f \<longrightarrow> parse_value f (ts @ r) = Some (v, r))"

lemma parses_atom: "parses v [Atom v]"
proof -
  have "parse_value f (Atom v # r) = Some (v, r)" if "2 * Suc (length r) \<le> f" for r f
    using that by (cases f) simp_all
  then show ?thesis by (simp add: parses_def)
qed

lemma parse_items_join:
  assumes "list_all2 parses vs tss" "vs \<noteq> []"
    "2 * length (join [punct '',''] tss @ punct '']'' # r) < f"
  shows "parse_items f (join [punct '',''] tss @ punct '']'' # r) = Some (vs, r)"
  using assms
proof (induction vs tss arbitrary: f rule: list_all2_induct)
  case (Cons v vs ts tss)
  then obtain g where f: "f = Suc g" by (cases f) simp_all
  show ?case
  proof (cases "vs = []")
    case True
    with Cons.hyps Cons.prems f show ?thesis
      by (auto simp: parses_def js_def)
  next
    case False
    then obtain u us w ws where eq: "vs = w # ws" "tss = u # us"
      using Cons.hyps by (cases vs; cases tss) auto
    let ?rest = "join [punct '',''] tss @ punct '']'' # r"
    have p: "parse_value g (ts @ punct '','' # ?rest) = Some (v, punct '','' # ?rest)"
      using Cons.hyps(1) Cons.prems f unfolding parses_def by (simp add: eq)
    have i: "parse_items g ?rest = Some (vs, r)"
      using Cons.IH [OF False, of g] Cons.prems f Cons.hyps(1) by (simp add: eq)
    have t: "join [punct '',''] (ts # tss) @ punct '']'' # r = ts @ punct '','' # ?rest"
      by (simp add: eq)
    show ?thesis
      unfolding t f by (simp add: p i del: parse_value.simps)
  qed
qed simp

lemma parse_members_join:
  assumes "list_all2 (\<lambda>(k, v) ts. \<exists>ts'. ts = Atom (JString k) # punct '':'' # ts' \<and> parses v ts') ms tss"
    "ms \<noteq> []" "2 * length (join [punct '',''] tss @ punct ''}'' # r) < f"
  shows "parse_members f (join [punct '',''] tss @ punct ''}'' # r) = Some (ms, r)"
  using assms
proof (induction ms tss arbitrary: f rule: list_all2_induct)
  case (Cons m ms ts tss)
  then obtain g where f: "f = Suc g" by (cases f) simp_all
  obtain k v ts' where m: "m = (k, v)" "ts = Atom (JString k) # punct '':'' # ts'" "parses v ts'"
    using Cons.hyps(1) by auto
  show ?case
  proof (cases "ms = []")
    case True
    with Cons.hyps Cons.prems f m show ?thesis
      by (auto simp: parses_def js_def)
  next
    case False
    then obtain u us w ws where eq: "ms = w # ws" "tss = u # us"
      using Cons.hyps by (cases ms; cases tss) auto
    let ?rest = "join [punct '',''] tss @ punct ''}'' # r"
    have p: "parse_value g (ts' @ punct '','' # ?rest) = Some (v, punct '','' # ?rest)"
      using m Cons.prems f unfolding parses_def by (simp add: eq)
    have i: "parse_members g ?rest = Some (ms, r)"
      using Cons.IH [OF False, of g] Cons.prems f by (simp add: eq m)
    have t: "join [punct '',''] (ts # tss) @ punct ''}'' # r
        = Atom (JString k) # punct '':'' # ts' @ punct '','' # ?rest"
      by (simp add: eq m)
    show ?thesis
      unfolding t f by (simp add: p i m del: parse_value.simps)
  qed
qed simp

lemma parses_array:
  assumes "list_all2 parses vs tss"
  shows "parses (JArray vs) (punct ''['' # join [punct '',''] tss @ [punct '']''])"
proof -
  have "parse_value f (punct ''['' # join [punct '',''] tss @ punct '']'' # r) = Some (JArray vs, r)"
    if f: "2 * length (punct ''['' # join [punct '',''] tss @ punct '']'' # r) \<le> f" for f r
  proof -
    obtain g where g: "f = Suc g" using f by (cases f) simp_all
    show ?thesis
    proof (cases "vs = []")
      case True
      with assms g show ?thesis by (simp add: js_def)
    next
      case False
      then obtain v vs' ts tss' where eq: "vs = v # vs'" "tss = ts # tss'" "parses v ts"
        using assms by (cases vs; cases tss) auto
      then obtain t ts' where ts: "ts = t # ts'" "t \<noteq> punct '']''"
        by (cases ts) (auto simp: parses_def)
      obtain q where q: "join [punct '',''] tss @ punct '']'' # r = t # q"
        by (cases tss') (simp_all add: eq ts)
      have i: "parse_items g (t # q) = Some (vs, r)"
        using parse_items_join [OF assms False, of r g] f g q by simp
      show ?thesis
        unfolding q g using ts(2) i by (simp add: js_def del: parse_items.simps)
    qed
  qed
  then show ?thesis by (simp add: parses_def js_def)
qed

lemma parses_object:
  assumes "list_all2 (\<lambda>(k, v) ts. \<exists>ts'. ts = Atom (JString k) # punct '':'' # ts' \<and> parses v ts') ms tss"
    "distinct (map fst ms)"
  shows "parses (JObject ms) (punct ''{'' # join [punct '',''] tss @ [punct ''}''])"
proof -
  have "parse_value f (punct ''{'' # join [punct '',''] tss @ punct ''}'' # r) = Some (JObject ms, r)"
    if f: "2 * length (punct ''{'' # join [punct '',''] tss @ punct ''}'' # r) \<le> f" for f r
  proof -
    obtain g where g: "f = Suc g" using f by (cases f) simp_all
    show ?thesis
    proof (cases "ms = []")
      case True
      with assms g show ?thesis by (simp add: js_def)
    next
      case False
      then obtain v vs' ts tss' where eq: "ms = v # vs'" "tss = ts # tss'"
        using assms by (cases ms; cases tss) auto
      with assms(1) obtain k ts' where ts: "ts = Atom (JString k) # ts'" by auto
      obtain q where q: "join [punct '',''] tss @ punct ''}'' # r = Atom (JString k) # q"
        by (cases tss') (simp_all add: eq ts)
      have i: "parse_members g (Atom (JString k) # q) = Some (ms, r)"
        using parse_members_join [OF assms(1) False, of r g] f g q by simp
      show ?thesis
        unfolding q g using i fold_AList_update_distinct [OF assms(2)]
        by (simp add: js_def del: parse_members.simps)
    qed
  qed
  then show ?thesis by (simp add: parses_def js_def)
qed

lemma mapE_Inr:
  "mapE f xs = Inr ys \<longleftrightarrow> list_all2 (\<lambda>x y. f x = Inr y) xs ys"
proof (induction xs arbitrary: ys)
  case (Cons x xs)
  show ?case
    by (cases "f x"; cases "mapE f xs")
      (auto simp: list_all2_Cons1 Cons.IH [symmetric])
qed auto

section \<open>The round trip\<close>

lemma lexes_enclosed:
  assumes "is_punct a" "is_punct b" "lexes n t ts"
  shows "lexes n (a # t @ [b]) (Punct a # ts @ [Punct b])"
  using lexes_append [OF assms(3) lexes_punct [OF assms(2)]] not_number_char_punct [OF assms(2)]
    lexes_punct_append [OF assms(1)] by simp

lemma lexes_join_any:
  "list_all2 (lexes n) texts tss \<Longrightarrow> lexes n (join (js '','') texts) (join [punct '',''] tss)"
  using lexes_join [of n texts tss] lexes_Nil by (cases texts) auto

lemma list_all2_exists:
  "list_all2 (\<lambda>x y. \<exists>z. P y z \<and> Q x z) xs ys \<Longrightarrow> \<exists>zs. list_all2 P ys zs \<and> list_all2 Q xs zs"
proof (induction rule: list_all2_induct)
  case (Cons x xs y ys)
  then obtain z zs where "P y z" "Q x z" "list_all2 P ys zs" "list_all2 Q xs zs" by blast
  then show ?case by (intro exI [of _ "z # zs"]) simp
qed simp

lemma distinct_sorted_members: "distinct (map fst ps) \<Longrightarrow> distinct (map fst (sorted_members ps))"
  by (simp add: sorted_members_def distinct_map_filter inj_on_def distinct_map)

theorem canonical_tokens:
  "canonicalJson v = Inr t \<Longrightarrow> wf_json n v \<Longrightarrow>
     \<exists>ts. lexes n t ts \<and> parses (sorted_form v) ts"
proof (induction v arbitrary: t rule: canonicalJson.induct)
  case 1
  have "lexes n (js ''null'') [Atom JNull]"
    by (rule lexes_word) (simp_all add: js_def is_ws_def is_punct_def is_number_char_def is_digit_def lex_word_def)
  with 1 show ?case using parses_atom by auto
next
  case (2 b)
  have "lexes n (js ''true'') [Atom (JBool True)]" "lexes n (js ''false'') [Atom (JBool False)]"
    by (rule lexes_word; simp add: js_def is_ws_def is_punct_def is_number_char_def is_digit_def lex_word_def)+
  with 2 show ?case using parses_atom by (cases b) auto
next
  case (3 x)
  then show ?case
    using lexes_number [of x n] parses_atom [of "JNumber (plain_zero x)"] by (auto split: if_splits)
next
  case (4 s)
  then show ?case
    using lexes_string [of n s] parses_atom [of "JString s"] by (auto split: sum.splits)
next
  case (5 items)
  from 5(2) obtain texts where m: "mapE (\<lambda>item. if item = JUndefined then Inl UndefinedInArray
        else canonicalJson item) items = Inr texts"
    and t: "t = js ''['' @ join (js '','') texts @ js '']''" by (auto split: sum.splits)
  have "list_all2 (\<lambda>v t. \<exists>ts. lexes n t ts \<and> parses (sorted_form v) ts) items texts"
    using m [unfolded mapE_Inr]
  proof (rule list.rel_mono_strong)
    fix v t
    assume v: "v \<in> set items" and e: "(if v = JUndefined then Inl UndefinedInArray else canonicalJson v) = Inr t"
    then have "v \<noteq> JUndefined" "canonicalJson v = Inr t" by (simp_all split: if_splits)
    moreover have "wf_json n v" using v 5(3) by simp
    ultimately show "\<exists>ts. lexes n t ts \<and> parses (sorted_form v) ts" using 5(1) [OF v] by simp
  qed
  from list_all2_exists [OF this] obtain tss where l: "list_all2 (lexes n) texts tss"
    and p: "list_all2 (\<lambda>v ts. parses (sorted_form v) ts) items tss" by auto
  have q: "list_all2 parses (map sorted_form items) tss" using p by (simp add: list_all2_map1)
  show ?case
    using parses_array [OF q] lexes_enclosed [OF is_punct_chars(3,4) lexes_join_any [OF l]]
    by (intro exI [of _ "punct ''['' # join [punct '',''] tss @ [punct '']'']"]) (simp add: t js_def)
next
  case (6 ps)
  let ?ms = "sorted_members ps"
  from 6(2) obtain texts where m: "mapE (\<lambda>(key, v). case assertWellFormed key of Inl e \<Rightarrow> Inl e
              | Inr _ \<Rightarrow> (case canonicalJson v of Inl e \<Rightarrow> Inl e
                  | Inr text \<Rightarrow> Inr (stringify_string key @ js '':'' @ text))) ?ms = Inr texts"
    and t: "t = js ''{'' @ join (js '','') texts @ js ''}''" by (auto split: sum.splits)
  let ?Q = "\<lambda>kv ts. \<exists>ts'. ts = Atom (JString (fst kv)) # punct '':'' # ts' \<and> parses (sorted_form (snd kv)) ts'"
  have one: "\<exists>ts. lexes n t ts \<and> ?Q kv ts"
    if kv: "kv \<in> set ?ms" and e: "(case kv of (key, v) \<Rightarrow> case assertWellFormed key of Inl e \<Rightarrow> Inl e
        | Inr _ \<Rightarrow> (case canonicalJson v of Inl e \<Rightarrow> Inl e
            | Inr text \<Rightarrow> Inr (stringify_string key @ js '':'' @ text))) = Inr t" for kv t
  proof -
    obtain k v where k: "kv = (k, v)" by (cases kv)
    from e k obtain u where c: "canonicalJson v = Inr u" and a: "assertWellFormed k = Inr ()"
      and t: "t = stringify_string k @ js '':'' @ u" by (auto split: sum.splits)
    have "wf_json n v" using kv k 6(3) by (auto simp: set_sorted_members)
    with 6(1) [OF kv k [symmetric] a c] obtain ts where ts: "lexes n u ts" "parses (sorted_form v) ts"
      by blast
    have "lexes n (stringify_string k @ 0x3a # u) ([Atom (JString k)] @ Punct 0x3a # ts)"
      using not_number_char_punct [OF is_punct_chars(5)]
      by (intro lexes_append lexes_string lexes_punct_append is_punct_chars ts) simp_all
    then show ?thesis using k t ts(2) by (auto simp: js_def)
  qed
  have "list_all2 (\<lambda>kv t. \<exists>ts. lexes n t ts \<and> ?Q kv ts) ?ms texts"
    using m [unfolded mapE_Inr] one by (rule list.rel_mono_strong)
  from list_all2_exists [OF this] obtain tss where l: "list_all2 (lexes n) texts tss"
    and p: "list_all2 ?Q ?ms tss" by auto
  have q: "list_all2 (\<lambda>(k, v) ts. \<exists>ts'. ts = Atom (JString k) # punct '':'' # ts' \<and> parses v ts')
      (map (\<lambda>(k, v). (k, sorted_form v)) ?ms) tss"
    unfolding list_all2_map1 using p by (rule list_all2_mono) (auto split: prod.split)
  have "distinct (map fst (map (\<lambda>(k, v). (k, sorted_form v)) ?ms))"
    using distinct_sorted_members [of ps] 6(3) by (simp add: comp_def split_def)
  from parses_object [OF q this] lexes_enclosed [OF is_punct_chars(1,2) lexes_join_any [OF l]]
  show ?case
    by (intro exI [of _ "punct ''{'' # join [punct '',''] tss @ [punct ''}'']"]) (simp add: t js_def)
qed (simp_all)

theorem parse_canonical:
  assumes "canonicalJson v = Inr t" "wf_json n v"
  shows "JSON_parse n t = Some (sorted_form v)"
proof -
  obtain ts where ts: "lexes n t ts" "parses (sorted_form v) ts"
    using canonical_tokens [OF assms] by blast
  have "lex n [] = Some []" by (subst lex.simps) simp
  then have "lex n t = Some ts"
    using ts(1) unfolding lexes_def by (metis append_Nil2 option.simps(9))
  moreover have "parse_value (2 * length ts) ts = Some (sorted_form v, [])"
    using ts(2) unfolding parses_def by (metis append_Nil2 order_refl)
  ultimately show ?thesis by (simp add: JSON_parse_def)
qed

end
