(* ===== verification/Utf8.thy ===== *)
theory Utf8
  imports Canonical_Json
begin

text \<open>
  The text encoding under the signatures: a fatal UTF-8 decoder reads back every well-formed
  string that does not start with a byte order mark. Bytes are computed as numbers:
  an \<open>OR\<close> of disjoint bits is a sum.
\<close>

lemma unat_or_disjoint:
  fixes x c :: "'a::len word"
  assumes "unat x < 2 ^ k" "2 ^ k dvd unat c"
  shows "unat (x OR c) = unat x + unat c"
proof -
  have b: "\<not> (bit (unat x) n \<and> bit (unat c) n)" for n
  proof (cases "n < k")
    case True
    obtain d where d: "unat c = 2 ^ k * d" using assms(2) by blast
    have "unat c = push_bit k d" by (simp add: d push_bit_eq_mult mult.commute)
    then have "\<not> bit (unat c) n" using True by (simp add: bit_push_bit_iff)
    then show ?thesis by simp
  next
    case False
    have "take_bit k (unat x) = unat x" using assms(1) by (simp add: take_bit_nat_eq_self)
    then have "\<not> bit (unat x) n" using False by (metis bit_take_bit_iff)
    then show ?thesis by simp
  qed
  have "unat x AND unat c = 0"
    by (rule bit_eqI) (use b in \<open>simp add: bit_and_iff\<close>)
  then have "unat x OR unat c = unat x + unat c"
    by (simp add: disjunctive_add_eq_or)
  then show ?thesis by (simp add: unsigned_or_eq)
qed

lemma unat_push_bit:
  fixes x :: "'a::len word"
  assumes "unat x * 2 ^ k < 2 ^ LENGTH('a)"
  shows "unat (push_bit k x) = unat x * 2 ^ k"
proof -
  have "push_bit k (unat x) = unat x * 2 ^ k" by (simp only: push_bit_eq_mult)
  moreover have "unat (push_bit k x) = take_bit LENGTH('a) (push_bit k (unat x))"
    by (simp only: unsigned_push_bit_eq)
  ultimately show ?thesis using assms by (simp only: take_bit_nat_eq_self)
qed

lemma unat_ucast_u8: "unat (ucast (w :: 'a::len word) :: u8) = unat w mod 256"
  using unat_take_bit [of 8 w] by (simp add: unsigned_ucast_eq take_bit_eq_mod)

lemma unat_and_mask:
  "unat (w AND 0x3f) = unat w mod 64" "unat (w AND 0x1f) = unat w mod 32"
  "unat (w AND 0x0f) = unat w mod 16" "unat (w AND 0x07) = unat w mod 8"
  "unat (w AND 0x3ff) = unat w mod 1024" for w :: "'a::len word"
proof -
  have "unat (w AND mask n) = unat w mod 2 ^ n" for n
    by (simp only: flip: take_bit_eq_mask) (simp only: unat_take_bit)
  from this [of 6] this [of 5] this [of 4] this [of 3] this [of 10]
  show "unat (w AND 0x3f) = unat w mod 64" "unat (w AND 0x1f) = unat w mod 32"
    "unat (w AND 0x0f) = unat w mod 16" "unat (w AND 0x07) = unat w mod 8"
    "unat (w AND 0x3ff) = unat w mod 1024"
    by (simp_all add: mask_eq_exp_minus_1)
qed

lemma cont_iff: "cont b \<longleftrightarrow> unat b div 64 = 2"
proof -
  have "b AND 0xc0 = push_bit 6 (drop_bit 6 b)"
  proof (rule bit_word_eqI)
    fix n
    assume "n < LENGTH(8)"
    then have "n \<in> {0, 1, 2, 3, 4, 5, 6, 7}" by simp arith
    then show "bit (b AND 0xc0) n = bit (push_bit 6 (drop_bit 6 b)) n"
      by (elim insertE emptyE) (simp_all add: bit_simps)
  qed
  moreover have "unat (push_bit 6 (drop_bit 6 b)) = unat b div 64 * 64"
    using unat_u8_less [of b] by (subst unat_push_bit) (simp_all add: unat_drop_bit del: push_bit_numeral)
  ultimately have "unat (b AND 0xc0) = unat b div 64 * 64" by simp
  then show ?thesis
    unfolding cont_def word_unat_eq_iff by simp
qed

section \<open>The bytes of a unit\<close>

lemma unat_or_const:
  "unat (x :: u8) < 64 \<Longrightarrow> unat (x OR 0x80) = unat x + 128"
  "unat x < 64 \<Longrightarrow> unat (x OR 0xc0) = unat x + 192"
  "unat x < 32 \<Longrightarrow> unat (x OR 0xe0) = unat x + 224"
  "unat x < 16 \<Longrightarrow> unat (x OR 0xf0) = unat x + 240"
  using unat_or_disjoint [of x 6 "0x80"] unat_or_disjoint [of x 6 "0xc0"]
    unat_or_disjoint [of x 5 "0xe0"] unat_or_disjoint [of x 4 "0xf0"]
  by simp_all

lemma unat_tail:
  fixes w :: "'a::len word"
  shows "unat (ucast (w AND 0x3f) OR 0x80 :: u8) = unat w mod 64 + 128"
  by (subst unat_or_const) (simp_all add: unat_ucast_u8 unat_and_mask)

lemma utf8_2_bytes:
  assumes "unat u < 2048"
  shows "map unat (utf8_2 u) = [192 + unat u div 64, 128 + unat u mod 64]"
proof -
  have "unat (drop_bit 6 u) = unat u div 64" by (simp add: unat_drop_bit)
  with assms show ?thesis
    by (simp add: utf8_2_def unat_tail unat_or_const unat_ucast_u8)
qed

lemma utf8_3_bytes:
  "map unat (utf8_3 u) = [224 + unat u div 4096, 128 + unat u div 64 mod 64, 128 + unat u mod 64]"
proof -
  have "unat u < 65536" using unsigned_less [of u] by simp
  moreover have "unat (drop_bit 6 u) = unat u div 64" "unat (drop_bit 12 u) = unat u div 4096"
    by (simp_all add: unat_drop_bit)
  ultimately show ?thesis
    by (simp add: utf8_3_def unat_tail unat_or_const unat_ucast_u8)
qed

lemma utf8_4_bytes:
  assumes "unat p < 1114112"
  shows "map unat (utf8_4 p) = [240 + unat p div 262144, 128 + unat p div 4096 mod 64,
    128 + unat p div 64 mod 64, 128 + unat p mod 64]"
proof -
  have "unat (drop_bit 6 p) = unat p div 64" "unat (drop_bit 12 p) = unat p div 4096"
    "unat (drop_bit 18 p) = unat p div 262144"
    by (simp_all add: unat_drop_bit)
  with assms show ?thesis
    by (simp add: utf8_4_def unat_tail unat_or_const unat_ucast_u8)
qed

section \<open>Reading the bytes back\<close>

lemma word_of_nat_unat_u32: "word_of_nat (unat (p :: u32)) = p"
  by simp

lemma unat_push_or:
  fixes x y :: u32
  assumes "unat y < 2 ^ k" "unat x * 2 ^ k < 2 ^ 32"
  shows "unat (push_bit k x OR y) = unat x * 2 ^ k + unat y"
proof -
  have p: "unat (push_bit k x) = unat x * 2 ^ k"
    using assms(2) by (intro unat_push_bit) simp
  have "unat (y OR push_bit k x) = unat y + unat (push_bit k x)"
    using assms(1) by (rule unat_or_disjoint) (simp only: p dvd_triv_right)
  with p show ?thesis by (simp add: or.commute)
qed

lemma unat_low6: "unat (low6 b) = unat b mod 64"
  by (simp add: low6_def unsigned_ucast_eq unat_and_mask take_bit_nat_eq_self)

lemma unat_ucast: "unat (ucast (w :: 'a::len word) :: 'b::len word) = unat w mod 2 ^ LENGTH('b)"
proof -
  have "unat (ucast w :: 'b word) = take_bit LENGTH('b) (unat w)" by (simp only: unsigned_ucast_eq)
  then show ?thesis by (simp only: take_bit_eq_mod)
qed

lemma units_of_small: "unat p = unat (u :: u16) \<Longrightarrow> units_of p = [u]"
proof -
  assume p: "unat p = unat u"
  have u: "unat u < 65536" using unsigned_less [of u] by simp
  then have "p < 0x10000" using p by (simp add: word_less_nat_alt)
  moreover have "ucast p = u"
    using p u by (simp add: word_unat_eq_iff unat_ucast)
  ultimately show ?thesis by (simp add: units_of_def)
qed

lemma mod_shift: "q < m \<Longrightarrow> (k * m + q) mod m = (q :: nat)"
  by simp

lemma div_shift: "q < m \<Longrightarrow> (k * m + q) div m = (k :: nat)"
  by simp

lemma tail_bits [simp]: "(128 + n mod 64) mod 64 = (n mod 64 :: nat)"
  using mod_shift [of "n mod 64" 64 2] by simp

lemma six_bits: "n div 64 mod 64 * 64 + n mod 64 < (4096 :: nat)"
  using mod_less_divisor [of 64 "n div 64"] mod_less_divisor [of 64 n] by linarith

lemma split_12: "n div 4096 * 4096 + (n div 64 mod 64 * 64 + n mod 64) = (n :: nat)"
proof -
  have "n div 4096 = n div 64 div 64" using div_mult2_eq [of n 64 64] by simp
  then show ?thesis
    using div_mult_mod_eq [of "n div 64" 64] div_mult_mod_eq [of n 64] by linarith
qed

lemma split_18: "n div 262144 * 262144 + (n div 4096 mod 64 * 4096 + (n div 64 mod 64 * 64 + n mod 64)) = (n :: nat)"
proof -
  have "n div 262144 = n div 4096 div 64" using div_mult2_eq [of n 4096 64] by simp
  then show ?thesis
    using div_mult_mod_eq [of "n div 4096" 64] split_12 [of n] by linarith
qed

lemma less_div: "n < k * m \<Longrightarrow> n div m < (k :: nat)"
  by (simp add: less_mult_imp_div_less)

text \<open>One sequence at a time, on bytes with the given values.\<close>

lemma utf8_units_2:
  assumes "map unat [a, b] = [192 + unat u div 64, 128 + unat (u :: u16) mod 64]"
    "128 \<le> unat u" "unat u < 2048"
  shows "utf8_units (a # b # bs) = map_option (Cons u) (utf8_units bs)"
proof -
  from assms have v: "unat a = 192 + unat u div 64" "unat b = 128 + unat u mod 64" by simp_all
  have "\<not> a < 0x80" "0xc2 \<le> a" "a \<le> 0xdf"
    using assms v by (simp_all add: word_less_nat_alt word_le_nat_alt)
  moreover have "cont b" using v by (simp add: cont_iff)
  moreover have "units_of (push_bit 6 (ucast (a AND 0x1f)) OR low6 b) = [u]"
  proof (rule units_of_small)
    have "(192 + unat u div 64) mod 32 = unat u div 64"
      using mod_shift [OF less_div [of "unat u" 32 64], of 6] assms(3) by simp
    then have "unat (ucast (a AND 0x1f) :: u32) = unat u div 64"
      using v by (simp add: unat_ucast unat_and_mask)
    then show "unat (push_bit 6 (ucast (a AND 0x1f)) OR low6 b) = unat u"
      using v assms by (subst unat_push_or) (simp_all add: unat_low6)
  qed
  ultimately show ?thesis by (simp add: append_one)
qed

lemma surrogate_nat:
  "high_surrogate u \<longleftrightarrow> 55296 \<le> unat u \<and> unat u \<le> 56319"
  "low_surrogate u \<longleftrightarrow> 56320 \<le> unat u \<and> unat u \<le> 57343"
  by (simp_all add: high_surrogate_def low_surrogate_def word_le_nat_alt)

lemma utf8_units_3:
  assumes "map unat [a, b, c] =
      [224 + unat u div 4096, 128 + unat u div 64 mod 64, 128 + unat (u :: u16) mod 64]"
    "2048 \<le> unat u" "\<not> high_surrogate u" "\<not> low_surrogate u"
  shows "utf8_units (a # b # c # bs) = map_option (Cons u) (utf8_units bs)"
proof -
  from assms have v: "unat a = 224 + unat u div 4096" "unat b = 128 + unat u div 64 mod 64"
    "unat c = 128 + unat u mod 64" by simp_all
  have n: "unat u < 65536" using unsigned_less [of u] by simp
  let ?p = "push_bit 12 (ucast (a AND 0x0f)) OR (push_bit 6 (low6 b) OR low6 c) :: u32"
  have p: "unat ?p = unat u"
  proof -
    have "(224 + unat u div 4096) mod 16 = unat u div 4096"
      using mod_shift [OF less_div [of "unat u" 16 4096], of 14] n by simp
    then have a: "unat (ucast (a AND 0x0f) :: u32) = unat u div 4096"
      using v by (simp add: unat_ucast unat_and_mask)
    have l: "unat (push_bit 6 (low6 b) OR low6 c) = unat u div 64 mod 64 * 64 + unat u mod 64"
      using v by (subst unat_push_or) (simp_all add: unat_low6)
    have "unat ?p = unat u div 4096 * 4096 + (unat u div 64 mod 64 * 64 + unat u mod 64)"
      using a l n six_bits [of "unat u"] by (subst unat_push_or) simp_all
    also have "\<dots> = unat u" by (rule split_12)
    finally show ?thesis .
  qed
  have "\<not> a < 0x80" "\<not> a \<le> 0xdf" "0xe0 \<le> a" "a \<le> 0xef"
    using v n by (simp_all add: word_less_nat_alt word_le_nat_alt)
  moreover have "cont b" "cont c" using v by (simp_all add: cont_iff)
  moreover have "0x800 \<le> ?p"
    using assms(2) by (simp add: word_le_nat_alt p)
  moreover have "\<not> (55296 \<le> unat u \<and> unat u \<le> 57343)"
    using assms(3,4) unfolding surrogate_nat by linarith
  then have "\<not> (0xd800 \<le> ?p \<and> ?p \<le> 0xdfff)"
    by (simp add: word_le_nat_alt p)
  ultimately show ?thesis
    using units_of_small [OF p] by (simp add: Let_def append_one)
qed

lemma utf8_units_4:
  assumes "map unat [a, b, c, d] = [240 + n div 262144, 128 + n div 4096 mod 64,
      128 + n div 64 mod 64, 128 + n mod 64]"
    "65536 \<le> n" "n \<le> 1114111"
  shows "utf8_units (a # b # c # d # bs) = map_option (append (units_of (word_of_nat n))) (utf8_units bs)"
proof -
  from assms have v: "unat a = 240 + n div 262144" "unat b = 128 + n div 4096 mod 64"
    "unat c = 128 + n div 64 mod 64" "unat d = 128 + n mod 64" by simp_all
  let ?p = "push_bit 18 (ucast (a AND 0x07))
      OR (push_bit 12 (low6 b) OR (push_bit 6 (low6 c) OR low6 d)) :: u32"
  have p: "unat ?p = n"
  proof -
    have "(240 + n div 262144) mod 8 = n div 262144"
      using mod_shift [OF less_div [of n 8 262144], of 30] assms(3) by simp
    then have a: "unat (ucast (a AND 0x07) :: u32) = n div 262144"
      using v less_div [of n 8 262144] assms(3) by (simp add: unat_ucast unat_and_mask)
    have l: "unat (push_bit 6 (low6 c) OR low6 d) = n div 64 mod 64 * 64 + n mod 64"
      using v by (subst unat_push_or) (simp_all add: unat_low6)
    have l2: "unat (push_bit 12 (low6 b) OR (push_bit 6 (low6 c) OR low6 d))
        = n div 4096 mod 64 * 4096 + (n div 64 mod 64 * 64 + n mod 64)"
    proof -
      have "n div 4096 mod 64 < 1048576"
        using mod_less_divisor [of 64 "n div 4096"] by linarith
      then show ?thesis
        using v l six_bits [of n] by (subst unat_push_or) (simp_all add: unat_low6)
    qed
    have "n div 4096 mod 64 * 4096 + (n div 64 mod 64 * 64 + n mod 64) < 262144"
      using six_bits [of n] mod_less_divisor [of 64 "n div 4096"] by linarith
    moreover have "n div 262144 * 262144 < 4294967296"
      using div_times_less_eq_dividend [of n 262144] assms(3) by linarith
    ultimately have "unat ?p = n div 262144 * 262144
        + (n div 4096 mod 64 * 4096 + (n div 64 mod 64 * 64 + n mod 64))"
      using a l2 by (subst unat_push_or) simp_all
    also have "\<dots> = n" by (rule split_18)
    finally show ?thesis .
  qed
  have "\<not> a < 0x80" "\<not> a \<le> 0xdf" "\<not> a \<le> 0xef" "0xf0 \<le> a" "a \<le> 0xf4"
    using v less_div [of n 5 262144] assms(3) by (simp_all add: word_less_nat_alt word_le_nat_alt)
  moreover have "cont b" "cont c" "cont d" using v by (simp_all add: cont_iff)
  moreover have "0x10000 \<le> ?p" "?p \<le> 0x10ffff"
    using assms by (simp_all add: word_le_nat_alt p)
  moreover have "?p = word_of_nat n" using p by (metis word_of_nat_unat_u32)
  ultimately show ?thesis by (simp add: Let_def)
qed

section \<open>The round trip\<close>

lemma code_point_units:
  assumes "high_surrogate hi" "low_surrogate lo"
  shows "65536 \<le> unat (code_point hi lo)" "unat (code_point hi lo) \<le> 1114111"
    "units_of (code_point hi lo) = [hi, lo]"
proof -
  from assms have h: "55296 \<le> unat hi" "unat hi \<le> 56319" and l: "56320 \<le> unat lo" "unat lo \<le> 57343"
    by (simp_all add: surrogate_nat)
  let ?h = "unat hi - 55296" and ?l = "unat lo - 56320"
  have dh: "unat (hi - 0xd800) = ?h" and dl: "unat (lo - 0xdc00) = ?l"
    using h l by (simp_all add: unat_sub_if')
  have uh: "unat (ucast (hi - 0xd800) :: u32) = ?h" and ul: "unat (ucast (lo - 0xdc00) :: u32) = ?l"
    using dh dl h l by (simp_all add: unat_ucast)
  have ph: "unat (push_bit 10 (ucast (hi - 0xd800)) :: u32) = ?h * 1024"
    using uh h by (subst unat_push_bit) simp_all
  have s: "unat (push_bit 10 (ucast (hi - 0xd800)) + ucast (lo - 0xdc00) :: u32) = ?h * 1024 + ?l"
    using ph ul h l by (subst unat_plus_if') simp
  have c: "unat (code_point hi lo) = 65536 + (?h * 1024 + ?l)"
    unfolding code_point_def using s h l by (subst unat_plus_if') simp
  show "65536 \<le> unat (code_point hi lo)" "unat (code_point hi lo) \<le> 1114111"
    using c h l by simp_all
  have d: "code_point hi lo - 0x10000 = push_bit 10 (ucast (hi - 0xd800)) + ucast (lo - 0xdc00)"
    by (simp add: code_point_def)
  have n: "\<not> code_point hi lo < 0x10000"
    using c by (simp add: word_less_nat_alt)
  have "?l < 1024" using l by linarith
  note q = div_shift [OF this, of ?h] mod_shift [OF this, of ?h]
  have "ucast (drop_bit 10 (code_point hi lo - 0x10000)) = hi - 0xd800"
    unfolding d word_unat_eq_iff using s q(1) dh h by (simp add: unat_ucast unat_drop_bit)
  moreover have "ucast ((code_point hi lo - 0x10000) AND 0x3ff) = lo - 0xdc00"
    unfolding d word_unat_eq_iff using s q(2) dl l by (simp add: unat_ucast unat_and_mask)
  ultimately show "units_of (code_point hi lo) = [hi, lo]"
    using n by (simp add: units_of_def)
qed

lemma map_unat_2: "map unat xs = [p, q] \<Longrightarrow> \<exists>a b. xs = [a, b]" by auto
lemma map_unat_3: "map unat xs = [p, q, r] \<Longrightarrow> \<exists>a b c. xs = [a, b, c]" by auto
lemma map_unat_4: "map unat xs = [p, q, r, s] \<Longrightarrow> \<exists>a b c d. xs = [a, b, c, d]" by auto

lemma utf8_units_unit:
  assumes "\<not> high_surrogate u" "\<not> low_surrogate u"
  shows "utf8_units (utf8_unit u @ bs) = map_option (Cons u) (utf8_units bs)"
proof -
  consider (1) "u < 0x80" | (2) "\<not> u < 0x80" "u < 0x800" | (3) "\<not> u < 0x80" "\<not> u < 0x800" by blast
  then show ?thesis
  proof cases
    case 1
    then have n: "unat u < 128" by (simp add: word_less_nat_alt)
    then have "(ucast u :: u8) < 0x80" "ucast (ucast u :: u8) = u"
      by (simp_all add: word_less_nat_alt unat_ucast word_unat_eq_iff)
    with 1 show ?thesis by (simp add: utf8_unit_def)
  next
    case 2
    then have n: "128 \<le> unat u" "unat u < 2048" by (simp_all add: word_less_nat_alt)
    obtain a b where ab: "utf8_2 u = [a, b]"
      using map_unat_2 [OF utf8_2_bytes [OF n(2)]] by blast
    have "utf8_units (a # b # bs) = map_option (Cons u) (utf8_units bs)"
      by (rule utf8_units_2 [OF utf8_2_bytes [OF n(2), unfolded ab] n])
    with 2 ab show ?thesis by (simp add: utf8_unit_def del: utf8_units.simps)
  next
    case 3
    then have n: "2048 \<le> unat u" by (simp add: word_less_nat_alt)
    obtain a b c where abc: "utf8_3 u = [a, b, c]"
      using map_unat_3 [OF utf8_3_bytes] by blast
    have "utf8_units (a # b # c # bs) = map_option (Cons u) (utf8_units bs)"
      by (rule utf8_units_3 [OF utf8_3_bytes [of u, unfolded abc] n assms])
    with 3 abc assms show ?thesis by (simp add: utf8_unit_def del: utf8_units.simps)
  qed
qed

lemma utf8_units_pair:
  assumes "high_surrogate hi" "low_surrogate lo"
  shows "utf8_units (utf8_4 (code_point hi lo) @ bs) = map_option (append [hi, lo]) (utf8_units bs)"
proof -
  note cp = code_point_units [OF assms]
  have lt: "unat (code_point hi lo) < 1114112" using cp(2) by simp
  obtain a b c d where abcd: "utf8_4 (code_point hi lo) = [a, b, c, d]"
    using map_unat_4 [OF utf8_4_bytes [OF lt]] by blast
  have "utf8_units (a # b # c # d # bs) = map_option (append (units_of (word_of_nat (unat (code_point hi lo))))) (utf8_units bs)"
    by (rule utf8_units_4 [OF utf8_4_bytes [OF lt, unfolded abcd] cp(1,2)])
  with abcd cp(3) show ?thesis by (simp del: utf8_units.simps)
qed

lemma utf8_units_encode: "wellFormed s \<Longrightarrow> utf8_units (utf8_encode s) = Some s"
proof (induction s rule: wellFormed.induct)
  case (2 unit rest)
  show ?case
  proof (cases "high_surrogate unit")
    case True
    with 2 obtain lo rest' where r: "rest = lo # rest'" "low_surrogate lo" "wellFormed rest'"
      by (auto split: list.splits if_splits)
    with 2 True have IH: "utf8_units (utf8_encode rest') = Some rest'" by simp
    show ?thesis
      using True r by (simp add: utf8_units_pair IH del: utf8_units.simps)
  next
    case False
    with 2 have "\<not> low_surrogate unit" "wellFormed rest" "utf8_units (utf8_encode rest) = Some rest"
      by (simp_all split: if_splits)
    with False show ?thesis by (simp add: utf8_units_unit del: utf8_units.simps)
  qed
qed simp

theorem utf8_decode_encode:
  assumes "wellFormed s" "s = [] \<or> hd s \<noteq> 0xfeff"
  shows "utf8_decode (utf8_encode s) = Some s"
proof -
  have "take 3 (utf8_encode s) \<noteq> [0xef, 0xbb, 0xbf]"
  proof
    assume "take 3 (utf8_encode s) = [0xef, 0xbb, 0xbf]"
    then obtain bs where bs: "utf8_encode s = 0xef # 0xbb # 0xbf # bs"
      by (metis append_Cons append_Nil append_take_drop_id)
    have "utf8_units (0xef # 0xbb # 0xbf # bs) = map_option (Cons 0xfeff) (utf8_units bs)"
      by (rule utf8_units_3) (simp_all add: surrogate_nat)
    with utf8_units_encode [OF assms(1)] bs assms(2) show False
      by (auto simp del: utf8_units.simps)
  qed
  then show ?thesis
    using utf8_units_encode [OF assms(1)] by (simp add: utf8_decode_def)
qed

end
