(* ===== verification/Statement_Text.thy ===== *)
theory Statement_Text
  imports Signing Json_Roundtrip Utf8
begin

text \<open>
  The text layers of a signed statement taken together: a canonical text is well-formed UTF-16,
  its bytes decode to it, and \<open>parseSignedStatement\<close> of \<open>statementBytes\<close> gives back the
  statement with its payload in sorted form, which signs, verifies and reads the same.
\<close>

section \<open>Canonical text is well-formed\<close>

lemma wellFormed_append: "wellFormed s \<Longrightarrow> wellFormed t \<Longrightarrow> wellFormed (s @ t)"
  by (induction s rule: wellFormed.induct) (auto split: list.splits if_splits)

definition plain_unit :: "u16 \<Rightarrow> bool" where
  "plain_unit u \<longleftrightarrow> u < 0x80"

lemma plain_not_surrogate: "plain_unit u \<Longrightarrow> \<not> high_surrogate u \<and> \<not> low_surrogate u \<and> u \<noteq> 0xfeff"
  by (auto simp: plain_unit_def high_surrogate_def low_surrogate_def word_less_nat_alt word_le_nat_alt)

lemma wellFormed_plain: "list_all plain_unit s \<Longrightarrow> wellFormed s"
  by (induction s) (simp_all add: plain_not_surrogate)

lemma number_char_plain: "is_number_char c \<Longrightarrow> plain_unit c"
  by (auto simp: is_number_char_def is_digit_def plain_unit_def js_def word_less_nat_alt word_le_nat_alt)

lemma wellFormed_number: "wf_number x \<Longrightarrow> isFinite x \<Longrightarrow> wellFormed (number_text x)"
  using number_text_chars [of x] number_char_plain
  by (intro wellFormed_plain) (auto simp: list_all_iff)

lemma HEX_plain: "n < 16 \<Longrightarrow> plain_unit (HEX_LOWER ! n)"
proof -
  assume "n < 16"
  then have "HEX_LOWER ! n \<in> set HEX_LOWER" by (simp add: HEX_LOWER_def)
  then show ?thesis by (auto simp: HEX_LOWER_def js_def plain_unit_def)
qed

lemma quote_unit_plain: "\<not> high_surrogate u \<Longrightarrow> \<not> low_surrogate u \<Longrightarrow> wellFormed (quote_unit u)"
proof -
  have "unat (u AND 0xf) < 16" "unat (drop_bit 4 u AND 0xf) < 16" 
    using unat_and_mask(3) [of u] unat_and_mask(3) [of "drop_bit 4 u"] by simp_all
  then have "wellFormed (js (CHR 0x5c # ''u00'') @ [HEX_LOWER ! unat (drop_bit 4 u AND 0xf), HEX_LOWER ! unat (u AND 0xf)])"
    using HEX_plain [unfolded plain_unit_def]
    by (intro wellFormed_plain) (simp add: js_def plain_unit_def)
  moreover have "wellFormed [0x5c, 0x22]" "wellFormed [0x5c, 0x5c]" "wellFormed (js (CHR 0x5c # ''b''))"
    "wellFormed (js (CHR 0x5c # ''f''))" "wellFormed (js (CHR 0x5c # ''n''))"
    "wellFormed (js (CHR 0x5c # ''r''))" "wellFormed (js (CHR 0x5c # ''t''))"
    by (intro wellFormed_plain; simp add: js_def plain_unit_def)+
  moreover assume "\<not> high_surrogate u" "\<not> low_surrogate u"
  then have "wellFormed [u]" by simp
  ultimately show ?thesis
    by (simp only: quote_unit_def if_split [of wellFormed] simp_thms)
qed

lemma quote_unit_surrogate: "high_surrogate u \<or> low_surrogate u \<Longrightarrow> quote_unit u = [u]"
  by (auto simp: quote_unit_def high_surrogate_def low_surrogate_def word_less_nat_alt word_le_nat_alt)

lemma wellFormed_quote: "wellFormed s \<Longrightarrow> wellFormed (concat (map quote_unit s))"
proof (induction s rule: wellFormed.induct)
  case (2 u rest)
  show ?case
  proof (cases "high_surrogate u")
    case True
    with 2 obtain lo rest' where "rest = lo # rest'" "low_surrogate lo" "wellFormed rest'"
      by (auto split: list.splits if_splits)
    with 2 True show ?thesis by (simp add: quote_unit_surrogate)
  next
    case False
    with 2 show ?thesis
      by (auto intro!: wellFormed_append quote_unit_plain split: if_splits)
  qed
qed simp

lemma wellFormed_string: "wellFormed s \<Longrightarrow> wellFormed (stringify_string s)"
  using wellFormed_append [OF wellFormed_quote wellFormed_plain, of s "[0x22]"]
  by (simp add: stringify_string_def plain_unit_def high_surrogate_def low_surrogate_def)

lemma wellFormed_join: "wellFormed sep \<Longrightarrow> list_all wellFormed ts \<Longrightarrow> wellFormed (join sep ts)"
  by (induction sep ts rule: join.induct) (simp_all add: wellFormed_append)

lemma assertWellFormed_Inr: "assertWellFormed s = Inr u \<Longrightarrow> wellFormed s"
  by (simp add: assertWellFormed_def split: if_splits)

lemma wellFormed_js: "list_all (\<lambda>c. plain_unit (of_char c)) s \<Longrightarrow> wellFormed (js s)"
  by (intro wellFormed_plain) (simp add: js_def list.pred_map comp_def)

lemma canonical_wellFormed: "canonicalJson v = Inr t \<Longrightarrow> wf_json n v \<Longrightarrow> wellFormed t"
proof (induction v arbitrary: t rule: canonicalJson.induct)
  case (3 x)
  then show ?case by (auto simp: wellFormed_number split: if_splits)
next
  case (4 s)
  then show ?case by (auto dest: assertWellFormed_Inr intro: wellFormed_string split: sum.splits)
next
  case (5 items)
  from 5(2) obtain texts where m: "mapE (\<lambda>item. if item = JUndefined then Inl UndefinedInArray
        else canonicalJson item) items = Inr texts"
    and t: "t = js ''['' @ join (js '','') texts @ js '']''" by (auto split: sum.splits)
  have "list_all2 (\<lambda>v t. wellFormed t) items texts"
    using m [unfolded mapE_Inr]
  proof (rule list.rel_mono_strong)
    fix v t
    assume v: "v \<in> set items" and e: "(if v = JUndefined then Inl UndefinedInArray else canonicalJson v) = Inr t"
    then have "v \<noteq> JUndefined" "canonicalJson v = Inr t" by (simp_all split: if_splits)
    moreover have "wf_json n v" using v 5(3) by simp
    ultimately show "wellFormed t" using 5(1) [OF v] by simp
  qed
  then have "list_all wellFormed texts" by (auto simp: list_all2_conv_all_nth list_all_length)
  then show ?case
    unfolding t by (intro wellFormed_append wellFormed_join wellFormed_js) (simp_all add: plain_unit_def)
next
  case (6 ps)
  from 6(2) obtain texts where m: "mapE (\<lambda>(key, v). case assertWellFormed key of Inl e \<Rightarrow> Inl e
              | Inr _ \<Rightarrow> (case canonicalJson v of Inl e \<Rightarrow> Inl e
                  | Inr text \<Rightarrow> Inr (stringify_string key @ js '':'' @ text))) (sorted_members ps) = Inr texts"
    and t: "t = js ''{'' @ join (js '','') texts @ js ''}''" by (auto split: sum.splits)
  have "list_all2 (\<lambda>v t. wellFormed t) (sorted_members ps) texts"
    using m [unfolded mapE_Inr]
  proof (rule list.rel_mono_strong)
    fix kv t
    assume kv: "kv \<in> set (sorted_members ps)" and e: "(case kv of (key, v) \<Rightarrow> case assertWellFormed key of Inl e \<Rightarrow> Inl e
        | Inr _ \<Rightarrow> (case canonicalJson v of Inl e \<Rightarrow> Inl e
            | Inr text \<Rightarrow> Inr (stringify_string key @ js '':'' @ text))) = Inr t"
    obtain k v where k: "kv = (k, v)" by (cases kv)
    from e k obtain u where c: "canonicalJson v = Inr u" and a: "assertWellFormed k = Inr ()"
      and t: "t = stringify_string k @ js '':'' @ u" by (auto split: sum.splits)
    have "wf_json n v" using kv k 6(3) by (auto simp: set_sorted_members)
    with 6(1) [OF kv k [symmetric] a c] have "wellFormed u" .
    then show "wellFormed t"
      unfolding t using assertWellFormed_Inr [OF a]
      by (intro wellFormed_append wellFormed_string wellFormed_js) (simp_all add: plain_unit_def)
  qed
  then have "list_all wellFormed texts" by (auto simp: list_all2_conv_all_nth list_all_length)
  then show ?case
    unfolding t by (intro wellFormed_append wellFormed_join wellFormed_js) (simp_all add: plain_unit_def)
qed (auto intro!: wellFormed_js simp: plain_unit_def split: if_splits)

section \<open>Sorted form\<close>

lemma sorted_form_undefined [simp]: "sorted_form v = JUndefined \<longleftrightarrow> v = JUndefined"
  by (cases v) simp_all

lemma number_text_plain_zero: "number_text (plain_zero x) = number_text x" "isFinite (plain_zero x) = isFinite x"
  by (cases x; simp add: plain_zero_def isFinite_def)+

lemma sorted_members_form:
  "sorted_members (map (\<lambda>(k, v). (k, sorted_form v)) (sorted_members ps))
     = map (\<lambda>(k, v). (k, sorted_form v)) (sorted_members ps)"
proof -
  have "filter (\<lambda>(k, v). v \<noteq> JUndefined) (map (\<lambda>(k, v). (k, sorted_form v)) (sorted_members ps))
      = map (\<lambda>(k, v). (k, sorted_form v)) (sorted_members ps)"
    by (intro filter_True) (auto simp: set_sorted_members)
  moreover have "sorted (map fst (map (\<lambda>(k, v). (k, sorted_form v)) (sorted_members ps)))"
    by (simp add: comp_def split_def) (simp add: sorted_members_def)
  ultimately show ?thesis
    by (metis sorted_members_def sort_key_id_if_sorted)
qed

lemma mapE_map: "mapE f (map g xs) = mapE (f \<circ> g) xs"
  by (induction xs) (simp_all split: sum.split)

theorem canonical_sorted_form: "canonicalJson (sorted_form v) = canonicalJson v"
proof (induction v rule: canonicalJson.induct)
  case (3 x)
  then show ?case by (simp add: number_text_plain_zero)
next
  case (5 items)
  have "mapE (\<lambda>item. if item = JUndefined then Inl UndefinedInArray else canonicalJson item)
      (map sorted_form items)
      = mapE (\<lambda>item. if item = JUndefined then Inl UndefinedInArray else canonicalJson item) items"
    unfolding mapE_map
  proof (rule mapE_cong [OF refl])
    fix v
    assume "v \<in> set items"
    then show "((\<lambda>item. if item = JUndefined then Inl UndefinedInArray else canonicalJson item) \<circ> sorted_form) v
        = (if v = JUndefined then Inl UndefinedInArray else canonicalJson v)"
      using 5 [of v] by (cases "v = JUndefined") simp_all
  qed
  then show ?case by simp
next
  case (6 ps)
  let ?f = "\<lambda>(key, v). case assertWellFormed key of Inl e \<Rightarrow> Inl e
      | Inr _ \<Rightarrow> (case canonicalJson v of Inl e \<Rightarrow> Inl e
          | Inr text \<Rightarrow> Inr (stringify_string key @ js '':'' @ text))"
  have "mapE ?f (sorted_members (map (\<lambda>(k, v). (k, sorted_form v)) (sorted_members ps)))
      = mapE ?f (sorted_members ps)"
    unfolding sorted_members_form mapE_map
  proof (rule mapE_cong [OF refl])
    fix kv
    assume kv: "kv \<in> set (sorted_members ps)"
    obtain k v where k: "kv = (k, v)" by (cases kv)
    show "(?f \<circ> (\<lambda>(k, v). (k, sorted_form v))) kv = ?f kv"
      using 6 [OF kv k [symmetric]]
      by (cases "assertWellFormed k") (auto simp: k)
  qed
  then show ?case by simp
qed simp_all

lemma option_eqI: "(\<And>v. a = Some v \<longleftrightarrow> b = Some v) \<Longrightarrow> a = b"
  by (metis not_Some_eq)

lemma map_of_sorted_members:
  assumes "distinct (map fst ps)"
  shows "map_of (sorted_members ps) k = (case map_of ps k of Some v \<Rightarrow> if v = JUndefined then None else Some v | None \<Rightarrow> None)"
proof -
  have "map_of (sorted_members ps) k = Some v \<longleftrightarrow> map_of ps k = Some v \<and> v \<noteq> JUndefined" for v
    unfolding map_of_eq_Some_iff [OF distinct_sorted_members [OF assms]]
      map_of_eq_Some_iff [OF assms] set_sorted_members by simp
  moreover have "(case map_of ps k of Some v \<Rightarrow> if v = JUndefined then None else Some v | None \<Rightarrow> None) = Some v
      \<longleftrightarrow> map_of ps k = Some v \<and> v \<noteq> JUndefined" for v
    by (auto split: option.split)
  ultimately show ?thesis by (intro option_eqI) simp
qed

lemma getprop_sorted_form:
  assumes "wf_json n v"
  shows "getprop (sorted_form v) k = sorted_form (getprop v k)"
proof (cases v)
  case (JObject ps)
  have "map_of (map (\<lambda>(k, v). (k, sorted_form v)) qs) k = map_option sorted_form (map_of qs k)" for qs
    by (induction qs) auto
  with JObject assms show ?thesis
    by (auto simp: map_of_sorted_members split: option.split)
qed simp_all

lemma wf_getprop: "wf_json n v \<Longrightarrow> wf_json n (getprop v k)"
  by (cases v) (auto split: option.split dest: map_of_SomeD)

lemma is_object_sorted_form [simp]: "is_object (sorted_form v) = is_object v"
  by (cases v) simp_all

lemma sorted_form_string [simp]: "sorted_form v = JString s \<longleftrightarrow> v = JString s"
  by (cases v) simp_all

lemma string_sorted_form [simp]: "JString s = sorted_form v \<longleftrightarrow> JString s = v"
  by (cases v) simp_all

lemma as_string_sorted_form [simp]: "as_string (sorted_form v) = as_string v"
  by (cases v) simp_all

section \<open>Statements\<close>

lemma signed_value_canonical:
  assumes "canonicalJson (payload s) = Inr t"
  shows "canonicalJson (signed_value s) =
    (case assertWellFormed (signature s) of Inl e \<Rightarrow> Inl e
     | Inr _ \<Rightarrow> Inr (js ''{'' @ (stringify_string (js ''payload'') @ js '':'' @ t) @ js '','' @
         (stringify_string (js ''signature'') @ js '':'' @ stringify_string (signature s)) @ js ''}''))"
proof -
  have ne: "payload s \<noteq> JUndefined" using assms by auto
  have lt: "js ''payload'' \<le> js ''signature''" by (simp add: js_def)
  have "sorted_members [(js ''payload'', payload s), (js ''signature'', JString (signature s))]
      = [(js ''payload'', payload s), (js ''signature'', JString (signature s))]"
    using ne lt by (simp add: sorted_members_def)
  moreover have "assertWellFormed (js ''payload'') = Inr ()" "assertWellFormed (js ''signature'') = Inr ()"
    by (simp_all add: assertWellFormed_def wellFormed_js plain_unit_def)
  ultimately show ?thesis
    using assms by (simp add: signed_value_def split: sum.split)
qed

definition sorted_signed :: "signed \<Rightarrow> signed" where
  "sorted_signed s = s\<lparr>payload := sorted_form (payload s)\<rparr>"

theorem parse_statement_bytes:
  assumes "statementBytes s = Inr bytes" "wf_json (nearest p) (payload s)" "payload s \<noteq> JUndefined"
  shows "parseSignedStatement p bytes = Some (sorted_signed s)"
proof -
  let ?v = "signed_value s"
  from assms(1) obtain t where t: "canonicalJson ?v = Inr t" "bytes = utf8_encode t"
    by (cases "canonicalJson ?v") (auto simp: statementBytes_def)
  have wf: "wf_json (nearest p) ?v"
    using assms(2) by (auto simp: signed_value_def)
  have lt: "js ''payload'' \<le> js ''signature''" by (simp add: js_def)
  have sf: "sorted_form ?v = JObject [(js ''payload'', sorted_form (payload s)), (js ''signature'', JString (signature s))]"
    using assms(3) lt by (simp add: signed_value_def sorted_members_def)
  obtain x where x: "t = js ''{'' @ x"
    using t(1) by (auto simp: signed_value_def split: sum.splits)
  have "utf8_decode bytes = Some t"
    unfolding t(2) using canonical_wellFormed [OF t(1) wf]
    by (intro utf8_decode_encode) (auto simp: x js_def)
  then show ?thesis
    using parse_canonical [OF t(1) wf] assms(3)
    by (simp add: parseSignedStatement_def sf sorted_signed_def)
qed

lemma sorted_signed_bytes: "statementBytes (sorted_signed s) = statementBytes s"
proof -
  have lt: "js ''payload'' \<le> js ''signature''" by (simp add: js_def)
  have "signed_value (sorted_signed s) = (if payload s = JUndefined
     then signed_value s else sorted_form (signed_value s))"
    using lt by (cases "payload s = JUndefined") (simp_all add: signed_value_def sorted_signed_def sorted_members_def)
  then show ?thesis
    by (simp add: statementBytes_def canonical_sorted_form)
qed

lemma sorted_signed_verifies: "verifyStatement p (sorted_signed s) k = verifyStatement p s k"
  using verifyStatement_canonical [of "sorted_form (payload s)" s p k]
  by (simp add: sorted_signed_def canonical_sorted_form)

section \<open>Which values have a canonical text\<close>

text \<open>Finite numbers, well-formed strings and names, no \<open>undefined\<close> in an array, plain data only.\<close>

function serializable :: "jsval \<Rightarrow> bool" where
  "serializable (JNumber x) = isFinite x"
| "serializable (JString s) = wellFormed s"
| "serializable (JArray vs) = (\<forall>v \<in> set vs. v \<noteq> JUndefined \<and> serializable v)"
| "serializable (JObject ps) =
     (\<forall>kv \<in> set ps. snd kv \<noteq> JUndefined \<longrightarrow> wellFormed (fst kv) \<and> serializable (snd kv))"
| "serializable JNull = True"
| "serializable (JBool b) = True"
| "serializable JUndefined = False"
| "serializable (JOther t) = False"
  by pat_completeness auto
termination
  by (relation "measure size") (auto simp: less_Suc_eq_le size_list_estimation' size_member)

lemma mapE_total: "(\<exists>ys. mapE f xs = Inr ys) \<longleftrightarrow> (\<forall>x \<in> set xs. \<exists>y. f x = Inr y)"
  by (induction xs) (auto split: sum.splits)

lemma assertWellFormed_total: "assertWellFormed s = Inr () \<longleftrightarrow> wellFormed s"
  by (simp add: assertWellFormed_def)

theorem canonical_total: "(\<exists>t. canonicalJson v = Inr t) \<longleftrightarrow> serializable v"
proof (induction v rule: canonicalJson.induct)
  case (4 s)
  then show ?case by (simp add: assertWellFormed_def)
next
  case (5 items)
  let ?f = "\<lambda>item. if item = JUndefined then Inl UndefinedInArray else canonicalJson item"
  have "(\<exists>t. canonicalJson (JArray items) = Inr t) \<longleftrightarrow> (\<exists>ts. mapE ?f items = Inr ts)"
    by (auto split: sum.split)
  also have "\<dots> \<longleftrightarrow> (\<forall>v \<in> set items. v \<noteq> JUndefined \<and> serializable v)"
    unfolding mapE_total using 5 by (intro ball_cong) auto
  finally show ?case by simp
next
  case (6 ps)
  let ?f = "\<lambda>(key, v). case assertWellFormed key of Inl e \<Rightarrow> Inl e
      | Inr _ \<Rightarrow> (case canonicalJson v of Inl e \<Rightarrow> Inl e
          | Inr text \<Rightarrow> Inr (stringify_string key @ js '':'' @ text))"
  have one: "(\<exists>y. ?f kv = Inr y) \<longleftrightarrow> wellFormed (fst kv) \<and> serializable (snd kv)"
    if kv: "kv \<in> set (sorted_members ps)" for kv
  proof -
    obtain k v where k: "kv = (k, v)" by (cases kv)
    show ?thesis
    proof (cases "wellFormed k")
      case True
      then have "assertWellFormed k = Inr ()" by (simp add: assertWellFormed_def)
      with 6 [OF kv k [symmetric] this] show ?thesis
        by (cases "canonicalJson v") (auto simp: k True)
    next
      case False
      then show ?thesis by (simp add: k assertWellFormed_def)
    qed
  qed
  have "(\<exists>t. canonicalJson (JObject ps) = Inr t) \<longleftrightarrow> (\<exists>ts. mapE ?f (sorted_members ps) = Inr ts)"
    by (auto split: sum.split)
  also have "\<dots> \<longleftrightarrow> (\<forall>kv \<in> set (sorted_members ps). wellFormed (fst kv) \<and> serializable (snd kv))"
    unfolding mapE_total using one by (intro ball_cong) auto
  also have "\<dots> \<longleftrightarrow> serializable (JObject ps)"
    by (auto simp: set_sorted_members)
  finally show ?case .
qed simp_all

section \<open>Encodings are plain text\<close>

lemma chunk_text_alphabet: "set (chunk_text c n) \<subseteq> set BASE64URL"
proof -
  have "unat (drop_bit k (c :: u32) AND 0x3f) < 64" for k by (simp add: unat_sextet)
  then show ?thesis
    unfolding chunk_text_def by (auto intro!: nth_mem)
qed

lemma toBase64Url_alphabet: "set (toBase64Url bs) \<subseteq> set BASE64URL"
proof (induction bs rule: toBase64Url.induct)
  case (1 bs)
  then show ?case
    using chunk_text_alphabet by (subst toBase64Url.simps) auto
qed

lemma toHex_alphabet: "set (toHex bs) \<subseteq> set HEX_DIGITS"
proof -
  have "unat (drop_bit 4 b) < 16" "unat (b AND 0xf) < 16" for b :: u8
    using unat_and_mask(3) [of b] unat_u8_less [of b] by (simp_all add: unat_drop_bit)
  moreover have "length HEX_DIGITS = 16" by (simp add: HEX_DIGITS_def)
  ultimately show ?thesis
    by (auto simp: toHex_def hexByte_def)
qed

lemma plain_alphabets:
  "list_all plain_unit BASE64URL" "list_all plain_unit HEX_DIGITS"
  by (simp_all add: BASE64URL_def HEX_DIGITS_def js_def plain_unit_def)

lemma wellFormed_alphabet: "set s \<subseteq> set alphabet \<Longrightarrow> list_all plain_unit alphabet \<Longrightarrow> wellFormed s"
  by (intro wellFormed_plain) (auto simp: list_all_iff)

lemma wellFormed_base64 [simp]: "wellFormed (toBase64Url bs)"
  by (rule wellFormed_alphabet [OF toBase64Url_alphabet plain_alphabets(1)])

lemma wellFormed_hex [simp]: "wellFormed (sha256Hex sha bs)"
  unfolding sha256Hex_def by (rule wellFormed_alphabet [OF toHex_alphabet plain_alphabets(2)])

lemma wellFormed_padded: "wellFormed (padded n k)"
proof -
  have "list_all (\<lambda>d. d < 10) (replicate (n - length (decimal (nat k))) 0 @ decimal (nat k))"
    by (simp add: decimal_digits list_all_replicate)
  from digits_text_props(2) [OF this] show ?thesis
    unfolding padded_def Let_def using number_char_plain
    by (intro wellFormed_plain) (auto simp: list_all_iff)
qed

lemma wellFormed_toISOString [simp]: "wellFormed (toISOString t)"
  unfolding toISOString_def date_text_def time_text_def year_text_def split_def
  by (auto intro!: wellFormed_append wellFormed_padded wellFormed_js simp: plain_unit_def)

lemma decode_encoded:
  assumes "encodeSignedStatement s = Inr t" "wf_json (nearest p) (payload s)" "payload s \<noteq> JUndefined"
  shows "decodeSignedStatement p t = Some (sorted_signed s)"
proof -
  obtain bytes where b: "statementBytes s = Inr bytes" "t = toBase64Url bytes"
    using assms(1) by (cases "canonicalJson (signed_value s)")
      (auto simp: encodeSignedStatement_def statementBytes_def)
  show ?thesis
    using parse_statement_bytes [OF b(1) assms(2,3)] base64url.dec_enc
    by (simp add: decodeSignedStatement_def b(2))
qed

section \<open>Properties\<close>

text \<open>
  C8. A value has a canonical text exactly when it is plain data with finite numbers, well-formed
  strings and member names, and no \<open>undefined\<close> inside an array; otherwise serializing throws.
\<close>

theorem canonical_defined_iff: "(\<exists>t. canonicalJson v = Inr t) = serializable v"
  by (rule canonical_total)

text \<open>
  C6. Two values have the same canonical text exactly when they agree up to the order of members,
  \<open>undefined\<close> members and the sign of zero: a signature covers the value and not its spelling,
  and no two different values share a text.
\<close>

theorem canonical_injective:
  assumes "wf_json n v" "wf_json n w" "serializable v"
  shows "canonicalJson v = canonicalJson w \<longleftrightarrow> sorted_form v = sorted_form w"
proof
  assume eq: "canonicalJson v = canonicalJson w"
  obtain t where "canonicalJson v = Inr t" using assms(3) canonical_total by blast
  with eq parse_canonical [of v t n] parse_canonical [of w t n] assms
  show "sorted_form v = sorted_form w" by simp
next
  assume "sorted_form v = sorted_form w"
  then show "canonicalJson v = canonicalJson w" by (metis canonical_sorted_form)
qed

lemma canonical_injective_witness:
  "canonicalJson (JObject [(js ''b'', JNull), (js ''a'', JBool True)])
     = canonicalJson (JObject [(js ''a'', JBool True), (js ''b'', JNull)])"
proof -
  let ?v = "JObject [(js ''b'', JNull), (js ''a'', JBool True)]"
  let ?w = "JObject [(js ''a'', JBool True), (js ''b'', JNull)]"
  have "canonicalJson ?v = canonicalJson ?w \<longleftrightarrow> sorted_form ?v = sorted_form ?w"
    by (rule canonical_injective [where n = "\<lambda>x. x"]) (simp_all add: wellFormed_js plain_unit_def)
  moreover have "sorted_form ?v = sorted_form ?w"
    by (simp add: sorted_members_def js_def)
  ultimately show ?thesis by simp
qed

text \<open>
  C7. A signed statement survives its transport: what \<open>encodeSignedStatement\<close> writes,
  \<open>decodeSignedStatement\<close> reads back with the payload in sorted form, and the statement that
  is read verifies under the same keys and has the same bytes and address as the one written.
\<close>

theorem statement_transport:
  assumes "encodeSignedStatement s = Inr t" "wf_json (nearest p) (payload s)" "payload s \<noteq> JUndefined"
  shows "\<exists>s'. decodeSignedStatement p t = Some s' \<and> payload s' = sorted_form (payload s)
    \<and> signature s' = signature s \<and> statementAddress p s' = statementAddress p s
    \<and> (\<forall>key. verifyStatement p s' key = verifyStatement p s key)"
proof -
  have "decodeSignedStatement p t = Some (sorted_signed s)" by (rule decode_encoded [OF assms])
  then show ?thesis
    using sorted_signed_bytes [of s] sorted_signed_verifies [of p s]
    by (simp add: sorted_signed_def statementAddress_def)
qed

lemma statement_transport_witness:
  "\<exists>t s'. encodeSignedStatement \<lparr>payload = JNull, signature = []\<rparr> = Inr t
     \<and> decodeSignedStatement \<lparr>sha256 = id, importKey = (\<lambda>k. True), ed_verify = (\<lambda>k sig m. True),
         ed_sign = (\<lambda>k m. m), ed_public = id, nearest = (\<lambda>x. x), Date_parse = (\<lambda>x. None)\<rparr> t = Some s'"
proof -
  let ?p = "\<lparr>sha256 = id, importKey = (\<lambda>k. True), ed_verify = (\<lambda>k sig m. True),
         ed_sign = (\<lambda>k m. m), ed_public = id, nearest = (\<lambda>x. x), Date_parse = (\<lambda>x. None)\<rparr>"
  let ?s = "\<lparr>payload = JNull, signature = []\<rparr>"
  have "\<exists>t. encodeSignedStatement ?s = Inr t"
    using signed_value_canonical [of ?s "js ''null''"]
    by (simp add: encodeSignedStatement_def assertWellFormed_def)
  then obtain t where t: "encodeSignedStatement ?s = Inr t" by blast
  from statement_transport [OF t, of ?p] show ?thesis using t by auto
qed

end
