(* ===== verification/Statements.thy ===== *)
theory Statements
  imports Statement_Text "HOL-Library.Monad_Syntax" "HOL-Library.Product_Lexorder"
begin

text \<open>
  The statements of \<^verbatim>\<open>packages/provenance/lib/types.ts\<close> as records, and for each the shape
  guard, the constructor and the check of its module (\<^verbatim>\<open>recordingClaim.ts\<close>,
  \<^verbatim>\<open>hostReceipt.ts\<close>, \<^verbatim>\<open>sessionRecord.ts\<close>, \<^verbatim>\<open>deviceCertificate.ts\<close>,
  \<^verbatim>\<open>deviceVouch.ts\<close>, \<^verbatim>\<open>deviceRevocation.ts\<close>, \<^verbatim>\<open>syncProof.ts\<close>,
  \<^verbatim>\<open>passkeyRecord.ts\<close>).

  A TypeScript guard \<open>payload is T\<close> is a partial function from a JavaScript value to the record
  \<open>T\<close>: defined exactly when the guard is true, and then the fields the code reads. A passing
  check returns the signed statement as it came, extra fields included, with that record.
  The locale \<open>signed_kind\<close> is the contract the checks share; it is interpreted for each of them.
\<close>

section \<open>Types\<close>

datatype vouch_method = Operator | Pin
datatype revocation_signer = ByPerson | ByHost
datatype revocation_reason = Lost | Retired | WrongPerson

record recording_claim =
  rc_hash :: jstr
  rc_size :: jsnum
  rc_mimeType :: jstr
  rc_startedAt :: jstr
  rc_endedAt :: jstr
  rc_sessionId :: jstr
  rc_deviceKey :: jstr
  rc_deviceCert :: "jstr option"

record device_certificate =
  dc_personKey :: jstr
  dc_deviceKey :: jstr
  dc_deviceLabel :: jstr
  dc_issuedAt :: jstr

record join_request =
  jr_personKey :: jstr
  jr_personName :: jstr
  jr_certificate :: jstr
  jr_challenge :: jstr

record vouch_request =
  vr_deviceKey :: jstr
  vr_personKey :: jstr
  vr_deviceLabel :: jstr
  vr_requestedAt :: jstr

record passkey_record_write =
  pw_personKey :: jstr
  pw_credentialId :: jstr
  pw_record :: jstr
  pw_challenge :: jstr

record device_vouch =
  dv_hostKey :: jstr
  dv_hostLabel :: jstr
  dv_personKey :: jstr
  dv_personName :: jstr
  dv_deviceKey :: jstr
  dv_deviceLabel :: jstr
  dv_method :: vouch_method
  dv_firstCertificate :: jstr
  dv_vouchedAt :: jstr

record device_revocation =
  dr_signerKey :: jstr
  dr_signedBy :: revocation_signer
  dr_deviceKey :: jstr
  dr_deviceLink :: jstr
  dr_reason :: revocation_reason
  dr_revokedAt :: jstr

record host_receipt =
  hr_claim :: jstr
  hr_receivedAt :: jstr
  hr_hostKey :: jstr

record session_span =
  sp_joinedAt :: jstr
  sp_leftAt :: jstr

record session_device =
  sd_deviceKey :: jstr
  sd_label :: "jstr option"
  sd_spans :: "session_span list"

record session_record =
  sr_sessionId :: jstr
  sr_openedAt :: jstr
  sr_closedAt :: jstr
  sr_devices :: "session_device list"
  sr_claims :: "jstr list"
  sr_hostKey :: jstr

datatype device_link = Certificate device_certificate | Vouch device_vouch

text \<open>Every reason a statement is refused, across the modules.\<close>

datatype problem =
    Malformed
  | BadSignature
  | HashMismatch
  | SizeMismatch
  | WrongRecord
  | UnknownType
  | AddressMismatch
  | NotCanonical
  | ClaimNotListed
  | SessionMismatch
  | ClaimNotInSession
  | CertificateNotClaimed
  | CertificateDeviceMismatch
  | RevocationNotClaimed
  | RevocationNotPermitted

definition RECORDING_CLAIM_TYPE :: jstr where
  "RECORDING_CLAIM_TYPE = js ''tapes/recording@1''"
definition DEVICE_CERTIFICATE_TYPE :: jstr where
  "DEVICE_CERTIFICATE_TYPE = js ''tapes/device-cert@1''"
definition JOIN_REQUEST_TYPE :: jstr where
  "JOIN_REQUEST_TYPE = js ''tapes/join@1''"
definition VOUCH_REQUEST_TYPE :: jstr where
  "VOUCH_REQUEST_TYPE = js ''tapes/vouch-request@1''"
definition PASSKEY_RECORD_WRITE_TYPE :: jstr where
  "PASSKEY_RECORD_WRITE_TYPE = js ''tapes/passkey-record@1''"
definition DEVICE_VOUCH_TYPE :: jstr where
  "DEVICE_VOUCH_TYPE = js ''tapes/device-vouch@1''"
definition DEVICE_REVOCATION_TYPE :: jstr where
  "DEVICE_REVOCATION_TYPE = js ''tapes/revocation@1''"
definition HOST_RECEIPT_TYPE :: jstr where
  "HOST_RECEIPT_TYPE = js ''tapes/receipt@1''"
definition SESSION_RECORD_TYPE :: jstr where
  "SESSION_RECORD_TYPE = js ''tapes/session@1''"
definition SYNC_PROOF_TYPE :: jstr where
  "SYNC_PROOF_TYPE = js ''tapes/sync-proof@1''"
definition NO_SESSION_ID :: jstr where
  "NO_SESSION_ID = js ''unsessioned''"

lemmas statement_types =
  RECORDING_CLAIM_TYPE_def DEVICE_CERTIFICATE_TYPE_def JOIN_REQUEST_TYPE_def
  VOUCH_REQUEST_TYPE_def PASSKEY_RECORD_WRITE_TYPE_def DEVICE_VOUCH_TYPE_def
  DEVICE_REVOCATION_TYPE_def HOST_RECEIPT_TYPE_def SESSION_RECORD_TYPE_def SYNC_PROOF_TYPE_def

section \<open>Guards\<close>

text \<open>\<open>v === undefined || typeof v === 'string'\<close>.\<close>

fun opt_string :: "jsval \<Rightarrow> jstr option option" where
  "opt_string JUndefined = Some None"
| "opt_string (JString s) = Some (Some s)"
| "opt_string _ = None"

fun all_some :: "('a \<Rightarrow> 'b option) \<Rightarrow> 'a list \<Rightarrow> 'b list option" where
  "all_some f [] = Some []"
| "all_some f (x # xs) = (case f x of None \<Rightarrow> None | Some y \<Rightarrow> map_option (Cons y) (all_some f xs))"

definition typed :: "jsval \<Rightarrow> jstr \<Rightarrow> unit option" where
  "typed v t = (if is_object v \<and> field v ''type'' = JString t then Some () else None)"

definition isRecordingClaim :: "jsval \<Rightarrow> recording_claim option" where
  "isRecordingClaim claim = do {
     typed claim RECORDING_CLAIM_TYPE;
     let blob = field claim ''blob'';
     (if is_object blob then Some () else None);
     hash \<leftarrow> as_string (field blob ''hash'');
     size \<leftarrow> as_number (field blob ''size'');
     mimeType \<leftarrow> as_string (field blob ''mimeType'');
     startedAt \<leftarrow> as_string (field claim ''startedAt'');
     endedAt \<leftarrow> as_string (field claim ''endedAt'');
     sessionId \<leftarrow> as_string (field claim ''sessionId'');
     deviceKey \<leftarrow> as_string (field claim ''deviceKey'');
     deviceCert \<leftarrow> opt_string (field claim ''deviceCert'');
     Some \<lparr>rc_hash = hash, rc_size = size, rc_mimeType = mimeType, rc_startedAt = startedAt,
       rc_endedAt = endedAt, rc_sessionId = sessionId, rc_deviceKey = deviceKey,
       rc_deviceCert = deviceCert\<rparr> }"

definition isDeviceCertificate :: "jsval \<Rightarrow> device_certificate option" where
  "isDeviceCertificate certificate = do {
     typed certificate DEVICE_CERTIFICATE_TYPE;
     personKey \<leftarrow> as_string (field certificate ''personKey'');
     deviceKey \<leftarrow> as_string (field certificate ''deviceKey'');
     deviceLabel \<leftarrow> as_string (field certificate ''deviceLabel'');
     issuedAt \<leftarrow> as_string (field certificate ''issuedAt'');
     Some \<lparr>dc_personKey = personKey, dc_deviceKey = deviceKey, dc_deviceLabel = deviceLabel,
       dc_issuedAt = issuedAt\<rparr> }"

definition isJoinRequest :: "jsval \<Rightarrow> join_request option" where
  "isJoinRequest request = do {
     typed request JOIN_REQUEST_TYPE;
     personKey \<leftarrow> as_string (field request ''personKey'');
     personName \<leftarrow> as_string (field request ''personName'');
     certificate \<leftarrow> as_string (field request ''certificate'');
     challenge \<leftarrow> as_string (field request ''challenge'');
     Some \<lparr>jr_personKey = personKey, jr_personName = personName, jr_certificate = certificate,
       jr_challenge = challenge\<rparr> }"

definition isVouchRequest :: "jsval \<Rightarrow> vouch_request option" where
  "isVouchRequest request = do {
     typed request VOUCH_REQUEST_TYPE;
     deviceKey \<leftarrow> as_string (field request ''deviceKey'');
     personKey \<leftarrow> as_string (field request ''personKey'');
     deviceLabel \<leftarrow> as_string (field request ''deviceLabel'');
     requestedAt \<leftarrow> as_string (field request ''requestedAt'');
     Some \<lparr>vr_deviceKey = deviceKey, vr_personKey = personKey, vr_deviceLabel = deviceLabel,
       vr_requestedAt = requestedAt\<rparr> }"

definition isPasskeyRecordWrite :: "jsval \<Rightarrow> passkey_record_write option" where
  "isPasskeyRecordWrite write = do {
     typed write PASSKEY_RECORD_WRITE_TYPE;
     personKey \<leftarrow> as_string (field write ''personKey'');
     credentialId \<leftarrow> as_string (field write ''credentialId'');
     rec \<leftarrow> as_string (field write ''record'');
     challenge \<leftarrow> as_string (field write ''challenge'');
     Some \<lparr>pw_personKey = personKey, pw_credentialId = credentialId, pw_record = rec,
       pw_challenge = challenge\<rparr> }"

definition is_method :: "jsval \<Rightarrow> vouch_method option" where
  "is_method v = (if v = JString (js ''operator'') then Some Operator
     else if v = JString (js ''pin'') then Some Pin else None)"

definition isDeviceVouch :: "jsval \<Rightarrow> device_vouch option" where
  "isDeviceVouch vouch = do {
     typed vouch DEVICE_VOUCH_TYPE;
     hostKey \<leftarrow> as_string (field vouch ''hostKey'');
     hostLabel \<leftarrow> as_string (field vouch ''hostLabel'');
     personKey \<leftarrow> as_string (field vouch ''personKey'');
     personName \<leftarrow> as_string (field vouch ''personName'');
     deviceKey \<leftarrow> as_string (field vouch ''deviceKey'');
     deviceLabel \<leftarrow> as_string (field vouch ''deviceLabel'');
     method \<leftarrow> is_method (field vouch ''method'');
     firstCertificate \<leftarrow> as_string (field vouch ''firstCertificate'');
     vouchedAt \<leftarrow> as_string (field vouch ''vouchedAt'');
     Some \<lparr>dv_hostKey = hostKey, dv_hostLabel = hostLabel, dv_personKey = personKey,
       dv_personName = personName, dv_deviceKey = deviceKey, dv_deviceLabel = deviceLabel,
       dv_method = method, dv_firstCertificate = firstCertificate, dv_vouchedAt = vouchedAt\<rparr> }"

definition is_signer :: "jsval \<Rightarrow> revocation_signer option" where
  "is_signer v = (if v = JString (js ''person'') then Some ByPerson
     else if v = JString (js ''host'') then Some ByHost else None)"

definition isRevocationReason :: "jsval \<Rightarrow> revocation_reason option" where
  "isRevocationReason v = (if v = JString (js ''lost'') then Some Lost
     else if v = JString (js ''retired'') then Some Retired
     else if v = JString (js ''wrong-person'') then Some WrongPerson else None)"

definition isDeviceRevocation :: "jsval \<Rightarrow> device_revocation option" where
  "isDeviceRevocation revocation = do {
     typed revocation DEVICE_REVOCATION_TYPE;
     signerKey \<leftarrow> as_string (field revocation ''signerKey'');
     signedBy \<leftarrow> is_signer (field revocation ''signedBy'');
     deviceKey \<leftarrow> as_string (field revocation ''deviceKey'');
     deviceLink \<leftarrow> as_string (field revocation ''deviceLink'');
     reason \<leftarrow> isRevocationReason (field revocation ''reason'');
     revokedAt \<leftarrow> as_string (field revocation ''revokedAt'');
     Some \<lparr>dr_signerKey = signerKey, dr_signedBy = signedBy, dr_deviceKey = deviceKey,
       dr_deviceLink = deviceLink, dr_reason = reason, dr_revokedAt = revokedAt\<rparr> }"

definition isHostReceipt :: "jsval \<Rightarrow> host_receipt option" where
  "isHostReceipt receipt = do {
     typed receipt HOST_RECEIPT_TYPE;
     claim \<leftarrow> as_string (field receipt ''claim'');
     receivedAt \<leftarrow> as_string (field receipt ''receivedAt'');
     hostKey \<leftarrow> as_string (field receipt ''hostKey'');
     Some \<lparr>hr_claim = claim, hr_receivedAt = receivedAt, hr_hostKey = hostKey\<rparr> }"

definition is_span :: "jsval \<Rightarrow> session_span option" where
  "is_span span = do {
     joinedAt \<leftarrow> as_string (field span ''joinedAt'');
     leftAt \<leftarrow> as_string (field span ''leftAt'');
     Some \<lparr>sp_joinedAt = joinedAt, sp_leftAt = leftAt\<rparr> }"

definition isSessionDevice :: "jsval \<Rightarrow> session_device option" where
  "isSessionDevice device = do {
     (if is_object device then Some () else None);
     deviceKey \<leftarrow> as_string (field device ''deviceKey'');
     label \<leftarrow> opt_string (field device ''label'');
     spans \<leftarrow> as_array (field device ''spans'');
     spans' \<leftarrow> all_some is_span spans;
     Some \<lparr>sd_deviceKey = deviceKey, sd_label = label, sd_spans = spans'\<rparr> }"

definition isSessionRecord :: "jsval \<Rightarrow> session_record option" where
  "isSessionRecord rec = do {
     typed rec SESSION_RECORD_TYPE;
     sessionId \<leftarrow> as_string (field rec ''sessionId'');
     openedAt \<leftarrow> as_string (field rec ''openedAt'');
     closedAt \<leftarrow> as_string (field rec ''closedAt'');
     hostKey \<leftarrow> as_string (field rec ''hostKey'');
     claims \<leftarrow> as_array (field rec ''claims'');
     claims' \<leftarrow> all_some as_string claims;
     devices \<leftarrow> as_array (field rec ''devices'');
     devices' \<leftarrow> all_some isSessionDevice devices;
     Some \<lparr>sr_sessionId = sessionId, sr_openedAt = openedAt, sr_closedAt = closedAt,
       sr_devices = devices', sr_claims = claims', sr_hostKey = hostKey\<rparr> }"

end
