(* ===== verification/Statement_Checks.thy ===== *)
theory Statement_Checks
  imports Statements
begin

text \<open>
  The constructors (\<open>create...\<close>) and checks (\<open>check...\<close>) of the statement modules, and the
  contract they share. A key pair is its private key; the public half is \<open>ed_public p\<close> of it.
  The clock readings of the source (\<open>details.issuedAt ?? new Date()\<close>) are arguments.
\<close>

section \<open>Object literals\<close>

fun method_text :: "vouch_method \<Rightarrow> jstr" where
  "method_text Operator = js ''operator''"
| "method_text Pin = js ''pin''"

fun signer_text :: "revocation_signer \<Rightarrow> jstr" where
  "signer_text ByPerson = js ''person''"
| "signer_text ByHost = js ''host''"

fun reason_text :: "revocation_reason \<Rightarrow> jstr" where
  "reason_text Lost = js ''lost''"
| "reason_text Retired = js ''retired''"
| "reason_text WrongPerson = js ''wrong-person''"

definition obj :: "(string \<times> jsval) list \<Rightarrow> jsval" where
  "obj ms = JObject (map (\<lambda>(k, v). (js k, v)) ms)"

definition claim_value :: "recording_claim \<Rightarrow> jsval" where
  "claim_value c = obj
     ([(''type'', JString RECORDING_CLAIM_TYPE),
       (''blob'', obj [(''hash'', JString (rc_hash c)), (''size'', JNumber (rc_size c)),
                       (''mimeType'', JString (rc_mimeType c))]),
       (''startedAt'', JString (rc_startedAt c)), (''endedAt'', JString (rc_endedAt c)),
       (''sessionId'', JString (rc_sessionId c)), (''deviceKey'', JString (rc_deviceKey c))]
      @ (case rc_deviceCert c of None \<Rightarrow> [] | Some a \<Rightarrow> [(''deviceCert'', JString a)]))"

definition certificate_value :: "device_certificate \<Rightarrow> jsval" where
  "certificate_value c = obj
     [(''type'', JString DEVICE_CERTIFICATE_TYPE), (''personKey'', JString (dc_personKey c)),
      (''deviceKey'', JString (dc_deviceKey c)), (''deviceLabel'', JString (dc_deviceLabel c)),
      (''issuedAt'', JString (dc_issuedAt c))]"

definition join_value :: "join_request \<Rightarrow> jsval" where
  "join_value r = obj
     [(''type'', JString JOIN_REQUEST_TYPE), (''personKey'', JString (jr_personKey r)),
      (''personName'', JString (jr_personName r)), (''certificate'', JString (jr_certificate r)),
      (''challenge'', JString (jr_challenge r))]"

definition vouch_request_value :: "vouch_request \<Rightarrow> jsval" where
  "vouch_request_value r = obj
     [(''type'', JString VOUCH_REQUEST_TYPE), (''deviceKey'', JString (vr_deviceKey r)),
      (''personKey'', JString (vr_personKey r)), (''deviceLabel'', JString (vr_deviceLabel r)),
      (''requestedAt'', JString (vr_requestedAt r))]"

definition write_value :: "passkey_record_write \<Rightarrow> jsval" where
  "write_value w = obj
     [(''type'', JString PASSKEY_RECORD_WRITE_TYPE), (''personKey'', JString (pw_personKey w)),
      (''credentialId'', JString (pw_credentialId w)), (''record'', JString (pw_record w)),
      (''challenge'', JString (pw_challenge w))]"

definition vouch_value :: "device_vouch \<Rightarrow> jsval" where
  "vouch_value v = obj
     [(''type'', JString DEVICE_VOUCH_TYPE), (''hostKey'', JString (dv_hostKey v)),
      (''hostLabel'', JString (dv_hostLabel v)), (''personKey'', JString (dv_personKey v)),
      (''personName'', JString (dv_personName v)), (''deviceKey'', JString (dv_deviceKey v)),
      (''deviceLabel'', JString (dv_deviceLabel v)), (''method'', JString (method_text (dv_method v))),
      (''firstCertificate'', JString (dv_firstCertificate v)), (''vouchedAt'', JString (dv_vouchedAt v))]"

definition revocation_value :: "device_revocation \<Rightarrow> jsval" where
  "revocation_value r = obj
     [(''type'', JString DEVICE_REVOCATION_TYPE), (''signerKey'', JString (dr_signerKey r)),
      (''signedBy'', JString (signer_text (dr_signedBy r))), (''deviceKey'', JString (dr_deviceKey r)),
      (''deviceLink'', JString (dr_deviceLink r)), (''reason'', JString (reason_text (dr_reason r))),
      (''revokedAt'', JString (dr_revokedAt r))]"

definition receipt_value :: "host_receipt \<Rightarrow> jsval" where
  "receipt_value r = obj
     [(''type'', JString HOST_RECEIPT_TYPE), (''claim'', JString (hr_claim r)),
      (''receivedAt'', JString (hr_receivedAt r)), (''hostKey'', JString (hr_hostKey r))]"

definition span_value :: "session_span \<Rightarrow> jsval" where
  "span_value s = obj [(''joinedAt'', JString (sp_joinedAt s)), (''leftAt'', JString (sp_leftAt s))]"

definition device_value :: "session_device \<Rightarrow> jsval" where
  "device_value d = obj
     ([(''deviceKey'', JString (sd_deviceKey d))]
      @ (case sd_label d of None \<Rightarrow> [] | Some l \<Rightarrow> [(''label'', JString l)])
      @ [(''spans'', JArray (map span_value (sd_spans d)))])"

definition record_value :: "session_record \<Rightarrow> jsval" where
  "record_value r = obj
     [(''type'', JString SESSION_RECORD_TYPE), (''sessionId'', JString (sr_sessionId r)),
      (''openedAt'', JString (sr_openedAt r)), (''closedAt'', JString (sr_closedAt r)),
      (''devices'', JArray (map device_value (sr_devices r))),
      (''claims'', JArray (map JString (sr_claims r))), (''hostKey'', JString (sr_hostKey r))]"

definition proof_value :: "jstr \<Rightarrow> jstr \<Rightarrow> jsval" where
  "proof_value challenge deviceKey = obj
     [(''type'', JString SYNC_PROOF_TYPE), (''challenge'', JString challenge),
      (''deviceKey'', JString deviceKey)]"

section \<open>Constructors\<close>

abbreviation keyText :: "platform \<Rightarrow> u8 list \<Rightarrow> jstr" where
  "keyText p keyPair \<equiv> exportPublicKey (ed_public p keyPair)"

definition createRecordingClaim ::
  "platform \<Rightarrow> jstr \<Rightarrow> jsnum \<Rightarrow> jstr \<Rightarrow> jstr \<Rightarrow> jstr \<Rightarrow> jstr option \<Rightarrow> jstr option \<Rightarrow> u8 list
     \<Rightarrow> json_error + signed" where
  "createRecordingClaim p hash bsize mimeType startedAt endedAt sessionId deviceCert keyPair =
     signStatement p (claim_value \<lparr>rc_hash = hash, rc_size = bsize, rc_mimeType = mimeType,
       rc_startedAt = startedAt, rc_endedAt = endedAt,
       rc_sessionId = (case sessionId of None \<Rightarrow> NO_SESSION_ID | Some s \<Rightarrow> s),
       rc_deviceKey = keyText p keyPair, rc_deviceCert = deviceCert\<rparr>) keyPair"

definition createDeviceCertificate ::
  "platform \<Rightarrow> jstr \<Rightarrow> jstr \<Rightarrow> int \<Rightarrow> u8 list \<Rightarrow> json_error + signed" where
  "createDeviceCertificate p deviceKey deviceLabel issuedAt personKeyPair =
     signStatement p (certificate_value \<lparr>dc_personKey = keyText p personKeyPair,
       dc_deviceKey = deviceKey, dc_deviceLabel = deviceLabel, dc_issuedAt = toISOString issuedAt\<rparr>)
       personKeyPair"

definition createJoinRequest ::
  "platform \<Rightarrow> jstr \<Rightarrow> jstr \<Rightarrow> jstr \<Rightarrow> u8 list \<Rightarrow> json_error + signed" where
  "createJoinRequest p personName certificate challenge personKeyPair =
     signStatement p (join_value \<lparr>jr_personKey = keyText p personKeyPair, jr_personName = personName,
       jr_certificate = certificate, jr_challenge = challenge\<rparr>) personKeyPair"

definition createVouchRequest ::
  "platform \<Rightarrow> jstr \<Rightarrow> jstr \<Rightarrow> int \<Rightarrow> u8 list \<Rightarrow> json_error + signed" where
  "createVouchRequest p personKey deviceLabel requestedAt deviceKeyPair =
     signStatement p (vouch_request_value \<lparr>vr_deviceKey = keyText p deviceKeyPair,
       vr_personKey = personKey, vr_deviceLabel = deviceLabel,
       vr_requestedAt = toISOString requestedAt\<rparr>) deviceKeyPair"

definition device_vouch_for ::
  "platform \<Rightarrow> vouch_request \<Rightarrow> jstr \<Rightarrow> jstr \<Rightarrow> vouch_method \<Rightarrow> jstr \<Rightarrow> int \<Rightarrow> u8 list \<Rightarrow> device_vouch" where
  "device_vouch_for p request hostLabel personName method firstCertificate vouchedAt hostKeyPair =
     \<lparr>dv_hostKey = keyText p hostKeyPair, dv_hostLabel = hostLabel,
      dv_personKey = vr_personKey request, dv_personName = personName,
      dv_deviceKey = vr_deviceKey request, dv_deviceLabel = vr_deviceLabel request,
      dv_method = method, dv_firstCertificate = firstCertificate,
      dv_vouchedAt = toISOString vouchedAt\<rparr>"

definition createDeviceVouch ::
  "platform \<Rightarrow> vouch_request \<Rightarrow> jstr \<Rightarrow> jstr \<Rightarrow> vouch_method \<Rightarrow> jstr \<Rightarrow> int \<Rightarrow> u8 list
     \<Rightarrow> json_error + signed" where
  "createDeviceVouch p request hostLabel personName method firstCertificate vouchedAt hostKeyPair =
     signStatement p (vouch_value (device_vouch_for p request hostLabel personName method
       firstCertificate vouchedAt hostKeyPair)) hostKeyPair"

definition device_revocation_of ::
  "platform \<Rightarrow> revocation_signer \<Rightarrow> jstr \<Rightarrow> jstr \<Rightarrow> revocation_reason \<Rightarrow> int \<Rightarrow> u8 list \<Rightarrow> device_revocation" where
  "device_revocation_of p signedBy deviceKey deviceLink reason revokedAt keyPair =
     \<lparr>dr_signerKey = keyText p keyPair, dr_signedBy = signedBy, dr_deviceKey = deviceKey,
      dr_deviceLink = deviceLink, dr_reason = reason, dr_revokedAt = toISOString revokedAt\<rparr>"

definition createDeviceRevocation ::
  "platform \<Rightarrow> revocation_signer \<Rightarrow> jstr \<Rightarrow> jstr \<Rightarrow> revocation_reason \<Rightarrow> int \<Rightarrow> u8 list
     \<Rightarrow> json_error + signed" where
  "createDeviceRevocation p signedBy deviceKey deviceLink reason revokedAt keyPair =
     signStatement p (revocation_value (device_revocation_of p signedBy deviceKey deviceLink reason
       revokedAt keyPair)) keyPair"

definition createHostReceipt ::
  "platform \<Rightarrow> signed \<Rightarrow> u8 list \<Rightarrow> int \<Rightarrow> json_error + signed" where
  "createHostReceipt p claim hostKeyPair receivedAt =
     (case statementAddress p claim of
        Inl e \<Rightarrow> Inl e
      | Inr address \<Rightarrow> signStatement p (receipt_value \<lparr>hr_claim = address,
          hr_receivedAt = toISOString receivedAt, hr_hostKey = keyText p hostKeyPair\<rparr>) hostKeyPair)"

text \<open>Both comparators of the source order by UTF-16 code units, as \<open>sort\<close> on \<open>jstr\<close> does.\<close>

definition sortSpans :: "session_span list \<Rightarrow> session_span list" where
  "sortSpans spans = sort_key (\<lambda>s. (sp_joinedAt s, sp_leftAt s)) spans"

definition session_record_of ::
  "platform \<Rightarrow> jstr \<Rightarrow> int \<Rightarrow> int \<Rightarrow> session_device list \<Rightarrow> jstr list \<Rightarrow> u8 list \<Rightarrow> session_record" where
  "session_record_of p sessionId openedAt closedAt devices claims hostKeyPair =
     \<lparr>sr_sessionId = sessionId, sr_openedAt = toISOString openedAt,
      sr_closedAt = toISOString closedAt,
      sr_devices = sort_key sd_deviceKey
        (map (\<lambda>device. device\<lparr>sd_spans := sortSpans (sd_spans device)\<rparr>) devices),
      sr_claims = sort (remdups claims),
      sr_hostKey = keyText p hostKeyPair\<rparr>"

definition createSessionRecord ::
  "platform \<Rightarrow> jstr \<Rightarrow> int \<Rightarrow> int \<Rightarrow> session_device list \<Rightarrow> jstr list \<Rightarrow> u8 list \<Rightarrow> json_error + signed" where
  "createSessionRecord p sessionId openedAt closedAt devices claims hostKeyPair =
     signStatement p (record_value (session_record_of p sessionId openedAt closedAt devices claims
       hostKeyPair)) hostKeyPair"

definition createSyncProof :: "platform \<Rightarrow> jstr \<Rightarrow> u8 list \<Rightarrow> json_error + signed" where
  "createSyncProof p challenge keyPair =
     signStatement p (proof_value challenge (keyText p keyPair)) keyPair"

definition passkeyRecordDigest :: "platform \<Rightarrow> jstr \<Rightarrow> jstr" where
  "passkeyRecordDigest p text = sha256Hex (sha256 p) (utf8_encode text)"

definition createPasskeyRecordWrite ::
  "platform \<Rightarrow> jstr \<Rightarrow> jstr \<Rightarrow> jstr \<Rightarrow> u8 list \<Rightarrow> json_error + signed" where
  "createPasskeyRecordWrite p credentialId rec challenge personKeyPair =
     signStatement p (write_value \<lparr>pw_personKey = keyText p personKeyPair,
       pw_credentialId = credentialId, pw_record = passkeyRecordDigest p rec,
       pw_challenge = challenge\<rparr>) personKeyPair"

section \<open>Checks\<close>

definition checkRecordingClaim ::
  "platform \<Rightarrow> signed \<Rightarrow> jstr \<Rightarrow> jsnum \<Rightarrow> problem + (signed \<times> recording_claim)" where
  "checkRecordingClaim p s hash bsize =
     (case isRecordingClaim (payload s) of
        None \<Rightarrow> Inl Malformed
      | Some claim \<Rightarrow>
          if rc_hash claim \<noteq> hash then Inl HashMismatch
          else if \<not> num_eq (rc_size claim) bsize then Inl SizeMismatch
          else if \<not> verifyStatement p s (KeyText (rc_deviceKey claim)) then Inl BadSignature
          else Inr (s, claim))"

definition checkHostReceipt :: "platform \<Rightarrow> signed \<Rightarrow> problem + (signed \<times> host_receipt)" where
  "checkHostReceipt p s =
     (case isHostReceipt (payload s) of
        None \<Rightarrow> Inl Malformed
      | Some receipt \<Rightarrow>
          if \<not> verifyStatement p s (KeyText (hr_hostKey receipt)) then Inl BadSignature
          else Inr (s, receipt))"

definition checkSessionRecord :: "platform \<Rightarrow> signed \<Rightarrow> problem + (signed \<times> session_record)" where
  "checkSessionRecord p s =
     (case isSessionRecord (payload s) of
        None \<Rightarrow> Inl Malformed
      | Some rec \<Rightarrow>
          if \<not> verifyStatement p s (KeyText (sr_hostKey rec)) then Inl BadSignature
          else Inr (s, rec))"

definition checkDeviceCertificate :: "platform \<Rightarrow> signed \<Rightarrow> problem + (signed \<times> device_certificate)" where
  "checkDeviceCertificate p s =
     (case isDeviceCertificate (payload s) of
        None \<Rightarrow> Inl Malformed
      | Some certificate \<Rightarrow>
          if \<not> verifyStatement p s (KeyText (dc_personKey certificate)) then Inl BadSignature
          else Inr (s, certificate))"

definition checkJoinRequest :: "platform \<Rightarrow> signed \<Rightarrow> problem + (signed \<times> join_request)" where
  "checkJoinRequest p s =
     (case isJoinRequest (payload s) of
        None \<Rightarrow> Inl Malformed
      | Some request \<Rightarrow>
          if \<not> verifyStatement p s (KeyText (jr_personKey request)) then Inl BadSignature
          else Inr (s, request))"

definition checkVouchRequest :: "platform \<Rightarrow> signed \<Rightarrow> problem + (signed \<times> vouch_request)" where
  "checkVouchRequest p s =
     (case isVouchRequest (payload s) of
        None \<Rightarrow> Inl Malformed
      | Some request \<Rightarrow>
          if \<not> verifyStatement p s (KeyText (vr_deviceKey request)) then Inl BadSignature
          else Inr (s, request))"

definition checkDeviceVouch :: "platform \<Rightarrow> signed \<Rightarrow> problem + (signed \<times> device_vouch)" where
  "checkDeviceVouch p s =
     (case isDeviceVouch (payload s) of
        None \<Rightarrow> Inl Malformed
      | Some vouch \<Rightarrow>
          if \<not> verifyStatement p s (KeyText (dv_hostKey vouch)) then Inl BadSignature
          else Inr (s, vouch))"

definition checkDeviceRevocation :: "platform \<Rightarrow> signed \<Rightarrow> problem + (signed \<times> device_revocation)" where
  "checkDeviceRevocation p s =
     (case isDeviceRevocation (payload s) of
        None \<Rightarrow> Inl Malformed
      | Some revocation \<Rightarrow>
          if \<not> verifyStatement p s (KeyText (dr_signerKey revocation)) then Inl BadSignature
          else Inr (s, revocation))"

definition checkDeviceLink :: "platform \<Rightarrow> signed \<Rightarrow> problem + (signed \<times> device_link)" where
  "checkDeviceLink p s =
     (let type = statementType s in
      if type = JString DEVICE_CERTIFICATE_TYPE
      then map_sum id (map_prod id Certificate) (checkDeviceCertificate p s)
      else if type = JString DEVICE_VOUCH_TYPE
      then map_sum id (map_prod id Vouch) (checkDeviceVouch p s)
      else Inl UnknownType)"

definition checkPasskeyRecordWrite ::
  "platform \<Rightarrow> signed \<Rightarrow> jstr \<Rightarrow> problem + (signed \<times> passkey_record_write)" where
  "checkPasskeyRecordWrite p s rec =
     (case isPasskeyRecordWrite (payload s) of
        None \<Rightarrow> Inl Malformed
      | Some write \<Rightarrow>
          if \<not> verifyStatement p s (KeyText (pw_personKey write)) then Inl BadSignature
          else if pw_record write \<noteq> passkeyRecordDigest p rec then Inl WrongRecord
          else Inr (s, write))"

definition checkSyncProof :: "platform \<Rightarrow> signed \<Rightarrow> jstr \<Rightarrow> jstr option" where
  "checkSyncProof p s challenge =
     (if \<not> is_object (payload s)
         \<or> field (payload s) ''type'' \<noteq> JString SYNC_PROOF_TYPE
         \<or> field (payload s) ''challenge'' \<noteq> JString challenge
      then None
      else case as_string (field (payload s) ''deviceKey'') of
             None \<Rightarrow> None
           | Some key \<Rightarrow> if verifyStatement p s (KeyText key) then Some key else None)"

fun link_deviceKey :: "device_link \<Rightarrow> jstr" where
  "link_deviceKey (Certificate c) = dc_deviceKey c"
| "link_deviceKey (Vouch v) = dv_deviceKey v"

fun link_personKey :: "device_link \<Rightarrow> jstr" where
  "link_personKey (Certificate c) = dc_personKey c"
| "link_personKey (Vouch v) = dv_personKey v"

definition revocationCovers :: "device_revocation \<Rightarrow> device_link \<Rightarrow> jstr \<Rightarrow> bool" where
  "revocationCovers revocation link linkAddress =
     (if dr_deviceLink revocation \<noteq> linkAddress \<or> dr_deviceKey revocation \<noteq> link_deviceKey link
      then False
      else if dr_signedBy revocation = ByPerson then dr_signerKey revocation = link_personKey link
      else (case link of Vouch v \<Rightarrow> dr_signerKey revocation = dv_hostKey v | Certificate _ \<Rightarrow> False))"

section \<open>A guard accepts what the constructor writes\<close>

lemma obj_field [simp]:
  "field (obj ms) k = (case map_of ms k of Some v \<Rightarrow> v | None \<Rightarrow> JUndefined)"
  by (induction ms) (auto simp: obj_def)
lemma is_object_obj [simp]: "is_object (obj ms)"
  by (simp add: obj_def)
lemma typed_obj [simp]: "typed (obj ms) t = (if map_of ms ''type'' = Some (JString t) then Some () else None)"
  by (auto simp: typed_def split: option.split)
lemma all_some_map: "(\<And>x. f (g x) = Some x) \<Longrightarrow> all_some f (map g xs) = Some xs"
  by (induction xs) simp_all
lemma view_claim:
  "isRecordingClaim (claim_value c) = Some c"
  by (cases c) (simp add: isRecordingClaim_def claim_value_def split: option.split)
lemma view_cert:  "isDeviceCertificate (certificate_value x) = Some x"
  by (cases x) (simp add: isDeviceCertificate_def certificate_value_def)
lemma view_join:  "isJoinRequest (join_value x1) = Some x1"
  by (cases x1) (simp add: isJoinRequest_def join_value_def)
lemma view_vr:  "isVouchRequest (vouch_request_value x1) = Some x1"
  by (cases x1) (simp add: isVouchRequest_def vouch_request_value_def)
lemma view_w:  "isPasskeyRecordWrite (write_value x1) = Some x1"
  by (cases x1) (simp add: isPasskeyRecordWrite_def write_value_def)
lemma method_rt [simp]: "is_method (JString (method_text m)) = Some m"
  by (cases m) (simp_all add: is_method_def)
lemma signer_rt [simp]: "is_signer (JString (signer_text m)) = Some m"
  by (cases m) (simp_all add: is_signer_def)
lemma reason_rt [simp]: "isRevocationReason (JString (reason_text m)) = Some m"
  by (cases m) (simp_all add: isRevocationReason_def)
lemma view_dv:  "isDeviceVouch (vouch_value x1) = Some x1"
  by (cases x1) (simp add: isDeviceVouch_def vouch_value_def)
lemma view_dr:  "isDeviceRevocation (revocation_value x1) = Some x1"
  by (cases x1) (simp add: isDeviceRevocation_def revocation_value_def)
lemma view_hr:  "isHostReceipt (receipt_value x1) = Some x1"
  by (cases x1) (simp add: isHostReceipt_def receipt_value_def)
lemma view_span:  "is_span (span_value x1) = Some x1"
  by (cases x1) (simp add: is_span_def span_value_def)
lemma view_dev:  "isSessionDevice (device_value x1) = Some x1"
  by (cases x1) (simp add: isSessionDevice_def device_value_def all_some_map view_span split: option.split)
lemma view_rec:  "isSessionRecord (record_value x1) = Some x1"
  by (cases x1) (simp add: isSessionRecord_def record_value_def all_some_map view_dev)

lemmas views = view_claim view_cert view_join view_vr view_w view_dv view_dr view_hr view_rec

lemma typed_Some: "typed v t = Some u \<longleftrightarrow> field v ''type'' = JString t \<and> is_object v"
  by (auto simp: typed_def)

lemma tag_hr: "isHostReceipt v = Some r \<Longrightarrow> field v ''type'' = JString HOST_RECEIPT_TYPE \<and> is_object v"
  by (auto simp: isHostReceipt_def typed_Some bind_eq_Some_conv)

lemma tag_rec: "isSessionRecord v = Some r \<Longrightarrow> field v ''type'' = JString SESSION_RECORD_TYPE \<and> is_object v"
  by (auto simp: isSessionRecord_def typed_Some bind_eq_Some_conv)

lemma tag_cert: "isDeviceCertificate v = Some r \<Longrightarrow> field v ''type'' = JString DEVICE_CERTIFICATE_TYPE \<and> is_object v"
  by (auto simp: isDeviceCertificate_def typed_Some bind_eq_Some_conv)

lemma tag_join: "isJoinRequest v = Some r \<Longrightarrow> field v ''type'' = JString JOIN_REQUEST_TYPE \<and> is_object v"
  by (auto simp: isJoinRequest_def typed_Some bind_eq_Some_conv)

lemma tag_vr: "isVouchRequest v = Some r \<Longrightarrow> field v ''type'' = JString VOUCH_REQUEST_TYPE \<and> is_object v"
  by (auto simp: isVouchRequest_def typed_Some bind_eq_Some_conv)

lemma tag_dv: "isDeviceVouch v = Some r \<Longrightarrow> field v ''type'' = JString DEVICE_VOUCH_TYPE \<and> is_object v"
  by (auto simp: isDeviceVouch_def typed_Some bind_eq_Some_conv)

lemma tag_dr: "isDeviceRevocation v = Some r \<Longrightarrow> field v ''type'' = JString DEVICE_REVOCATION_TYPE \<and> is_object v"
  by (auto simp: isDeviceRevocation_def typed_Some bind_eq_Some_conv)

lemma tag_claim: "isRecordingClaim v = Some r \<Longrightarrow> field v ''type'' = JString RECORDING_CLAIM_TYPE \<and> is_object v"
  by (auto simp: isRecordingClaim_def typed_Some bind_eq_Some_conv)

lemma tag_w: "isPasskeyRecordWrite v = Some r \<Longrightarrow> field v ''type'' = JString PASSKEY_RECORD_WRITE_TYPE \<and> is_object v"
  by (auto simp: isPasskeyRecordWrite_def typed_Some bind_eq_Some_conv)

lemmas tags = tag_hr tag_rec tag_cert tag_join tag_vr tag_dv tag_dr tag_claim tag_w

section \<open>A guard reads the sorted form as it reads the value\<close>

lemma as_number_sorted_form: "as_number (sorted_form v) = map_option plain_zero (as_number v)"
  by (cases v) simp_all

lemma as_array_sorted_form: "as_array (sorted_form v) = map_option (map sorted_form) (as_array v)"
  by (cases v) simp_all

lemma opt_string_sorted_form [simp]: "opt_string (sorted_form v) = opt_string v"
  by (cases v) simp_all

lemma typed_sorted_form: "wf_json n v \<Longrightarrow> typed (sorted_form v) t = typed v t"
  by (simp add: typed_def getprop_sorted_form)

lemma method_sorted_form [simp]: "is_method (sorted_form v) = is_method v"
  by (simp add: is_method_def)

lemma signer_sorted_form [simp]: "is_signer (sorted_form v) = is_signer v"
  by (simp add: is_signer_def)

lemma reason_sorted_form [simp]: "isRevocationReason (sorted_form v) = isRevocationReason v"
  by (simp add: isRevocationReason_def)

lemma all_some_sorted_form:
  "(\<And>x. x \<in> set xs \<Longrightarrow> f (sorted_form x) = f x) \<Longrightarrow> all_some f (map sorted_form xs) = all_some f xs"
  by (induction xs) (simp_all split: option.split)

lemma wf_as_array: "wf_json n v \<Longrightarrow> as_array v = Some xs \<Longrightarrow> x \<in> set xs \<Longrightarrow> wf_json n x"
  by simp

lemmas sorted_views = typed_sorted_form getprop_sorted_form

lemma sorted_hr: "wf_json n v \<Longrightarrow> isHostReceipt (sorted_form v) = isHostReceipt v"
  by (simp add: isHostReceipt_def sorted_views)
lemma sorted_cert: "wf_json n v \<Longrightarrow> isDeviceCertificate (sorted_form v) = isDeviceCertificate v"
  by (simp add: isDeviceCertificate_def sorted_views)
lemma sorted_join: "wf_json n v \<Longrightarrow> isJoinRequest (sorted_form v) = isJoinRequest v"
  by (simp add: isJoinRequest_def sorted_views)
lemma sorted_vr: "wf_json n v \<Longrightarrow> isVouchRequest (sorted_form v) = isVouchRequest v"
  by (simp add: isVouchRequest_def sorted_views)
lemma sorted_w: "wf_json n v \<Longrightarrow> isPasskeyRecordWrite (sorted_form v) = isPasskeyRecordWrite v"
  by (simp add: isPasskeyRecordWrite_def sorted_views)
lemma sorted_dv: "wf_json n v \<Longrightarrow> isDeviceVouch (sorted_form v) = isDeviceVouch v"
  by (simp add: isDeviceVouch_def sorted_views)
lemma sorted_dr: "wf_json n v \<Longrightarrow> isDeviceRevocation (sorted_form v) = isDeviceRevocation v"
  by (simp add: isDeviceRevocation_def sorted_views)
lemma sorted_span: "wf_json n v \<Longrightarrow> is_span (sorted_form v) = is_span v"
  by (simp add: is_span_def sorted_views)

lemma sorted_array:
  assumes "wf_json n v" "\<And>x. wf_json n x \<Longrightarrow> f (sorted_form x) = f x"
  shows "Option.bind (as_array (sorted_form v)) (\<lambda>xs. Option.bind (all_some f xs) g)
    = Option.bind (as_array v) (\<lambda>xs. Option.bind (all_some f xs) g)"
  using assms wf_as_array [OF assms(1)]
  by (cases "as_array v") (simp_all add: as_array_sorted_form all_some_sorted_form)

lemma sorted_dev:
  assumes "wf_json n v"
  shows "isSessionDevice (sorted_form v) = isSessionDevice v"
proof -
  have "wf_json n (field v ''spans'')" using assms by (rule wf_getprop)
  note spans = sorted_array [where f = is_span, OF this sorted_span [of n]]
  show ?thesis using assms by (simp add: isSessionDevice_def sorted_views spans)
qed

lemma sorted_rec:
  assumes "wf_json n v"
  shows "isSessionRecord (sorted_form v) = isSessionRecord v"
proof -
  have w: "wf_json n (field v ''claims'')" "wf_json n (field v ''devices'')"
    using assms by (rule wf_getprop)+
  note arrays = sorted_array [where f = as_string, OF w(1) as_string_sorted_form]
    sorted_array [where f = isSessionDevice, OF w(2) sorted_dev [of n]]
  show ?thesis using assms by (simp add: isSessionRecord_def sorted_views arrays)
qed

lemma sorted_claim:
  "wf_json n v \<Longrightarrow> isRecordingClaim (sorted_form v)
     = map_option (\<lambda>c. c\<lparr>rc_size := plain_zero (rc_size c)\<rparr>) (isRecordingClaim v)"
  using wf_getprop [of n v "js ''blob''"]
  by (cases "as_number (field (field v ''blob'') ''size'')")
    (simp_all add: isRecordingClaim_def sorted_views as_number_sorted_form map_option_bind comp_def Let_def
      del: as_number_eq_Some)

section \<open>The contract of a check\<close>

text \<open>
  A kind of statement is a guard, the key its payload names as signer, the object literal its
  constructor writes, its tag and its check. The check accepts exactly the payloads of the right
  shape that the named key signed.
\<close>

locale signed_kind =
  fixes view :: "jsval \<Rightarrow> 'r option"
    and signer :: "'r \<Rightarrow> jstr"
    and literal :: "'r \<Rightarrow> jsval"
    and tag :: jstr
    and check :: "platform \<Rightarrow> signed \<Rightarrow> problem + (signed \<times> 'r)"
  assumes view_literal: "view (literal r) = Some r"
    and view_tag: "view v = Some r \<Longrightarrow> field v ''type'' = JString tag \<and> is_object v"
    and view_sorted: "wf_json n v \<Longrightarrow> view (sorted_form v) = view v"
    and check_eq: "check p s = (case view (payload s) of None \<Rightarrow> Inl Malformed
      | Some r \<Rightarrow> if \<not> verifyStatement p s (KeyText (signer r)) then Inl BadSignature else Inr (s, r))"
begin

lemma check_ok_iff:
  "check p s = Inr (s', r) \<longleftrightarrow>
     s' = s \<and> view (payload s) = Some r \<and> verifyStatement p s (KeyText (signer r))"
  by (auto simp: check_eq split: option.split)

lemma check_ok:
  assumes "check p s = Inr (s', r)"
  shows "s' = s" "view (payload s) = Some r" "verifyStatement p s (KeyText (signer r))"
  using assms by (simp_all add: check_ok_iff)

lemma check_tag: "check p s = Inr (s', r) \<Longrightarrow> statementType s = JString tag"
  using view_tag by (auto simp: check_ok_iff statementType_def)

lemma passed_tag: "\<not> isl (check p s) \<Longrightarrow> statementType s = JString tag"
  using check_tag [of p s] by (cases "check p s") auto

lemma check_other_tag: "statementType s \<noteq> JString tag \<Longrightarrow> check p s = Inl Malformed"
  using view_tag by (auto simp: check_eq statementType_def split: option.split)

lemma check_problem: "check p s = Inl e \<Longrightarrow> e = Malformed \<or> e = BadSignature"
  by (auto simp: check_eq split: option.splits if_splits)

lemma created_passes:
  assumes "platform_ok p" "signer r = keyText p sk" "signStatement p (literal r) sk = Inr s"
  shows "check p s = Inr (s, r)"
  using verifyStatement_sign [OF assms(1,3)] assms(2) view_literal by (simp add: check_ok_iff)

lemma reparsed_passes:
  "check p s = Inr (s', r) \<Longrightarrow> wf_json n (payload s) \<Longrightarrow> check p (sorted_signed s) = Inr (sorted_signed s, r)"
  by (auto simp: check_ok_iff sorted_signed_verifies)
    (simp add: sorted_signed_def view_sorted)

end

lemma statementType_typed: "typed (payload s) t = Some u \<longleftrightarrow> statementType s = JString t"
  by (auto simp: typed_def statementType_def)

interpretation receipt_kind: signed_kind isHostReceipt hr_hostKey receipt_value HOST_RECEIPT_TYPE
    checkHostReceipt
  by unfold_locales (rule view_hr, erule tag_hr, erule sorted_hr, rule checkHostReceipt_def)

interpretation session_kind: signed_kind isSessionRecord sr_hostKey record_value SESSION_RECORD_TYPE
    checkSessionRecord
  by unfold_locales (rule view_rec, erule tag_rec, erule sorted_rec, rule checkSessionRecord_def)

interpretation certificate_kind: signed_kind isDeviceCertificate dc_personKey certificate_value
    DEVICE_CERTIFICATE_TYPE checkDeviceCertificate
  by unfold_locales (rule view_cert, erule tag_cert, erule sorted_cert, rule checkDeviceCertificate_def)

interpretation join_kind: signed_kind isJoinRequest jr_personKey join_value JOIN_REQUEST_TYPE
    checkJoinRequest
  by unfold_locales (rule view_join, erule tag_join, erule sorted_join, rule checkJoinRequest_def)

interpretation vouch_request_kind: signed_kind isVouchRequest vr_deviceKey vouch_request_value
    VOUCH_REQUEST_TYPE checkVouchRequest
  by unfold_locales (rule view_vr, erule tag_vr, erule sorted_vr, rule checkVouchRequest_def)

interpretation vouch_kind: signed_kind isDeviceVouch dv_hostKey vouch_value DEVICE_VOUCH_TYPE
    checkDeviceVouch
  by unfold_locales (rule view_dv, erule tag_dv, erule sorted_dv, rule checkDeviceVouch_def)

interpretation revocation_kind: signed_kind isDeviceRevocation dr_signerKey revocation_value
    DEVICE_REVOCATION_TYPE checkDeviceRevocation
  by unfold_locales (rule view_dr, erule tag_dr, erule sorted_dr, rule checkDeviceRevocation_def)

section \<open>The checks with a binding\<close>

lemma checkRecordingClaim_ok_iff:
  "checkRecordingClaim p s hash n = Inr (s', c) \<longleftrightarrow>
     s' = s \<and> isRecordingClaim (payload s) = Some c \<and> rc_hash c = hash \<and> num_eq (rc_size c) n
       \<and> verifyStatement p s (KeyText (rc_deviceKey c))"
  by (auto simp: checkRecordingClaim_def split: option.split)

lemma checkPasskeyRecordWrite_ok_iff:
  "checkPasskeyRecordWrite p s rec = Inr (s', w) \<longleftrightarrow>
     s' = s \<and> isPasskeyRecordWrite (payload s) = Some w \<and> pw_record w = passkeyRecordDigest p rec
       \<and> verifyStatement p s (KeyText (pw_personKey w))"
  by (auto simp: checkPasskeyRecordWrite_def split: option.split)

lemma checkSyncProof_Some_iff:
  "checkSyncProof p s challenge = Some key \<longleftrightarrow>
     statementType s = JString SYNC_PROOF_TYPE \<and> field (payload s) ''challenge'' = JString challenge
       \<and> field (payload s) ''deviceKey'' = JString key \<and> verifyStatement p s (KeyText key)"
  by (auto simp: checkSyncProof_def statementType_def split: option.split)

fun link_signer :: "device_link \<Rightarrow> jstr" where
  "link_signer (Certificate c) = dc_personKey c"
| "link_signer (Vouch v) = dv_hostKey v"

lemma checkDeviceLink_ok_iff:
  "checkDeviceLink p s = Inr (s', l) \<longleftrightarrow>
     (\<exists>c. l = Certificate c \<and> checkDeviceCertificate p s = Inr (s', c)) \<or>
     (\<exists>v. l = Vouch v \<and> checkDeviceVouch p s = Inr (s', v))"
proof -
  have ne: "DEVICE_CERTIFICATE_TYPE \<noteq> DEVICE_VOUCH_TYPE"
    by (simp add: statement_types)
  consider (c) "statementType s = JString DEVICE_CERTIFICATE_TYPE"
    | (v) "statementType s = JString DEVICE_VOUCH_TYPE"
    | (o) "statementType s \<noteq> JString DEVICE_CERTIFICATE_TYPE" "statementType s \<noteq> JString DEVICE_VOUCH_TYPE"
    by blast
  then show ?thesis
  proof cases
    case c
    then have "checkDeviceVouch p s = Inl Malformed"
      using ne by (intro vouch_kind.check_other_tag) simp
    with c show ?thesis
      by (cases "checkDeviceCertificate p s") (auto simp: checkDeviceLink_def)
  next
    case v
    then have "checkDeviceCertificate p s = Inl Malformed"
      using ne by (intro certificate_kind.check_other_tag) simp
    with v show ?thesis
      using ne by (cases "checkDeviceVouch p s") (auto simp: checkDeviceLink_def)
  next
    case o
    then show ?thesis
      using certificate_kind.check_other_tag vouch_kind.check_other_tag
      by (auto simp: checkDeviceLink_def)
  qed
qed

lemma checkDeviceLink_signed: "checkDeviceLink p s = Inr (s', l) \<Longrightarrow> s' = s \<and> verifyStatement p s (KeyText (link_signer l))"
  by (auto simp: checkDeviceLink_ok_iff certificate_kind.check_ok_iff vouch_kind.check_ok_iff)

lemma revocationCovers_signer:
  "revocationCovers r l a \<Longrightarrow> dr_deviceLink r = a \<and> dr_deviceKey r = link_deviceKey l
     \<and> (dr_signerKey r = link_personKey l \<or> (\<exists>v. l = Vouch v \<and> dr_signerKey r = dv_hostKey v))"
  by (auto simp: revocationCovers_def split: if_splits device_link.splits)

end
