(* ===== verification/Example_Platform.thy ===== *)
theory Example_Platform
  imports Statement_Checks
begin

text \<open>
  A concrete \<open>platform\<close> on which the properties are instantiated, and a recording signed on it.
  Its signatures repeat the key, padded to 32 bytes, and its digest of a statement tells the
  statement's type, so that statements of different types have different addresses. It satisfies
  \<open>platform_ok\<close>; it is no cryptography, and nothing else is assumed of it.
\<close>

section \<open>The platform\<close>

definition pad32 :: "u8 list \<Rightarrow> u8 list" where
  "pad32 bs = take 32 (bs @ replicate 32 0)"

definition plain_platform :: platform where
  "plain_platform = \<lparr>sha256 = (\<lambda>m. replicate 32 0),
     importKey = (\<lambda>k. True),
     ed_verify = (\<lambda>k sig m. sig = pad32 k @ replicate 32 0),
     ed_sign = (\<lambda>sk m. pad32 sk @ replicate 32 0),
     ed_public = pad32,
     nearest = (\<lambda>x. x),
     Date_parse = (\<lambda>t. if t = [] then None else Some (int (unat (last t))))\<rparr>"

definition type_number :: "signed \<Rightarrow> u8" where
  "type_number s =
     (case index_of (map JString [RECORDING_CLAIM_TYPE, HOST_RECEIPT_TYPE, DEVICE_CERTIFICATE_TYPE,
        SESSION_RECORD_TYPE, DEVICE_VOUCH_TYPE, DEVICE_REVOCATION_TYPE]) (statementType s) of
        None \<Rightarrow> 0 | Some i \<Rightarrow> word_of_nat (Suc i))"

definition type_digest :: "u8 list \<Rightarrow> u8 list" where
  "type_digest m = (case parseSignedStatement plain_platform m of
     None \<Rightarrow> replicate 32 0 | Some s \<Rightarrow> type_number s # replicate 31 0)"

definition toy :: platform where
  "toy = plain_platform\<lparr>sha256 := type_digest\<rparr>"

lemma length_pad32 [simp]: "length (pad32 bs) = 32"
  by (simp add: pad32_def)

lemma pad32_pad32 [simp]: "pad32 (pad32 bs) = pad32 bs"
  by (simp add: pad32_def)

lemma toy_ok: "platform_ok toy"
  by (simp add: toy_def plain_platform_def platform_ok_def type_digest_def split: option.split)

lemma toy_nearest [simp]: "nearest toy = (\<lambda>x. x)"
  by (simp add: toy_def plain_platform_def)

text \<open>The address of a statement of a known type on this platform.\<close>

definition type_address :: "u8 \<Rightarrow> jstr" where
  "type_address n = toHex (n # replicate 31 0)"

lemma toy_address:
  assumes "statementBytes s = Inr bytes" "wf_json (\<lambda>x. x) (payload s)" "payload s \<noteq> JUndefined"
  shows "sha256Hex (sha256 toy) bytes = type_address (type_number s)"
proof -
  have "statementType (sorted_signed s) = sorted_form (statementType s)"
    using getprop_sorted_form [OF assms(2)]
    by (simp add: statementType_def sorted_signed_def)
  then have "type_number (sorted_signed s) = type_number s"
    by (simp add: type_number_def)
  then show ?thesis
    using parse_statement_bytes [of s bytes plain_platform] assms
    by (simp add: sha256Hex_def toy_def type_digest_def type_address_def plain_platform_def)
qed

lemma type_address_eq: "type_address 1 \<noteq> type_address 2" "type_address 1 \<noteq> type_address 3"
    "type_address 2 \<noteq> type_address 3" "type_address 1 \<noteq> type_address 6"
    "type_address 2 \<noteq> type_address 6" "type_address 3 \<noteq> type_address 6"
  by (simp_all add: type_address_def toHex_def hexByte_def HEX_DIGITS_def js_def)

section \<open>Every literal can be signed\<close>

lemma sign_total:
  assumes "serializable v"
  obtains s bytes where "signStatement p v sk = Inr s" "statementBytes s = Inr bytes" "payload s = v"
proof -
  obtain t where t: "canonicalJson v = Inr t" using assms canonical_total by blast
  let ?s = "\<lparr>payload = v, signature = toBase64Url (ed_sign p sk (utf8_encode t))\<rparr>"
  have "\<exists>b. statementBytes ?s = Inr b"
    using signed_value_canonical [of ?s t] t
    by (simp add: statementBytes_def assertWellFormed_def)
  then show ?thesis
    using that [of ?s] t by (auto simp: signStatement_def)
qed

lemma sign_total_projr:
  assumes "serializable v"
  shows "signStatement p v sk = Inr (projr (signStatement p v sk))"
    "statementBytes (projr (signStatement p v sk)) = Inr (projr (statementBytes (projr (signStatement p v sk))))"
    "payload (projr (signStatement p v sk)) = v"
  using sign_total [OF assms, of p sk] by (metis sum.sel(2))+

lemma serializable_certificate:
  "wellFormed (dc_personKey c) \<Longrightarrow> wellFormed (dc_deviceKey c) \<Longrightarrow> wellFormed (dc_deviceLabel c)
    \<Longrightarrow> wellFormed (dc_issuedAt c) \<Longrightarrow> serializable (certificate_value c)"
  by (simp add: certificate_value_def obj_def statement_types wellFormed_js plain_unit_def)

lemma serializable_receipt:
  "wellFormed (hr_claim r) \<Longrightarrow> wellFormed (hr_receivedAt r) \<Longrightarrow> wellFormed (hr_hostKey r)
    \<Longrightarrow> serializable (receipt_value r)"
  by (simp add: receipt_value_def obj_def statement_types wellFormed_js plain_unit_def)

lemma serializable_claim:
  "wellFormed (rc_hash c) \<Longrightarrow> isFinite (rc_size c) \<Longrightarrow> wellFormed (rc_mimeType c)
    \<Longrightarrow> wellFormed (rc_startedAt c) \<Longrightarrow> wellFormed (rc_endedAt c) \<Longrightarrow> wellFormed (rc_sessionId c)
    \<Longrightarrow> wellFormed (rc_deviceKey c) \<Longrightarrow> list_all wellFormed (case rc_deviceCert c of None \<Rightarrow> [] | Some a \<Rightarrow> [a])
    \<Longrightarrow> serializable (claim_value c)"
  by (simp add: claim_value_def obj_def statement_types wellFormed_js plain_unit_def split: option.splits)

section \<open>A signed recording\<close>

definition ex_cert :: signed where
  "ex_cert = projr (createDeviceCertificate toy (keyText toy [1]) (js ''laptop'') 0 [2])"
definition ex_cert_bytes :: "u8 list" where
  "ex_cert_bytes = projr (statementBytes ex_cert)"
definition ex_claim :: signed where
  "ex_claim = projr (createRecordingClaim toy (js ''audio'') (Zero False) (js ''audio/wav'') (js ''start'')
     (js ''end'') (Some (js ''session'')) (Some (sha256Hex (sha256 toy) ex_cert_bytes)) [1])"
definition ex_claim_bytes :: "u8 list" where
  "ex_claim_bytes = projr (statementBytes ex_claim)"
definition ex_receipt :: signed where
  "ex_receipt = projr (createHostReceipt toy ex_claim [3] 0)"
definition ex_receipt_bytes :: "u8 list" where
  "ex_receipt_bytes = projr (statementBytes ex_receipt)"

lemma ex_cert: "createDeviceCertificate toy (keyText toy [1]) (js ''laptop'') 0 [2] = Inr ex_cert"
    "statementBytes ex_cert = Inr ex_cert_bytes"
    "sha256Hex (sha256 toy) ex_cert_bytes = type_address 3"
proof -
  let ?v = "certificate_value \<lparr>dc_personKey = keyText toy [2], dc_deviceKey = keyText toy [1],
     dc_deviceLabel = js ''laptop'', dc_issuedAt = toISOString 0\<rparr>"
  have "serializable ?v"
    by (intro serializable_certificate) (simp_all add: exportPublicKey_def wellFormed_js plain_unit_def)
  note t = sign_total_projr [OF this, of toy "[2]"]
  show "createDeviceCertificate toy (keyText toy [1]) (js ''laptop'') 0 [2] = Inr ex_cert"
    and b: "statementBytes ex_cert = Inr ex_cert_bytes"
    using t by (simp_all add: ex_cert_def ex_cert_bytes_def createDeviceCertificate_def)
  have p: "payload ex_cert = ?v" using t by (simp add: ex_cert_def createDeviceCertificate_def)
  have "type_number ex_cert = 3"
    by (simp add: type_number_def statementType_def p certificate_value_def statement_types)
  then show "sha256Hex (sha256 toy) ex_cert_bytes = type_address 3"
    using toy_address [OF b] by (simp add: p certificate_value_def obj_def)
qed

lemma ex_claim: "createRecordingClaim toy (js ''audio'') (Zero False) (js ''audio/wav'') (js ''start'')
     (js ''end'') (Some (js ''session'')) (Some (sha256Hex (sha256 toy) ex_cert_bytes)) [1] = Inr ex_claim"
    "statementBytes ex_claim = Inr ex_claim_bytes"
    "sha256Hex (sha256 toy) ex_claim_bytes = type_address 1"
proof -
  let ?v = "claim_value \<lparr>rc_hash = js ''audio'', rc_size = Zero False, rc_mimeType = js ''audio/wav'',
     rc_startedAt = js ''start'', rc_endedAt = js ''end'', rc_sessionId = js ''session'',
     rc_deviceKey = keyText toy [1], rc_deviceCert = Some (sha256Hex (sha256 toy) ex_cert_bytes)\<rparr>"
  have "serializable ?v"
    by (intro serializable_claim) (simp_all add: exportPublicKey_def wellFormed_js plain_unit_def isFinite_def)
  note t = sign_total_projr [OF this, of toy "[1]"]
  show "createRecordingClaim toy (js ''audio'') (Zero False) (js ''audio/wav'') (js ''start'')
     (js ''end'') (Some (js ''session'')) (Some (sha256Hex (sha256 toy) ex_cert_bytes)) [1] = Inr ex_claim"
    and b: "statementBytes ex_claim = Inr ex_claim_bytes"
    using t by (simp_all add: ex_claim_def ex_claim_bytes_def createRecordingClaim_def)
  have p: "payload ex_claim = ?v" using t by (simp add: ex_claim_def createRecordingClaim_def)
  have "type_number ex_claim = 1"
    by (simp add: type_number_def statementType_def p claim_value_def)
  then show "sha256Hex (sha256 toy) ex_claim_bytes = type_address 1"
    using toy_address [OF b] by (simp add: p claim_value_def obj_def wf_number_def plain_zero_def)
qed

lemma ex_receipt: "createHostReceipt toy ex_claim [3] 0 = Inr ex_receipt"
    "statementBytes ex_receipt = Inr ex_receipt_bytes"
    "sha256Hex (sha256 toy) ex_receipt_bytes = type_address 2"
proof -
  let ?v = "receipt_value \<lparr>hr_claim = type_address 1, hr_receivedAt = toISOString 0, hr_hostKey = keyText toy [3]\<rparr>"
  have c: "createHostReceipt toy ex_claim [3] 0 = signStatement toy ?v [3]"
    using ex_claim(2,3) by (simp add: createHostReceipt_def statementAddress_def)
  have "wellFormed (type_address 1)"
    using wellFormed_hex [of "sha256 toy" ex_claim_bytes] ex_claim(3) by simp
  then have "serializable ?v"
    by (intro serializable_receipt) (simp_all add: exportPublicKey_def)
  note t = sign_total_projr [OF this, of toy "[3]"]
  show "createHostReceipt toy ex_claim [3] 0 = Inr ex_receipt"
    and b: "statementBytes ex_receipt = Inr ex_receipt_bytes"
    using t by (simp_all add: ex_receipt_def ex_receipt_bytes_def c)
  have p: "payload ex_receipt = ?v" using t by (simp add: ex_receipt_def c)
  have "type_number ex_receipt = 2"
    by (simp add: type_number_def statementType_def p receipt_value_def statement_types)
  then show "sha256Hex (sha256 toy) ex_receipt_bytes = type_address 2"
    using toy_address [OF b] by (simp add: p receipt_value_def obj_def)
qed

text \<open>The person withdraws the certificate.\<close>

definition ex_revocation :: signed where
  "ex_revocation = projr (createDeviceRevocation toy ByPerson (keyText toy [1])
     (sha256Hex (sha256 toy) ex_cert_bytes) Lost 0 [2])"
definition ex_revocation_bytes :: "u8 list" where
  "ex_revocation_bytes = projr (statementBytes ex_revocation)"

lemma serializable_revocation:
  "wellFormed (dr_signerKey r) \<Longrightarrow> wellFormed (dr_deviceKey r) \<Longrightarrow> wellFormed (dr_deviceLink r)
    \<Longrightarrow> wellFormed (dr_revokedAt r) \<Longrightarrow> serializable (revocation_value r)"
  by (cases "dr_signedBy r"; cases "dr_reason r")
    (simp_all add: revocation_value_def obj_def statement_types wellFormed_js plain_unit_def)

lemma ex_revocation: "createDeviceRevocation toy ByPerson (keyText toy [1])
     (sha256Hex (sha256 toy) ex_cert_bytes) Lost 0 [2] = Inr ex_revocation"
    "statementBytes ex_revocation = Inr ex_revocation_bytes"
    "sha256Hex (sha256 toy) ex_revocation_bytes = type_address 6"
proof -
  let ?v = "revocation_value (device_revocation_of toy ByPerson (keyText toy [1])
     (sha256Hex (sha256 toy) ex_cert_bytes) Lost 0 [2])"
  have "serializable ?v"
    by (intro serializable_revocation) (simp_all add: exportPublicKey_def device_revocation_of_def)
  note t = sign_total_projr [OF this, of toy "[2]"]
  show "createDeviceRevocation toy ByPerson (keyText toy [1])
      (sha256Hex (sha256 toy) ex_cert_bytes) Lost 0 [2] = Inr ex_revocation"
    and b: "statementBytes ex_revocation = Inr ex_revocation_bytes"
    using t by (simp_all add: ex_revocation_def ex_revocation_bytes_def createDeviceRevocation_def)
  have p: "payload ex_revocation = ?v" using t by (simp add: ex_revocation_def createDeviceRevocation_def)
  have "type_number ex_revocation = 6"
    by (simp add: type_number_def statementType_def p revocation_value_def statement_types)
  then show "sha256Hex (sha256 toy) ex_revocation_bytes = type_address 6"
    using toy_address [OF b] by (simp add: p revocation_value_def obj_def)
qed

text \<open>A statement of a type no recording lists.\<close>

definition ex_join :: signed where
  "ex_join = projr (createJoinRequest toy (js ''Ada'') (js ''cert'') (js ''nonce'') [2])"
definition ex_join_bytes :: "u8 list" where
  "ex_join_bytes = projr (statementBytes ex_join)"

lemma serializable_join:
  "wellFormed (jr_personKey r) \<Longrightarrow> wellFormed (jr_personName r) \<Longrightarrow> wellFormed (jr_certificate r)
    \<Longrightarrow> wellFormed (jr_challenge r) \<Longrightarrow> serializable (join_value r)"
  by (simp add: join_value_def obj_def statement_types wellFormed_js plain_unit_def)

lemma ex_join: "createJoinRequest toy (js ''Ada'') (js ''cert'') (js ''nonce'') [2] = Inr ex_join"
    "statementBytes ex_join = Inr ex_join_bytes"
    "statementType (sorted_signed ex_join) = JString JOIN_REQUEST_TYPE"
    "wf_json n (payload ex_join)" "payload ex_join \<noteq> JUndefined"
proof -
  let ?v = "join_value \<lparr>jr_personKey = keyText toy [2], jr_personName = js ''Ada'',
     jr_certificate = js ''cert'', jr_challenge = js ''nonce''\<rparr>"
  have "serializable ?v"
    by (intro serializable_join) (simp_all add: exportPublicKey_def wellFormed_js plain_unit_def)
  note t = sign_total_projr [OF this, of toy "[2]"]
  show "createJoinRequest toy (js ''Ada'') (js ''cert'') (js ''nonce'') [2] = Inr ex_join"
    and b: "statementBytes ex_join = Inr ex_join_bytes"
    using t by (simp_all add: ex_join_def ex_join_bytes_def createJoinRequest_def)
  have p: "payload ex_join = ?v" using t by (simp add: ex_join_def createJoinRequest_def)
  show wf: "wf_json n (payload ex_join)" "payload ex_join \<noteq> JUndefined" for n
    by (simp_all add: p join_value_def obj_def)
  show "statementType (sorted_signed ex_join) = JString JOIN_REQUEST_TYPE"
    using getprop_sorted_form [OF wf(1)]
    by (simp add: statementType_def sorted_signed_def) (simp add: p join_value_def)
qed

text \<open>The three statements as a document lists them.\<close>

definition ex_statements :: "(jstr \<times> u8 list option) list" where
  "ex_statements = [(sha256Hex (sha256 toy) ex_claim_bytes, Some ex_claim_bytes),
     (sha256Hex (sha256 toy) ex_receipt_bytes, Some ex_receipt_bytes),
     (sha256Hex (sha256 toy) ex_cert_bytes, Some ex_cert_bytes)]"

definition ex_revoked_statements :: "(jstr \<times> u8 list option) list" where
  "ex_revoked_statements = ex_statements
     @ [(sha256Hex (sha256 toy) ex_revocation_bytes, Some ex_revocation_bytes)]"

end
