(* ===== verification/Recording_Provenance.thy ===== *)
theory Recording_Provenance
  imports Example_Platform
begin

text \<open>
  \<^verbatim>\<open>packages/provenance/lib/recordingProvenance.ts\<close>: what the statements listed beside a
  recording prove about it. \<open>verifyRecordingStatements\<close> is composed as the source has it:
  \<open>gather\<close> is the loop over the unique addresses, the \<open>..._failures\<close> functions are the
  four passes that follow, and \<open>conclude\<close> is the rest of the function. \<open>listed\<close> and
  \<open>offender\<close> are the specification: what a listed statement is, and which ones fail.
\<close>

section \<open>Types\<close>

type_synonym blob_ref = "jstr \<times> jsnum"
type_synonym fetched = "jstr \<times> u8 list option"

datatype verified_person =
    ViaCertificate (vp_personKey: jstr) (vp_deviceLabel: jstr) (vp_issuedAt: jstr)
  | ViaVouch (vp_personKey: jstr) (vp_personName: jstr) (vp_deviceLabel: jstr) (vp_hostKey: jstr)
      (vp_hostLabel: jstr) (vp_method: vouch_method) (vp_vouchedAt: jstr)

record verified_session =
  vs_openedAt :: jstr
  vs_closedAt :: jstr
  vs_hostKey :: jstr
  vs_devices :: "(jstr \<times> session_span list) list"

record revoked_device_link =
  rl_signedBy :: revocation_signer
  rl_signerKey :: jstr
  rl_reason :: revocation_reason
  rl_revokedAt :: jstr
  rl_receivedBeforeRevocation :: bool

record claimed_recording =
  cr_deviceKey :: jstr
  cr_startedAt :: jstr
  cr_endedAt :: jstr
  cr_sessionId :: jstr
  cr_session :: "verified_session option"
  cr_person :: "verified_person option"
  cr_deviceLink :: "jstr option"
  cr_revocation :: "revoked_device_link option"

datatype recording_provenance =
    Verified claimed_recording jstr bool
  | DeviceOnly claimed_recording
  | Unverified
  | Failed "(jstr \<times> problem) list"
  | Unavailable "jstr list"

datatype checked =
    KClaim recording_claim
  | KReceipt host_receipt
  | KSession session_record
  | KLink device_link
  | KRevocation device_revocation
  | KUnknown
  | KFailed problem

section \<open>One statement\<close>

definition isCanonical :: "u8 list \<Rightarrow> signed \<Rightarrow> bool" where
  "isCanonical bytes s = (case statementBytes s of Inl _ \<Rightarrow> False | Inr canonical \<Rightarrow> canonical = bytes)"

fun verdict :: "('r \<Rightarrow> checked) \<Rightarrow> problem + (signed \<times> 'r) \<Rightarrow> checked" where
  "verdict k (Inl e) = KFailed e"
| "verdict k (Inr (s, r)) = k r"

definition checkByType :: "platform \<Rightarrow> signed \<Rightarrow> blob_ref \<Rightarrow> checked" where
  "checkByType p s blob =
     (let type = statementType s in
      if type = JString RECORDING_CLAIM_TYPE
      then verdict KClaim (checkRecordingClaim p s (fst blob) (snd blob))
      else if type = JString HOST_RECEIPT_TYPE then verdict KReceipt (checkHostReceipt p s)
      else if type = JString SESSION_RECORD_TYPE then verdict KSession (checkSessionRecord p s)
      else if type = JString DEVICE_CERTIFICATE_TYPE
      then verdict (KLink \<circ> Certificate) (checkDeviceCertificate p s)
      else if type = JString DEVICE_VOUCH_TYPE
      then verdict (KLink \<circ> Vouch) (checkDeviceVouch p s)
      else if type = JString DEVICE_REVOCATION_TYPE
      then verdict KRevocation (checkDeviceRevocation p s)
      else KUnknown)"

definition checkStatement :: "platform \<Rightarrow> jstr \<Rightarrow> u8 list \<Rightarrow> blob_ref \<Rightarrow> checked" where
  "checkStatement p hash bytes blob =
     (if sha256Hex (sha256 p) bytes \<noteq> hash then KFailed AddressMismatch
      else case parseSignedStatement p bytes of
        None \<Rightarrow> KFailed Malformed
      | Some s \<Rightarrow>
          if \<not> isCanonical bytes s then KFailed NotCanonical
          else checkByType p s blob)"

text \<open>
  \<open>Date.parse(iso)\<close> with \<open>Infinity\<close> for a time that does not parse, as a pair ordered
  lexicographically. Equal infinities give the comparator \<open>NaN\<close>, which \<open>sort\<close> reads as
  equal, so the stable sort keeps their order.
\<close>

definition timeOf :: "platform \<Rightarrow> jstr \<Rightarrow> nat \<times> int" where
  "timeOf p t = (case Date_parse p t of None \<Rightarrow> (1, 0) | Some ms \<Rightarrow> (0, ms))"

section \<open>The loop over the listed statements\<close>

record gathered =
  ga_failures :: "(jstr \<times> problem) list"
  ga_missing :: "jstr list"
  ga_claims :: "(jstr \<times> recording_claim) list"
  ga_receipts :: "(jstr \<times> host_receipt) list"
  ga_sessions :: "(jstr \<times> session_record) list"
  ga_links :: "(jstr \<times> device_link) list"
  ga_revocations :: "(jstr \<times> device_revocation) list"

definition gathered_none :: gathered where
  "gathered_none = \<lparr>ga_failures = [], ga_missing = [], ga_claims = [], ga_receipts = [],
     ga_sessions = [], ga_links = [], ga_revocations = []\<rparr>"

definition unique :: "fetched list \<Rightarrow> fetched list" where
  "unique statements = fold (\<lambda>(hash, bytes). AList.update hash bytes) statements []"

definition gather_step :: "platform \<Rightarrow> blob_ref \<Rightarrow> fetched \<Rightarrow> gathered \<Rightarrow> gathered" where
  "gather_step p blob st g =
     (case st of
        (hash, None) \<Rightarrow> g\<lparr>ga_missing := ga_missing g @ [hash]\<rparr>
      | (hash, Some bytes) \<Rightarrow>
          (case checkStatement p hash bytes blob of
             KClaim c \<Rightarrow> g\<lparr>ga_claims := AList.update hash c (ga_claims g)\<rparr>
           | KReceipt r \<Rightarrow> g\<lparr>ga_receipts := ga_receipts g @ [(hash, r)]\<rparr>
           | KSession r \<Rightarrow> g\<lparr>ga_sessions := ga_sessions g @ [(hash, r)]\<rparr>
           | KLink l \<Rightarrow> g\<lparr>ga_links := AList.update hash l (ga_links g)\<rparr>
           | KRevocation r \<Rightarrow> g\<lparr>ga_revocations := AList.update hash r (ga_revocations g)\<rparr>
           | KUnknown \<Rightarrow> g
           | KFailed e \<Rightarrow> g\<lparr>ga_failures := ga_failures g @ [(hash, e)]\<rparr>))"

definition gather :: "platform \<Rightarrow> blob_ref \<Rightarrow> fetched list \<Rightarrow> gathered" where
  "gather p blob statements = fold (gather_step p blob) (unique statements) gathered_none"

section \<open>The passes over what was gathered\<close>

definition receipt_failures :: "gathered \<Rightarrow> (jstr \<times> problem) list" where
  "receipt_failures g = List.map_filter (\<lambda>(hash, receipt).
     if map_of (ga_claims g) (hr_claim receipt) = None then Some (hash, ClaimNotListed) else None)
     (ga_receipts g)"

definition sessionProblem :: "session_record \<Rightarrow> (jstr \<times> recording_claim) list \<Rightarrow> problem option" where
  "sessionProblem rec claims =
     (let inSession = filter (\<lambda>(_, claim). rc_sessionId claim = sr_sessionId rec) claims in
      if inSession = [] then Some SessionMismatch
      else if \<not> list_ex (\<lambda>(address, _). address \<in> set (sr_claims rec)) inSession
      then Some ClaimNotInSession else None)"

definition session_failures :: "gathered \<Rightarrow> (jstr \<times> problem) list" where
  "session_failures g = List.map_filter (\<lambda>(hash, rec).
     map_option (Pair hash) (sessionProblem rec (ga_claims g))) (ga_sessions g)"

definition named_step ::
  "jstr \<times> recording_claim \<Rightarrow> (jstr \<times> recording_claim list) list \<Rightarrow> (jstr \<times> recording_claim list) list" where
  "named_step kc m =
     (case rc_deviceCert (snd kc) of
        None \<Rightarrow> m
      | Some a \<Rightarrow> AList.update a ((case map_of m a of None \<Rightarrow> [] | Some cs \<Rightarrow> cs) @ [snd kc]) m)"

definition named :: "gathered \<Rightarrow> (jstr \<times> recording_claim list) list" where
  "named g = fold named_step (ga_claims g) []"

definition link_failures :: "gathered \<Rightarrow> (jstr \<times> problem) list" where
  "link_failures g = List.map_filter (\<lambda>(hash, link).
     case map_of (named g) hash of
       None \<Rightarrow> Some (hash, CertificateNotClaimed)
     | Some namedBy \<Rightarrow>
         if list_ex (\<lambda>c. rc_deviceKey c \<noteq> link_deviceKey link) namedBy
         then Some (hash, CertificateDeviceMismatch) else None)
     (ga_links g)"

definition revocation_failures :: "gathered \<Rightarrow> (jstr \<times> problem) list" where
  "revocation_failures g = List.map_filter (\<lambda>(hash, revocation).
     case map_of (ga_links g) (dr_deviceLink revocation) of
       None \<Rightarrow> Some (hash, RevocationNotClaimed)
     | Some link \<Rightarrow>
         if \<not> revocationCovers revocation link (dr_deviceLink revocation)
         then Some (hash, RevocationNotPermitted) else None)
     (ga_revocations g)"

definition all_failures :: "gathered \<Rightarrow> (jstr \<times> problem) list" where
  "all_failures g = ga_failures g @ receipt_failures g @ session_failures g @ link_failures g
     @ revocation_failures g"

definition all_missing :: "fetched list \<Rightarrow> gathered \<Rightarrow> jstr list" where
  "all_missing u g =
     ga_missing g @ filter (\<lambda>address. map_of u address = None) (map fst (named g))"

section \<open>What passing statements show\<close>

definition verifiedSession :: "session_record \<Rightarrow> verified_session" where
  "verifiedSession rec = \<lparr>vs_openedAt = sr_openedAt rec, vs_closedAt = sr_closedAt rec,
     vs_hostKey = sr_hostKey rec, vs_devices = map (\<lambda>d. (sd_deviceKey d, sd_spans d)) (sr_devices rec)\<rparr>"

fun verifiedPerson :: "device_link \<Rightarrow> verified_person" where
  "verifiedPerson (Vouch v) = ViaVouch (dv_personKey v) (dv_personName v) (dv_deviceLabel v)
     (dv_hostKey v) (dv_hostLabel v) (dv_method v) (dv_vouchedAt v)"
| "verifiedPerson (Certificate c) = ViaCertificate (dc_personKey c) (dc_deviceLabel c) (dc_issuedAt c)"

definition firstRevocation ::
  "platform \<Rightarrow> jstr \<Rightarrow> device_link \<Rightarrow> (jstr \<times> device_revocation) list \<Rightarrow> device_revocation option" where
  "firstRevocation p linkAddress link revocations =
     (case sort_key (\<lambda>r. timeOf p (dr_revokedAt r))
             (filter (\<lambda>r. revocationCovers r link linkAddress) (map snd revocations)) of
        [] \<Rightarrow> None | r # _ \<Rightarrow> Some r)"

definition revokedDeviceLink :: "platform \<Rightarrow> device_revocation \<Rightarrow> jstr option \<Rightarrow> revoked_device_link" where
  "revokedDeviceLink p revocation receivedAt =
     (let received = Option.bind receivedAt (Date_parse p);
          revoked = Date_parse p (dr_revokedAt revocation)
      in \<lparr>rl_signedBy = dr_signedBy revocation, rl_signerKey = dr_signerKey revocation,
          rl_reason = dr_reason revocation, rl_revokedAt = dr_revokedAt revocation,
          rl_receivedBeforeRevocation =
            (case (received, revoked) of (Some a, Some b) \<Rightarrow> a < b | _ \<Rightarrow> False)\<rparr>)"

definition claimedRecording :: "recording_claim \<Rightarrow> claimed_recording" where
  "claimedRecording claim = \<lparr>cr_deviceKey = rc_deviceKey claim, cr_startedAt = rc_startedAt claim,
     cr_endedAt = rc_endedAt claim, cr_sessionId = rc_sessionId claim, cr_session = None,
     cr_person = None, cr_deviceLink = None, cr_revocation = None\<rparr>"

definition earliest :: "platform \<Rightarrow> gathered \<Rightarrow> host_receipt option" where
  "earliest p g =
     (case sort_key (\<lambda>r. timeOf p (hr_receivedAt r)) (map snd (ga_receipts g)) of
        [] \<Rightarrow> None | r # _ \<Rightarrow> Some r)"

definition claimed_link :: "gathered \<Rightarrow> recording_claim \<Rightarrow> (jstr \<times> device_link) option" where
  "claimed_link g claim =
     Option.bind (rc_deviceCert claim) (\<lambda>address. map_option (Pair address) (map_of (ga_links g) address))"

definition claimed :: "platform \<Rightarrow> gathered \<Rightarrow> recording_claim \<Rightarrow> claimed_recording" where
  "claimed p g claim =
     (let session = (case ga_sessions g of [] \<Rightarrow> None | (_, rec) # _ \<Rightarrow> Some rec);
          link = claimed_link g claim;
          revocation = Option.bind link (\<lambda>(address, l). firstRevocation p address l (ga_revocations g))
      in (claimedRecording claim)
           \<lparr>cr_session := map_option verifiedSession session,
            cr_person := map_option (\<lambda>(_, l). verifiedPerson l) link,
            cr_deviceLink := map_option fst link,
            cr_revocation := map_option
              (\<lambda>r. revokedDeviceLink p r (map_option hr_receivedAt (earliest p g))) revocation\<rparr>)"

definition conclude :: "platform \<Rightarrow> fetched list \<Rightarrow> gathered \<Rightarrow> recording_provenance" where
  "conclude p u g =
     (if all_failures g \<noteq> [] then Failed (all_failures g)
      else if all_missing u g \<noteq> [] then Unavailable (all_missing u g)
      else case earliest p g of
        Some receipt \<Rightarrow>
          (let claim = the (map_of (ga_claims g) (hr_claim receipt)) in
           Verified (claimed p g claim) (hr_receivedAt receipt)
             (hr_hostKey receipt = rc_deviceKey claim))
      | None \<Rightarrow>
          (case ga_claims g of
             [] \<Rightarrow> Unverified
           | (_, claim) # _ \<Rightarrow> DeviceOnly (claimed p g claim)))"

definition verifyRecordingStatements ::
  "platform \<Rightarrow> blob_ref \<Rightarrow> fetched list \<Rightarrow> recording_provenance" where
  "verifyRecordingStatements p blob statements =
     conclude p (unique statements) (gather p blob statements)"

section \<open>The gathered statements\<close>

text \<open>
  \<open>listed\<close>: the document lists the address with these bytes, and this is what checking them
  gives. A repeated address keeps its last bytes, as \<open>new Map(...)\<close> does.
\<close>

definition listed :: "platform \<Rightarrow> blob_ref \<Rightarrow> fetched list \<Rightarrow> jstr \<Rightarrow> checked \<Rightarrow> bool" where
  "listed p blob sts hash k \<longleftrightarrow>
     (\<exists>bytes. map_of (unique sts) hash = Some (Some bytes) \<and> checkStatement p hash bytes blob = k)"

lemma distinct_fold_update:
  "distinct (map fst m) \<Longrightarrow> distinct (map fst (fold (\<lambda>(h, b). AList.update h b) sts m))"
  by (induction sts arbitrary: m) (auto simp: distinct_update)

lemma distinct_unique: "distinct (map fst (unique sts))"
  by (simp add: unique_def distinct_fold_update)

lemma map_of_unique: "map_of (unique sts) = map_of (rev sts)"
proof -
  have "map_of (fold (\<lambda>(h, b). AList.update h b) sts m) = map_of (rev sts @ m)" for m :: "fetched list"
    by (induction sts arbitrary: m) (auto simp: map_add_def fun_eq_iff split: option.split)
  then show ?thesis by (simp add: unique_def)
qed

lemma unique_mem: "(h, b) \<in> set (unique sts) \<longleftrightarrow> map_of (unique sts) h = Some b"
  using distinct_unique by simp

lemma unique_perm: "distinct (map fst sts) \<Longrightarrow> unique sts = sts"
  by (simp add: unique_def fold_AList_update_distinct)

text \<open>Each list of \<open>gathered\<close> is the listed statements of its kind, in order.\<close>

definition pick :: "platform \<Rightarrow> blob_ref \<Rightarrow> (checked \<Rightarrow> 'a option) \<Rightarrow> fetched list \<Rightarrow> (jstr \<times> 'a) list" where
  "pick p blob f u = List.map_filter (\<lambda>(h, b).
     case b of None \<Rightarrow> None | Some bytes \<Rightarrow> map_option (Pair h) (f (checkStatement p h bytes blob))) u"

fun as_claim where "as_claim (KClaim c) = Some c" | "as_claim _ = None"
fun as_receipt where "as_receipt (KReceipt c) = Some c" | "as_receipt _ = None"
fun as_session where "as_session (KSession c) = Some c" | "as_session _ = None"
fun as_link where "as_link (KLink c) = Some c" | "as_link _ = None"
fun as_revocation where "as_revocation (KRevocation c) = Some c" | "as_revocation _ = None"
fun as_failed where "as_failed (KFailed c) = Some c" | "as_failed _ = None"

lemma as_eq [simp]:
  "as_claim k = Some c \<longleftrightarrow> k = KClaim c"
  "as_receipt k = Some r \<longleftrightarrow> k = KReceipt r"
  "as_session k = Some s \<longleftrightarrow> k = KSession s"
  "as_link k = Some l \<longleftrightarrow> k = KLink l"
  "as_revocation k = Some v \<longleftrightarrow> k = KRevocation v"
  "as_failed k = Some e \<longleftrightarrow> k = KFailed e"
  by (cases k; auto)+

lemma pick_simps [simp]:
  "pick p blob f [] = []"
  "pick p blob f ((h, None) # u) = pick p blob f u"
  "pick p blob f ((h, Some b) # u) =
     (case f (checkStatement p h b blob) of None \<Rightarrow> pick p blob f u | Some x \<Rightarrow> (h, x) # pick p blob f u)"
  by (auto simp: pick_def List.map_filter_def split: option.split)

lemma pick_append [simp]: "pick p blob f (u @ v) = pick p blob f u @ pick p blob f v"
  by (simp add: pick_def List.map_filter_def)

lemma pick_mem:
  "(h, x) \<in> set (pick p blob f u) \<longleftrightarrow>
     (\<exists>b. (h, Some b) \<in> set u \<and> f (checkStatement p h b blob) = Some x)"
proof (induction u)
  case (Cons y u)
  obtain h' b where y: "y = (h', b)" by (cases y)
  show ?case
    by (cases b) (auto simp: y Cons.IH split: option.split)
qed simp

lemma pick_fst: "h \<notin> fst ` set u \<Longrightarrow> h \<notin> fst ` set (pick p blob f u)"
  by (auto simp: pick_mem) (force simp: image_iff)

lemma distinct_pick: "distinct (map fst u) \<Longrightarrow> distinct (map fst (pick p blob f u))"
proof (induction u)
  case (Cons y u)
  obtain h' b where y: "y = (h', b)" by (cases y)
  show ?case
    using Cons pick_fst [of h' u p blob f] by (cases b) (simp_all add: y split: option.split)
qed simp

lemma update_pick:
  "h \<notin> fst ` set u \<Longrightarrow> AList.update h y (pick p blob f u) = pick p blob f u @ [(h, y)]"
  by (intro AList_update_append pick_fst)

lemma gather_step_simps:
  "gather_step p blob (h, None) g = g\<lparr>ga_missing := ga_missing g @ [h]\<rparr>"
  "gather_step p blob (h, Some bytes) g =
     (case checkStatement p h bytes blob of
        KClaim c \<Rightarrow> g\<lparr>ga_claims := AList.update h c (ga_claims g)\<rparr>
      | KReceipt r \<Rightarrow> g\<lparr>ga_receipts := ga_receipts g @ [(h, r)]\<rparr>
      | KSession r \<Rightarrow> g\<lparr>ga_sessions := ga_sessions g @ [(h, r)]\<rparr>
      | KLink l \<Rightarrow> g\<lparr>ga_links := AList.update h l (ga_links g)\<rparr>
      | KRevocation r \<Rightarrow> g\<lparr>ga_revocations := AList.update h r (ga_revocations g)\<rparr>
      | KUnknown \<Rightarrow> g
      | KFailed e \<Rightarrow> g\<lparr>ga_failures := ga_failures g @ [(h, e)]\<rparr>)"
  by (simp_all add: gather_step_def)

lemma gather_fold:
  assumes "distinct (map fst (u @ v))"
  shows "fold (gather_step p blob) (u :: fetched list) gathered_none =
     \<lparr>ga_failures = pick p blob as_failed u,
      ga_missing = map fst (filter (\<lambda>(h, b). b = None) u),
      ga_claims = pick p blob as_claim u, ga_receipts = pick p blob as_receipt u,
      ga_sessions = pick p blob as_session u, ga_links = pick p blob as_link u,
      ga_revocations = pick p blob as_revocation u\<rparr>"
  using assms
proof (induction u arbitrary: v rule: rev_induct)
  case Nil
  then show ?case by (simp add: gathered_none_def)
next
  case (snoc x u)
  obtain h b where x: "x = (h, b)" by (cases x)
  have IH: "fold (gather_step p blob) u gathered_none = \<lparr>ga_failures = pick p blob as_failed u,
      ga_missing = map fst (filter (\<lambda>(h, b). b = None) u),
      ga_claims = pick p blob as_claim u, ga_receipts = pick p blob as_receipt u,
      ga_sessions = pick p blob as_session u, ga_links = pick p blob as_link u,
      ga_revocations = pick p blob as_revocation u\<rparr>"
    using snoc.prems by (intro snoc.IH [of "x # v"]) simp
  have new: "h \<notin> fst ` set u" using snoc.prems x by auto
  show ?case
  proof (cases b)
    case None
    then show ?thesis by (simp add: x IH gather_step_simps)
  next
    case (Some bytes)
    then show ?thesis
      by (cases "checkStatement p h bytes blob") (simp_all add: x IH gather_step_simps update_pick new)
  qed
qed

lemma gather_eq:
  "gather p blob sts =
     \<lparr>ga_failures = pick p blob as_failed (unique sts),
      ga_missing = map fst (filter (\<lambda>(h, b). b = None) (unique sts)),
      ga_claims = pick p blob as_claim (unique sts), ga_receipts = pick p blob as_receipt (unique sts),
      ga_sessions = pick p blob as_session (unique sts), ga_links = pick p blob as_link (unique sts),
      ga_revocations = pick p blob as_revocation (unique sts)\<rparr>"
  unfolding gather_def using gather_fold [of "unique sts" "[]"] distinct_unique by simp

lemma pick_listed:
  "(h, x) \<in> set (pick p blob f (unique sts)) \<longleftrightarrow> (\<exists>k. listed p blob sts h k \<and> f k = Some x)"
  by (auto simp: pick_mem listed_def unique_mem)

lemma gathered_mem:
  "(h, c) \<in> set (ga_claims (gather p blob sts)) \<longleftrightarrow> listed p blob sts h (KClaim c)"
  "(h, r) \<in> set (ga_receipts (gather p blob sts)) \<longleftrightarrow> listed p blob sts h (KReceipt r)"
  "(h, s) \<in> set (ga_sessions (gather p blob sts)) \<longleftrightarrow> listed p blob sts h (KSession s)"
  "(h, l) \<in> set (ga_links (gather p blob sts)) \<longleftrightarrow> listed p blob sts h (KLink l)"
  "(h, v) \<in> set (ga_revocations (gather p blob sts)) \<longleftrightarrow> listed p blob sts h (KRevocation v)"
  "(h, e) \<in> set (ga_failures (gather p blob sts)) \<longleftrightarrow> listed p blob sts h (KFailed e)"
  "h \<in> set (ga_missing (gather p blob sts)) \<longleftrightarrow> map_of (unique sts) h = Some None"
  by (auto simp: gather_eq pick_listed unique_mem [symmetric]) (force simp: image_iff)

lemma gathered_map_of:
  "map_of (ga_claims (gather p blob sts)) h = Some c \<longleftrightarrow> listed p blob sts h (KClaim c)"
  "map_of (ga_links (gather p blob sts)) h = Some l \<longleftrightarrow> listed p blob sts h (KLink l)"
  by (simp_all add: gathered_mem [symmetric])
     (simp_all add: gather_eq distinct_pick distinct_unique)

lemma gathered_map_of_None:
  "map_of (ga_claims (gather p blob sts)) h = None \<longleftrightarrow> (\<forall>c. \<not> listed p blob sts h (KClaim c))"
  "map_of (ga_links (gather p blob sts)) h = None \<longleftrightarrow> (\<forall>l. \<not> listed p blob sts h (KLink l))"
  by (metis gathered_map_of(1) not_Some_eq, metis gathered_map_of(2) not_Some_eq)

lemma listed_unique_kind: "listed p blob sts h k \<Longrightarrow> listed p blob sts h k' \<Longrightarrow> k = k'"
  by (auto simp: listed_def)

section \<open>Which listed statements fail\<close>

inductive offender :: "platform \<Rightarrow> blob_ref \<Rightarrow> fetched list \<Rightarrow> jstr \<Rightarrow> problem \<Rightarrow> bool"
  for p :: platform and blob :: blob_ref and sts :: "fetched list" where
  own: "listed p blob sts h (KFailed e) \<Longrightarrow> offender p blob sts h e"
| receipt: "listed p blob sts h (KReceipt r) \<Longrightarrow> \<forall>c. \<not> listed p blob sts (hr_claim r) (KClaim c)
    \<Longrightarrow> offender p blob sts h ClaimNotListed"
| other_session: "listed p blob sts h (KSession r)
    \<Longrightarrow> \<forall>a c. listed p blob sts a (KClaim c) \<longrightarrow> rc_sessionId c \<noteq> sr_sessionId r
    \<Longrightarrow> offender p blob sts h SessionMismatch"
| not_in_session: "listed p blob sts h (KSession r)
    \<Longrightarrow> \<exists>a c. listed p blob sts a (KClaim c) \<and> rc_sessionId c = sr_sessionId r
    \<Longrightarrow> \<forall>a c. listed p blob sts a (KClaim c) \<and> rc_sessionId c = sr_sessionId r \<longrightarrow> a \<notin> set (sr_claims r)
    \<Longrightarrow> offender p blob sts h ClaimNotInSession"
| not_claimed: "listed p blob sts h (KLink l)
    \<Longrightarrow> \<forall>a c. listed p blob sts a (KClaim c) \<longrightarrow> rc_deviceCert c \<noteq> Some h
    \<Longrightarrow> offender p blob sts h CertificateNotClaimed"
| other_device: "listed p blob sts h (KLink l) \<Longrightarrow> listed p blob sts a (KClaim c)
    \<Longrightarrow> rc_deviceCert c = Some h \<Longrightarrow> rc_deviceKey c \<noteq> link_deviceKey l
    \<Longrightarrow> offender p blob sts h CertificateDeviceMismatch"
| no_link: "listed p blob sts h (KRevocation r) \<Longrightarrow> \<forall>l. \<not> listed p blob sts (dr_deviceLink r) (KLink l)
    \<Longrightarrow> offender p blob sts h RevocationNotClaimed"
| not_permitted: "listed p blob sts h (KRevocation r) \<Longrightarrow> listed p blob sts (dr_deviceLink r) (KLink l)
    \<Longrightarrow> \<not> revocationCovers r l (dr_deviceLink r)
    \<Longrightarrow> offender p blob sts h RevocationNotPermitted"

inductive_simps offender_problem:
  "offender p blob sts h ClaimNotListed"
  "offender p blob sts h CertificateNotClaimed"
  "offender p blob sts h RevocationNotPermitted"

text \<open>The addresses a reader would still have to fetch.\<close>

definition unfetched :: "platform \<Rightarrow> blob_ref \<Rightarrow> fetched list \<Rightarrow> jstr set" where
  "unfetched p blob sts = {h. map_of (unique sts) h = Some None \<or>
     (map_of (unique sts) h = None \<and> (\<exists>a c. listed p blob sts a (KClaim c) \<and> rc_deviceCert c = Some h))}"

abbreviation namers :: "(jstr \<times> recording_claim) list \<Rightarrow> jstr \<Rightarrow> recording_claim list" where
  "namers claims a \<equiv> filter (\<lambda>c. rc_deviceCert c = Some a) (map snd claims)"

lemma map_of_named:
  "map_of (named g) a = (if namers (ga_claims g) a = [] then None else Some (namers (ga_claims g) a))"
proof -
  have "map_of (fold named_step cs []) a = (if namers cs a = [] then None else Some (namers cs a))" for cs
    by (induction cs rule: rev_induct) (auto simp: named_step_def split: option.split if_splits)
  then show ?thesis by (simp add: named_def)
qed

lemma set_map_filter_pair:
  "y \<in> set (List.map_filter (\<lambda>(a, b). f a b) xs) \<longleftrightarrow> (\<exists>a b. (a, b) \<in> set xs \<and> f a b = Some y)"
  by (auto simp: set_map_filter Bex_def)

lemma sessionProblem_eq:
  "sessionProblem rec claims = Some e \<longleftrightarrow>
     (e = SessionMismatch \<and> (\<forall>a c. (a, c) \<in> set claims \<longrightarrow> rc_sessionId c \<noteq> sr_sessionId rec)) \<or>
     (e = ClaimNotInSession \<and> (\<exists>a c. (a, c) \<in> set claims \<and> rc_sessionId c = sr_sessionId rec) \<and>
       (\<forall>a c. (a, c) \<in> set claims \<and> rc_sessionId c = sr_sessionId rec \<longrightarrow> a \<notin> set (sr_claims rec)))"
  unfolding sessionProblem_def Let_def by (auto simp: filter_empty_conv list_ex_iff split: if_splits)

lemma namers_mem:
  "namers (ga_claims (gather p blob sts)) h = [] \<longleftrightarrow>
     (\<forall>a c. listed p blob sts a (KClaim c) \<longrightarrow> rc_deviceCert c \<noteq> Some h)"
  "c \<in> set (namers (ga_claims (gather p blob sts)) h) \<longleftrightarrow>
     (\<exists>a. listed p blob sts a (KClaim c)) \<and> rc_deviceCert c = Some h"
  by (force simp: filter_empty_conv gathered_mem(1) [symmetric])+

lemma receipt_failures_mem:
  "(h, e) \<in> set (receipt_failures (gather p blob sts)) \<longleftrightarrow>
     (\<exists>r. listed p blob sts h (KReceipt r) \<and> e = ClaimNotListed \<and>
        (\<forall>c. \<not> listed p blob sts (hr_claim r) (KClaim c)))"
  by (auto simp: receipt_failures_def set_map_filter gathered_map_of_None Bex_def gathered_mem
      split: if_splits)

lemma session_failures_mem:
  "(h, e) \<in> set (session_failures (gather p blob sts)) \<longleftrightarrow>
     (\<exists>r. listed p blob sts h (KSession r) \<and> sessionProblem r (ga_claims (gather p blob sts)) = Some e)"
  by (auto simp: session_failures_def set_map_filter Bex_def gathered_mem)

lemma link_failures_mem:
  "(h, e) \<in> set (link_failures (gather p blob sts)) \<longleftrightarrow>
     (\<exists>l. listed p blob sts h (KLink l) \<and>
       ((e = CertificateNotClaimed \<and> (\<forall>a c. listed p blob sts a (KClaim c) \<longrightarrow> rc_deviceCert c \<noteq> Some h)) \<or>
        (e = CertificateDeviceMismatch \<and> (\<exists>a c. listed p blob sts a (KClaim c) \<and>
           rc_deviceCert c = Some h \<and> rc_deviceKey c \<noteq> link_deviceKey l))))"
proof -
  let ?ns = "namers (ga_claims (gather p blob sts)) h"
  have "(h, e) \<in> set (link_failures (gather p blob sts)) \<longleftrightarrow>
     (\<exists>l. listed p blob sts h (KLink l) \<and>
       ((e = CertificateNotClaimed \<and> ?ns = []) \<or>
        (e = CertificateDeviceMismatch \<and> (\<exists>c. c \<in> set ?ns \<and> rc_deviceKey c \<noteq> link_deviceKey l))))"
    unfolding link_failures_def set_map_filter map_of_named gathered_mem [symmetric]
    by (cases "?ns = []") (auto simp: list_ex_iff Bex_def simp del: set_filter split: if_splits)
  then show ?thesis
    unfolding namers_mem by blast
qed

lemma revocation_failures_mem:
  "(h, e) \<in> set (revocation_failures (gather p blob sts)) \<longleftrightarrow>
     (\<exists>r. listed p blob sts h (KRevocation r) \<and>
       ((e = RevocationNotClaimed \<and> (\<forall>l. \<not> listed p blob sts (dr_deviceLink r) (KLink l))) \<or>
        (e = RevocationNotPermitted \<and> (\<exists>l. listed p blob sts (dr_deviceLink r) (KLink l)
           \<and> \<not> revocationCovers r l (dr_deviceLink r)))))"
proof -
  have eq: "(case map_of links d of None \<Rightarrow> Some (h', RevocationNotClaimed)
      | Some link \<Rightarrow> if \<not> revocationCovers r link d then Some (h', RevocationNotPermitted) else None)
      = Some (h, e) \<longleftrightarrow> h' = h \<and>
        ((e = RevocationNotClaimed \<and> map_of links d = None) \<or>
         (e = RevocationNotPermitted \<and> (\<exists>l. map_of links d = Some l \<and> \<not> revocationCovers r l d)))"
    for links d r h'
    by (auto split: option.splits)
  show ?thesis
    unfolding revocation_failures_def set_map_filter_pair eq gathered_mem gathered_map_of
      gathered_map_of_None by blast
qed

lemma all_failures_offender:
  "(h, e) \<in> set (all_failures (gather p blob sts)) \<longleftrightarrow> offender p blob sts h e"
proof
  assume "(h, e) \<in> set (all_failures (gather p blob sts))"
  then show "offender p blob sts h e"
    unfolding all_failures_def set_append Un_iff receipt_failures_mem session_failures_mem
      link_failures_mem revocation_failures_mem sessionProblem_eq gathered_mem
    by (elim disjE exE conjE) (simp_all add: own receipt other_session not_claimed no_link,
      (rule not_in_session other_device not_permitted; blast)+)
next
  assume "offender p blob sts h e"
  then show "(h, e) \<in> set (all_failures (gather p blob sts))"
    unfolding all_failures_def set_append Un_iff receipt_failures_mem session_failures_mem
      link_failures_mem revocation_failures_mem sessionProblem_eq gathered_mem
    by cases (auto simp: gathered_mem)
qed

lemma all_missing_unfetched:
  "set (all_missing (unique sts) (gather p blob sts)) = unfetched p blob sts"
proof -
  have "a \<in> set (map fst (named (gather p blob sts))) \<longleftrightarrow>
      (\<exists>b c. listed p blob sts b (KClaim c) \<and> rc_deviceCert c = Some a)" for a
    using map_of_eq_None_iff [of "named (gather p blob sts)" a]
    by (auto simp: map_of_named namers_mem split: if_splits)
  then show ?thesis
    by (auto simp: all_missing_def unfetched_def gathered_mem)
qed

section \<open>What a passing statement tells\<close>

text \<open>\<open>s\<close> is the statement in the listed bytes, which hash to their address and are canonical.\<close>

definition fetched_statement :: "platform \<Rightarrow> fetched list \<Rightarrow> jstr \<Rightarrow> signed \<Rightarrow> bool" where
  "fetched_statement p sts hash s \<longleftrightarrow>
     (\<exists>bytes. (hash, Some bytes) \<in> set sts \<and> sha256Hex (sha256 p) bytes = hash \<and>
        parseSignedStatement p bytes = Some s \<and> statementBytes s = Inr bytes)"

lemma verdict_passed:
  "verdict f chk = k \<Longrightarrow> \<forall>e. k \<noteq> KFailed e \<Longrightarrow> \<exists>s r. chk = Inr (s, r) \<and> k = f r"
  by (cases chk) auto

definition passes_as :: "platform \<Rightarrow> signed \<Rightarrow> blob_ref \<Rightarrow> checked \<Rightarrow> bool" where
  "passes_as p s blob k \<longleftrightarrow>
     (case k of
        KClaim c \<Rightarrow> checkRecordingClaim p s (fst blob) (snd blob) = Inr (s, c)
      | KReceipt r \<Rightarrow> checkHostReceipt p s = Inr (s, r)
      | KSession r \<Rightarrow> checkSessionRecord p s = Inr (s, r)
      | KLink l \<Rightarrow> checkDeviceLink p s = Inr (s, l)
      | KRevocation r \<Rightarrow> checkDeviceRevocation p s = Inr (s, r)
      | _ \<Rightarrow> False)"

lemma checkByType_passed:
  assumes "checkByType p s blob = k" "k \<noteq> KUnknown" "\<forall>e. k \<noteq> KFailed e"
  shows "passes_as p s blob k"
proof -
  consider (claim) "verdict KClaim (checkRecordingClaim p s (fst blob) (snd blob)) = k"
    | (receipt) "verdict KReceipt (checkHostReceipt p s) = k"
    | (session) "verdict KSession (checkSessionRecord p s) = k"
    | (cert) "verdict (KLink \<circ> Certificate) (checkDeviceCertificate p s) = k"
    | (vouch) "verdict (KLink \<circ> Vouch) (checkDeviceVouch p s) = k"
    | (rev) "verdict KRevocation (checkDeviceRevocation p s) = k"
    using assms(1,2) unfolding checkByType_def Let_def by (auto split: if_splits)
  then show ?thesis
    by cases (drule verdict_passed [OF _ assms(3)],
      force simp: passes_as_def checkDeviceLink_ok_iff checkRecordingClaim_ok_iff receipt_kind.check_ok_iff
        session_kind.check_ok_iff certificate_kind.check_ok_iff vouch_kind.check_ok_iff
        revocation_kind.check_ok_iff)+
qed

lemma listed_passed:
  assumes "listed p blob sts h k" "k \<noteq> KUnknown" "\<forall>e. k \<noteq> KFailed e"
  shows "\<exists>s. fetched_statement p sts h s \<and> passes_as p s blob k"
proof -
  obtain bytes where b: "map_of (unique sts) h = Some (Some bytes)" "checkStatement p h bytes blob = k"
    using assms(1) by (auto simp: listed_def)
  have mem: "(h, Some bytes) \<in> set sts"
    using map_of_SomeD [of "rev sts" h "Some bytes"] b(1) by (simp add: map_of_unique)
  have h: "sha256Hex (sha256 p) bytes = h"
    using assms(3) b(2) by (auto simp: checkStatement_def split: if_splits)
  obtain s where s: "parseSignedStatement p bytes = Some s"
    using assms(3) b(2) h by (auto simp: checkStatement_def split: option.splits)
  have c: "isCanonical bytes s"
    using assms(3) b(2) h s by (auto simp: checkStatement_def split: if_splits)
  then have "statementBytes s = Inr bytes"
    by (auto simp: isCanonical_def split: sum.splits)
  moreover have "passes_as p s blob k"
    using b(2) h s c assms(2,3) by (intro checkByType_passed) (simp_all add: checkStatement_def)
  ultimately show ?thesis
    using mem h s by (auto simp: fetched_statement_def)
qed

lemma listed_claim:
  assumes "listed p blob sts h (KClaim c)"
  shows "\<exists>s. fetched_statement p sts h s \<and> isRecordingClaim (payload s) = Some c \<and> rc_hash c = fst blob
    \<and> num_eq (rc_size c) (snd blob) \<and> verifyStatement p s (KeyText (rc_deviceKey c))"
  using listed_passed [OF assms] by (auto simp: passes_as_def checkRecordingClaim_ok_iff)

lemma listed_receipt:
  assumes "listed p blob sts h (KReceipt r)"
  shows "\<exists>s. fetched_statement p sts h s \<and> isHostReceipt (payload s) = Some r
    \<and> verifyStatement p s (KeyText (hr_hostKey r))"
  using listed_passed [OF assms] by (auto simp: passes_as_def receipt_kind.check_ok_iff)

lemma listed_session:
  assumes "listed p blob sts h (KSession r)"
  shows "\<exists>s. fetched_statement p sts h s \<and> isSessionRecord (payload s) = Some r
    \<and> verifyStatement p s (KeyText (sr_hostKey r))"
  using listed_passed [OF assms] by (auto simp: passes_as_def session_kind.check_ok_iff)

lemma listed_link:
  assumes "listed p blob sts h (KLink l)"
  shows "\<exists>s. fetched_statement p sts h s \<and> checkDeviceLink p s = Inr (s, l)
    \<and> verifyStatement p s (KeyText (link_signer l))"
  using listed_passed [OF assms] checkDeviceLink_signed by (auto simp: passes_as_def)

lemma listed_revocation:
  assumes "listed p blob sts h (KRevocation r)"
  shows "\<exists>s. fetched_statement p sts h s \<and> isDeviceRevocation (payload s) = Some r
    \<and> verifyStatement p s (KeyText (dr_signerKey r))"
  using listed_passed [OF assms] by (auto simp: passes_as_def revocation_kind.check_ok_iff)

section \<open>The outcomes\<close>

lemma earliest_Some:
  assumes "earliest p g = Some r"
  shows "r \<in> snd ` set (ga_receipts g)"
    "r' \<in> snd ` set (ga_receipts g) \<Longrightarrow> timeOf p (hr_receivedAt r) \<le> timeOf p (hr_receivedAt r')"
proof -
  let ?f = "\<lambda>r. timeOf p (hr_receivedAt r)"
  let ?rs = "map snd (ga_receipts g)"
  from assms obtain rs where rs: "sort_key ?f ?rs = r # rs"
    by (auto simp: earliest_def split: list.splits)
  then have s: "set (r # rs) = snd ` set (ga_receipts g)"
    using set_sort [of ?f ?rs] by simp
  then show "r \<in> snd ` set (ga_receipts g)" by auto
  have "sorted (map ?f (r # rs))" using sorted_sort_key [of ?f ?rs] rs by simp
  then show "r' \<in> snd ` set (ga_receipts g) \<Longrightarrow> ?f r \<le> ?f r'"
    using s by auto
qed

lemma first_None: "(case xs of [] \<Rightarrow> None | x # _ \<Rightarrow> Some x) = None \<longleftrightarrow> xs = []"
  by (cases xs) simp_all

lemma earliest_None: "earliest p g = None \<longleftrightarrow> ga_receipts g = []"
proof -
  have "earliest p g = None \<longleftrightarrow> sort_key (\<lambda>r. timeOf p (hr_receivedAt r)) (map snd (ga_receipts g)) = []"
    by (simp only: earliest_def first_None)
  then show ?thesis by simp
qed

lemma no_failures: "all_failures (gather p blob sts) = [] \<longleftrightarrow> (\<forall>h e. \<not> offender p blob sts h e)"
  using all_failures_offender [of _ _ p blob sts] by (cases "all_failures (gather p blob sts)") auto

lemma nothing_missing: "all_missing (unique sts) (gather p blob sts) = [] \<longleftrightarrow> unfetched p blob sts = {}"
  using all_missing_unfetched [of sts p blob] by (metis set_empty)

lemmas outcome_defs = verifyRecordingStatements_def conclude_def no_failures nothing_missing

lemma receipt_names_claim:
  assumes "\<forall>h e. \<not> offender p blob sts h e" "listed p blob sts h (KReceipt r)"
  shows "\<exists>c. listed p blob sts (hr_claim r) (KClaim c)"
  using assms offender.receipt [OF assms(2)] by blast

lemma verified_outcome:
  assumes "verifyRecordingStatements p blob sts = Verified c t byHost"
  obtains h r claim where "listed p blob sts h (KReceipt r)" "listed p blob sts (hr_claim r) (KClaim claim)"
    "earliest p (gather p blob sts) = Some r"
    "c = claimed p (gather p blob sts) claim" "t = hr_receivedAt r"
    "byHost = (hr_hostKey r = rc_deviceKey claim)"
    "\<forall>h e. \<not> offender p blob sts h e" "unfetched p blob sts = {}"
proof -
  from assms have ok: "\<forall>h e. \<not> offender p blob sts h e" "unfetched p blob sts = {}"
    by (auto simp: outcome_defs split: if_splits)
  with assms obtain r where r: "earliest p (gather p blob sts) = Some r"
    by (auto simp: outcome_defs split: option.splits list.splits)
  obtain h where h: "listed p blob sts h (KReceipt r)"
    using earliest_Some(1) [OF r] by (auto simp: gathered_mem)
  obtain claim where cl: "listed p blob sts (hr_claim r) (KClaim claim)"
    using receipt_names_claim [OF ok(1) h] by blast
  then have "map_of (ga_claims (gather p blob sts)) (hr_claim r) = Some claim"
    by (simp add: gathered_map_of)
  with assms ok r h cl that show ?thesis
    by (simp add: outcome_defs Let_def)
qed

fun shown :: "recording_provenance \<Rightarrow> claimed_recording option" where
  "shown (Verified c t byHost) = Some c"
| "shown (DeviceOnly c) = Some c"
| "shown _ = None"

lemma shown_outcome:
  assumes "shown (verifyRecordingStatements p blob sts) = Some c"
  obtains a claim where "listed p blob sts a (KClaim claim)" "c = claimed p (gather p blob sts) claim"
    "\<forall>h e. \<not> offender p blob sts h e"
proof (cases "verifyRecordingStatements p blob sts")
  case (Verified c' t b)
  with assms have "c' = c" by simp
  with Verified show ?thesis using verified_outcome [of p blob sts c t b] that by blast
next
  case (DeviceOnly c')
  with assms have d: "verifyRecordingStatements p blob sts = DeviceOnly c" by simp
  then have ok: "\<forall>h e. \<not> offender p blob sts h e"
    by (auto simp: outcome_defs split: if_splits)
  from d obtain a claim cs where g: "ga_claims (gather p blob sts) = (a, claim) # cs"
    and c: "c = claimed p (gather p blob sts) claim"
    by (auto simp: outcome_defs Let_def split: if_splits option.splits list.splits)
  from g have "listed p blob sts a (KClaim claim)"
    using gathered_mem(1) [of a claim p blob sts] by simp
  with c ok that show ?thesis by blast
qed (use assms in simp_all)

text \<open>A shown recording is verified with the time of the earliest receipt when there is one.\<close>

lemma shown_receipt:
  assumes "shown (verifyRecordingStatements p blob sts) = Some c"
  shows "map_option hr_receivedAt (earliest p (gather p blob sts)) = Some t \<longleftrightarrow>
    (\<exists>byHost. verifyRecordingStatements p blob sts = Verified c t byHost)"
proof (cases "earliest p (gather p blob sts)")
  case None
  then show ?thesis
    using verified_outcome [of p blob sts c t] by auto
next
  case (Some r)
  with assms show ?thesis
    by (auto simp: outcome_defs Let_def split: if_splits)
qed

lemma receivedBefore_iff:
  "rl_receivedBeforeRevocation (revokedDeviceLink p r receivedAt) \<longleftrightarrow>
     (\<exists>t x y. receivedAt = Some t \<and> Date_parse p t = Some x
        \<and> Date_parse p (dr_revokedAt r) = Some y \<and> x < y)"
  by (auto simp: revokedDeviceLink_def Let_def bind_eq_Some_conv split: option.splits)

lemma claimed_link_listed:
  "claimed_link (gather p blob sts) claim = Some (a, l) \<longleftrightarrow>
     rc_deviceCert claim = Some a \<and> listed p blob sts a (KLink l)"
  by (auto simp: claimed_link_def bind_eq_Some_conv gathered_map_of)

lemma claimed_fields:
  "cr_deviceKey (claimed p g claim) = rc_deviceKey claim"
  "cr_startedAt (claimed p g claim) = rc_startedAt claim"
  "cr_endedAt (claimed p g claim) = rc_endedAt claim"
  "cr_sessionId (claimed p g claim) = rc_sessionId claim"
  "cr_person (claimed p g claim) = map_option (\<lambda>(_, l). verifiedPerson l) (claimed_link g claim)"
  "cr_deviceLink (claimed p g claim) = map_option fst (claimed_link g claim)"
  "cr_session (claimed p g claim) = (case ga_sessions g of [] \<Rightarrow> None | (_, rec) # _ \<Rightarrow> Some (verifiedSession rec))"
  by (simp_all add: claimed_def claimedRecording_def Let_def split: list.split)

lemma link_matches_claim:
  assumes "\<forall>h e. \<not> offender p blob sts h e" "listed p blob sts a (KClaim claim)"
    "rc_deviceCert claim = Some h" "listed p blob sts h (KLink l)"
  shows "link_deviceKey l = rc_deviceKey claim"
  using assms offender.other_device [OF assms(4,2,3)] by metis

lemma firstRevocation_Some:
  assumes "firstRevocation p a l revs = Some r"
  shows "r \<in> snd ` set revs" "revocationCovers r l a"
    "r' \<in> snd ` set revs \<Longrightarrow> revocationCovers r' l a \<Longrightarrow> timeOf p (dr_revokedAt r) \<le> timeOf p (dr_revokedAt r')"
proof -
  let ?f = "\<lambda>r. timeOf p (dr_revokedAt r)"
  let ?rs = "filter (\<lambda>r. revocationCovers r l a) (map snd revs)"
  from assms obtain rs where rs: "sort_key ?f ?rs = r # rs"
    by (auto simp: firstRevocation_def split: list.splits)
  then have s: "set (r # rs) = {r \<in> snd ` set revs. revocationCovers r l a}"
    using set_sort [of ?f ?rs] by auto
  then show "r \<in> snd ` set revs" "revocationCovers r l a" by auto
  have "sorted (map ?f (r # rs))" using sorted_sort_key [of ?f ?rs] rs by simp
  then show "r' \<in> snd ` set revs \<Longrightarrow> revocationCovers r' l a \<Longrightarrow> ?f r \<le> ?f r'"
    using s by auto
qed

lemma firstRevocation_None:
  "firstRevocation p a l revs = None \<longleftrightarrow> (\<forall>r \<in> snd ` set revs. \<not> revocationCovers r l a)"
proof -
  let ?xs = "filter (\<lambda>r. revocationCovers r l a) (map snd revs)"
  have "firstRevocation p a l revs = None \<longleftrightarrow> sort_key (\<lambda>r. timeOf p (dr_revokedAt r)) ?xs = []"
    by (simp only: firstRevocation_def first_None)
  also have "\<dots> \<longleftrightarrow> ?xs = []"
    by simp
  finally show ?thesis by (auto simp: filter_empty_conv)
qed

section \<open>Statements made by the program's own constructors\<close>

lemma checkStatement_made:
  assumes "statementBytes s = Inr bytes" "wf_json (nearest p) (payload s)" "payload s \<noteq> JUndefined"
  shows "checkStatement p (sha256Hex (sha256 p) bytes) bytes blob = checkByType p (sorted_signed s) blob"
  using parse_statement_bytes [OF assms] sorted_signed_bytes [of s] assms(1)
  by (simp add: checkStatement_def isCanonical_def)

lemma num_eq_plain_zero: "isFinite x \<Longrightarrow> num_eq (plain_zero x) x"
  by (cases x) (simp_all add: plain_zero_def isFinite_def)

lemma wf_json_claim_value:
  assumes "wf_number (rc_size c)" "n (plain_zero (rc_size c)) = plain_zero (rc_size c)"
  shows "wf_json n (claim_value c)"
  using assms by (simp add: claim_value_def obj_def split: option.split)

lemma wf_json_certificate_value: "wf_json n (certificate_value c)"
  by (simp add: certificate_value_def obj_def)

lemma wf_json_receipt_value: "wf_json n (receipt_value r)"
  by (simp add: receipt_value_def obj_def)

lemma literal_defined [simp]:
  "claim_value c \<noteq> JUndefined" "certificate_value d \<noteq> JUndefined" "receipt_value r \<noteq> JUndefined"
  by (simp_all add: claim_value_def certificate_value_def receipt_value_def obj_def)

lemma made_claim:
  assumes "platform_ok p" "signStatement p (claim_value c) sk = Inr s" "rc_deviceKey c = keyText p sk"
    "statementBytes s = Inr bytes" "wf_number (rc_size c)" "isFinite (rc_size c)"
    "nearest p (plain_zero (rc_size c)) = plain_zero (rc_size c)"
  shows "checkStatement p (sha256Hex (sha256 p) bytes) bytes (rc_hash c, rc_size c)
    = KClaim (c\<lparr>rc_size := plain_zero (rc_size c)\<rparr>)"
proof -
  note made = verifyStatement_sign [OF assms(1,2)]
  have wf: "wf_json (nearest p) (payload s)"
    using made(3) wf_json_claim_value assms by simp
  have view: "isRecordingClaim (payload (sorted_signed s)) = Some (c\<lparr>rc_size := plain_zero (rc_size c)\<rparr>)"
    using sorted_claim [OF wf] made(3) by (simp add: sorted_signed_def view_claim)
  then have "checkRecordingClaim p (sorted_signed s) (rc_hash c) (rc_size c)
      = Inr (sorted_signed s, c\<lparr>rc_size := plain_zero (rc_size c)\<rparr>)"
    using made(1) assms(3) num_eq_plain_zero [OF assms(6)]
    by (simp add: checkRecordingClaim_ok_iff sorted_signed_verifies)
  moreover have "statementType (sorted_signed s) = JString RECORDING_CLAIM_TYPE"
    using tag_claim [OF view] by (simp add: statementType_def)
  ultimately show ?thesis
    using checkStatement_made [OF assms(4) wf] made(3) by (simp add: checkByType_def)
qed

lemma made_certificate:
  assumes "platform_ok p" "signStatement p (certificate_value c) sk = Inr s" "dc_personKey c = keyText p sk"
    "statementBytes s = Inr bytes"
  shows "checkStatement p (sha256Hex (sha256 p) bytes) bytes blob = KLink (Certificate c)"
proof -
  note made = verifyStatement_sign [OF assms(1,2)]
  have wf: "wf_json (nearest p) (payload s)"
    using made(3) wf_json_certificate_value by simp
  have chk: "checkDeviceCertificate p (sorted_signed s) = Inr (sorted_signed s, c)"
    using certificate_kind.reparsed_passes [OF certificate_kind.created_passes [OF assms(1,3,2)] wf] .
  have "statementType (sorted_signed s) = JString DEVICE_CERTIFICATE_TYPE"
    using certificate_kind.check_tag [OF chk] .
  then show ?thesis
    using checkStatement_made [OF assms(4) wf] made(3) chk
    by (simp add: checkByType_def) (simp add: statement_types)
qed

lemma made_receipt:
  assumes "platform_ok p" "signStatement p (receipt_value r) sk = Inr s" "hr_hostKey r = keyText p sk"
    "statementBytes s = Inr bytes"
  shows "checkStatement p (sha256Hex (sha256 p) bytes) bytes blob = KReceipt r"
proof -
  note made = verifyStatement_sign [OF assms(1,2)]
  have wf: "wf_json (nearest p) (payload s)"
    using made(3) wf_json_receipt_value by simp
  have chk: "checkHostReceipt p (sorted_signed s) = Inr (sorted_signed s, r)"
    using receipt_kind.reparsed_passes [OF receipt_kind.created_passes [OF assms(1,3,2)] wf] .
  have "statementType (sorted_signed s) = JString HOST_RECEIPT_TYPE"
    using receipt_kind.check_tag [OF chk] .
  then show ?thesis
    using checkStatement_made [OF assms(4) wf] made(3) chk
    by (simp add: checkByType_def) (simp add: statement_types)
qed

lemma made_revocation:
  assumes "platform_ok p" "signStatement p (revocation_value r) sk = Inr s" "dr_signerKey r = keyText p sk"
    "statementBytes s = Inr bytes"
  shows "checkStatement p (sha256Hex (sha256 p) bytes) bytes blob = KRevocation r"
proof -
  note made = verifyStatement_sign [OF assms(1,2)]
  have wf: "wf_json (nearest p) (payload s)"
    by (simp add: made(3) revocation_value_def obj_def)
  have chk: "checkDeviceRevocation p (sorted_signed s) = Inr (sorted_signed s, r)"
    using revocation_kind.reparsed_passes [OF revocation_kind.created_passes [OF assms(1,3,2)] wf] .
  have "statementType (sorted_signed s) = JString DEVICE_REVOCATION_TYPE"
    using revocation_kind.check_tag [OF chk] .
  then show ?thesis
    using checkStatement_made [OF assms(4) wf] made(3) chk
    by (simp add: checkByType_def revocation_value_def obj_def) (simp add: statement_types)
qed

lemmas conclude_defs = conclude_def all_failures_def receipt_failures_def session_failures_def
  link_failures_def revocation_failures_def all_missing_def named_def named_step_def
  List.map_filter_simps earliest_def claimed_def claimed_link_def claimedRecording_def
  firstRevocation_def Let_def

lemma signed_flow:
  fixes p :: platform
  assumes "platform_ok p" "wf_number bsize" "isFinite bsize" "nearest p (plain_zero bsize) = plain_zero bsize"
    "createDeviceCertificate p (keyText p device) label issuedAt person = Inr cert"
    "statementBytes cert = Inr certB"
    "createRecordingClaim p hash bsize mime startedAt endedAt (Some session)
       (Some (sha256Hex (sha256 p) certB)) device = Inr claim"
    "statementBytes claim = Inr claimB"
    "createHostReceipt p claim host receivedAt = Inr receipt" "statementBytes receipt = Inr receiptB"
    "distinct [sha256Hex (sha256 p) claimB, sha256Hex (sha256 p) receiptB, sha256Hex (sha256 p) certB]"
  shows "verifyRecordingStatements p (hash, bsize)
      [(sha256Hex (sha256 p) claimB, Some claimB), (sha256Hex (sha256 p) receiptB, Some receiptB),
       (sha256Hex (sha256 p) certB, Some certB)]
    = Verified \<lparr>cr_deviceKey = keyText p device, cr_startedAt = startedAt, cr_endedAt = endedAt,
        cr_sessionId = session, cr_session = None,
        cr_person = Some (ViaCertificate (keyText p person) label (toISOString issuedAt)),
        cr_deviceLink = Some (sha256Hex (sha256 p) certB), cr_revocation = None\<rparr>
      (toISOString receivedAt) (keyText p host = keyText p device)"
proof -
  let ?cA = "sha256Hex (sha256 p) claimB" and ?rA = "sha256Hex (sha256 p) receiptB"
    and ?lA = "sha256Hex (sha256 p) certB"
  let ?cert = "\<lparr>dc_personKey = keyText p person, dc_deviceKey = keyText p device,
     dc_deviceLabel = label, dc_issuedAt = toISOString issuedAt\<rparr>"
  let ?c = "\<lparr>rc_hash = hash, rc_size = bsize, rc_mimeType = mime, rc_startedAt = startedAt,
     rc_endedAt = endedAt, rc_sessionId = session, rc_deviceKey = keyText p device, rc_deviceCert = Some ?lA\<rparr>"
  let ?r = "\<lparr>hr_claim = ?cA, hr_receivedAt = toISOString receivedAt, hr_hostKey = keyText p host\<rparr>"
  let ?sts = "[(?cA, Some claimB), (?rA, Some receiptB), (?lA, Some certB)]"
  have cert: "checkStatement p ?lA certB (hash, bsize) = KLink (Certificate ?cert)"
    using made_certificate [OF assms(1) _ _ assms(6)] assms(5) by (simp add: createDeviceCertificate_def)
  have claim: "checkStatement p ?cA claimB (hash, bsize) = KClaim (?c\<lparr>rc_size := plain_zero bsize\<rparr>)"
    using made_claim [of p ?c device claim claimB] assms by (simp add: createRecordingClaim_def)
  have "statementAddress p claim = Inr ?cA"
    using assms(8) by (simp add: statementAddress_def)
  then have receipt: "checkStatement p ?rA receiptB (hash, bsize) = KReceipt ?r"
    using made_receipt [OF assms(1) _ _ assms(10)] assms(9) by (simp add: createHostReceipt_def)
  have u: "unique ?sts = ?sts"
    using assms(11) by (intro unique_perm) simp
  have g: "gather p (hash, bsize) ?sts =
      \<lparr>ga_failures = [], ga_missing = [], ga_claims = [(?cA, ?c\<lparr>rc_size := plain_zero bsize\<rparr>)],
       ga_receipts = [(?rA, ?r)], ga_sessions = [], ga_links = [(?lA, Certificate ?cert)], ga_revocations = []\<rparr>"
    by (simp add: gather_eq u cert claim receipt)
  show ?thesis
    using assms(11) unfolding verifyRecordingStatements_def u g
    by (simp add: conclude_defs)
qed

section \<open>The example recording\<close>

abbreviation ex_person :: verified_person where
  "ex_person \<equiv> ViaCertificate (keyText toy [2]) (js ''laptop'') (toISOString 0)"

lemma ex_verified:
  "verifyRecordingStatements toy (js ''audio'', Zero False) ex_statements =
    Verified \<lparr>cr_deviceKey = keyText toy [1], cr_startedAt = js ''start'', cr_endedAt = js ''end'',
        cr_sessionId = js ''session'', cr_session = None, cr_person = Some ex_person,
        cr_deviceLink = Some (sha256Hex (sha256 toy) ex_cert_bytes), cr_revocation = None\<rparr>
      (toISOString 0) (keyText toy [3] = keyText toy [1])"
  unfolding ex_statements_def
  by (rule signed_flow [OF toy_ok _ _ _ ex_cert(1,2) ex_claim(1,2) ex_receipt(1,2)])
    (simp_all add: wf_number_def isFinite_def plain_zero_def ex_cert(3) ex_claim(3) ex_receipt(3) type_address_eq)

lemma ex_revoked:
  "\<exists>c t byHost rl. verifyRecordingStatements toy (js ''audio'', Zero False) ex_revoked_statements
     = Verified c t byHost \<and> cr_revocation c = Some rl"
proof -
  let ?lA = "type_address 3"
  let ?blob = "(js ''audio'', Zero False)"
  let ?c = "\<lparr>rc_hash = js ''audio'', rc_size = Zero False, rc_mimeType = js ''audio/wav'',
     rc_startedAt = js ''start'', rc_endedAt = js ''end'', rc_sessionId = js ''session'',
     rc_deviceKey = keyText toy [1], rc_deviceCert = Some ?lA\<rparr>"
  let ?cert = "\<lparr>dc_personKey = keyText toy [2], dc_deviceKey = keyText toy [1],
     dc_deviceLabel = js ''laptop'', dc_issuedAt = toISOString 0\<rparr>"
  let ?r = "\<lparr>hr_claim = type_address 1, hr_receivedAt = toISOString 0, hr_hostKey = keyText toy [3]\<rparr>"
  let ?v = "device_revocation_of toy ByPerson (keyText toy [1]) ?lA Lost 0 [2]"
  note addresses = ex_cert(3) ex_claim(3) ex_receipt(3) ex_revocation(3)
  have cert: "checkStatement toy ?lA ex_cert_bytes ?blob = KLink (Certificate ?cert)"
    using made_certificate [OF toy_ok _ _ ex_cert(2)] ex_cert(1,3) by (simp add: createDeviceCertificate_def)
  have claim: "checkStatement toy (sha256Hex (sha256 toy) ex_claim_bytes) ex_claim_bytes ?blob = KClaim ?c"
    using made_claim [OF toy_ok _ _ ex_claim(2), of ?c "[1]"] ex_claim(1)
    by (simp add: createRecordingClaim_def wf_number_def isFinite_def plain_zero_def ex_cert(3))
  have "statementAddress toy ex_claim = Inr (type_address 1)"
    using ex_claim(2,3) by (simp add: statementAddress_def)
  then have receipt: "checkStatement toy (sha256Hex (sha256 toy) ex_receipt_bytes) ex_receipt_bytes ?blob
      = KReceipt ?r"
    using made_receipt [OF toy_ok _ _ ex_receipt(2)] ex_receipt(1) by (simp add: createHostReceipt_def)
  have revocation: "checkStatement toy (sha256Hex (sha256 toy) ex_revocation_bytes) ex_revocation_bytes ?blob
      = KRevocation ?v"
    using made_revocation [OF toy_ok _ _ ex_revocation(2)] ex_revocation(1)
    by (simp add: createDeviceRevocation_def device_revocation_of_def ex_cert(3))
  have u: "unique ex_revoked_statements = ex_revoked_statements"
    by (rule unique_perm) (simp add: ex_revoked_statements_def ex_statements_def addresses type_address_eq)
  have g: "gather toy ?blob ex_revoked_statements =
      \<lparr>ga_failures = [], ga_missing = [], ga_claims = [(type_address 1, ?c)],
       ga_receipts = [(type_address 2, ?r)], ga_sessions = [],
       ga_links = [(type_address 3, Certificate ?cert)], ga_revocations = [(type_address 6, ?v)]\<rparr>"
    unfolding gather_eq u unfolding ex_revoked_statements_def ex_statements_def
    using claim cert receipt revocation by (simp add: addresses)
  have covers: "revocationCovers ?v (Certificate ?cert) (type_address 3)"
    by (simp add: revocationCovers_def device_revocation_of_def)
  have link: "dr_deviceLink ?v = type_address 3" by (simp add: device_revocation_of_def)
  show ?thesis
    unfolding verifyRecordingStatements_def u g
    by (simp add: conclude_defs link covers addresses ex_revoked_statements_def ex_statements_def
        type_address_eq)
qed

section \<open>Properties\<close>

text \<open>
  C1. A recording shown as verified has a listed claim and a listed receipt, each in bytes that
  hash to their address and are the canonical form of a statement signed by the key it names:
  the device signed for exactly this audio, the host signed for that claim. The fields shown are
  the claim's, the time is the receipt's, no listed receipt is earlier, and \<open>recordedByHost\<close>
  says whether the two keys are the same.
\<close>

theorem verified_sound:
  assumes "verifyRecordingStatements p blob sts = Verified c t byHost"
  shows "\<exists>h r a claim rs cs. fetched_statement p sts h rs \<and> isHostReceipt (payload rs) = Some r
      \<and> verifyStatement p rs (KeyText (hr_hostKey r))
      \<and> fetched_statement p sts a cs \<and> isRecordingClaim (payload cs) = Some claim
      \<and> verifyStatement p cs (KeyText (rc_deviceKey claim))
      \<and> hr_claim r = a \<and> rc_hash claim = fst blob \<and> num_eq (rc_size claim) (snd blob)
      \<and> t = hr_receivedAt r \<and> byHost = (hr_hostKey r = rc_deviceKey claim)
      \<and> (\<forall>h' r'. listed p blob sts h' (KReceipt r') \<longrightarrow> timeOf p t \<le> timeOf p (hr_receivedAt r'))
      \<and> (cr_deviceKey c, cr_startedAt c, cr_endedAt c, cr_sessionId c)
        = (rc_deviceKey claim, rc_startedAt claim, rc_endedAt claim, rc_sessionId claim)"
proof -
  obtain h r claim where o: "listed p blob sts h (KReceipt r)"
    "listed p blob sts (hr_claim r) (KClaim claim)" "earliest p (gather p blob sts) = Some r"
    "c = claimed p (gather p blob sts) claim" "t = hr_receivedAt r"
    "byHost = (hr_hostKey r = rc_deviceKey claim)"
    using verified_outcome [OF assms] by blast
  have "timeOf p t \<le> timeOf p (hr_receivedAt r')" if "listed p blob sts h' (KReceipt r')" for h' r'
    using earliest_Some(2) [OF o(3), of r'] that o(5) by (force simp: gathered_mem [symmetric])
  with listed_receipt [OF o(1)] listed_claim [OF o(2)] o(4-6) show ?thesis
    by (simp add: claimed_fields) metis
qed

lemma verified_sound_witness:
  "\<exists>r rs. isHostReceipt (payload rs) = Some r \<and> verifyStatement toy rs (KeyText (hr_hostKey r))"
  using verified_sound [OF ex_verified] by blast

text \<open>
  C2. Which of the five results a recording gets, with its contents. A failed result lists at least
  one failure, and its failures are all the offenders with their reasons and nothing else; an
  unavailable one is given only when nothing offends, and names at least one address and exactly the
  unfetched ones; every other result is given only when nothing offends and nothing is unfetched,
  verified when a receipt is listed, device-only when a claim but no receipt is, unverified when
  neither is. The five conditions exclude one another, so each result is given exactly under its own.
\<close>

theorem failed_exactly_offenders:
  "case verifyRecordingStatements p blob sts of
     Failed fs \<Rightarrow> fs \<noteq> [] \<and> set fs = {(h, e). offender p blob sts h e}
   | Unavailable ms \<Rightarrow> (\<nexists>h e. offender p blob sts h e) \<and> ms \<noteq> [] \<and> set ms = unfetched p blob sts
   | Verified c t byHost \<Rightarrow> (\<nexists>h e. offender p blob sts h e) \<and> unfetched p blob sts = {}
       \<and> (\<exists>h r. listed p blob sts h (KReceipt r))
   | DeviceOnly c \<Rightarrow> (\<nexists>h e. offender p blob sts h e) \<and> unfetched p blob sts = {}
       \<and> (\<nexists>h r. listed p blob sts h (KReceipt r)) \<and> (\<exists>a claim. listed p blob sts a (KClaim claim))
   | Unverified \<Rightarrow> (\<nexists>h e. offender p blob sts h e) \<and> unfetched p blob sts = {}
       \<and> (\<nexists>h r. listed p blob sts h (KReceipt r)) \<and> (\<nexists>a claim. listed p blob sts a (KClaim claim))"
proof -
  let ?g = "gather p blob sts"
  have offenders: "set (all_failures ?g) = {(h, e). offender p blob sts h e}"
    using all_failures_offender [of _ _ p blob sts] by auto
  have receipts: "ga_receipts ?g = [] \<longleftrightarrow> (\<nexists>h r. listed p blob sts h (KReceipt r))"
    unfolding gathered_mem(2) [symmetric] by (cases "ga_receipts ?g") auto
  have claims: "ga_claims ?g = [] \<longleftrightarrow> (\<nexists>h c. listed p blob sts h (KClaim c))"
    unfolding gathered_mem(1) [symmetric] by (cases "ga_claims ?g") auto
  note facts = verifyRecordingStatements_def conclude_def Let_def
  consider (fails) "all_failures ?g \<noteq> []"
    | (lacks) "all_failures ?g = []" "all_missing (unique sts) ?g \<noteq> []"
    | (passes) "all_failures ?g = []" "all_missing (unique sts) ?g = []"
    by blast
  then show ?thesis
  proof cases
    case fails
    with offenders show ?thesis by (simp add: facts)
  next
    case lacks
    with no_failures [of p blob sts] all_missing_unfetched [of sts p blob] show ?thesis
      by (simp add: facts)
  next
    case passes
    with no_failures [of p blob sts] nothing_missing [of sts p blob] receipts claims
      earliest_None [of p ?g]
    show ?thesis
      by (cases "earliest p ?g"; cases "ga_claims ?g") (simp_all add: facts split_beta)
  qed
qed

text \<open>
  When nothing offends, the result is \<open>unavailable\<close> exactly when a statement could not be
  fetched, or a claim names a certificate that is not listed, and it then names those addresses.
\<close>

lemma unavailable_exactly_unfetched:
  "(\<exists>ms. verifyRecordingStatements p blob sts = Unavailable ms \<and> set ms = unfetched p blob sts)
     = (\<not> (\<exists>h e. offender p blob sts h e) \<and> unfetched p blob sts \<noteq> {})"
proof -
  let ?g = "gather p blob sts"
  have m: "set (all_missing (unique sts) ?g) = unfetched p blob sts"
    by (rule all_missing_unfetched)
  show ?thesis
  proof
    assume "\<exists>ms. verifyRecordingStatements p blob sts = Unavailable ms \<and> set ms = unfetched p blob sts"
    then show "\<not> (\<exists>h e. offender p blob sts h e) \<and> unfetched p blob sts \<noteq> {}"
      by (auto simp: outcome_defs Let_def split: if_splits option.splits list.splits)
  next
    assume "\<not> (\<exists>h e. offender p blob sts h e) \<and> unfetched p blob sts \<noteq> {}"
    then have "verifyRecordingStatements p blob sts = Unavailable (all_missing (unique sts) ?g)"
      by (simp add: outcome_defs)
    with m show "\<exists>ms. verifyRecordingStatements p blob sts = Unavailable ms \<and> set ms = unfetched p blob sts"
      by blast
  qed
qed

text \<open>
  C4. A person shown beside a recording was tied to its device by a signed statement: the claim
  shown names the address of a listed certificate or vouch, that statement is for the claim's own
  device key, and it is signed by the person key (certificate) or the vouching host (vouch).
\<close>

theorem person_sound:
  assumes "shown (verifyRecordingStatements p blob sts) = Some c" "cr_person c = Some who"
  shows "\<exists>a claim h s l. listed p blob sts a (KClaim claim) \<and> rc_deviceKey claim = cr_deviceKey c
    \<and> rc_deviceCert claim = Some h \<and> cr_deviceLink c = Some h \<and> fetched_statement p sts h s
    \<and> checkDeviceLink p s = Inr (s, l) \<and> verifyStatement p s (KeyText (link_signer l))
    \<and> link_deviceKey l = cr_deviceKey c \<and> who = verifiedPerson l \<and> vp_personKey who = link_personKey l"
proof -
  obtain a claim where o: "listed p blob sts a (KClaim claim)" "c = claimed p (gather p blob sts) claim"
    "\<forall>h e. \<not> offender p blob sts h e"
    using shown_outcome [OF assms(1)] by blast
  from assms(2) o(2) obtain h l where k: "claimed_link (gather p blob sts) claim = Some (h, l)"
    and who: "who = verifiedPerson l"
    by (auto simp: claimed_fields)
  then have l: "rc_deviceCert claim = Some h" "listed p blob sts h (KLink l)"
    by (simp_all add: claimed_link_listed)
  obtain st where st: "fetched_statement p sts h st" "checkDeviceLink p st = Inr (st, l)"
    "verifyStatement p st (KeyText (link_signer l))"
    using listed_link [OF l(2)] by blast
  have "link_deviceKey l = rc_deviceKey claim" using link_matches_claim [OF o(3,1) l] .
  moreover have "vp_personKey who = link_personKey l" by (cases l) (simp_all add: who)
  ultimately show ?thesis
    using o l st who k by (auto simp: claimed_fields intro!: exI [of _ a] exI [of _ claim])
qed

lemma person_sound_witness:
  "\<exists>s l. checkDeviceLink toy s = Inr (s, l) \<and> ex_person = verifiedPerson l
     \<and> verifyStatement toy s (KeyText (link_signer l))"
proof -
  let ?c = "the (shown (verifyRecordingStatements toy (js ''audio'', Zero False) ex_statements))"
  have "shown (verifyRecordingStatements toy (js ''audio'', Zero False) ex_statements) = Some ?c"
    "cr_person ?c = Some ex_person"
    by (simp_all add: ex_verified)
  from person_sound [OF this] show ?thesis by blast
qed

text \<open>
  C5. A revocation shown beside a recording, verified or known from its device alone, withdraws the
  link that is shown: it is a listed statement signed by a key that could withdraw that link (the
  person key, or the vouching host), and no listed revocation of the same link is earlier. The
  recording counts as received before it exactly when it is verified, that is, has a receipt, and
  both times parse and the receipt's is smaller.
\<close>

theorem revocation_sound:
  assumes "shown (verifyRecordingStatements p blob sts) = Some c" "cr_revocation c = Some rl"
  shows "\<exists>h r rs a l. listed p blob sts h (KRevocation r) \<and> fetched_statement p sts h rs
    \<and> verifyStatement p rs (KeyText (rl_signerKey rl)) \<and> cr_deviceLink c = Some a
    \<and> listed p blob sts a (KLink l) \<and> revocationCovers r l a \<and> rl_signerKey rl = dr_signerKey r
    \<and> (rl_signerKey rl = link_personKey l \<or> rl_signerKey rl = link_signer l)
    \<and> (\<forall>h' r'. listed p blob sts h' (KRevocation r') \<and> revocationCovers r' l a
         \<longrightarrow> timeOf p (rl_revokedAt rl) \<le> timeOf p (dr_revokedAt r'))
    \<and> (rl_receivedBeforeRevocation rl \<longleftrightarrow>
         (\<exists>t byHost x y. verifyRecordingStatements p blob sts = Verified c t byHost
            \<and> Date_parse p t = Some x \<and> Date_parse p (rl_revokedAt rl) = Some y \<and> x < y))"
proof -
  let ?g = "gather p blob sts"
  obtain claim where o: "c = claimed p ?g claim"
    using shown_outcome [OF assms(1)] by metis
  from assms(2) o obtain a l r where k: "claimed_link ?g claim = Some (a, l)"
    and f: "firstRevocation p a l (ga_revocations ?g) = Some r"
    and rl: "rl = revokedDeviceLink p r (map_option hr_receivedAt (earliest p ?g))"
    by (auto simp: claimed_def Let_def claimedRecording_def bind_eq_Some_conv)
  have l: "cr_deviceLink c = Some a" "listed p blob sts a (KLink l)"
    using k o by (auto simp: claimed_link_listed claimed_fields)
  note first = firstRevocation_Some [OF f]
  obtain h where h: "listed p blob sts h (KRevocation r)"
    using first(1) by (auto simp: gathered_mem)
  obtain rs where rs: "fetched_statement p sts h rs" "verifyStatement p rs (KeyText (dr_signerKey r))"
    using listed_revocation [OF h] by blast
  have rl_fields: "rl_signerKey rl = dr_signerKey r" "rl_revokedAt rl = dr_revokedAt r"
    by (simp_all add: rl revokedDeviceLink_def Let_def)
  have received: "rl_receivedBeforeRevocation rl \<longleftrightarrow>
       (\<exists>t byHost x y. verifyRecordingStatements p blob sts = Verified c t byHost
          \<and> Date_parse p t = Some x \<and> Date_parse p (dr_revokedAt r) = Some y \<and> x < y)"
    using receivedBefore_iff shown_receipt [OF assms(1)] unfolding rl by blast
  have signer: "dr_signerKey r = link_personKey l \<or> dr_signerKey r = link_signer l"
    using revocationCovers_signer [OF first(2)] by auto
  have least: "timeOf p (dr_revokedAt r) \<le> timeOf p (dr_revokedAt r')"
    if "listed p blob sts h' (KRevocation r')" "revocationCovers r' l a" for h' r'
    using first(3) [of r'] that by (force simp: gathered_mem [symmetric])
  show ?thesis
    using h rs l first(2) signer least received unfolding rl_fields by blast
qed

lemma revocation_sound_witness:
  "\<exists>h r c (rl :: revoked_device_link).
     shown (verifyRecordingStatements toy (js ''audio'', Zero False) ex_revoked_statements) = Some c
     \<and> cr_revocation c = Some rl
     \<and> listed toy (js ''audio'', Zero False) ex_revoked_statements h (KRevocation r)
     \<and> rl_signerKey rl = dr_signerKey r"
proof -
  obtain c t byHost rl where
    "verifyRecordingStatements toy (js ''audio'', Zero False) ex_revoked_statements = Verified c t byHost"
    and rl: "cr_revocation c = Some rl"
    using ex_revoked by blast
  then have c: "shown (verifyRecordingStatements toy (js ''audio'', Zero False) ex_revoked_statements) = Some c"
    by simp
  from revocation_sound [OF c rl] c rl show ?thesis by blast
qed

text \<open>
  C3. The whole flow as the program runs it: a person certifies a device, the device claims a
  recording naming that certificate, a host receipts the claim; the reader of the three statements
  sees the recording verified, with the device, the times, the session and the person that were
  signed.
\<close>

theorem signed_recording_verifies:
  fixes p :: platform
  assumes "platform_ok p" "wf_number bsize" "isFinite bsize" "nearest p (plain_zero bsize) = plain_zero bsize"
    "createDeviceCertificate p (keyText p device) label issuedAt person = Inr cert"
    "statementBytes cert = Inr certB"
    "createRecordingClaim p hash bsize mime startedAt endedAt (Some session)
       (Some (sha256Hex (sha256 p) certB)) device = Inr claim"
    "statementBytes claim = Inr claimB"
    "createHostReceipt p claim host receivedAt = Inr receipt" "statementBytes receipt = Inr receiptB"
    "distinct [sha256Hex (sha256 p) claimB, sha256Hex (sha256 p) receiptB, sha256Hex (sha256 p) certB]"
  shows "verifyRecordingStatements p (hash, bsize)
      [(sha256Hex (sha256 p) claimB, Some claimB), (sha256Hex (sha256 p) receiptB, Some receiptB),
       (sha256Hex (sha256 p) certB, Some certB)]
    = Verified \<lparr>cr_deviceKey = keyText p device, cr_startedAt = startedAt, cr_endedAt = endedAt,
        cr_sessionId = session, cr_session = None,
        cr_person = Some (ViaCertificate (keyText p person) label (toISOString issuedAt)),
        cr_deviceLink = Some (sha256Hex (sha256 p) certB), cr_revocation = None\<rparr>
      (toISOString receivedAt) (keyText p host = keyText p device)"
  using assms by (rule signed_flow)

lemma signed_recording_verifies_witness:
  "verifyRecordingStatements toy (js ''audio'', Zero False) ex_statements =
    Verified \<lparr>cr_deviceKey = keyText toy [1], cr_startedAt = js ''start'', cr_endedAt = js ''end'',
        cr_sessionId = js ''session'', cr_session = None, cr_person = Some ex_person,
        cr_deviceLink = Some (sha256Hex (sha256 toy) ex_cert_bytes), cr_revocation = None\<rparr>
      (toISOString 0) (keyText toy [3] = keyText toy [1])"
  unfolding ex_statements_def
  by (rule signed_recording_verifies [OF toy_ok _ _ _ ex_cert(1,2) ex_claim(1,2) ex_receipt(1,2)])
    (simp_all add: wf_number_def isFinite_def plain_zero_def ex_cert(3) ex_claim(3) ex_receipt(3) type_address_eq)

text \<open>
  A statement of a type this version does not know changes nothing, as long as no claim
  names its address: later statement types do not break the verdict on a recording.
\<close>

lemma unknown_statement_ignored:
  assumes "checkStatement p h bytes blob = KUnknown" "h \<notin> fst ` set sts"
    "\<forall>a c. listed p blob sts a (KClaim c) \<longrightarrow> rc_deviceCert c \<noteq> Some h"
  shows "verifyRecordingStatements p blob (sts @ [(h, Some bytes)]) = verifyRecordingStatements p blob sts"
proof -
  have "map_of (rev sts) h = None"
    using assms(2) by (simp add: map_of_eq_None_iff)
  then have new: "h \<notin> fst ` set (unique sts)"
    by (simp add: map_of_eq_None_iff [symmetric] map_of_unique)
  then have u: "unique (sts @ [(h, Some bytes)]) = unique sts @ [(h, Some bytes)]"
    using AList_update_append [of h "unique sts" "Some bytes"] by (simp add: unique_def)
  have g: "gather p blob (sts @ [(h, Some bytes)]) = gather p blob sts"
    unfolding gather_eq u by (simp add: assms(1))
  have "filter (\<lambda>a. map_of (unique sts @ [(h, Some bytes)]) a = None) (map fst (named (gather p blob sts)))
      = filter (\<lambda>a. map_of (unique sts) a = None) (map fst (named (gather p blob sts)))"
  proof (rule filter_cong [OF refl])
    fix a
    assume "a \<in> set (map fst (named (gather p blob sts)))"
    then have "a \<noteq> h"
      using map_of_eq_None_iff [of "named (gather p blob sts)" h] namers_mem(1) [where p = p and blob = blob and sts = sts and h = h] assms(3)
      by (auto simp: map_of_named split: if_splits)
    then show "(map_of (unique sts @ [(h, Some bytes)]) a = None) = (map_of (unique sts) a = None)"
      by (simp add: map_add_def split: option.split)
  qed
  then have "all_missing (unique (sts @ [(h, Some bytes)])) (gather p blob sts)
      = all_missing (unique sts) (gather p blob sts)"
    unfolding all_missing_def u by (simp only:)
  then show ?thesis
    unfolding verifyRecordingStatements_def g conclude_def by (simp only:)
qed

lemma unknown_statement_ignored_witness:
  "verifyRecordingStatements toy (js ''audio'', Zero False)
     [(sha256Hex (sha256 toy) ex_join_bytes, Some ex_join_bytes)]
   = verifyRecordingStatements toy (js ''audio'', Zero False) []"
proof -
  have "checkStatement toy (sha256Hex (sha256 toy) ex_join_bytes) ex_join_bytes (js ''audio'', Zero False) = KUnknown"
    using checkStatement_made [OF ex_join(2), of toy] ex_join(3-5)
    by (simp add: checkByType_def) (simp add: statement_types)
  from unknown_statement_ignored [OF this, of "[]"] show ?thesis
    by (simp add: listed_def unique_def)
qed

end
