(* ===== verification/Statement_Properties.thy ===== *)
theory Statement_Properties
  imports Example_Platform "HOL-Library.Multiset"
begin

text \<open>
  What holds of the statement kinds together: a statement has one kind, who can revoke what, and
  that a session record is a function of what was seen and not of the order it was seen in.
\<close>

section \<open>Properties\<close>

text \<open>The types under which a statement passes, over every check the package has.\<close>

definition check_table :: "platform \<Rightarrow> signed \<Rightarrow> jstr \<Rightarrow> jsnum \<Rightarrow> jstr \<Rightarrow> jstr \<Rightarrow> (jstr \<times> bool) list" where
  "check_table p s hash bsize rec challenge =
     [(RECORDING_CLAIM_TYPE, \<not> isl (checkRecordingClaim p s hash bsize)),
      (HOST_RECEIPT_TYPE, \<not> isl (checkHostReceipt p s)),
      (SESSION_RECORD_TYPE, \<not> isl (checkSessionRecord p s)),
      (DEVICE_CERTIFICATE_TYPE, \<not> isl (checkDeviceCertificate p s)),
      (JOIN_REQUEST_TYPE, \<not> isl (checkJoinRequest p s)),
      (VOUCH_REQUEST_TYPE, \<not> isl (checkVouchRequest p s)),
      (DEVICE_VOUCH_TYPE, \<not> isl (checkDeviceVouch p s)),
      (DEVICE_REVOCATION_TYPE, \<not> isl (checkDeviceRevocation p s)),
      (PASSKEY_RECORD_WRITE_TYPE, \<not> isl (checkPasskeyRecordWrite p s rec)),
      (SYNC_PROOF_TYPE, checkSyncProof p s challenge \<noteq> None)]"

definition kinds_passed :: "platform \<Rightarrow> signed \<Rightarrow> jstr \<Rightarrow> jsnum \<Rightarrow> jstr \<Rightarrow> jstr \<Rightarrow> jstr list" where
  "kinds_passed p s hash bsize rec challenge =
     map fst (filter snd (check_table p s hash bsize rec challenge))"

lemma filter_at_most_one:
  assumes "distinct (map fst xs)" "\<And>t. (t, True) \<in> set xs \<Longrightarrow> t = u"
  shows "map fst (filter snd xs) = [] \<or> map fst (filter snd xs) = [u]"
  using assms
proof (induction xs)
  case (Cons x xs)
  obtain t b where x: "x = (t, b)" by (cases x)
  have IH: "map fst (filter snd xs) = [] \<or> map fst (filter snd xs) = [u]"
    using Cons by simp
  show ?case
  proof (cases b)
    case True
    then have "t = u" using Cons.prems(2) x by simp
    moreover have "u \<notin> fst ` set xs" using Cons.prems(1) x \<open>t = u\<close> by simp
    then have "u \<notin> set (map fst (filter snd xs))" by force
    then have "filter snd xs = []" using IH by (metis list.set_intros(1) map_is_Nil_conv)
    ultimately show ?thesis using x True by simp
  qed (use IH x in simp)
qed simp

lemma check_table_tag:
  assumes "(t, True) \<in> set (check_table p s hash bsize rec challenge)"
  shows "statementType s = JString t"
proof -
  have claim: "statementType s = JString RECORDING_CLAIM_TYPE" if "\<not> isl (checkRecordingClaim p s hash bsize)"
    using that tag_claim by (cases "checkRecordingClaim p s hash bsize")
      (auto simp: checkRecordingClaim_ok_iff statementType_def)
  have wr: "statementType s = JString PASSKEY_RECORD_WRITE_TYPE" if "\<not> isl (checkPasskeyRecordWrite p s rec)"
    using that tag_w by (cases "checkPasskeyRecordWrite p s rec")
      (auto simp: checkPasskeyRecordWrite_ok_iff statementType_def)
  have sync: "statementType s = JString SYNC_PROOF_TYPE" if "checkSyncProof p s challenge \<noteq> None"
    using that by (auto simp: checkSyncProof_Some_iff)
  note kinds = receipt_kind.passed_tag session_kind.passed_tag certificate_kind.passed_tag
    join_kind.passed_tag vouch_request_kind.passed_tag vouch_kind.passed_tag revocation_kind.passed_tag
  show ?thesis
    using assms unfolding check_table_def list.set insert_iff prod.inject empty_iff
    by (elim disjE conjE) (simp_all only: claim wr sync kinds simp_thms True_implies_equals eq_commute [of True])
qed

lemma check_table_distinct: "distinct (map fst (check_table p s hash bsize rec challenge))"
  by (simp add: check_table_def statement_types)

text \<open>
  No statement passes as two kinds: the type a payload names is inside what is signed, so at
  most one check of the package accepts a statement, and it is the check of the type it names.
  A signature made for one purpose is worthless for any other.
\<close>

lemma statement_has_one_kind:
  "kinds_passed p s hash bsize rec challenge = []
    \<or> (\<exists>t. kinds_passed p s hash bsize rec challenge = [t] \<and> statementType s = JString t)"
proof (cases "\<exists>t. (t, True) \<in> set (check_table p s hash bsize rec challenge)")
  case True
  then obtain u where u: "(u, True) \<in> set (check_table p s hash bsize rec challenge)" by blast
  have "t = u" if "(t, True) \<in> set (check_table p s hash bsize rec challenge)" for t
    using check_table_tag [OF that] check_table_tag [OF u] by simp
  from filter_at_most_one [OF check_table_distinct this] check_table_tag [OF u] show ?thesis
    unfolding kinds_passed_def by blast
next
  case False
  then have "filter snd (check_table p s hash bsize rec challenge) = []"
    by (force simp: filter_empty_conv)
  then show ?thesis unfolding kinds_passed_def by simp
qed

text \<open>
  C9. A revocation that covers a certificate or vouch was signed by a key that stood behind it:
  if it passes its check and \<open>revocationCovers\<close> accepts it for that link, its signature verifies
  under the person key of the link, or under the key of the host that vouched. A host can withdraw
  only its own vouches and never a person's certificate.
\<close>

theorem revocation_authority:
  assumes "checkDeviceRevocation p s = Inr (s', r)" "revocationCovers r l a"
  shows "dr_deviceLink r = a \<and> dr_deviceKey r = link_deviceKey l \<and>
    (case l of
       Certificate c \<Rightarrow> dr_signedBy r = ByPerson \<and> verifyStatement p s (KeyText (dc_personKey c))
     | Vouch v \<Rightarrow> (dr_signedBy r = ByPerson \<and> verifyStatement p s (KeyText (dv_personKey v)))
         \<or> (dr_signedBy r = ByHost \<and> verifyStatement p s (KeyText (dv_hostKey v))))"
proof -
  have "verifyStatement p s (KeyText (dr_signerKey r))"
    using assms(1) by (simp add: revocation_kind.check_ok_iff)
  with assms(2) show ?thesis
    by (cases "dr_signedBy r") (auto simp: revocationCovers_def split: if_splits device_link.splits)
qed

lemma revocation_authority_witness:
  "verifyStatement toy ex_revocation (KeyText (keyText toy [2]))"
proof -
  let ?r = "device_revocation_of toy ByPerson (keyText toy [1]) (sha256Hex (sha256 toy) ex_cert_bytes) Lost 0 [2]"
  let ?l = "Certificate \<lparr>dc_personKey = keyText toy [2], dc_deviceKey = keyText toy [1],
     dc_deviceLabel = js ''laptop'', dc_issuedAt = toISOString 0\<rparr>"
  have "checkDeviceRevocation toy ex_revocation = Inr (ex_revocation, ?r)"
    using revocation_kind.created_passes [OF toy_ok, of ?r "[2]" ex_revocation] ex_revocation(1)
    by (simp add: createDeviceRevocation_def) (simp add: device_revocation_of_def)
  moreover have "revocationCovers ?r ?l (sha256Hex (sha256 toy) ex_cert_bytes)"
    by (simp add: revocationCovers_def device_revocation_of_def)
  ultimately show ?thesis
    using revocation_authority [of toy ex_revocation ex_revocation ?r ?l "sha256Hex (sha256 toy) ex_cert_bytes"]
    by simp
qed

section \<open>Session records\<close>

lemma sortSpans_perm: "mset a = mset b \<Longrightarrow> sortSpans a = sortSpans b"
  unfolding sortSpans_def
  by (rule sort_key_inj_key_eq)
    (auto simp: inj_on_def sorted_sort_key intro: session_span.equality)

text \<open>Two lists of devices say the same: the same devices, each with the same spans.\<close>

definition same_devices :: "session_device list \<Rightarrow> session_device list \<Rightarrow> bool" where
  "same_devices ds es \<longleftrightarrow> (\<exists>fs. mset es = mset fs \<and>
     list_all2 (\<lambda>d f. sd_deviceKey d = sd_deviceKey f \<and> sd_label d = sd_label f
       \<and> mset (sd_spans d) = mset (sd_spans f)) ds fs)"

lemma sorted_devices_same:
  assumes "same_devices ds es" "distinct (map sd_deviceKey ds)"
  shows "sort_key sd_deviceKey (map (\<lambda>d. d\<lparr>sd_spans := sortSpans (sd_spans d)\<rparr>) ds)
    = sort_key sd_deviceKey (map (\<lambda>d. d\<lparr>sd_spans := sortSpans (sd_spans d)\<rparr>) es)"
proof -
  let ?n = "\<lambda>d. d\<lparr>sd_spans := sortSpans (sd_spans d)\<rparr> :: session_device"
  obtain fs where fs: "mset es = mset fs" "list_all2 (\<lambda>d f. sd_deviceKey d = sd_deviceKey f
      \<and> sd_label d = sd_label f \<and> mset (sd_spans d) = mset (sd_spans f)) ds fs"
    using assms(1) by (auto simp: same_devices_def)
  have "list_all2 (\<lambda>d f. ?n d = ?n f) ds fs"
    using fs(2) by (rule list_all2_mono) (auto intro!: session_device.equality sortSpans_perm)
  then have eq: "map ?n ds = map ?n fs"
    by (induction rule: list_all2_induct) auto
  have keys: "map sd_deviceKey ds = map sd_deviceKey fs"
    using fs(2) by (induction rule: list_all2_induct) auto
  have "distinct (map sd_deviceKey fs)" using assms(2) keys by simp
  then have inj: "inj_on sd_deviceKey (set fs)" by (simp add: distinct_map)
  have inj: "inj_on sd_deviceKey (set (map ?n fs))"
    unfolding set_map
  proof (rule inj_onI, elim imageE)
    fix x y d e
    assume "sd_deviceKey x = sd_deviceKey y" "x = ?n d" "d \<in> set fs" "y = ?n e" "e \<in> set fs"
    then show "x = y" using inj_onD [OF inj, of d e] by simp
  qed
  have "sort_key sd_deviceKey (map ?n fs) = sort_key sd_deviceKey (map ?n es)"
    using fs(1) inj by (intro sort_key_inj_key_eq) simp_all
  with eq show ?thesis by simp
qed

text \<open>
  A session record does not depend on the order in which a host lists what it saw: the
  devices in any order, each device's spans in any order, and the claims in any order with any
  repetition give the same statement, byte for byte and signature included.
\<close>

lemma session_record_order_free:
  assumes "same_devices ds es" "distinct (map sd_deviceKey ds)" "set claims = set claims'"
  shows "createSessionRecord p sid opened closed ds claims host
    = createSessionRecord p sid opened closed es claims' host"
proof -
  have "sort (remdups claims) = sort (remdups claims')"
    using assms(3) by (metis sorted_list_of_set_sort_remdups)
  with sorted_devices_same [OF assms(1,2)] show ?thesis
    by (simp add: createSessionRecord_def session_record_of_def)
qed

lemma session_record_order_free_witness:
  "createSessionRecord toy [] 0 1 [\<lparr>sd_deviceKey = js ''a'', sd_label = None, sd_spans = []\<rparr>,
      \<lparr>sd_deviceKey = js ''b'', sd_label = None, sd_spans = []\<rparr>] [js ''x'', js ''y''] [3]
   = createSessionRecord toy [] 0 1 [\<lparr>sd_deviceKey = js ''b'', sd_label = None, sd_spans = []\<rparr>,
      \<lparr>sd_deviceKey = js ''a'', sd_label = None, sd_spans = []\<rparr>] [js ''y'', js ''x'', js ''y''] [3]"
proof (rule session_record_order_free)
  let ?a = "\<lparr>sd_deviceKey = js ''a'', sd_label = None, sd_spans = []\<rparr> :: session_device"
  let ?b = "\<lparr>sd_deviceKey = js ''b'', sd_label = None, sd_spans = []\<rparr> :: session_device"
  show "same_devices [?a, ?b] [?b, ?a]"
    unfolding same_devices_def by (intro exI [of _ "[?a, ?b]"]) simp
qed auto

end
