(* ===== verification/Http_Auth.thy ===== *)
theory Http_Auth
  imports Utf8
begin

text \<open>
  What the routes of the embedded server share: the request as node and the URL standard hand it
  over (path, method, bearer header, query parameters), the reply (\<^verbatim>\<open>httpResponses.ts\<close>) and the
  bearer-token check of \<^verbatim>\<open>tokenAuth.ts\<close>.
\<close>

section \<open>Definitions\<close>

record http_request =
  rq_method :: "jstr option"
  rq_path :: jstr
  rq_authorization :: "jstr option"
  rq_params :: "(jstr \<times> jstr) list"

text \<open>
  A handler that is not responsible for the path returns \<open>false\<close> and sends nothing
  (\<open>NotMine\<close>); otherwise it ends the response with a bare status or with a JSON body.
\<close>

datatype reply = NotMine | Status nat | Json nat jsval

definition searchParam :: "http_request \<Rightarrow> string \<Rightarrow> jstr option" where
  "searchParam rq k = map_of (rq_params rq) (js k)"

definition method_of :: "http_request \<Rightarrow> jstr" where
  "method_of rq = (case rq_method rq of None \<Rightarrow> js ''GET'' | Some m \<Rightarrow> m)"

definition error_body :: "string \<Rightarrow> jsval" where
  "error_body e = JObject [(js ''error'', JString (js e))]"

text \<open>\<open>Buffer.from\<close> encodes as UTF-8, so strings are compared by their bytes.\<close>

definition timingSafeMatch :: "jstr \<Rightarrow> jstr \<Rightarrow> bool" where
  "timingSafeMatch a b =
     (let left = utf8_encode a; right = utf8_encode b
      in if length left \<noteq> length right then False else left = right)"

definition startsWith :: "jstr \<Rightarrow> jstr \<Rightarrow> bool" where
  "startsWith s t = (take (length t) s = t)"

definition isAuthorized :: "http_request \<Rightarrow> jstr option \<Rightarrow> bool" where
  "isAuthorized rq token =
     (case token of
        None \<Rightarrow> True
      | Some tok \<Rightarrow>
          if tok = [] then True
          else case rq_authorization rq of
            Some header \<Rightarrow>
              if startsWith header (js ''Bearer '') then timingSafeMatch (drop (length ''Bearer '') header) tok
              else (case searchParam rq ''t'' of None \<Rightarrow> False | Some query \<Rightarrow> timingSafeMatch query tok)
          | None \<Rightarrow> (case searchParam rq ''t'' of None \<Rightarrow> False | Some query \<Rightarrow> timingSafeMatch query tok))"

section \<open>Lemmas\<close>

lemma utf8_encode_inj: "wellFormed a \<Longrightarrow> wellFormed b \<Longrightarrow> utf8_encode a = utf8_encode b \<longleftrightarrow> a = b"
  using utf8_units_encode by (metis option.inject)

lemma timingSafeMatch_iff: "wellFormed a \<Longrightarrow> wellFormed b \<Longrightarrow> timingSafeMatch a b \<longleftrightarrow> a = b"
  by (auto simp: timingSafeMatch_def Let_def utf8_encode_inj)

lemma startsWith_iff: "startsWith s t \<longleftrightarrow> s = t @ drop (length t) s"
  unfolding startsWith_def by (metis append_eq_conv_conj append_take_drop_id)

text \<open>A caller with a token set gets in exactly by showing it: in the header, which wins, or in the query.\<close>

lemma isAuthorized_iff:
  assumes "wellFormed tok" "tok \<noteq> []"
    "\<And>h. rq_authorization rq = Some h \<Longrightarrow> wellFormed h" "\<And>q. searchParam rq ''t'' = Some q \<Longrightarrow> wellFormed q"
    "\<And>h. rq_authorization rq = Some h \<Longrightarrow> wellFormed (drop (length ''Bearer '') h)"
  shows "isAuthorized rq (Some tok) \<longleftrightarrow>
    (if \<exists>h. rq_authorization rq = Some h \<and> startsWith h (js ''Bearer '')
     then rq_authorization rq = Some (js ''Bearer '' @ tok)
     else searchParam rq ''t'' = Some tok)"
proof -
  have split: "h = js ''Bearer '' @ tok \<longleftrightarrow> drop (length ''Bearer '') h = tok"
    if "startsWith h (js ''Bearer '')" for h
    using that unfolding startsWith_iff length_js by (metis append_eq_conv_conj length_js)
  show ?thesis
    using assms split
    by (cases "rq_authorization rq"; cases "searchParam rq ''t''")
      (auto simp: isAuthorized_def timingSafeMatch_iff)
qed

end
