(* ===== verification/Sync_Challenges.thy ===== *)
theory Sync_Challenges
  imports Http_Auth Example_Platform
begin

text \<open>
  The one-time challenges of \<^verbatim>\<open>electron-client/src/syncChallenges.ts\<close>. The \<open>Map\<close> from challenge to
  issue time is an association list in insertion order; the clock and the random bytes are
  arguments. The eviction loop never ends when the cap is not positive, so it is a partial function.
  The locale \<open>one_time\<close> is what the users of a store rely on (the sync socket, the roster's
  join and the passkey routes).
\<close>

section \<open>The store\<close>

definition DEFAULT_CHALLENGE_TTL_MS :: int where
  "DEFAULT_CHALLENGE_TTL_MS = 60000"

definition DEFAULT_MAX_CHALLENGES :: int where
  "DEFAULT_MAX_CHALLENGES = 256"

record challenge_store =
  ttlMs :: int
  maxChallenges :: int
  issuedAt :: "(jstr \<times> int) list"

definition createSyncChallengeStore :: "int option \<Rightarrow> int option \<Rightarrow> challenge_store" where
  "createSyncChallengeStore ttl cap =
     \<lparr>ttlMs = (case ttl of None \<Rightarrow> DEFAULT_CHALLENGE_TTL_MS | Some t \<Rightarrow> t),
      maxChallenges = (case cap of None \<Rightarrow> DEFAULT_MAX_CHALLENGES | Some m \<Rightarrow> m),
      issuedAt = []\<rparr>"

text \<open>\<open>while (issuedAt.size >= maxChallenges) issuedAt.delete(issuedAt.keys().next().value)\<close>.\<close>

partial_function (option) evict :: "int \<Rightarrow> (jstr \<times> int) list \<Rightarrow> (jstr \<times> int) list option" where
  "evict cap es =
     (if cap \<le> int (length es)
      then evict cap (case es of [] \<Rightarrow> es | e # _ \<Rightarrow> AList.delete (fst e) es)
      else Some es)"

definition issue :: "challenge_store \<Rightarrow> u8 list \<Rightarrow> int \<Rightarrow> (jstr \<times> challenge_store) option" where
  "issue st random now =
     (case evict (maxChallenges st) (issuedAt st) of
        None \<Rightarrow> None
      | Some es \<Rightarrow>
          let challenge = toBase64Url random
          in Some (challenge, st\<lparr>issuedAt := AList.update challenge now es\<rparr>))"

definition consume :: "challenge_store \<Rightarrow> int \<Rightarrow> jstr \<Rightarrow> bool \<times> challenge_store" where
  "consume st now challenge =
     (let at = map_of (issuedAt st) challenge
      in ((case at of None \<Rightarrow> False | Some t \<Rightarrow> now - t \<le> ttlMs st),
          st\<lparr>issuedAt := AList.delete challenge (issuedAt st)\<rparr>))"

section \<open>The route and the socket\<close>

definition SYNC_CHALLENGE_PATH :: jstr where
  "SYNC_CHALLENGE_PATH = js ''/challenge''"

definition SYNC_PROOF_PARAM :: string where
  "SYNC_PROOF_PARAM = ''p''"

definition handleSyncChallengeRequest ::
  "jstr option \<Rightarrow> http_request \<Rightarrow> u8 list \<Rightarrow> int \<Rightarrow> challenge_store \<Rightarrow> (reply \<times> challenge_store) option" where
  "handleSyncChallengeRequest token rq random now st =
     (if rq_path rq \<noteq> SYNC_CHALLENGE_PATH then Some (NotMine, st)
      else if method_of rq = js ''OPTIONS'' then Some (Status 204, st)
      else if method_of rq \<noteq> js ''GET'' then Some (Status 405, st)
      else if \<not> isAuthorized rq token then Some (Json 401 (error_body ''Unauthorized''), st)
      else map_option (\<lambda>(challenge, st').
             (Json 200 (JObject [(js ''challenge'', JString challenge)]), st')) (issue st random now))"

definition readProvenDeviceKey ::
  "platform \<Rightarrow> http_request \<Rightarrow> int \<Rightarrow> challenge_store \<Rightarrow> jstr option \<times> challenge_store" where
  "readProvenDeviceKey p rq now st =
     (let encoded = searchParam rq SYNC_PROOF_PARAM;
          sig = (case encoded of None \<Rightarrow> None | Some e \<Rightarrow> if e = [] then None else decodeSignedStatement p e)
      in case sig of
           None \<Rightarrow> (None, st)
         | Some s \<Rightarrow>
             (case as_string (field (payload s) ''challenge'') of
                None \<Rightarrow> (None, st)
              | Some challenge \<Rightarrow>
                  (case consume st now challenge of
                     (False, st') \<Rightarrow> (None, st')
                   | (True, st') \<Rightarrow> (checkSyncProof p s challenge, st'))))"

section \<open>Eviction\<close>

lemma length_delete_hd: "length (AList.delete (fst e) (e # es)) < length (e # es)"
  using length_AList_delete_le [of "fst e" es] by (cases e) simp

lemma evict_defined: "0 < cap \<Longrightarrow> \<exists>es'. evict cap es = Some es'"
proof (induction "length es" arbitrary: es rule: less_induct)
  case less
  show ?case
  proof (cases "cap \<le> int (length es)")
    case True
    with less obtain e rest where es: "es = e # rest" by (cases es) auto
    from less(1) [OF _ less(2), of "AList.delete (fst e) es"] es True show ?thesis
      using length_delete_hd [of e rest] by (simp add: evict.simps [of cap "e # rest"])
  qed (simp add: evict.simps)
qed

lemma evict_cap:
  assumes "evict cap es = Some es'"
  shows "0 < cap"
proof (rule evict.raw_induct [where P = "\<lambda>c xs ys. 0 < c", OF _ assms], goal_cases)
  case (1 evict' c xs ys)
  show ?case
  proof (cases "c \<le> int (length xs)")
    case True
    with 1(2) show ?thesis by (auto intro: 1(1))
  next
    case False
    then show ?thesis by linarith
  qed
qed

lemma evict_drop:
  assumes "0 < cap" "distinct (map fst es)"
  shows "evict cap es = Some (drop (nat (int (length es) + 1 - cap)) es)"
  using assms(2)
proof (induction es)
  case Nil
  with assms(1) show ?case by (simp add: evict.simps)
next
  case (Cons e rest)
  show ?case
  proof (cases "cap \<le> int (length (e # rest))")
    case True
    have "AList.delete (fst e) (e # rest) = rest"
      using Cons.prems by (cases e) (auto intro: delete_id simp: image_iff)
    moreover have "nat (int (length (e # rest)) + 1 - cap) = Suc (nat (int (length rest) + 1 - cap))"
      using True by simp
    ultimately show ?thesis
      using True Cons by (simp add: evict.simps [of cap "e # rest"])
  next
    case False
    then show ?thesis by (simp add: evict.simps [of cap "e # rest"])
  qed
qed

text \<open>
  C11. Handing out a challenge returns exactly when the cap is positive; with a cap of zero or
  less the eviction loop never ends, whatever is in the store.
\<close>

theorem issue_returns: "(\<exists>r. issue st random now = Some r) \<longleftrightarrow> 0 < maxChallenges st"
proof (cases "0 < maxChallenges st")
  case True
  then show ?thesis
    using evict_defined [of "maxChallenges st" "issuedAt st"] by (auto simp: issue_def Let_def)
next
  case False
  then have "evict (maxChallenges st) (issuedAt st) = None"
    using evict_cap [of "maxChallenges st" "issuedAt st"] by (metis not_Some_eq)
  with False show ?thesis by (simp add: issue_def)
qed

section \<open>Runs of the store\<close>

datatype store_op = Issue "u8 list" int | Consume jstr int

fun op_step :: "challenge_store \<Rightarrow> store_op \<Rightarrow> challenge_store option" where
  "op_step st (Issue random now) = map_option snd (issue st random now)"
| "op_step st (Consume challenge now) = Some (snd (consume st now challenge))"

fun run_ops :: "challenge_store \<Rightarrow> store_op list \<Rightarrow> challenge_store option" where
  "run_ops st [] = Some st"
| "run_ops st (x # xs) = Option.bind (op_step st x) (\<lambda>st'. run_ops st' xs)"

lemma run_ops_append:
  "run_ops st (xs @ ys) = Option.bind (run_ops st xs) (\<lambda>st'. run_ops st' ys)"
  by (induction xs arbitrary: st) (auto split: Option.bind_splits)

definition store_ok :: "challenge_store \<Rightarrow> bool" where
  "store_ok st = (0 < maxChallenges st \<and> distinct (map fst (issuedAt st))
     \<and> int (length (issuedAt st)) \<le> maxChallenges st)"

lemma issue_eq:
  assumes "store_ok st"
  shows "issue st random now = Some (toBase64Url random, st\<lparr>issuedAt := AList.update (toBase64Url random) now
     (drop (nat (int (length (issuedAt st)) + 1 - maxChallenges st)) (issuedAt st))\<rparr>)"
  using assms evict_drop [of "maxChallenges st" "issuedAt st"]
  by (simp add: issue_def store_ok_def Let_def)

lemma consume_caps [simp]:
  "ttlMs (snd (consume st now c)) = ttlMs st" "maxChallenges (snd (consume st now c)) = maxChallenges st"
  "issuedAt (snd (consume st now c)) = AList.delete c (issuedAt st)"
  by (simp_all add: consume_def Let_def)

lemma length_AList_update_le: "length (AList.update k v al) \<le> Suc (length al)"
  by (induction al) auto

lemma op_step_ok:
  assumes "store_ok st" "op_step st x = Some st'"
  shows "store_ok st' \<and> ttlMs st' = ttlMs st \<and> maxChallenges st' = maxChallenges st"
proof (cases x)
  case (Issue random now)
  let ?es = "drop (nat (int (length (issuedAt st)) + 1 - maxChallenges st)) (issuedAt st)"
  have st': "st' = st\<lparr>issuedAt := AList.update (toBase64Url random) now ?es\<rparr>"
    using assms(2) Issue issue_eq [OF assms(1)] by simp
  have "distinct (map fst ?es)"
    using assms(1) distinct_drop [of "map fst (issuedAt st)"] by (simp add: store_ok_def drop_map)
  moreover have "int (length ?es) < maxChallenges st"
    using assms(1) by (simp add: store_ok_def) linarith
  ultimately show ?thesis
    using assms(1) st' length_AList_update_le [of "toBase64Url random" now ?es]
    by (simp add: store_ok_def distinct_update)
next
  case (Consume c now)
  then show ?thesis
    using assms length_AList_delete_le [of c "issuedAt st"]
    by (auto simp: store_ok_def distinct_delete)
qed

lemma run_ops_ok:
  "store_ok st \<Longrightarrow> run_ops st xs = Some st' \<Longrightarrow>
     store_ok st' \<and> ttlMs st' = ttlMs st \<and> maxChallenges st' = maxChallenges st"
proof (induction xs arbitrary: st)
  case (Cons x xs)
  then obtain st1 where "op_step st x = Some st1" "run_ops st1 xs = Some st'"
    by (auto simp: bind_eq_Some_conv)
  with Cons op_step_ok [of st x st1] show ?case by metis
qed simp

lemma run_ops_defined: "store_ok st \<Longrightarrow> \<exists>st'. run_ops st xs = Some st'"
proof (induction xs arbitrary: st)
  case (Cons x xs)
  obtain st1 where "op_step st x = Some st1"
    using issue_eq [OF Cons.prems] by (cases x) auto
  with Cons op_step_ok [of st x st1] show ?case by simp
qed simp

lemma created_ok:
  "0 < maxChallenges (createSyncChallengeStore ttl cap) \<Longrightarrow> store_ok (createSyncChallengeStore ttl cap)"
  by (simp add: store_ok_def createSyncChallengeStore_def)

text \<open>
  A store with a positive cap never holds more challenges than the cap, nor one twice,
  whatever requests come in whatever order, and every operation returns.
\<close>

lemma challenges_bounded:
  assumes "0 < maxChallenges (createSyncChallengeStore ttl cap)"
  shows "\<exists>st. run_ops (createSyncChallengeStore ttl cap) ops = Some st
     \<and> int (length (issuedAt st)) \<le> maxChallenges (createSyncChallengeStore ttl cap)
     \<and> distinct (map fst (issuedAt st))"
  using run_ops_defined [OF created_ok [OF assms]] run_ops_ok [OF created_ok [OF assms]]
  by (metis store_ok_def)

lemma challenges_bounded_witness:
  "\<exists>st. run_ops (createSyncChallengeStore None None) [Issue [1] 0, Issue [2] 1, Consume (toBase64Url [1]) 2] = Some st
     \<and> int (length (issuedAt st)) \<le> maxChallenges (createSyncChallengeStore None None)
     \<and> distinct (map fst (issuedAt st))"
  by (rule challenges_bounded) (simp add: createSyncChallengeStore_def DEFAULT_MAX_CHALLENGES_def)

section \<open>One time, and only while fresh\<close>

text \<open>A split of a run at the issue of a challenge that nothing consumed since.\<close>

definition issued_at :: "store_op list \<Rightarrow> jstr \<Rightarrow> int \<Rightarrow> bool" where
  "issued_at ops c t = (\<exists>pre random mid. ops = pre @ Issue random t # mid \<and> toBase64Url random = c
     \<and> (\<forall>now. Consume c now \<notin> set mid))"

lemma issued_atI:
  "ops = pre @ Issue random t # mid \<Longrightarrow> toBase64Url random = c \<Longrightarrow> (\<And>now. Consume c now \<notin> set mid)
     \<Longrightarrow> issued_at ops c t"
  unfolding issued_at_def by blast

lemma issued_at_snoc:
  assumes "issued_at ops c t" "\<forall>now. x \<noteq> Consume c now"
  shows "issued_at (ops @ [x]) c t"
proof -
  from assms(1) obtain pre random mid where "ops = pre @ Issue random t # mid" "toBase64Url random = c"
      "\<forall>now. Consume c now \<notin> set mid"
    unfolding issued_at_def by blast
  with assms(2) show ?thesis
    by (intro issued_atI [of _ pre random t "mid @ [x]"]) auto
qed

lemma issued_at_now: "issued_at (ops @ [Issue random t]) (toBase64Url random) t"
  by (rule issued_atI [of _ ops random t "[]"]) simp_all

lemma held_is_issued:
  assumes "store_ok st0" "issuedAt st0 = []"
  shows "run_ops st0 ops = Some st \<Longrightarrow> map_of (issuedAt st) c = Some t \<Longrightarrow> issued_at ops c t"
proof (induction ops arbitrary: st c t rule: rev_induct)
  case Nil
  with assms show ?case by auto
next
  case (snoc x ops)
  then obtain st1 where st1: "run_ops st0 ops = Some st1" "op_step st1 x = Some st"
    by (auto simp: run_ops_append bind_eq_Some_conv)
  have ok: "store_ok st1" using run_ops_ok [OF assms(1) st1(1)] by simp
  show ?case
  proof (cases x)
    case (Issue random now)
    let ?es = "drop (nat (int (length (issuedAt st1)) + 1 - maxChallenges st1)) (issuedAt st1)"
    have m: "((map_of ?es)(toBase64Url random \<mapsto> now)) c = Some t"
      using st1(2) snoc.prems Issue issue_eq [OF ok] by auto
    show ?thesis
    proof (cases "c = toBase64Url random")
      case True
      with m Issue issued_at_now show ?thesis by auto
    next
      case False
      with m have "(c, t) \<in> set (issuedAt st1)" by (auto dest: map_of_SomeD in_set_dropD)
      then have "map_of (issuedAt st1) c = Some t"
        using ok by (simp add: store_ok_def)
      with snoc.IH [OF st1(1)] Issue show ?thesis by (auto intro: issued_at_snoc)
    qed
  next
    case (Consume c' now)
    with st1(2) snoc.prems have "c \<noteq> c'" "map_of (issuedAt st1) c = Some t"
      by (auto split: if_splits)
    with snoc.IH [OF st1(1)] Consume show ?thesis by (auto intro: issued_at_snoc)
  qed
qed

text \<open>
  C12. In any run from an empty store, a challenge is accepted only if it was handed out at
  most the ttl ago and nothing consumed it since: a challenge works once, and a stale or invented
  one never.
\<close>

theorem accepted_once_and_fresh:
  assumes "0 < maxChallenges (createSyncChallengeStore ttl cap)"
    "run_ops (createSyncChallengeStore ttl cap) ops = Some st"
    "fst (consume st now c)"
  shows "\<exists>pre random t mid. ops = pre @ Issue random t # mid \<and> toBase64Url random = c
     \<and> now - t \<le> ttlMs (createSyncChallengeStore ttl cap)
     \<and> (\<forall>now'. Consume c now' \<notin> set mid)"
proof -
  note ok = created_ok [OF assms(1)]
  from assms(3) obtain t where t: "map_of (issuedAt st) c = Some t" "now - t \<le> ttlMs st"
    by (auto simp: consume_def Let_def split: option.splits)
  have "issuedAt (createSyncChallengeStore ttl cap) = []" by (simp add: createSyncChallengeStore_def)
  from held_is_issued [OF ok this assms(2) t(1)] show ?thesis
    using t(2) run_ops_ok [OF ok assms(2)] unfolding issued_at_def by auto
qed

lemma evict_head:
  assumes "int (length ys) + 1 < cap"
  shows "\<exists>xs'. drop (nat (int (length (xs @ e # ys)) + 1 - cap)) (xs @ e # ys) = xs' @ e # ys"
proof -
  have "nat (int (length (xs @ e # ys)) + 1 - cap) \<le> length xs" using assms by simp
  then show ?thesis by (simp del: length_append)
qed

definition issues :: "store_op list \<Rightarrow> jstr list" where
  "issues ops = concat (map (\<lambda>x. case x of Issue r t \<Rightarrow> [toBase64Url r] | Consume _ _ \<Rightarrow> []) ops)"

lemma AList_update_split:
  "AList.update k v (xs @ ys)
     = (if k \<in> fst ` set xs then AList.update k v xs @ ys else xs @ AList.update k v ys)"
  by (induction xs) auto

lemma held_while_young:
  assumes "store_ok st0" "issuedAt st0 = es @ [(c, t)]"
    "run_ops st0 mid = Some st" "c \<notin> set (issues mid)" "int (length (issues mid)) < maxChallenges st0"
    "\<And>now. Consume c now \<notin> set mid"
  shows "\<exists>xs ys. issuedAt st = xs @ (c, t) # ys \<and> length ys \<le> length (issues mid)"
  using assms(3-6)
proof (induction mid arbitrary: st rule: rev_induct)
  case Nil
  with assms(2) show ?case by (intro exI [of _ es] exI [of _ "[]"]) simp
next
  case (snoc x mid)
  then obtain st1 where st1: "run_ops st0 mid = Some st1" "op_step st1 x = Some st"
    by (auto simp: run_ops_append bind_eq_Some_conv)
  have ok: "store_ok st1" "maxChallenges st1 = maxChallenges st0"
    using run_ops_ok [OF assms(1) st1(1)] by simp_all
  have "c \<notin> set (issues mid)" "int (length (issues mid)) < maxChallenges st0"
      "\<And>now. Consume c now \<notin> set mid"
    using snoc.prems by (auto simp: issues_def)
  from snoc.IH [OF st1(1) this] obtain xs ys
    where IH: "issuedAt st1 = xs @ (c, t) # ys" "length ys \<le> length (issues mid)" by auto
  show ?case
  proof (cases x)
    case (Issue random now)
    then have "int (length ys) + 1 < maxChallenges st1"
      using IH(2) snoc.prems ok by (simp add: issues_def)
    from evict_head [OF this, of xs "(c, t)"] obtain xs' where
      es: "drop (nat (int (length (issuedAt st1)) + 1 - maxChallenges st1)) (issuedAt st1) = xs' @ (c, t) # ys"
      using IH(1) by auto
    have ne: "toBase64Url random \<noteq> c" using snoc.prems Issue by (auto simp: issues_def)
    obtain xs'' ys' where
      "AList.update (toBase64Url random) now (xs' @ (c, t) # ys) = xs'' @ (c, t) # ys'"
      "length ys' \<le> Suc (length ys)"
    proof (cases "toBase64Url random \<in> fst ` set xs'")
      case True
      then have "AList.update (toBase64Url random) now (xs' @ (c, t) # ys)
          = AList.update (toBase64Url random) now xs' @ (c, t) # ys"
        by (simp add: AList_update_split)
      then show ?thesis by (intro that) auto
    next
      case False
      with ne show ?thesis
        using length_AList_update_le [of "toBase64Url random" now ys]
        by (intro that [of xs' "AList.update (toBase64Url random) now ys"]) (auto simp: AList_update_split)
    qed
    moreover have "issuedAt st = AList.update (toBase64Url random) now (xs' @ (c, t) # ys)"
      using Issue st1(2) issue_eq [OF ok(1)] es by auto
    moreover have "Suc (length ys) \<le> length (issues (mid @ [x]))" using Issue IH(2) by (simp add: issues_def)
    ultimately show ?thesis by (metis le_trans)
  next
    case (Consume c' now)
    then have "c' \<noteq> c" using snoc.prems by auto
    with Consume st1(2) IH have "issuedAt st = AList.delete c' xs @ (c, t) # AList.delete c' ys"
      by (auto simp: AList.delete_eq)
    moreover have "length (AList.delete c' ys) \<le> length (issues (mid @ [x]))"
      using IH(2) length_AList_delete_le [of c' ys] by (simp add: issues_def)
    ultimately show ?thesis by blast
  qed
qed

text \<open>
  C13. A challenge that was handed out is accepted, once, for its whole lifetime, as long as it was
  not consumed and fewer than the cap were handed out after it: a flood can only push out
  challenges older than the last \<open>cap\<close> ones.
\<close>

theorem fresh_challenge_accepted:
  assumes "0 < maxChallenges (createSyncChallengeStore ttl cap)"
    "run_ops (createSyncChallengeStore ttl cap) (pre @ Issue random t # mid) = Some st"
    "toBase64Url random \<notin> set (issues (pre @ mid))"
    "int (length (issues mid)) < maxChallenges (createSyncChallengeStore ttl cap)"
    "\<forall>now. Consume (toBase64Url random) now \<notin> set mid"
  shows "fst (consume st now (toBase64Url random))
     \<longleftrightarrow> now - t \<le> ttlMs (createSyncChallengeStore ttl cap)"
proof -
  let ?st0 = "createSyncChallengeStore ttl cap" and ?c = "toBase64Url random"
  note ok0 = created_ok [OF assms(1)]
  have nil: "issuedAt ?st0 = []" by (simp add: createSyncChallengeStore_def)
  from assms(2) obtain st1 where st1: "run_ops ?st0 pre = Some st1"
      "run_ops st1 (Issue random t # mid) = Some st"
    by (auto simp: run_ops_append bind_eq_Some_conv)
  note ok1 = run_ops_ok [OF ok0 st1(1)]
  let ?es = "drop (nat (int (length (issuedAt st1)) + 1 - maxChallenges st1)) (issuedAt st1)"
  let ?st2 = "st1\<lparr>issuedAt := AList.update ?c t ?es\<rparr>"
  have op: "op_step st1 (Issue random t) = Some ?st2" using issue_eq ok1 by simp
  from st1(2) have st2: "run_ops ?st2 mid = Some st" unfolding run_ops.simps op by simp
  have ok2: "store_ok ?st2" "ttlMs ?st2 = ttlMs ?st0" "maxChallenges ?st2 = maxChallenges ?st0"
    using op_step_ok [OF _ op] ok1 by simp_all
  have "map_of (issuedAt st1) ?c = None"
  proof (rule ccontr)
    assume "map_of (issuedAt st1) ?c \<noteq> None"
    then obtain t' where "issued_at pre ?c t'" using held_is_issued [OF ok0 nil st1(1)] by auto
    with assms(3) show False by (force simp: issued_at_def issues_def)
  qed
  then have "?c \<notin> fst ` set ?es" by (auto simp: map_of_eq_None_iff dest: in_set_dropD)
  then have "issuedAt ?st2 = ?es @ [(?c, t)]" by (simp add: AList_update_append)
  from held_while_young [OF ok2(1) this st2] assms(3-5) ok2(3)
  obtain xs ys where "issuedAt st = xs @ (?c, t) # ys" by (auto simp: issues_def)
  moreover have "store_ok st" "ttlMs st = ttlMs ?st0"
    using run_ops_ok [OF ok2(1) st2] ok2(2) by simp_all
  ultimately have "map_of (issuedAt st) ?c = Some t"
    by (intro map_of_is_SomeI) (simp_all add: store_ok_def)
  with \<open>ttlMs st = ttlMs ?st0\<close> show ?thesis by (simp add: consume_def)
qed

lemma accepted_once_and_fresh_witness:
  "fst (consume (the (run_ops (createSyncChallengeStore None None) [Issue [1] 0])) 5 (toBase64Url [1]))
   \<and> (\<exists>pre random t mid. [Issue [1] 0] = pre @ Issue random t # mid \<and> toBase64Url random = toBase64Url [1]
     \<and> 5 - t \<le> ttlMs (createSyncChallengeStore None None)
     \<and> (\<forall>now'. Consume (toBase64Url [1]) now' \<notin> set mid))"
proof -
  have cap: "0 < maxChallenges (createSyncChallengeStore None None)"
    by (simp add: createSyncChallengeStore_def DEFAULT_MAX_CHALLENGES_def)
  obtain st where st: "run_ops (createSyncChallengeStore None None) [Issue [1] 0] = Some st"
    using run_ops_defined [OF created_ok [OF cap]] by blast
  moreover have "fst (consume st 5 (toBase64Url [1]))"
    using st issue_eq [OF created_ok [OF cap]]
    by (auto simp: consume_def createSyncChallengeStore_def DEFAULT_CHALLENGE_TTL_MS_def)
  ultimately show ?thesis using accepted_once_and_fresh [OF cap st] by (simp only: option.sel simp_thms)
qed

lemma fresh_challenge_accepted_witness:
  "\<exists>st. run_ops (createSyncChallengeStore None (Some 2)) ([Issue [1] 0] @ Issue [2] 1 # [Issue [3] 2]) = Some st
     \<and> (fst (consume st 60001 (toBase64Url [2])) \<longleftrightarrow> 60001 - 1 \<le> ttlMs (createSyncChallengeStore None (Some 2)))"
proof -
  let ?s = "createSyncChallengeStore None (Some 2)"
  have cap: "0 < maxChallenges ?s" by (simp add: createSyncChallengeStore_def)
  obtain st where st: "run_ops ?s ([Issue [1] 0] @ Issue [2] 1 # [Issue [3] 2]) = Some st"
    using run_ops_defined [OF created_ok [OF cap]] by blast
  have "toBase64Url [1] \<noteq> toBase64Url [2]" "toBase64Url [3] \<noteq> toBase64Url [2]"
    by (simp_all add: base64url.enc_inj)
  then have "toBase64Url [2] \<notin> set (issues ([Issue [1] 0] @ [Issue [3] 2]))"
    by (auto simp: issues_def)
  from fresh_challenge_accepted [OF cap st this, of 60001] st show ?thesis
    by (auto simp: issues_def createSyncChallengeStore_def)
qed

section \<open>What the users of a store rely on\<close>

text \<open>
  A store of one-time tokens: consuming one tells whether it was still good, and leaves it and
  nothing else no longer good, now and at any later time.
\<close>

locale one_time =
  fixes consumes :: "'st \<Rightarrow> int \<Rightarrow> jstr \<Rightarrow> bool \<times> 'st"
    and good :: "'st \<Rightarrow> int \<Rightarrow> jstr \<Rightarrow> bool"
  assumes consumes_good: "fst (consumes st now c) = good st now c"
    and consumed_gone: "\<not> good (snd (consumes st now c)) later c"
    and others_kept: "d \<noteq> c \<Longrightarrow> good (snd (consumes st now c)) later d = good st later d"
begin

lemma consumes_once: "fst (consumes (snd (consumes st now c)) later c) = False"
  using consumes_good consumed_gone by metis

lemma consumed_stays_gone:
  "\<not> good (snd (consumes (snd (consumes st now c)) now' d)) later c"
  using consumed_gone others_kept by metis

end

definition good_challenge :: "challenge_store \<Rightarrow> int \<Rightarrow> jstr \<Rightarrow> bool" where
  "good_challenge st now c = (case map_of (issuedAt st) c of None \<Rightarrow> False | Some t \<Rightarrow> now - t \<le> ttlMs st)"

interpretation challenges: one_time consume good_challenge
  by unfold_locales (auto simp: consume_def good_challenge_def Let_def split: option.splits)

section \<open>The proof on the sync socket\<close>

lemma checkSyncProof_sound:
  "checkSyncProof p s c = Some k \<Longrightarrow> verifyStatement p s (KeyText k)
     \<and> field (payload s) ''challenge'' = JString c \<and> field (payload s) ''deviceKey'' = JString k
     \<and> field (payload s) ''type'' = JString SYNC_PROOF_TYPE"
  by (auto simp: checkSyncProof_def split: if_splits option.splits)

text \<open>
  A device key is taken as proven only from a statement that verifies under that key, names
  it, and answers a challenge that was good until this request; the same url proves nothing again.
\<close>

lemma proven_device_key:
  assumes "fst (readProvenDeviceKey p rq now st) = Some k"
  shows "(\<exists>text s c. searchParam rq SYNC_PROOF_PARAM = Some text \<and> decodeSignedStatement p text = Some s
       \<and> field (payload s) ''challenge'' = JString c \<and> field (payload s) ''deviceKey'' = JString k
       \<and> verifyStatement p s (KeyText k) \<and> good_challenge st now c)
     \<and> fst (readProvenDeviceKey p rq later (snd (readProvenDeviceKey p rq now st))) = None"
proof -
  from assms obtain enc s c where sp: "searchParam rq SYNC_PROOF_PARAM = Some enc" "enc \<noteq> []"
      "decodeSignedStatement p enc = Some s" "field (payload s) ''challenge'' = JString c"
      "fst (consume st now c)" "checkSyncProof p s c = Some k"
      "snd (readProvenDeviceKey p rq now st) = snd (consume st now c)"
    by (auto simp: readProvenDeviceKey_def Let_def split: option.splits if_splits prod.splits bool.splits)
  have "fst (consume (snd (consume st now c)) later c) = False"
    by (rule challenges.consumes_once)
  then have "fst (readProvenDeviceKey p rq later (snd (consume st now c))) = None"
    using sp by (auto simp: readProvenDeviceKey_def split: prod.splits bool.splits)
  moreover have "good_challenge st now c" using sp(5) by (simp add: challenges.consumes_good)
  ultimately show ?thesis using sp checkSyncProof_sound [OF sp(6)] by auto
qed

lemma read_created_proof:
  assumes "platform_ok p" "createSyncProof p c sk = Inr s" "encodeSignedStatement s = Inr text"
    "searchParam rq SYNC_PROOF_PARAM = Some text" "good_challenge st now c"
  shows "fst (readProvenDeviceKey p rq now st) = Some (keyText p sk)"
proof -
  let ?v = "proof_value c (keyText p sk)"
  have pay: "payload s = ?v" and ver: "verifyStatement p s (KeyText (keyText p sk))"
    using verifyStatement_sign [OF assms(1)] assms(2) by (auto simp: createSyncProof_def)
  have wf: "wf_json (nearest p) (payload s)" "payload s \<noteq> JUndefined"
    by (simp_all add: pay proof_value_def obj_def)
  from assms(3) obtain b where b: "statementBytes s = Inr b" "text = toBase64Url b"
    by (cases "canonicalJson (signed_value s)") (auto simp: encodeSignedStatement_def statementBytes_def)
  have dec: "decodeSignedStatement p text = Some (sorted_signed s)"
    using parse_statement_bytes [OF b(1) wf] b(2) by (simp add: decodeSignedStatement_def base64url.dec_enc)
  have ne: "text \<noteq> []"
  proof
    assume "text = []"
    with dec have "parseSignedStatement p [] = Some (sorted_signed s)"
      by (simp add: decodeSignedStatement_def fromBase64Url_def)
    then show False by (simp add: parseSignedStatement_def utf8_decode_def JSON_parse_def lex.simps)
  qed
  have f: "field (payload (sorted_signed s)) k = sorted_form (field ?v k)" for k
    using getprop_sorted_form [OF wf(1)] by (simp add: sorted_signed_def pay)
  have "checkSyncProof p (sorted_signed s) c = Some (keyText p sk)"
    using ver sorted_signed_verifies [of p s]
    by (simp add: checkSyncProof_def f) (simp add: sorted_signed_def pay proof_value_def)
  with assms(4,5) ne dec f show ?thesis
    by (auto simp: readProvenDeviceKey_def proof_value_def consume_def good_challenge_def Let_def
        split: option.splits)
qed

text \<open>
  A guest that signs a good challenge with its device key and connects is recognised under
  that key.
\<close>

lemma sync_proof_recognised:
  assumes "platform_ok p" "createSyncProof p c sk = Inr s" "encodeSignedStatement s = Inr text"
    "searchParam rq SYNC_PROOF_PARAM = Some text" "good_challenge st now c"
  shows "fst (readProvenDeviceKey p rq now st) = Some (keyText p sk)"
  using assms by (rule read_created_proof)

text \<open>A guest with the key \<open>[1]\<close> answers the challenge \<open>nonce\<close>, issued at time 0.\<close>

definition ex_proof :: signed where
  "ex_proof = projr (createSyncProof toy (js ''nonce'') [1])"
definition ex_socket :: http_request where
  "ex_socket = \<lparr>rq_method = None, rq_path = js ''/'', rq_authorization = None,
     rq_params = [(js ''p'', projr (encodeSignedStatement ex_proof))]\<rparr>"
definition ex_store :: challenge_store where
  "ex_store = \<lparr>ttlMs = 60000, maxChallenges = 256, issuedAt = [(js ''nonce'', 0)]\<rparr>"

lemma ex_proof: "createSyncProof toy (js ''nonce'') [1] = Inr ex_proof"
    "encodeSignedStatement ex_proof = Inr (projr (encodeSignedStatement ex_proof))"
    "searchParam ex_socket SYNC_PROOF_PARAM = Some (projr (encodeSignedStatement ex_proof))"
    "good_challenge ex_store 7 (js ''nonce'')"
proof -
  have "serializable (proof_value (js ''nonce'') (keyText toy [1]))"
    by (simp add: proof_value_def obj_def statement_types wellFormed_js plain_unit_def exportPublicKey_def)
  note t = sign_total_projr [OF this, of toy "[1]"]
  show "createSyncProof toy (js ''nonce'') [1] = Inr ex_proof"
    using t by (simp add: ex_proof_def createSyncProof_def)
  have "statementBytes ex_proof = Inr (projr (statementBytes ex_proof))"
    using t by (simp add: ex_proof_def createSyncProof_def)
  then show "encodeSignedStatement ex_proof = Inr (projr (encodeSignedStatement ex_proof))"
    by (cases "canonicalJson (signed_value ex_proof)") (simp_all add: encodeSignedStatement_def statementBytes_def)
qed (simp_all add: searchParam_def ex_socket_def SYNC_PROOF_PARAM_def good_challenge_def ex_store_def)

lemma sync_proof_recognised_witness:
  "fst (readProvenDeviceKey toy ex_socket 7 ex_store) = Some (keyText toy [1])"
  using sync_proof_recognised [OF toy_ok ex_proof] .

lemma proven_device_key_witness:
  "(\<exists>text s c. searchParam ex_socket SYNC_PROOF_PARAM = Some text \<and> decodeSignedStatement toy text = Some s
       \<and> field (payload s) ''challenge'' = JString c \<and> field (payload s) ''deviceKey'' = JString (keyText toy [1])
       \<and> verifyStatement toy s (KeyText (keyText toy [1])) \<and> good_challenge ex_store 7 c)
     \<and> fst (readProvenDeviceKey toy ex_socket 8 (snd (readProvenDeviceKey toy ex_socket 7 ex_store))) = None"
  by (rule proven_device_key) (rule read_created_proof [OF toy_ok ex_proof])

end
