(* ===== verification/Json_Copy.thy ===== *)
theory Json_Copy
  imports Json_Roundtrip
begin

text \<open>
  Two things the host's stores do with JSON values: keep one in a file, where
  \<open>JSON.parse(JSON.stringify(v))\<close> comes back (\<open>json_copy\<close>), and read a number that must be
  whole (\<open>Number.isInteger\<close>, as the partial function \<open>int_of_num\<close>).
\<close>

section \<open>A value through a JSON file\<close>

text \<open>
  \<open>JSON.stringify\<close> leaves out members that are \<open>undefined\<close> or no data, writes \<open>null\<close> for them
  in an array and for a number that is not finite, and drops the sign of zero.
\<close>

function json_copy :: "jsval \<Rightarrow> jsval" where
  "json_copy (JNumber x) = (if isFinite x then JNumber (plain_zero x) else JNull)"
| "json_copy (JArray vs) = JArray (map (\<lambda>v. if json_copy v = JUndefined then JNull else json_copy v) vs)"
| "json_copy (JObject ps) = JObject (filter (\<lambda>(k, v). v \<noteq> JUndefined) (map (\<lambda>(k, v). (k, json_copy v)) ps))"
| "json_copy JUndefined = JUndefined"
| "json_copy JNull = JNull"
| "json_copy (JBool b) = JBool b"
| "json_copy (JString s) = JString s"
| "json_copy (JOther t) = JUndefined"
  by pat_completeness auto
termination
  by (relation "measure size") (auto simp: less_Suc_eq_le size_list_estimation' dest: size_member)

text \<open>Plain JSON data, as \<open>JSON.parse\<close> makes it: what a file gives back unchanged.\<close>

function json_data :: "jsval \<Rightarrow> bool" where
  "json_data (JNumber x) = (isFinite x \<and> plain_zero x = x)"
| "json_data (JArray vs) = (\<forall>v \<in> set vs. json_data v)"
| "json_data (JObject ps) = (\<forall>kv \<in> set ps. json_data (snd kv))"
| "json_data JUndefined = False"
| "json_data JNull = True"
| "json_data (JBool b) = True"
| "json_data (JString s) = True"
| "json_data (JOther t) = False"
  by pat_completeness auto
termination
  by (relation "measure size") (auto simp: less_Suc_eq_le size_list_estimation' size_member)

lemma json_data_defined: "json_data v \<Longrightarrow> v \<noteq> JUndefined"
  by auto

lemma json_copy_data: "json_data v \<Longrightarrow> json_copy v = v"
proof (induction v rule: json_data.induct)
  case (2 vs)
  then have "json_copy v = v \<and> v \<noteq> JUndefined" if "v \<in> set vs" for v
    using that by (auto dest: json_data_defined)
  then show ?case by (simp add: map_idI)
next
  case (3 ps)
  then have c: "(\<lambda>(k, v). (k, json_copy v)) kv = kv \<and> snd kv \<noteq> JUndefined" if "kv \<in> set ps" for kv
    using that by (auto simp: split_beta dest: json_data_defined)
  then have m: "map (\<lambda>(k, v). (k, json_copy v)) ps = ps" by (simp add: map_idI)
  from c have "filter (\<lambda>(k, v). v \<noteq> JUndefined) ps = ps"
    by (auto simp: filter_id_conv split_beta)
  with m show ?case by simp
qed simp_all

lemma getprop_append:
  "getprop (JObject (ps @ qs)) k = (case map_of ps k of Some v \<Rightarrow> v | None \<Rightarrow> getprop (JObject qs) k)"
  by (simp add: map_add_def split: option.splits)

text \<open>A JSON file as a reader finds it: absent, unreadable, not JSON, or holding a value.\<close>

datatype disk_file = Missing | Denied | Garbled | Holds jsval

section \<open>Whole numbers\<close>

definition int_of_num :: "jsnum \<Rightarrow> int option" where
  "int_of_num x = (case x of
     Zero _ \<Rightarrow> Some 0
   | Finite neg ds n \<Rightarrow>
       if int (length ds) \<le> n
       then Some ((if neg then -1 else 1) * int (nat_of_digits ds) * 10 ^ nat (n - int (length ds)))
       else None
   | _ \<Rightarrow> None)"

definition num_of_int :: "int \<Rightarrow> jsnum" where
  "num_of_int i =
     (if i < 0 then (case num_of_nat (nat (- i)) of Finite _ ds n \<Rightarrow> Finite True ds n | x \<Rightarrow> x)
      else num_of_nat (nat i))"

fun as_integer :: "jsval \<Rightarrow> int option" where
  "as_integer (JNumber x) = int_of_num x"
| "as_integer _ = None"

lemma nat_of_digits_zeros: "nat_of_digits (ds @ replicate k 0) = nat_of_digits ds * 10 ^ k"
proof (induction k)
  case (Suc k)
  have "ds @ replicate (Suc k) 0 = (ds @ replicate k 0) @ [0]"
    by (simp add: replicate_append_same)
  with Suc show ?case by (simp only:) (simp add: nat_of_digits_def)
qed simp

lemma strip_zeros_split: "\<exists>k. ds = strip_zeros ds @ replicate k 0"
proof -
  have "ds = rev (dropWhile (\<lambda>d. d = 0) (rev ds)) @ rev (takeWhile (\<lambda>d. d = 0) (rev ds))"
    by (metis rev_append rev_rev_ident takeWhile_dropWhile_id)
  moreover have "takeWhile (\<lambda>d. d = 0) (rev ds) = replicate (length (takeWhile (\<lambda>d. d = 0) (rev ds))) 0"
    by (rule replicate_length_same [symmetric]) (auto dest: set_takeWhileD)
  ultimately show ?thesis unfolding strip_zeros_def by (metis rev_replicate)
qed

lemma int_of_num_of_nat: "int_of_num (num_of_nat n) = Some (int n)"
proof (cases "n = 0")
  case False
  obtain k where k: "decimal n = strip_zeros (decimal n) @ replicate k 0"
    using strip_zeros_split by blast
  then have "nat_of_digits (strip_zeros (decimal n)) * 10 ^ k = n"
    by (metis nat_of_digits_decimal nat_of_digits_zeros)
  moreover have "length (decimal n) = length (strip_zeros (decimal n)) + k"
    using k by (metis length_append length_replicate)
  ultimately show ?thesis
    using False by (simp add: num_of_nat_def int_of_num_def flip: of_nat_mult of_nat_power)
      (metis of_nat_mult of_nat_numeral of_nat_power)
qed (simp add: num_of_nat_def int_of_num_def)

lemma int_of_num_of_int [simp]: "int_of_num (num_of_int i) = Some i"
proof (cases "i < 0")
  case True
  have "int_of_num (num_of_nat (nat (- i))) = Some (- i)"
    using True int_of_num_of_nat [of "nat (- i)"] by simp
  with True show ?thesis
    by (auto simp: num_of_int_def num_of_nat_def int_of_num_def split: if_splits)
next
  case False
  then show ?thesis using int_of_num_of_nat [of "nat i"] by (simp add: num_of_int_def)
qed

lemma num_of_int_data [simp]: "isFinite (num_of_int i)" "plain_zero (num_of_int i) = num_of_int i"
  by (auto simp: num_of_int_def num_of_nat_def isFinite_def plain_zero_def)

end
