(* ===== verification/Labels.thy ===== *)
theory Labels
  imports Statement_Text
begin

text \<open>
  The rules for typed names and PINs: \<open>sanitizeLabel\<close> of \<^verbatim>\<open>packages/sync-protocol/lib/label.ts\<close>
  and \<open>isValidPin\<close> of \<^verbatim>\<open>roster.ts\<close>. The regular expressions carry the \<open>u\<close> flag, so they
  read code points: a surrogate pair is one, a lone surrogate is one of category Cs. The tables are
  the Unicode categories the expressions name.
\<close>

section \<open>Definitions\<close>

definition MAX_LABEL_LENGTH :: nat where
  "MAX_LABEL_LENGTH = 64"

text \<open>\<open>\s\<close>, which is also what \<open>trim\<close> removes.\<close>

definition is_space :: "nat \<Rightarrow> bool" where
  "is_space c = (9 \<le> c \<and> c \<le> 13 \<or> c = 32 \<or> c = 160 \<or> c = 5760 \<or> 8192 \<le> c \<and> c \<le> 8202
     \<or> c = 8232 \<or> c = 8233 \<or> c = 8239 \<or> c = 8287 \<or> c = 12288 \<or> c = 65279)"

text \<open>\<open>[\p{Cc}\p{Cf}\p{Zl}\p{Zp}]\<close>.\<close>

definition is_invisible :: "nat \<Rightarrow> bool" where
  "is_invisible c = (c < 32 \<or> 127 \<le> c \<and> c \<le> 159 \<or> c = 8232 \<or> c = 8233
     \<or> (\<exists>(a, b) \<in> set [(173, 173), (1536, 1541), (1564, 1564), (1757, 1757), (1807, 1807), (2192, 2193),
        (2274, 2274), (6158, 6158), (8203, 8207), (8234, 8238), (8288, 8292), (8294, 8303),
        (65279, 65279), (65529, 65531), (69821, 69821), (69837, 69837), (78896, 78911),
        (113824, 113827), (119155, 119162), (917505, 917505), (917536, 917631)]. a \<le> c \<and> c \<le> b))"

text \<open>A string as its code points, each with the units that spell it.\<close>

fun code_points :: "jstr \<Rightarrow> (nat \<times> jstr) list" where
  "code_points [] = []"
| "code_points [u] = [(unat u, [u])]"
| "code_points (u # v # us) =
     (if high_surrogate u \<and> low_surrogate v then (unat (code_point u v), [u, v]) # code_points us
      else (unat u, [u]) # code_points (v # us))"

definition space_unit :: "u16 \<Rightarrow> bool" where
  "space_unit u = is_space (unat u)"

definition blank_out :: "jstr \<Rightarrow> jstr" where
  "blank_out s = concat (map (\<lambda>(c, us). if is_invisible c then [0x20] else us) (code_points s))"

text \<open>\<open>.replace(/\s+/g, ' ')\<close>.\<close>

fun collapse :: "jstr \<Rightarrow> jstr" where
  "collapse [] = []"
| "collapse [u] = [if space_unit u then 0x20 else u]"
| "collapse (u # v # us) =
     (if space_unit u then (if space_unit v then collapse (v # us) else 0x20 # collapse (v # us))
      else u # collapse (v # us))"

definition trim_end :: "jstr \<Rightarrow> jstr" where
  "trim_end s = rev (dropWhile space_unit (rev s))"

definition trim :: "jstr \<Rightarrow> jstr" where
  "trim s = trim_end (dropWhile space_unit s)"

text \<open>\<open>.replace(/[\s\p{Cs}]+$/gu, '')\<close>.\<close>

definition lone :: "nat \<Rightarrow> bool" where
  "lone c = (55296 \<le> c \<and> c \<le> 57343)"

definition strip_tail :: "jstr \<Rightarrow> jstr" where
  "strip_tail s =
     concat (map snd (rev (dropWhile (\<lambda>(c, us). is_space c \<or> lone c) (rev (code_points s)))))"

definition sanitizeLabel :: "jsval \<Rightarrow> jstr option" where
  "sanitizeLabel v =
     (case as_string v of
        None \<Rightarrow> None
      | Some s \<Rightarrow>
          let cleaned = strip_tail (take MAX_LABEL_LENGTH (trim (collapse (blank_out s))))
          in if cleaned \<noteq> [] then Some cleaned else None)"

text \<open>\<open>/^\d{4,6}$/\<close>; the \<open>$\<close> without the \<open>m\<close> flag is the end of the string.\<close>

definition valid_pin :: "jstr \<Rightarrow> bool" where
  "valid_pin pin = (list_all is_digit pin \<and> 4 \<le> length pin \<and> length pin \<le> 6)"

definition isValidPin :: "jsval \<Rightarrow> jstr option" where
  "isValidPin v = (case as_string v of None \<Rightarrow> None | Some pin \<Rightarrow> if valid_pin pin then Some pin else None)"

section \<open>Code points\<close>

lemma concat_code_points: "concat (map snd (code_points s)) = s"
  by (induction s rule: code_points.induct) auto

text \<open>Text a name may hold: no invisible code point.\<close>

definition visible :: "jstr \<Rightarrow> bool" where
  "visible s = (\<forall>p \<in> set (code_points s). \<not> is_invisible (fst p))"

lemma code_points_Cons:
  "\<not> (high_surrogate u \<and> us \<noteq> [] \<and> low_surrogate (hd us)) \<Longrightarrow>
     code_points (u # us) = (unat u, [u]) # code_points us"
  by (cases us) auto

lemma code_points_pair:
  "high_surrogate u \<Longrightarrow> low_surrogate v \<Longrightarrow>
     code_points (u # v # us) = (unat (code_point u v), [u, v]) # code_points us"
  by simp

lemma code_points_eq_Nil [simp]: "code_points s = [] \<longleftrightarrow> s = []"
  by (cases s rule: code_points.cases) auto

lemma surrogate_range:
  "high_surrogate u \<longleftrightarrow> 55296 \<le> unat u \<and> unat u \<le> 56319"
  "low_surrogate u \<longleftrightarrow> 56320 \<le> unat u \<and> unat u \<le> 57343"
  by (simp_all add: high_surrogate_def low_surrogate_def word_le_nat_alt)

lemma space_no_surrogate: "space_unit u \<Longrightarrow> \<not> high_surrogate u \<and> \<not> low_surrogate u"
  by (auto simp: space_unit_def is_space_def surrogate_range)

lemma blank_no_surrogate [simp]: "\<not> high_surrogate 0x20" "\<not> low_surrogate 0x20"
  by (simp_all add: surrogate_range)

lemma blank_space [simp]: "space_unit 0x20" "\<not> is_invisible 32"
  by (simp_all add: space_unit_def is_space_def is_invisible_def)

lemma lone_visible: "lone c \<Longrightarrow> \<not> is_invisible c"
  by (auto simp: lone_def is_invisible_def)

lemma surrogate_lone: "high_surrogate u \<Longrightarrow> lone (unat u)"
  by (auto simp: lone_def surrogate_range)

lemma code_points_last:
  "\<not> low_surrogate u \<Longrightarrow> code_points (s @ [u]) = code_points s @ [(unat u, [u])]"
  by (induction s rule: code_points.induct) auto

lemma code_points_prefix:
  "code_points s = ps @ qs \<Longrightarrow> code_points (concat (map snd ps)) = ps"
proof (induction s arbitrary: ps rule: code_points.induct)
  case 1
  then show ?case by simp
next
  case (2 u)
  then show ?case by (cases ps) auto
next
  case (3 u v us)
  show ?case
  proof (cases "high_surrogate u \<and> low_surrogate v")
    case True
    with 3 show ?thesis by (cases ps) auto
  next
    case False
    show ?thesis
    proof (cases ps)
      case Nil
      then show ?thesis by simp
    next
      case (Cons p ps')
      with 3(3) False have p: "p = (unat u, [u])" and rest: "code_points (v # us) = ps' @ qs"
        by (auto split: if_splits)
      from 3(2) [OF False rest] have IH: "code_points (concat (map snd ps')) = ps'" .
      have "concat (map snd ps') = [] \<or> hd (concat (map snd ps')) = v"
      proof -
        have "v # us = concat (map snd (ps' @ qs))"
          using concat_code_points [of "v # us"] rest by simp
        then have "v # us = concat (map snd ps') @ concat (map snd qs)" by simp
        then show ?thesis by (cases "concat (map snd ps')") auto
      qed
      with False have "\<not> (high_surrogate u \<and> concat (map snd ps') \<noteq> []
          \<and> low_surrogate (hd (concat (map snd ps'))))" by auto
      with p IH Cons show ?thesis by (simp add: code_points_Cons)
    qed
  qed
qed

section \<open>What each step leaves\<close>

lemma blank_out_Nil [simp]: "blank_out [] = []"
  by (simp add: blank_out_def)

lemma hd_blank_out: "s \<noteq> [] \<Longrightarrow> blank_out s \<noteq> [] \<and> hd (blank_out s) \<in> {hd s, 0x20}"
  by (cases s rule: code_points.cases) (auto simp: blank_out_def)

lemma visible_blank_out: "visible (blank_out s)"
proof (induction s rule: code_points.induct)
  case 1
  then show ?case by (simp add: visible_def)
next
  case (2 u)
  then show ?case by (simp add: visible_def blank_out_def)
next
  case (3 u v us)
  show ?case
  proof (cases "high_surrogate u \<and> low_surrogate v")
    case True
    with 3(1) show ?thesis
      by (auto simp: visible_def blank_out_def code_points_Cons simp del: code_points.simps(2))
  next
    case False
    let ?t = "blank_out (v # us)"
    let ?x = "if is_invisible (unat u) then 0x20 else u"
    have "blank_out (u # v # us) = ?x # ?t"
      using False by (auto simp: blank_out_def)
    moreover have "\<not> (high_surrogate ?x \<and> ?t \<noteq> [] \<and> low_surrogate (hd ?t))"
      using hd_blank_out [of "v # us"] False by auto
    ultimately show ?thesis
      using 3(2) [OF False] by (simp add: visible_def code_points_Cons)
  qed
qed

lemma blank_out_visible: "visible s \<Longrightarrow> blank_out s = s"
proof -
  assume "visible s"
  then have "map (\<lambda>(c, us). if is_invisible c then [0x20] else us) (code_points s)
      = map snd (code_points s)"
    by (auto simp: visible_def)
  then have "blank_out s = concat (map snd (code_points s))"
    unfolding blank_out_def by (rule arg_cong)
  then show ?thesis by (simp add: concat_code_points)
qed

lemma collapse_Cons: "\<not> space_unit u \<Longrightarrow> collapse (u # us) = u # collapse us"
  by (cases us) auto

lemma hd_collapse_eq:
  "s \<noteq> [] \<Longrightarrow> collapse s \<noteq> [] \<and> hd (collapse s) = (if space_unit (hd s) then 0x20 else hd s)"
  by (induction s rule: collapse.induct) auto

lemma hd_collapse: "s \<noteq> [] \<Longrightarrow> collapse s \<noteq> [] \<and> hd (collapse s) \<in> {hd s, 0x20}"
  by (simp add: hd_collapse_eq)

lemma visible_Cons:
  "\<not> (high_surrogate u \<and> us \<noteq> [] \<and> low_surrogate (hd us)) \<Longrightarrow>
     visible (u # us) \<longleftrightarrow> \<not> is_invisible (unat u) \<and> visible us"
  by (simp add: visible_def code_points_Cons)

lemma visible_collapse: "visible s \<Longrightarrow> visible (collapse s)"
proof (induction s rule: length_induct)
  case (1 s)
  show ?case
  proof (cases s)
    case Nil
    with 1 show ?thesis by simp
  next
    case (Cons u us)
    show ?thesis
    proof (cases "high_surrogate u \<and> us \<noteq> [] \<and> low_surrogate (hd us)")
      case True
      then obtain v vs where us: "us = v # vs" "low_surrogate v" "high_surrogate u"
        by (cases us) auto
      then have "collapse s = u # v # collapse vs"
        using Cons by (metis collapse_Cons space_no_surrogate)
      moreover from us Cons 1(2) have "visible vs" by (simp add: visible_def)
      then have "visible (collapse vs)" using 1(1) us Cons by simp
      ultimately show ?thesis
        using us Cons 1(2) by (simp only: visible_def code_points_pair) simp
    next
      case False
      with 1 Cons have v: "\<not> is_invisible (unat u)" "visible (collapse us)"
        by (auto simp: visible_Cons)
      show ?thesis
      proof (cases "space_unit u")
        case True
        with Cons v show ?thesis
          using hd_collapse [of us]
          by (cases us) (auto simp: visible_Cons split: if_splits)
      next
        case False
        with Cons v \<open>\<not> (high_surrogate u \<and> us \<noteq> [] \<and> low_surrogate (hd us))\<close> show ?thesis
          using hd_collapse [of us] by (cases "us = []") (auto simp: visible_Cons collapse_Cons)
      qed
    qed
  qed
qed

lemma visible_dropWhile: "visible s \<Longrightarrow> visible (dropWhile space_unit s)"
proof (induction s)
  case (Cons u us)
  then show ?case
    by (cases "space_unit u") (auto simp: visible_Cons dest: space_no_surrogate)
qed simp

lemma visible_trim_end: "visible s \<Longrightarrow> visible (trim_end s)"
proof (induction s rule: rev_induct)
  case (snoc u us)
  show ?case
  proof (cases "space_unit u")
    case True
    then have "trim_end (us @ [u]) = trim_end us" by (simp add: trim_end_def)
    moreover from True have "visible us"
      using snoc.prems space_no_surrogate [OF True] code_points_last [of u us]
      by (simp add: visible_def)
    ultimately show ?thesis using snoc.IH by simp
  qed (simp add: snoc.prems trim_end_def)
qed (simp add: trim_end_def)

lemma visible_take: "visible s \<Longrightarrow> visible (take n s)"
proof (induction s arbitrary: n rule: code_points.induct)
  case (2 u)
  then show ?case by (cases n) (auto simp: visible_def)
next
  case (3 u v us)
  show ?case
  proof (cases "high_surrogate u \<and> low_surrogate v")
    case True
    with 3(1) 3(3) show ?thesis
      by (cases n; cases "n - 1") (auto simp: visible_def dest: lone_visible surrogate_lone)
  next
    case False
    have "visible (u # take m (v # us))" for m
      using 3(2) [OF False, of m] 3(3) False by (cases m) (auto simp: visible_def)
    then show ?thesis by (cases n) (auto simp: visible_def)
  qed
qed (simp add: visible_def)

lemma code_points_strip_tail:
  "code_points (strip_tail s)
     = rev (dropWhile (\<lambda>(c, us). is_space c \<or> lone c) (rev (code_points s)))"
proof -
  have "code_points s = rev (dropWhile (\<lambda>(c, us). is_space c \<or> lone c) (rev (code_points s)))
      @ rev (takeWhile (\<lambda>(c, us). is_space c \<or> lone c) (rev (code_points s)))"
    by (metis rev_append rev_rev_ident takeWhile_dropWhile_id)
  then show ?thesis unfolding strip_tail_def by (rule code_points_prefix)
qed

lemma visible_strip_tail: "visible s \<Longrightarrow> visible (strip_tail s)"
  unfolding visible_def code_points_strip_tail set_rev
  by (metis set_dropWhileD set_rev)

lemma strip_tail_prefix: "\<exists>t. s = strip_tail s @ t"
proof -
  have "concat (map snd (code_points s)) = strip_tail s
      @ concat (map snd (rev (takeWhile (\<lambda>(c, us). is_space c \<or> lone c) (rev (code_points s)))))"
    unfolding strip_tail_def
    by (metis concat_append map_append rev_append rev_rev_ident takeWhile_dropWhile_id)
  then show ?thesis by (auto simp: concat_code_points)
qed

text \<open>Single spaces: every space is U+0020 and no two of them are neighbours.\<close>

fun single_spaced :: "jstr \<Rightarrow> bool" where
  "single_spaced [] = True"
| "single_spaced [u] = (space_unit u \<longrightarrow> u = 0x20)"
| "single_spaced (u # v # us) =
     ((space_unit u \<longrightarrow> u = 0x20 \<and> \<not> space_unit v) \<and> single_spaced (v # us))"

lemma single_spaced_Cons:
  "single_spaced (u # us)
     \<longleftrightarrow> (space_unit u \<longrightarrow> u = 0x20 \<and> (us \<noteq> [] \<longrightarrow> \<not> space_unit (hd us))) \<and> single_spaced us"
  by (cases us) auto

lemma single_spaced_collapse: "single_spaced (collapse s)"
proof (induction s rule: collapse.induct)
  case (3 u v us)
  then show ?case
    using hd_collapse_eq [of "v # us"] by (auto simp: single_spaced_Cons)
qed simp_all

lemma collapse_single_spaced: "single_spaced s \<Longrightarrow> collapse s = s"
  by (induction s rule: collapse.induct) auto

lemma single_spaced_append: "single_spaced (xs @ ys) \<Longrightarrow> single_spaced xs \<and> single_spaced ys"
  by (induction xs) (auto simp: single_spaced_Cons hd_append split: if_splits)

lemma trim_end_prefix: "\<exists>t. s = trim_end s @ t"
  unfolding trim_end_def by (metis rev_append rev_rev_ident takeWhile_dropWhile_id)

lemma single_spaced_trim: "single_spaced s \<Longrightarrow> single_spaced (trim s)"
proof -
  assume s: "single_spaced s"
  have "s = takeWhile space_unit s @ dropWhile space_unit s" by simp
  with s have "single_spaced (dropWhile space_unit s)" by (metis single_spaced_append)
  then show ?thesis
    unfolding trim_def using trim_end_prefix [of "dropWhile space_unit s"]
    by (metis single_spaced_append)
qed

lemma hd_prefix: "s = p @ t \<Longrightarrow> p \<noteq> [] \<Longrightarrow> hd p = hd s"
  by simp

lemma hd_trim: "trim s \<noteq> [] \<Longrightarrow> \<not> space_unit (hd (trim s))"
  unfolding trim_def
  using trim_end_prefix [of "dropWhile space_unit s"] hd_dropWhile [of space_unit s]
  by (metis append_is_Nil_conv hd_append2)

section \<open>The names that are left\<close>

text \<open>
  A clean label: visible text of at most 64 units, single-spaced, that neither begins nor ends
  with a space nor ends in half a surrogate pair.
\<close>

definition clean_label :: "jstr \<Rightarrow> bool" where
  "clean_label s = (s \<noteq> [] \<and> length s \<le> MAX_LABEL_LENGTH \<and> visible s \<and> single_spaced s
     \<and> \<not> space_unit (hd s)
     \<and> \<not> is_space (fst (last (code_points s))) \<and> \<not> lone (fst (last (code_points s))))"

lemma strip_tail_last:
  assumes "strip_tail s \<noteq> []"
  shows "\<not> is_space (fst (last (code_points (strip_tail s))))
     \<and> \<not> lone (fst (last (code_points (strip_tail s))))"
proof -
  let ?P = "\<lambda>(c, us :: jstr). is_space c \<or> lone c"
  let ?d = "dropWhile ?P (rev (code_points s))"
  from assms have "?d \<noteq> []" unfolding strip_tail_def by (metis concat.simps(1) list.map(1) rev.simps(1))
  then have "\<not> ?P (hd ?d)" by (rule hd_dropWhile)
  then show ?thesis
    using \<open>?d \<noteq> []\<close> by (simp add: code_points_strip_tail last_rev split: prod.splits)
qed

lemma sanitizeLabel_clean:
  assumes "sanitizeLabel v = Some s"
  shows "clean_label s"
proof -
  from assms obtain r where s: "s \<noteq> []"
      "s = strip_tail (take MAX_LABEL_LENGTH (trim (collapse (blank_out r))))" (is "s = strip_tail ?t")
    by (auto simp: sanitizeLabel_def Let_def split: option.splits if_splits)
  have vis: "visible ?t"
    unfolding trim_def
    by (intro visible_take visible_trim_end visible_dropWhile visible_collapse visible_blank_out)
  have "single_spaced (trim (collapse (blank_out r)))"
    by (intro single_spaced_trim single_spaced_collapse)
  then have single: "single_spaced ?t"
    by (metis append_take_drop_id single_spaced_append)
  obtain t where t: "?t = s @ t" using strip_tail_prefix [of ?t] s(2) by auto
  have len: "length s \<le> MAX_LABEL_LENGTH"
  proof -
    have "length ?t \<le> MAX_LABEL_LENGTH" by simp
    with t show ?thesis by simp
  qed
  let ?u = "trim (collapse (blank_out r))"
  have u: "?u = s @ (t @ drop MAX_LABEL_LENGTH ?u)"
    using append_take_drop_id [of MAX_LABEL_LENGTH ?u] t by simp
  then have "?u \<noteq> []" using s(1) by auto
  moreover have "hd s = hd ?u" by (rule hd_prefix [OF u s(1)])
  ultimately have "\<not> space_unit (hd s)" using hd_trim by simp
  moreover have "visible s" using visible_strip_tail [OF vis] s(2) by (simp only:)
  moreover have "single_spaced s" using single t single_spaced_append [of s t] by (simp only:)
  moreover have "\<not> is_space (fst (last (code_points s))) \<and> \<not> lone (fst (last (code_points s)))"
    using strip_tail_last [of ?t] s by (simp only: not_False_eq_True)
  ultimately show ?thesis
    using s(1) len unfolding clean_label_def by blast
qed

lemma trim_clean:
  assumes "clean_label s"
  shows "trim s = s"
proof -
  from assms have ne: "s \<noteq> []" and h: "\<not> space_unit (hd s)" by (auto simp: clean_label_def)
  then have "dropWhile space_unit s = s" by (cases s) auto
  moreover have "\<not> space_unit (last s)"
  proof
    assume sp: "space_unit (last s)"
    have "s = butlast s @ [last s]" using ne by simp
    then have "last (code_points s) = (unat (last s), [last s])"
      using code_points_last [of "last s" "butlast s"] sp space_no_surrogate
      by (metis last_snoc)
    with assms sp show False by (simp add: clean_label_def space_unit_def)
  qed
  then have "trim_end s = s"
    using ne by (cases s rule: rev_cases) (auto simp: trim_end_def)
  ultimately show ?thesis by (simp add: trim_def)
qed

lemma strip_tail_clean:
  assumes "clean_label s"
  shows "strip_tail s = s"
proof -
  let ?P = "\<lambda>(c, us :: jstr). is_space c \<or> lone c"
  from assms have "code_points s \<noteq> []" "\<not> ?P (last (code_points s))"
    by (auto simp: clean_label_def)
  then have "dropWhile ?P (rev (code_points s)) = rev (code_points s)"
    by (cases "code_points s" rule: rev_cases) auto
  then show ?thesis by (simp add: strip_tail_def concat_code_points)
qed

text \<open>
  \<open>sanitizeLabel\<close> gives nothing but clean labels, whatever arrived, and leaves a clean
  label as it is: the clean labels are exactly its fixed points, so a host that sanitizes again
  what a guest sanitized changes nothing.
\<close>

lemma sanitized_labels:
  "((\<exists>v. sanitizeLabel v = Some s) \<longleftrightarrow> clean_label s)
     \<and> (sanitizeLabel (JString s) = Some s \<longleftrightarrow> clean_label s)"
proof -
  have "sanitizeLabel (JString s) = Some s" if c: "clean_label s"
  proof -
    from c have "blank_out s = s" "collapse s = s" "take MAX_LABEL_LENGTH s = s" "s \<noteq> []"
      by (auto simp: clean_label_def intro: blank_out_visible collapse_single_spaced)
    with trim_clean [OF c] strip_tail_clean [OF c] show ?thesis
      by (simp add: sanitizeLabel_def)
  qed
  then show ?thesis by (metis sanitizeLabel_clean)
qed

text \<open>A PIN is four to six digits, so there are 1,110,000 of them.\<close>

lemma isValidPin_iff: "isValidPin v = Some p \<longleftrightarrow> v = JString p \<and> valid_pin p"
  by (auto simp: isValidPin_def split: option.splits)

end
