(* ===== verification/Person_Roster.thy ===== *)
theory Person_Roster
  imports Effects Json_Copy Labels Statement_Checks
begin

text \<open>
  The host's roster of people: \<^verbatim>\<open>electron-client/src/personRoster.ts\<close> and \<^verbatim>\<open>pinHash.ts\<close>.

  The JSON file is kept as the value its text spells. Its guards are partial functions into records,
  as for the statements; a member the types do not name is not kept. \<open>entry.vouches.every\<close> throws
  on a value that is no array, so the guard of an entry can fail as well as refuse. The promise the
  roster caches is \<open>cached\<close>: a failed read stays there. Writes are queued, so each \<open>put\<close> and
  \<open>update\<close> is one step of the state; whether the disk takes a write is a field of the state,
  and a refused one changes neither the file nor the cache.
\<close>

section \<open>PIN hashes\<close>

record pin_hash =
  salt :: jstr
  hash :: jstr
  iterations :: int

text \<open>
  Node's PBKDF2 with SHA-256 and 32 bytes of output (\<open>None\<close>: iterations out of range, which
  rejects), and its lenient base64url reader.
\<close>

record node_crypto =
  pbkdf2 :: "u8 list \<Rightarrow> u8 list \<Rightarrow> int \<Rightarrow> u8 list option"
  from_base64url :: "jstr \<Rightarrow> u8 list"

definition node_ok :: "node_crypto \<Rightarrow> bool" where
  "node_ok nc = ((\<forall>bs. from_base64url nc (toBase64Url bs) = bs)
     \<and> (\<forall>pin s n. 1 \<le> n \<and> n < 2 ^ 31 \<longrightarrow> pbkdf2 nc pin s n \<noteq> None))"

definition DEFAULT_ITERATIONS :: int where
  "DEFAULT_ITERATIONS = 100000"

definition derive :: "node_crypto \<Rightarrow> jstr \<Rightarrow> u8 list \<Rightarrow> int \<Rightarrow> u8 list option" where
  "derive nc pin slt n = pbkdf2 nc (utf8_encode pin) slt n"

definition hashPin :: "node_crypto \<Rightarrow> jstr \<Rightarrow> u8 list \<Rightarrow> pin_hash option" where
  "hashPin nc pin slt =
     map_option (\<lambda>bytes. \<lparr>salt = toBase64Url slt, hash = toBase64Url bytes, iterations = DEFAULT_ITERATIONS\<rparr>)
       (derive nc pin slt DEFAULT_ITERATIONS)"

definition pinMatches :: "node_crypto \<Rightarrow> jstr \<Rightarrow> pin_hash \<Rightarrow> bool option" where
  "pinMatches nc pin stored =
     (if isValidPin (JString pin) = None then Some False
      else map_option
             (\<lambda>actual. let expected = from_base64url nc (hash stored)
                       in length actual = length expected \<and> actual = expected)
             (derive nc pin (from_base64url nc (salt stored)) (iterations stored)))"

definition isPinHash :: "jsval \<Rightarrow> pin_hash option" where
  "isPinHash v = do {
     (if is_object v then Some () else None);
     s \<leftarrow> as_string (field v ''salt'');
     h \<leftarrow> as_string (field v ''hash'');
     n \<leftarrow> as_integer (field v ''iterations'');
     Some \<lparr>salt = s, hash = h, iterations = n\<rparr> }"

section \<open>Entries\<close>

record signed_vouch =
  sv_address :: jstr
  sv_deviceKey :: jstr
  sv_deviceLabel :: jstr
  sv_deviceFingerprint :: jstr
  sv_method :: vouch_method
  sv_vouchedAt :: jstr
  sv_revokedAt :: "jstr option"
  sv_revocation :: "jstr option"

record stored_passkey =
  sp_credentialId :: jstr
  sp_tokenHash :: jstr
  sp_record :: jstr
  sp_storedAt :: jstr

record roster_entry =
  re_personKey :: jstr
  re_name :: jstr
  re_certAddress :: jstr
  re_certSigned :: signed
  re_pin :: "pin_hash option"
  re_pinFailures :: "int option"
  re_vouches :: "signed_vouch list option"
  re_passkeyRecords :: "stored_passkey list option"
  re_joinedAt :: jstr

datatype roster_error = Unreadable | NotJson | NoPeople | NotIterable | WriteFailed

definition isStoredPasskeyRecord :: "jsval \<Rightarrow> stored_passkey option" where
  "isStoredPasskeyRecord v = do {
     (if is_object v then Some () else None);
     c \<leftarrow> as_string (field v ''credentialId'');
     t \<leftarrow> as_string (field v ''tokenHash'');
     r \<leftarrow> as_string (field v ''record'');
     s \<leftarrow> as_string (field v ''storedAt'');
     Some \<lparr>sp_credentialId = c, sp_tokenHash = t, sp_record = r, sp_storedAt = s\<rparr> }"

definition isSignedVouch :: "jsval \<Rightarrow> signed_vouch option" where
  "isSignedVouch v = do {
     (if is_object v then Some () else None);
     a \<leftarrow> as_string (field v ''address'');
     k \<leftarrow> as_string (field v ''deviceKey'');
     l \<leftarrow> as_string (field v ''deviceLabel'');
     f \<leftarrow> as_string (field v ''deviceFingerprint'');
     m \<leftarrow> is_method (field v ''method'');
     t \<leftarrow> as_string (field v ''vouchedAt'');
     r \<leftarrow> opt_string (field v ''revokedAt'');
     d \<leftarrow> opt_string (field v ''revocation'');
     Some \<lparr>sv_address = a, sv_deviceKey = k, sv_deviceLabel = l, sv_deviceFingerprint = f,
       sv_method = m, sv_vouchedAt = t, sv_revokedAt = r, sv_revocation = d\<rparr> }"

text \<open>\<open>v === undefined || v.every(guard)\<close>: \<open>Inl\<close> when there is no \<open>every\<close> to call.\<close>

definition opt_every :: "(jsval \<Rightarrow> 'a option) \<Rightarrow> jsval \<Rightarrow> roster_error + 'a list option option" where
  "opt_every guard v =
     (case v of
        JUndefined \<Rightarrow> Inr (Some None)
      | JArray vs \<Rightarrow> Inr (map_option Some (all_some guard vs))
      | _ \<Rightarrow> Inl NotIterable)"

fun opt_guard :: "(jsval \<Rightarrow> 'a option) \<Rightarrow> jsval \<Rightarrow> 'a option option" where
  "opt_guard guard JUndefined = Some None"
| "opt_guard guard v = map_option Some (guard v)"

definition isRosterEntry :: "jsval \<Rightarrow> roster_error + roster_entry option" where
  "isRosterEntry v =
     (let cert = field v ''firstCertificate''; sig = field cert ''signed'';
          plain = do {
            (if is_object v then Some () else None);
            key \<leftarrow> as_string (field v ''personKey'');
            name \<leftarrow> as_string (field v ''name'');
            address \<leftarrow> as_string (field cert ''address'');
            s \<leftarrow> as_string (field sig ''signature'');
            pin \<leftarrow> opt_guard isPinHash (field v ''pin'');
            n \<leftarrow> opt_guard as_integer (field v ''pinFailures'');
            Some (\<lambda>vs ps joined. \<lparr>re_personKey = key, re_name = name, re_certAddress = address,
              re_certSigned = \<lparr>payload = field sig ''payload'', signature = s\<rparr>, re_pin = pin,
              re_pinFailures = n, re_vouches = vs, re_passkeyRecords = ps, re_joinedAt = joined\<rparr>) }
      in case plain of
           None \<Rightarrow> Inr None
         | Some build \<Rightarrow>
             (case opt_every isSignedVouch (field v ''vouches'') of
                Inl e \<Rightarrow> Inl e
              | Inr None \<Rightarrow> Inr None
              | Inr (Some vs) \<Rightarrow>
                  (case opt_every isStoredPasskeyRecord (field v ''passkeyRecords'') of
                     Inl e \<Rightarrow> Inl e
                   | Inr None \<Rightarrow> Inr None
                   | Inr (Some ps) \<Rightarrow>
                       Inr (map_option (build vs ps) (as_string (field v ''joinedAt''))))))"

section \<open>The file\<close>

definition opt_member :: "string \<Rightarrow> ('a \<Rightarrow> jsval) \<Rightarrow> 'a option \<Rightarrow> (string \<times> jsval) list" where
  "opt_member k f x = (case x of None \<Rightarrow> [] | Some y \<Rightarrow> [(k, f y)])"

definition pin_value :: "pin_hash \<Rightarrow> jsval" where
  "pin_value h = obj [(''salt'', JString (salt h)), (''hash'', JString (hash h)),
     (''iterations'', JNumber (num_of_int (iterations h)))]"

definition signed_vouch_value :: "signed_vouch \<Rightarrow> jsval" where
  "signed_vouch_value v = obj
     ([(''address'', JString (sv_address v)), (''deviceKey'', JString (sv_deviceKey v)),
       (''deviceLabel'', JString (sv_deviceLabel v)),
       (''deviceFingerprint'', JString (sv_deviceFingerprint v)),
       (''method'', JString (method_text (sv_method v))), (''vouchedAt'', JString (sv_vouchedAt v))]
      @ opt_member ''revokedAt'' JString (sv_revokedAt v)
      @ opt_member ''revocation'' JString (sv_revocation v))"

definition passkey_value :: "stored_passkey \<Rightarrow> jsval" where
  "passkey_value r = obj
     [(''credentialId'', JString (sp_credentialId r)), (''tokenHash'', JString (sp_tokenHash r)),
      (''record'', JString (sp_record r)), (''storedAt'', JString (sp_storedAt r))]"

definition entry_value :: "roster_entry \<Rightarrow> jsval" where
  "entry_value e = obj
     ([(''personKey'', JString (re_personKey e)), (''name'', JString (re_name e)),
       (''firstCertificate'', obj [(''address'', JString (re_certAddress e)),
          (''signed'', signed_value (re_certSigned e))])]
      @ opt_member ''pin'' pin_value (re_pin e)
      @ opt_member ''pinFailures'' (\<lambda>n. JNumber (num_of_int n)) (re_pinFailures e)
      @ opt_member ''vouches'' (\<lambda>vs. JArray (map signed_vouch_value vs)) (re_vouches e)
      @ opt_member ''passkeyRecords'' (\<lambda>ps. JArray (map passkey_value ps)) (re_passkeyRecords e)
      @ [(''joinedAt'', JString (re_joinedAt e))])"

record roster_state =
  disk :: disk_file
  writable :: bool
  cached :: "(roster_error + roster_entry list) option"

text \<open>\<open>filter\<close> with a guard that may throw.\<close>

fun filter_guard :: "('a \<Rightarrow> 'e + 'b option) \<Rightarrow> 'a list \<Rightarrow> 'e + 'b list" where
  "filter_guard g [] = Inr []"
| "filter_guard g (v # vs) =
     (case g v of
        Inl e \<Rightarrow> Inl e
      | Inr r \<Rightarrow> map_sum id (\<lambda>rest. case r of None \<Rightarrow> rest | Some y \<Rightarrow> y # rest) (filter_guard g vs))"

definition readRoster :: "disk_file \<Rightarrow> roster_error + roster_entry list" where
  "readRoster d =
     (case d of
        Missing \<Rightarrow> Inr []
      | Denied \<Rightarrow> Inl Unreadable
      | Garbled \<Rightarrow> Inl NotJson
      | Holds v \<Rightarrow>
          (case as_array (field v ''people'') of
             None \<Rightarrow> Inl NoPeople
           | Some vs \<Rightarrow> filter_guard isRosterEntry vs))"

definition writeRoster :: "roster_entry list \<Rightarrow> (roster_state, roster_error, unit) eff" where
  "writeRoster people = (\<lambda>st.
     if writable st
     then (Inr (), st\<lparr>disk := Holds (json_copy (obj [(''people'', JArray (map entry_value people))]))\<rparr>)
     else (Inl WriteFailed, st))"

section \<open>Operations\<close>

definition load :: "(roster_state, roster_error, roster_entry list) eff" where
  "load = (\<lambda>st. case cached st of
     Some r \<Rightarrow> (r, st)
   | None \<Rightarrow> (readRoster (disk st), st\<lparr>cached := Some (readRoster (disk st))\<rparr>))"

definition find_person :: "jstr \<Rightarrow> (roster_state, roster_error, roster_entry option) eff" where
  "find_person key = and_then load (\<lambda>people. ret (find (\<lambda>e. re_personKey e = key) people))"

definition replace_entry :: "roster_entry list \<Rightarrow> roster_entry \<Rightarrow> (roster_state, roster_error, unit) eff" where
  "replace_entry people e =
     (let next = filter (\<lambda>x. re_personKey x \<noteq> re_personKey e) people @ [e]
      in and_then (writeRoster next) (\<lambda>_. writes (\<lambda>st. st\<lparr>cached := Some (Inr next)\<rparr>)))"

definition put_person :: "roster_entry \<Rightarrow> (roster_state, roster_error, unit) eff" where
  "put_person e = and_then load (\<lambda>people. replace_entry people e)"

definition update_person ::
  "jstr \<Rightarrow> (roster_entry \<Rightarrow> roster_entry option) \<Rightarrow> (roster_state, roster_error, roster_entry option) eff" where
  "update_person key change =
     and_then load (\<lambda>people.
       case Option.bind (find (\<lambda>e. re_personKey e = key) people) change of
         None \<Rightarrow> ret None
       | Some next \<Rightarrow> and_then (replace_entry people next) (\<lambda>_. ret (Some next)))"

section \<open>An entry survives the file\<close>

lemma opt_member_data:
  "(\<And>y. x = Some y \<Longrightarrow> json_data (f y)) \<Longrightarrow> m \<in> set (opt_member k f x) \<Longrightarrow> json_data (snd m)"
  by (auto simp: opt_member_def split: option.splits)

lemma map_of_opt_member [simp]:
  "map_of (opt_member k f x) j = (if j = k then map_option f x else None)"
  by (simp add: opt_member_def split: option.splits)

lemma obj_data: "(\<And>m. m \<in> set ms \<Longrightarrow> json_data (snd m)) \<Longrightarrow> json_data (obj ms)"
  by (auto simp: obj_def)

lemma signed_vouch_data: "json_data (signed_vouch_value v)"
  unfolding signed_vouch_value_def by (rule obj_data) (auto simp: opt_member_def split: option.splits)

lemma passkey_data: "json_data (passkey_value r)" and pin_data: "json_data (pin_value h)"
  unfolding passkey_value_def pin_value_def by (rule obj_data, auto)+

lemma view_signed_vouch: "isSignedVouch (signed_vouch_value v) = Some v"
  by (cases v) (auto simp: isSignedVouch_def signed_vouch_value_def map_add_def split: option.splits)

lemma view_passkey: "isStoredPasskeyRecord (passkey_value r) = Some r"
  by (cases r) (simp add: isStoredPasskeyRecord_def passkey_value_def)

lemma view_pin: "isPinHash (pin_value h) = Some h"
  by (cases h) (simp add: isPinHash_def pin_value_def)

lemma opt_guard_value:
  "(\<And>y. v y \<noteq> JUndefined \<and> g (v y) = Some y) \<Longrightarrow>
     opt_guard g (case map_option v x of Some w \<Rightarrow> w | None \<Rightarrow> JUndefined) = Some x"
  by (cases x; cases "v (the x)") (auto, (metis)+)

lemma opt_every_value:
  "(\<And>y. g (v y) = Some y) \<Longrightarrow>
     opt_every g (case map_option (\<lambda>ys. JArray (map v ys)) x of Some w \<Rightarrow> w | None \<Rightarrow> JUndefined) = Inr (Some x)"
  by (cases x) (simp_all add: opt_every_def all_some_map)

lemma map_of_copied:
  "distinct (map fst ps) \<Longrightarrow>
     (case map_of (filter (\<lambda>(k, v). v \<noteq> JUndefined) (map (\<lambda>(k, v). (k, json_copy v)) ps)) k of
        None \<Rightarrow> JUndefined | Some v \<Rightarrow> v)
     = (case map_of ps k of None \<Rightarrow> JUndefined | Some v \<Rightarrow> json_copy v)"
proof (induction ps)
  case (Cons p ps)
  obtain k0 v0 where p: "p = (k0, v0)" by (cases p)
  show ?case
  proof (cases "k = k0")
    case True
    then have "map_of ps k = None" using Cons.prems p by (auto simp: map_of_eq_None_iff)
    with Cons p True show ?thesis by simp
  qed (use Cons p in simp)
qed simp

lemma getprop_json_copy:
  assumes "\<And>ps. v = JObject ps \<Longrightarrow> distinct (map fst ps)"
  shows "getprop (json_copy v) k = json_copy (getprop v k)"
proof (cases v)
  case (JObject ps)
  then show ?thesis using map_of_copied [of ps k] assms by (simp split: option.splits)
qed simp_all

text \<open>
  An entry the file keeps as it is: the payload of its certificate is plain JSON data, or missing,
  as in an entry the guard let through without one.
\<close>

definition storable :: "roster_entry \<Rightarrow> bool" where
  "storable e = (payload (re_certSigned e) = JUndefined \<or> json_data (payload (re_certSigned e)))"

lemma storable_copy: "storable e \<Longrightarrow> json_copy (payload (re_certSigned e)) = payload (re_certSigned e)"
  by (auto simp: storable_def json_copy_data)

lemma entry_distinct: "entry_value e = JObject ps \<Longrightarrow> distinct (map fst ps)"
  by (auto simp: entry_value_def obj_def opt_member_def split: option.splits)

lemma field_entry_copy: "field (json_copy (entry_value e)) k = json_copy (field (entry_value e) k)"
  by (rule getprop_json_copy) (rule entry_distinct)

lemma view_entry:
  assumes "storable e"
  shows "isRosterEntry (json_copy (entry_value e)) = Inr (Some e)"
proof -
  let ?v = "json_copy (entry_value e)"
  have strings: "field ?v ''personKey'' = JString (re_personKey e)" "field ?v ''name'' = JString (re_name e)"
      "field ?v ''joinedAt'' = JString (re_joinedAt e)"
      "field (field ?v ''firstCertificate'') ''address'' = JString (re_certAddress e)"
      "field (field ?v ''firstCertificate'') ''signed'' = json_copy (signed_value (re_certSigned e))"
    unfolding field_entry_copy by (simp_all add: entry_value_def map_add_def) (simp_all add: obj_def signed_value_def)
  have sig: "field (json_copy (signed_value x)) ''signature'' = JString (signature x)"
      "field (json_copy (signed_value x)) ''payload'' = json_copy (payload x)" for x
    by (simp_all add: signed_value_def)
  have "field ?v ''pin'' = (case map_option pin_value (re_pin e) of Some w \<Rightarrow> w | None \<Rightarrow> JUndefined)"
    unfolding field_entry_copy by (simp add: entry_value_def map_add_def json_copy_data pin_data split: option.split)
  then have pin: "opt_guard isPinHash (field ?v ''pin'') = Some (re_pin e)"
    by (simp only:) (rule opt_guard_value, simp add: view_pin, simp add: pin_value_def obj_def)
  have "field ?v ''pinFailures'' = (case map_option (\<lambda>n. JNumber (num_of_int n)) (re_pinFailures e) of
      Some w \<Rightarrow> w | None \<Rightarrow> JUndefined)"
    unfolding field_entry_copy by (simp add: entry_value_def map_add_def split: option.split)
  then have failures: "opt_guard as_integer (field ?v ''pinFailures'') = Some (re_pinFailures e)"
    by (simp only:) (rule opt_guard_value, simp)
  have "field ?v ''vouches'' = (case map_option (\<lambda>ys. JArray (map signed_vouch_value ys)) (re_vouches e) of
      Some w \<Rightarrow> w | None \<Rightarrow> JUndefined)"
    using json_copy_data [of "JArray (map signed_vouch_value ys)" for ys] signed_vouch_data
    unfolding field_entry_copy by (simp add: entry_value_def map_add_def del: json_copy.simps(2) split: option.split)
  then have vouches: "opt_every isSignedVouch (field ?v ''vouches'') = Inr (Some (re_vouches e))"
    by (simp only:) (rule opt_every_value, rule view_signed_vouch)
  have "field ?v ''passkeyRecords'' = (case map_option (\<lambda>ys. JArray (map passkey_value ys)) (re_passkeyRecords e) of
      Some w \<Rightarrow> w | None \<Rightarrow> JUndefined)"
    using json_copy_data [of "JArray (map passkey_value ys)" for ys] passkey_data
    unfolding field_entry_copy by (simp add: entry_value_def map_add_def del: json_copy.simps(2) split: option.split)
  then have passkeys: "opt_every isStoredPasskeyRecord (field ?v ''passkeyRecords'') = Inr (Some (re_passkeyRecords e))"
    by (simp only:) (rule opt_every_value, rule view_passkey)
  have "is_object ?v" by (simp add: entry_value_def obj_def)
  then show ?thesis
    using storable_copy [OF assms]
    by (simp add: isRosterEntry_def Let_def strings sig pin failures vouches passkeys)
qed

lemma filter_guard_map: "(\<And>x. x \<in> set xs \<Longrightarrow> g (f x) = Inr (Some x)) \<Longrightarrow> filter_guard g (map f xs) = Inr xs"
  by (induction xs) simp_all

lemma json_copy_object: "json_copy (entry_value e) \<noteq> JUndefined"
  by (simp add: entry_value_def obj_def)

lemma readRoster_written:
  assumes "\<forall>e \<in> set people. storable e"
  shows "readRoster (Holds (json_copy (obj [(''people'', JArray (map entry_value people))]))) = Inr people"
proof -
  have "filter_guard isRosterEntry (map (\<lambda>e. json_copy (entry_value e)) people) = Inr people"
    using assms by (intro filter_guard_map) (simp add: view_entry)
  then show ?thesis
    by (simp add: readRoster_def obj_def json_copy_object comp_def)
qed

text \<open>
  C14. What the roster wrote is what it reads after a restart: every person with every member, in
  the same order.
\<close>

theorem roster_survives_restart:
  assumes "writeRoster people st = (Inr (), st')" "\<forall>e \<in> set people. storable e"
  shows "fst (load (st'\<lparr>cached := None\<rparr>)) = Inr people"
  using assms readRoster_written [OF assms(2)]
  by (auto simp: writeRoster_def load_def split: if_splits)

section \<open>The roster as a map\<close>

definition people_of :: "roster_state \<Rightarrow> roster_entry list" where
  "people_of st = (case fst (load st) of Inl _ \<Rightarrow> [] | Inr es \<Rightarrow> es)"

definition person :: "roster_state \<Rightarrow> jstr \<Rightarrow> roster_entry option" where
  "person st key = find (\<lambda>e. re_personKey e = key) (people_of st)"

lemma find_filter_other:
  "find (\<lambda>e. re_personKey e = k) (filter (\<lambda>x. re_personKey x \<noteq> k') es @ [e])
     = (if k = k' then (if re_personKey e = k then Some e else None)
        else case find (\<lambda>e. re_personKey e = k) es of
               None \<Rightarrow> if re_personKey e = k then Some e else None | Some x \<Rightarrow> Some x)"
  by (induction es) auto

lemma find_replaced:
  "(\<lambda>k. find (\<lambda>x. re_personKey x = k) (filter (\<lambda>x. re_personKey x \<noteq> re_personKey e) es @ [e]))
     = (\<lambda>k. find (\<lambda>x. re_personKey x = k) es)(re_personKey e \<mapsto> e)"
  by (auto simp: fun_eq_iff find_filter_other split: option.splits)

lemma load_cases:
  obtains es where "load st = (Inr es, st\<lparr>cached := Some (Inr es)\<rparr>)" "people_of st = es"
    | e where "load st = (Inl e, st\<lparr>cached := Some (Inl e)\<rparr>)" "people_of st = []"
proof (cases "cached st")
  case None
  then show ?thesis using that by (cases "readRoster (disk st)") (auto simp: load_def people_of_def)
next
  case (Some r)
  then have "st\<lparr>cached := Some r\<rparr> = st" by simp
  with Some show ?thesis using that by (cases r) (auto simp: load_def people_of_def)
qed

lemma person_cached [simp]:
  "person (st\<lparr>cached := Some (Inr es)\<rparr>) = (\<lambda>k. find (\<lambda>e. re_personKey e = k) es)"
  "people_of (st\<lparr>cached := Some (Inr es)\<rparr>) = es"
  "person (st\<lparr>cached := Some (Inl e)\<rparr>) = Map.empty"
  by (simp_all add: person_def people_of_def load_def fun_eq_iff)

lemma find_person_cases:
  "find_person k st = (r, st') \<Longrightarrow> person st' = person st
     \<and> (r = Inr (person st k) \<or> (\<exists>e. r = Inl e \<and> person st = Map.empty))"
  by (cases st rule: load_cases) (auto simp: find_person_def person_def fun_eq_iff people_of_def load_def)

lemma replace_entry_cases:
  "replace_entry es e (st\<lparr>cached := Some (Inr es)\<rparr>) = (r, st') \<Longrightarrow>
     (r = Inr () \<and> writable st \<and> person st' = (\<lambda>k. find (\<lambda>x. re_personKey x = k) es)(re_personKey e \<mapsto> e))
   \<or> (r = Inl WriteFailed \<and> \<not> writable st \<and> st' = st\<lparr>cached := Some (Inr es)\<rparr>)"
  by (auto simp: replace_entry_def writeRoster_def Let_def and_then_def find_replaced split: if_splits)

lemma put_person_cases:
  assumes "put_person e st = (r, st')"
  shows "(r = Inr () \<and> person st' = (person st)(re_personKey e \<mapsto> e)) \<or> (\<exists>x. r = Inl x \<and> person st' = person st)"
proof (cases st rule: load_cases)
  case (1 es)
  with assms replace_entry_cases [of es e st r st'] show ?thesis
    by (auto simp: put_person_def person_def)
next
  case (2 x)
  with assms show ?thesis by (auto simp: put_person_def person_def)
qed

lemma update_person_cases:
  assumes "update_person k change st = (r, st')"
  shows "(\<exists>x. r = Inr x \<and> x = Option.bind (person st k) change
        \<and> person st' = (case x of None \<Rightarrow> person st | Some e \<Rightarrow> (person st)(re_personKey e \<mapsto> e)))
     \<or> (\<exists>e. r = Inl e \<and> person st' = person st)"
proof (cases st rule: load_cases)
  case (1 es)
  then have person: "person st = (\<lambda>k. find (\<lambda>e. re_personKey e = k) es)"
    by (simp add: person_def fun_eq_iff)
  show ?thesis
  proof (cases "Option.bind (find (\<lambda>e. re_personKey e = k) es) change")
    case None
    with 1 assms person show ?thesis by (auto simp: update_person_def)
  next
    case (Some nx)
    obtain r1 st1 where r1: "replace_entry es nx (st\<lparr>cached := Some (Inr es)\<rparr>) = (r1, st1)"
      by fastforce
    from assms 1 Some r1 have "(r, st') = (case r1 of Inl e \<Rightarrow> (Inl e, st1) | Inr _ \<Rightarrow> (Inr (Some nx), st1))"
      by (simp add: update_person_def and_then_def split: sum.splits)
    with replace_entry_cases [OF r1] Some person show ?thesis by auto
  qed
next
  case (2 e)
  with assms show ?thesis by (auto simp: update_person_def person_def)
qed

section \<open>What the users of a roster rely on\<close>

text \<open>
  A store of people seen as a map from person keys: a lookup reads the map, a successful \<open>put\<close>
  or \<open>update\<close> changes the one entry it names, a failed one changes nothing.
\<close>

locale person_store =
  fixes find_by :: "jstr \<Rightarrow> ('st, 'e, roster_entry option) eff"
    and put_by :: "roster_entry \<Rightarrow> ('st, 'e, unit) eff"
    and update_by :: "jstr \<Rightarrow> (roster_entry \<Rightarrow> roster_entry option) \<Rightarrow> ('st, 'e, roster_entry option) eff"
    and entry_of :: "'st \<Rightarrow> jstr \<Rightarrow> roster_entry option"
  assumes find_by: "find_by k st = (r, st') \<Longrightarrow> entry_of st' = entry_of st
      \<and> (r = Inr (entry_of st k) \<or> (\<exists>e. r = Inl e \<and> entry_of st = Map.empty))"
    and put_by: "put_by e st = (done, st') \<Longrightarrow>
      (done = Inr () \<and> entry_of st' = (entry_of st)(re_personKey e \<mapsto> e)) \<or> (\<exists>x. done = Inl x \<and> entry_of st' = entry_of st)"
    and update_by: "update_by k change st = (r, st') \<Longrightarrow>
      (\<exists>x. r = Inr x \<and> x = Option.bind (entry_of st k) change
        \<and> entry_of st' = (case x of None \<Rightarrow> entry_of st | Some e \<Rightarrow> (entry_of st)(re_personKey e \<mapsto> e)))
      \<or> (\<exists>e. r = Inl e \<and> entry_of st' = entry_of st)"
    and keyed: "entry_of st k = Some e \<Longrightarrow> re_personKey e = k"
begin

lemma update_own:
  assumes "update_by k change st = (Inr (Some e), st')" "\<And>x y. change x = Some y \<Longrightarrow> re_personKey y = re_personKey x"
  shows "entry_of st' = (entry_of st)(k \<mapsto> e)" "\<exists>x. entry_of st k = Some x \<and> change x = Some e"
proof -
  from update_by [OF assms(1)] have *: "Option.bind (entry_of st k) change = Some e"
      "entry_of st' = (entry_of st)(re_personKey e \<mapsto> e)" by (auto split: option.splits)
  then show "\<exists>x. entry_of st k = Some x \<and> change x = Some e" by (auto simp: bind_eq_Some_conv)
  with * assms(2) keyed show "entry_of st' = (entry_of st)(k \<mapsto> e)" by metis
qed

lemma update_others:
  assumes "update_by k change st = (r, st')" "\<And>x y. change x = Some y \<Longrightarrow> re_personKey y = re_personKey x" "j \<noteq> k"
  shows "entry_of st' j = entry_of st j"
  using update_by [OF assms(1)] assms(2,3) keyed [of st k]
  by (auto split: option.splits simp: bind_eq_Some_conv)

lemma update_inv:
  assumes "update_by k change st = (r, st')" "\<And>x y. change x = Some y \<Longrightarrow> re_personKey y = re_personKey x"
    "\<And>j e. entry_of st j = Some e \<Longrightarrow> P j e" "\<And>x y. change x = Some y \<Longrightarrow> P k x \<Longrightarrow> P k y"
    "entry_of st' j = Some e"
  shows "P j e"
proof (cases "j = k")
  case True
  from update_by [OF assms(1)] assms(5) True have
    "entry_of st k = Some e \<or> (\<exists>x. entry_of st k = Some x \<and> change x = Some e)"
    using keyed [of st k] assms(2) by (auto split: option.splits if_splits simp: bind_eq_Some_conv)
  with True assms(3,4) show ?thesis by blast
next
  case False
  with update_others [OF assms(1,2)] assms(3,5) show ?thesis by metis
qed

end

lemma person_keyed: "person st k = Some e \<Longrightarrow> re_personKey e = k"
  by (auto simp: person_def find_Some_iff)

interpretation roster: person_store find_person put_person update_person person
  using find_person_cases put_person_cases update_person_cases person_keyed
  by (intro person_store.intro) blast+

text \<open>
  C15. The roster is a map from person keys to people: \<open>find\<close> looks a key up, \<open>put\<close> sets the entry
  of its key, \<open>update\<close> sets it to what the change gives or leaves it; an operation that fails
  changes nobody.
\<close>

theorem roster_refines_map:
  "(case find_person k st of (r, st') \<Rightarrow>
      person st' = person st \<and> (case r of Inr x \<Rightarrow> x = person st k | Inl _ \<Rightarrow> True))
   \<and> (case put_person e st of (r, st') \<Rightarrow>
      person st' = (case r of Inr _ \<Rightarrow> (person st)(re_personKey e \<mapsto> e) | Inl _ \<Rightarrow> person st))
   \<and> (case update_person k change st of (r, st') \<Rightarrow>
      (case r of Inr x \<Rightarrow> x = Option.bind (person st k) change | Inl _ \<Rightarrow> True)
      \<and> person st' = (case r of Inr (Some x) \<Rightarrow> (person st)(re_personKey x \<mapsto> x) | _ \<Rightarrow> person st))"
  by (cases "find_person k st"; cases "put_person e st"; cases "update_person k change st")
    (auto dest!: roster.find_by roster.put_by roster.update_by split: option.splits)

text \<open>A store whose operations do not fail while it is ready.\<close>

locale reliable_store = person_store +
  fixes ready :: "'a \<Rightarrow> bool"
  assumes find_ready: "ready st \<Longrightarrow> \<exists>st'. find_by k st = (Inr (entry_of st k), st') \<and> ready st'"
    and update_ready: "ready st \<Longrightarrow> \<exists>st'. update_by k change st = (Inr (Option.bind (entry_of st k) change), st') \<and> ready st'"
begin

lemma find_run:
  assumes "ready st"
  obtains st' where "find_by k st = (Inr (entry_of st k), st')" "ready st'" "entry_of st' = entry_of st"
  using find_ready [OF assms, of k] find_by by blast

lemma update_run:
  assumes "ready st" "\<And>x y. change x = Some y \<Longrightarrow> re_personKey y = re_personKey x"
  obtains st' where "update_by k change st = (Inr (Option.bind (entry_of st k) change), st')" "ready st'"
    "entry_of st' = (case Option.bind (entry_of st k) change of
        None \<Rightarrow> entry_of st | Some e \<Rightarrow> (entry_of st)(k \<mapsto> e))"
proof -
  obtain st' where st': "update_by k change st = (Inr (Option.bind (entry_of st k) change), st')" "ready st'"
    using update_ready [OF assms(1)] by blast
  have "entry_of st' = (case Option.bind (entry_of st k) change of
        None \<Rightarrow> entry_of st | Some e \<Rightarrow> (entry_of st)(k \<mapsto> e))"
  proof (cases "Option.bind (entry_of st k) change")
    case None
    with update_by [OF st'(1)] show ?thesis by simp
  next
    case (Some e)
    with update_own(1) [of k change st e st'] st'(1) assms(2) show ?thesis by auto
  qed
  with st' that show ?thesis by blast
qed

end

definition roster_ready :: "roster_state \<Rightarrow> bool" where
  "roster_ready st = (writable st \<and> (\<exists>es. fst (load st) = Inr es))"

lemma roster_ready_cached [simp]: "roster_ready (st\<lparr>cached := Some (Inr es)\<rparr>) = writable st"
  by (simp add: roster_ready_def load_def)

lemma roster_ready_load:
  assumes "roster_ready st"
  obtains es where "load st = (Inr es, st\<lparr>cached := Some (Inr es)\<rparr>)" "people_of st = es" "writable st"
  using assms by (cases st rule: load_cases) (auto simp: roster_ready_def)

lemma replace_ready:
  "writable st \<Longrightarrow> \<exists>st'. replace_entry es e st = (Inr (), st') \<and> roster_ready st'"
  by (simp add: replace_entry_def writeRoster_def Let_def and_then_def)

interpretation roster: reliable_store find_person put_person update_person person roster_ready
proof
  fix st k change assume "roster_ready st"
  then obtain es where es: "load st = (Inr es, st\<lparr>cached := Some (Inr es)\<rparr>)" "people_of st = es" "writable st"
    by (rule roster_ready_load)
  then have p: "person st k = find (\<lambda>e. re_personKey e = k) es" by (simp add: person_def)
  with es show "\<exists>st'. find_person k st = (Inr (person st k), st') \<and> roster_ready st'"
    by (simp add: find_person_def)
  show "\<exists>st'. update_person k change st = (Inr (Option.bind (person st k) change), st') \<and> roster_ready st'"
  proof (cases "Option.bind (find (\<lambda>e. re_personKey e = k) es) change")
    case None
    with es p show ?thesis by (simp add: update_person_def)
  next
    case (Some e)
    from es(3) replace_ready [of "st\<lparr>cached := Some (Inr es)\<rparr>" es e] obtain st'
      where "replace_entry es e (st\<lparr>cached := Some (Inr es)\<rparr>) = (Inr (), st')" "roster_ready st'" by auto
    with Some es(1) p show ?thesis by (simp add: update_person_def and_then_def)
  qed
qed

section \<open>The file is never behind\<close>

definition synced :: "roster_state \<Rightarrow> bool" where
  "synced st = ((\<forall>r. cached st = Some r \<longrightarrow> r = readRoster (disk st))
     \<and> (\<forall>es e. readRoster (disk st) = Inr es \<longrightarrow> e \<in> set es \<longrightarrow> storable e))"

datatype roster_op =
    Find_op jstr
  | Put_op roster_entry
  | Update_op jstr "roster_entry \<Rightarrow> roster_entry option"
  | Disk_op bool
  | Restart_op

fun roster_step :: "roster_op \<Rightarrow> roster_state \<Rightarrow> roster_state" where
  "roster_step (Find_op k) st = snd (find_person k st)"
| "roster_step (Put_op e) st = snd (put_person e st)"
| "roster_step (Update_op k change) st = snd (update_person k change st)"
| "roster_step (Disk_op w) st = st\<lparr>writable := w\<rparr>"
| "roster_step Restart_op st = st\<lparr>cached := None\<rparr>"

fun storable_op :: "roster_op \<Rightarrow> bool" where
  "storable_op (Put_op e) = storable e"
| "storable_op (Update_op k change) = (\<forall>x y. change x = Some y \<longrightarrow> storable x \<longrightarrow> storable y)"
| "storable_op _ = True"

lemma synced_load:
  assumes "synced st" "load st = (r, st')"
  shows "synced st' \<and> r = readRoster (disk st) \<and> disk st' = disk st \<and> cached st' = Some r \<and> writable st' = writable st"
  using assms by (auto simp: synced_def load_def split: option.splits)

lemma synced_replace:
  assumes "synced st" "cached st = Some (Inr es)" "storable e"
  shows "synced (snd (replace_entry es e st))"
proof -
  have "\<forall>x \<in> set (filter (\<lambda>x. re_personKey x \<noteq> re_personKey e) es @ [e]). storable x"
  proof -
    have "readRoster (disk st) = Inr es" using assms(1,2) by (simp add: synced_def)
    then have "\<forall>x \<in> set es. storable x" using assms(1) unfolding synced_def by blast
    with assms(3) show ?thesis by simp
  qed
  from readRoster_written [OF this] this assms(1) show ?thesis
    by (auto simp: replace_entry_def writeRoster_def and_then_def Let_def synced_def)
qed

lemma synced_step:
  assumes "synced st" "storable_op x"
  shows "synced (roster_step x st)"
proof -
  obtain r st1 where l: "load st = (r, st1)" by fastforce
  note s = synced_load [OF assms(1) l]
  then have s1: "synced st1" by simp
  show ?thesis
  proof (cases x)
    case (Put_op e)
    have "synced (snd (replace_entry es e st1))" if "r = Inr es" for es
      using that s assms(2) Put_op by (intro synced_replace) auto
    with l Put_op s1 show ?thesis by (cases r) (simp_all add: put_person_def)
  next
    case (Update_op k change)
    have "synced (snd ((case Option.bind (find (\<lambda>e. re_personKey e = k) es) change of
        None \<Rightarrow> ret None | Some n \<Rightarrow> and_then (replace_entry es n) (\<lambda>_. ret (Some n))) st1))"
      if "r = Inr es" for es
    proof (cases "Option.bind (find (\<lambda>e. re_personKey e = k) es) change")
      case None
      with s show ?thesis by simp
    next
      case (Some n)
      then obtain x where f: "find (\<lambda>e. re_personKey e = k) es = Some x" "change x = Some n"
        by (auto simp: bind_eq_Some_conv)
      then have "x \<in> set es" by (auto simp: find_Some_iff)
      have "readRoster (disk st) = Inr es" using s that by simp
      then have "storable x" using \<open>x \<in> set es\<close> assms(1) unfolding synced_def by blast
      then have "storable n" using f(2) assms(2) Update_op by simp
      then have "synced (snd (replace_entry es n st1))" using s that by (intro synced_replace) auto
      moreover have "snd (and_then m (\<lambda>_. ret y) st1) = snd (m st1)" for m :: "(roster_state, roster_error, unit) eff" and y :: "roster_entry option"
        by (simp add: and_then_def split: prod.split sum.split)
      ultimately show ?thesis using Some by simp
    qed
    with l Update_op s1 show ?thesis by (cases r) (simp_all add: update_person_def)
  qed (use s l assms in \<open>auto simp: find_person_def and_then_def synced_def split: sum.splits\<close>)
qed

text \<open>
  C16. After any operations, with the disk refusing writes and the host restarting at any moment
  between them, the file holds exactly what the host answers from: a restart loses nobody and
  revives nobody.
\<close>

theorem roster_durable:
  assumes "synced st" "\<forall>x \<in> set ops. storable_op x"
  shows "fst (load (roster_step Restart_op (fold roster_step ops st))) = fst (load (fold roster_step ops st))"
proof -
  have "synced (fold roster_step ops st)"
    using assms by (induction ops arbitrary: st) (auto simp: synced_step)
  then have "cached (fold roster_step ops st) \<noteq> None \<Longrightarrow>
      cached (fold roster_step ops st) = Some (readRoster (disk (fold roster_step ops st)))"
    by (auto simp: synced_def)
  then show ?thesis by (auto simp: load_def split: option.splits)
qed

text \<open>The files a host may start from.\<close>

lemma getprop_data: "v = JUndefined \<or> json_data v \<Longrightarrow> getprop v k = JUndefined \<or> json_data (getprop v k)"
  by (cases v) (auto split: option.splits dest!: map_of_SomeD)

lemma isRosterEntry_payload:
  "isRosterEntry v = Inr (Some e) \<Longrightarrow>
     payload (re_certSigned e) = field (field (field v ''firstCertificate'') ''signed'') ''payload''"
  by (auto simp: isRosterEntry_def Let_def bind_eq_Some_conv split: option.splits sum.splits if_splits)

lemma filter_guard_set:
  "filter_guard g vs = Inr es \<Longrightarrow> e \<in> set es \<Longrightarrow> \<exists>v \<in> set vs. g v = Inr (Some e)"
proof (induction vs arbitrary: es)
  case (Cons v vs)
  then show ?case by (cases "g v"; cases "filter_guard g vs") (auto split: option.splits)
qed simp

lemma synced_start:
  assumes "\<And>v. disk st = Holds v \<Longrightarrow> json_data v" "cached st = None"
  shows "synced st"
proof -
  have "storable e" if r: "readRoster (disk st) = Inr es" "e \<in> set es" for es e
  proof (cases "disk st")
    case (Holds v)
    with r obtain vs where vs: "field v ''people'' = JArray vs" "filter_guard isRosterEntry vs = Inr es"
      by (auto simp: readRoster_def split: option.splits)
    from filter_guard_set [OF vs(2) r(2)]
    obtain x where x: "x \<in> set vs" "isRosterEntry x = Inr (Some e)" by (elim bexE)
    have "x = JUndefined \<or> json_data x" using getprop_data [of v "js ''people''"] assms(1) [OF Holds] x(1)
      unfolding vs(1) by simp
    note getprop_data [OF getprop_data [OF getprop_data [OF this]]]
    then show ?thesis unfolding storable_def isRosterEntry_payload [OF x(2)] .
  qed (use r in \<open>auto simp: readRoster_def\<close>)
  with assms(2) show ?thesis by (auto simp: synced_def)
qed

section \<open>PINs\<close>

lemma pinMatches_own:
  "node_ok nc \<Longrightarrow> valid_pin pin \<Longrightarrow> hashPin nc pin slt = Some h \<Longrightarrow> pinMatches nc pin h = Some True"
  by (auto simp: hashPin_def pinMatches_def isValidPin_def node_ok_def Let_def)

text \<open>
  A hashed PIN is matched by the PIN it was made from, and by another text only if that is a
  PIN with the same PBKDF2 output under the same salt.
\<close>

lemma pin_hash_matches:
  assumes "node_ok nc" "valid_pin pin" "hashPin nc pin slt = Some h"
  shows "pinMatches nc pin h = Some True \<and>
    (pinMatches nc other h = Some True \<longleftrightarrow>
      valid_pin other \<and> derive nc other slt DEFAULT_ITERATIONS = derive nc pin slt DEFAULT_ITERATIONS)"
  using assms pinMatches_own [OF assms]
  by (auto simp: hashPin_def pinMatches_def isValidPin_def node_ok_def Let_def)

section \<open>Examples\<close>

definition ex_node :: node_crypto where
  "ex_node = \<lparr>pbkdf2 = (\<lambda>pin s n. if 1 \<le> n \<and> n < 2 ^ 31 then Some (take 32 (pin @ s @ replicate 32 0)) else None),
     from_base64url = (\<lambda>t. case fromBase64Url t of None \<Rightarrow> [] | Some bs \<Rightarrow> bs)\<rparr>"

lemma ex_node_ok: "node_ok ex_node"
  by (simp add: node_ok_def ex_node_def base64url.dec_enc)

definition ex_entry :: roster_entry where
  "ex_entry = \<lparr>re_personKey = js ''ada'', re_name = js ''Ada'', re_certAddress = js ''cert'',
     re_certSigned = \<lparr>payload = JNull, signature = js ''sig''\<rparr>, re_pin = None, re_pinFailures = Some 2,
     re_vouches = None, re_passkeyRecords = Some [], re_joinedAt = js ''then''\<rparr>"

definition ex_roster :: roster_state where
  "ex_roster = \<lparr>disk = Missing, writable = True, cached = None\<rparr>"

lemma ex_entry_storable: "storable ex_entry"
  by (simp add: storable_def ex_entry_def)

lemma roster_survives_restart_witness:
  "fst (load ((snd (writeRoster [ex_entry] ex_roster))\<lparr>cached := None\<rparr>)) = Inr [ex_entry]"
  by (rule roster_survives_restart [where st = ex_roster]) (simp_all add: writeRoster_def ex_roster_def ex_entry_storable)

lemma roster_durable_witness:
  "fst (load (roster_step Restart_op (fold roster_step [Put_op ex_entry, Disk_op False, Put_op (ex_entry\<lparr>re_name := []\<rparr>)] ex_roster)))
     = fst (load (fold roster_step [Put_op ex_entry, Disk_op False, Put_op (ex_entry\<lparr>re_name := []\<rparr>)] ex_roster))"
proof (rule roster_durable)
  show "synced ex_roster" by (rule synced_start) (simp_all add: ex_roster_def)
qed (auto simp: storable_def ex_entry_def)

lemma pin_hash_matches_witness:
  "pinMatches ex_node (js ''1234'') (the (hashPin ex_node (js ''1234'') [7])) = Some True
   \<and> (pinMatches ex_node [] (the (hashPin ex_node (js ''1234'') [7])) = Some True \<longleftrightarrow>
      valid_pin [] \<and> derive ex_node [] [7] DEFAULT_ITERATIONS = derive ex_node (js ''1234'') [7] DEFAULT_ITERATIONS)"
proof (rule pin_hash_matches [OF ex_node_ok])
  show "valid_pin (js ''1234'')" by (simp add: valid_pin_def js_def is_digit_def)
  show "hashPin ex_node (js ''1234'') [7] = Some (the (hashPin ex_node (js ''1234'') [7]))"
    by (simp add: hashPin_def derive_def ex_node_def DEFAULT_ITERATIONS_def)
qed

end
