(* ===== verification/Threads.thy ===== *)
theory Threads
  imports Effects
begin

text \<open>
  Asynchronous code. A call is a thread: it has returned (\<open>Done\<close>), or it waits to run its next
  uninterrupted stretch, which changes the shared state and leaves the rest of the call. The label
  says what the stretch does to an observer. \<open>run\<close> is the call with nothing in between;
  \<open>interleaved\<close> lets any number of calls start at any time and take turns at every \<open>await\<close>.
\<close>

section \<open>Definitions\<close>

datatype ('l, 's, 'r) thread = Done 'r | Await 'l "'s \<Rightarrow> ('l, 's, 'r) thread" "'s \<Rightarrow> 's"

type_synonym ('l, 's, 'e, 'a) call = "('l, 's, 'e + 'a) thread"

definition give :: "'a \<Rightarrow> ('l, 's, 'e, 'a) call" where
  "give x = Done (Inr x)"

definition perform :: "'l \<Rightarrow> ('s, 'e, 'a) eff \<Rightarrow> ('l, 's, 'e, 'a) call" where
  "perform l m = Await l (\<lambda>s. Done (fst (m s))) (\<lambda>s. snd (m s))"

primrec chain :: "('l, 's, 'e, 'a) call \<Rightarrow> ('a \<Rightarrow> ('l, 's, 'e, 'b) call) \<Rightarrow> ('l, 's, 'e, 'b) call" where
  "chain (Done r) k = (case r of Inl e \<Rightarrow> Done (Inl e) | Inr x \<Rightarrow> k x)"
| "chain (Await l f g) k = Await l (\<lambda>s. chain (f s) k) g"

primrec run :: "('l, 's, 'r) thread \<Rightarrow> 's \<Rightarrow> 'r \<times> 's" where
  "run (Done r) s = (r, s)"
| "run (Await l f g) s = run (f s) (g s)"

text \<open>\<open>try\<close>: the error becomes a value.\<close>

primrec attempt :: "('l, 's, 'e, 'a) call \<Rightarrow> ('l, 's, 'f, 'e + 'a) call" where
  "attempt (Done r) = Done (Inr r)"
| "attempt (Await l f g) = Await l (\<lambda>s. attempt (f s)) g"

text \<open>The states a call on its own leaves at each of its waits: where a crash can find it.\<close>

primrec passes :: "('l, 's, 'r) thread \<Rightarrow> 's \<Rightarrow> 's list" where
  "passes (Done r) s = []"
| "passes (Await l f g) s = g s # passes (f s) (g s)"

text \<open>A call that is overtaken once, after its first \<open>n\<close> stretches.\<close>

fun interrupt :: "nat \<Rightarrow> ('s \<Rightarrow> 's) \<Rightarrow> ('l, 's, 'r) thread \<Rightarrow> 's \<Rightarrow> 'r \<times> 's" where
  "interrupt 0 other t s = run t (other s)"
| "interrupt (Suc n) other (Done r) s = (r, s)"
| "interrupt (Suc n) other (Await l f g) s = interrupt n other (f s) (g s)"

text \<open>The result dropped, so that calls of different kinds stand in one list.\<close>

definition forget :: "('l, 's, 'r) thread \<Rightarrow> ('l, 's, unit) thread" where
  "forget t = map_thread id (\<lambda>_. ()) t"

inductive interleaved ::
  "('l, 's, unit) thread set \<Rightarrow> ('s \<Rightarrow> 's \<Rightarrow> bool) \<Rightarrow> 's \<Rightarrow> ('l \<times> 's \<times> 's) list
     \<Rightarrow> ('l, 's, unit) thread list \<Rightarrow> 's \<Rightarrow> bool"
  for calls env s0 where
  start: "interleaved calls env s0 [] [] s0"
| call: "interleaved calls env s0 tr ts s \<Longrightarrow> t \<in> calls \<Longrightarrow> interleaved calls env s0 tr (ts @ [t]) s"
| resume: "interleaved calls env s0 tr ts s \<Longrightarrow> i < length ts \<Longrightarrow> ts ! i = Await l f g \<Longrightarrow>
    interleaved calls env s0 (tr @ [(l, s, g s)]) (ts[i := f s]) (g s)"
| outside: "interleaved calls env s0 tr ts s \<Longrightarrow> env s s' \<Longrightarrow> interleaved calls env s0 tr ts s'"

section \<open>A call on its own\<close>

lemma run_give [simp]: "run (give x) s = (Inr x, s)"
  by (simp add: give_def)

lemma run_perform [simp]: "run (perform l m) s = m s"
  by (simp add: perform_def)

lemma run_chain: "run (chain t k) s = (case run t s of (Inl e, s') \<Rightarrow> (Inl e, s') | (Inr x, s') \<Rightarrow> run (k x) s')"
  by (induction t arbitrary: s) (auto split: sum.splits)

lemma run_chain_and_then: "run (chain t k) = and_then (run t) (\<lambda>x. run (k x))"
  by (simp add: fun_eq_iff run_chain and_then_def)

lemma interrupt_perform_chain:
  "m s = (Inr x, s') \<Longrightarrow> interrupt (Suc n) other (chain (perform l m) k) s = interrupt n other (k x) s'"
  by (simp add: perform_def)

lemma chain_give [simp]: "chain (give x) k = k x"
  by (simp add: give_def)

lemma run_attempt: "run (attempt t) s = (Inr (fst (run t s)), snd (run t s))"
  by (induction t arbitrary: s) auto

lemma passes_attempt [simp]: "passes (attempt t) s = passes t s"
  by (induction t arbitrary: s) auto

lemma passes_give [simp]: "passes (give x) s = []"
  by (simp add: give_def)

lemma passes_perform [simp]: "passes (perform l m) s = [snd (m s)]"
  by (simp add: perform_def)

lemma passes_chain:
  "passes (chain t k) s = passes t s @ (case run t s of (Inl e, s') \<Rightarrow> [] | (Inr x, s') \<Rightarrow> passes (k x) s')"
  by (induction t arbitrary: s) (auto split: sum.splits)

text \<open>A call that nothing interrupts.\<close>

lemma run_forget [simp]: "snd (run (forget t) s) = snd (run t s)"
  by (induction t arbitrary: s) (auto simp: forget_def)

lemma interleaved_run:
  assumes "interleaved calls env s0 tr ts s" "t \<in> calls"
  shows "\<exists>tr'. interleaved calls env s0 (tr @ tr') (ts @ [Done ()]) (snd (run t s))"
proof -
  have "\<exists>tr'. interleaved calls env s0 (tr @ tr') (ts @ [Done ()]) (snd (run u s))"
    if "interleaved calls env s0 tr (ts @ [u]) s" for u tr s
    using that
  proof (induction u arbitrary: tr s)
    case (Done r)
    then show ?case by (intro exI [of _ "[]"]) simp
  next
    case (Await l f g)
    from interleaved.resume [OF Await.prems, of "length ts" l f g]
    have "interleaved calls env s0 (tr @ [(l, s, g s)]) (ts @ [f s]) (g s)" by simp
    from Await.IH [OF _ this] obtain tr' where
      "interleaved calls env s0 ((tr @ [(l, s, g s)]) @ tr') (ts @ [Done ()]) (snd (run (f s) (g s)))" by auto
    then show ?case by (intro exI [of _ "(l, s, g s) # tr'"]) simp
  qed
  from this [OF interleaved.call [OF assms]] show ?thesis .
qed

section \<open>Invariants\<close>

primrec safe :: "('s \<Rightarrow> bool) \<Rightarrow> ('l, 's, 'r) thread \<Rightarrow> bool" where
  "safe I (Done r) = True"
| "safe I (Await l f g) = (\<forall>s. I s \<longrightarrow> I (g s) \<and> safe I (f s))"

lemma safe_give [simp]: "safe I (give x)"
  by (simp add: give_def)

lemma safe_perform: "keeps I m \<Longrightarrow> safe I (perform l m)"
  by (simp add: perform_def keeps_def)

lemma safe_chain: "safe I t \<Longrightarrow> (\<And>x. safe I (k x)) \<Longrightarrow> safe I (chain t k)"
  by (induction t) (auto split: sum.split)

lemma safe_forget [simp]: "safe I (forget t) = safe I t"
  by (induction t) (auto simp: forget_def)

lemma safe_run: "safe I t \<Longrightarrow> I s \<Longrightarrow> I (snd (run t s))"
  by (induction t arbitrary: s) auto

lemma interleaved_invariant:
  assumes "interleaved calls env s0 tr ts s" "I s0" "\<And>t. t \<in> calls \<Longrightarrow> safe I t"
    "\<And>s s'. env s s' \<Longrightarrow> I s \<Longrightarrow> I s'"
  shows "I s \<and> (\<forall>t \<in> set ts. safe I t)"
  using assms(1)
proof (induction rule: interleaved.induct)
  case (resume tr ts s i l f g)
  then have "safe I (Await l f g)" by (metis nth_mem)
  with resume show ?case by (auto dest: set_update_subset_insert [THEN subsetD])
qed (use assms in auto)

text \<open>
  With knowledge that only grows: a call may rely later on what it, or anyone, once established.
\<close>

primrec knows :: "('s \<Rightarrow> bool) \<Rightarrow> ('s \<Rightarrow> 'x set) \<Rightarrow> ('l, 's, 'r) thread \<Rightarrow> 'x set \<Rightarrow> bool" where
  "knows I K (Done r) X = True"
| "knows I K (Await l f g) X = (\<forall>s. I s \<and> X \<subseteq> K s \<longrightarrow>
     I (g s) \<and> K s \<subseteq> K (g s) \<and> knows I K (f s) (K (g s)))"

lemma knows_mono: "knows I K t X \<Longrightarrow> X \<subseteq> Y \<Longrightarrow> knows I K t Y"
  by (cases t) auto

lemma knows_give [simp]: "knows I K (give x) X"
  by (simp add: give_def)

lemma knows_forget [simp]: "knows I K (forget t) X = knows I K t X"
  by (induction t arbitrary: X) (auto simp: forget_def)

lemma knows_chain:
  "knows I K t X \<Longrightarrow> (\<And>x Y. X \<subseteq> Y \<Longrightarrow> knows I K (k x) Y) \<Longrightarrow> knows I K (chain t k) X"
proof (induction t arbitrary: X)
  case (Await l f g)
  show ?case unfolding chain.simps knows.simps
  proof (intro allI impI)
    fix s assume s: "I s \<and> X \<subseteq> K s"
    with Await.prems(1) have *: "I (g s)" "K s \<subseteq> K (g s)" "knows I K (f s) (K (g s))" by auto
    moreover have "knows I K (k x) Y" if "K (g s) \<subseteq> Y" for x Y
      using that s *(2) by (intro Await.prems(2)) blast
    then have "knows I K (chain (f s) k) (K (g s))" using Await.IH *(3) by blast
    ultimately show "I (g s) \<and> K s \<subseteq> K (g s) \<and> knows I K (chain (f s) k) (K (g s))" by blast
  qed
qed (auto split: sum.split)

lemma knows_attempt: "knows I K t X \<Longrightarrow> knows I K (attempt t) X"
  by (induction t arbitrary: X) auto

text \<open>A first stretch whose result and final state the rest may use.\<close>

lemma knows_perform_chain:
  assumes "\<And>s r s'. I s \<Longrightarrow> X \<subseteq> K s \<Longrightarrow> m s = (r, s') \<Longrightarrow> I s' \<and> K s \<subseteq> K s'"
    and "\<And>s x s'. I s \<Longrightarrow> X \<subseteq> K s \<Longrightarrow> m s = (Inr x, s') \<Longrightarrow> knows I K (k x) (K s')"
  shows "knows I K (chain (perform l m) k) X"
proof -
  have "I (snd (m s)) \<and> K s \<subseteq> K (snd (m s))
      \<and> knows I K (case fst (m s) of Inl e \<Rightarrow> Done (Inl e) | Inr x \<Rightarrow> k x) (K (snd (m s)))"
    if "I s" "X \<subseteq> K s" for s
    using assms(1) [OF that, of "fst (m s)" "snd (m s)"] assms(2) [OF that, of _ "snd (m s)"]
    by (cases "m s"; cases "fst (m s)") auto
  then show ?thesis by (simp add: perform_def)
qed

lemma knows_perform:
  assumes "\<And>s r s'. I s \<Longrightarrow> X \<subseteq> K s \<Longrightarrow> m s = (r, s') \<Longrightarrow> I s' \<and> K s \<subseteq> K s'"
  shows "knows I K (perform l m) X"
  using assms unfolding perform_def by (auto simp: prod_eq_iff)

lemma interleaved_knowledge:
  assumes "interleaved calls env s0 tr ts s" "I s0" "\<And>t. t \<in> calls \<Longrightarrow> knows I K t {}"
    "\<And>s s'. env s s' \<Longrightarrow> I s \<Longrightarrow> I s' \<and> K s \<subseteq> K s'"
  shows "I s \<and> (\<forall>t \<in> set ts. knows I K t (K s))"
  using assms(1)
proof (induction rule: interleaved.induct)
  case (call tr ts s t)
  with assms(3) [of t] show ?case by (auto intro: knows_mono)
next
  case (resume tr ts s i l f g)
  then have "knows I K (Await l f g) (K s)" by (metis nth_mem)
  with resume have *: "I (g s)" "K s \<subseteq> K (g s)" "knows I K (f s) (K (g s))" by auto
  have "knows I K t (K (g s))" if "t \<in> set (ts[i := f s])" for t
    using that *(2,3) resume.IH set_update_subset_insert [of ts i "f s"] by (auto intro: knows_mono)
  with * show ?case by blast
next
  case (outside tr ts s s')
  with assms(4) [of s s'] show ?case by (auto intro: knows_mono)
qed (use assms in auto)

section \<open>Results\<close>

text \<open>What a call returns while every stretch keeps an invariant.\<close>

primrec yields :: "('s \<Rightarrow> bool) \<Rightarrow> ('a \<Rightarrow> bool) \<Rightarrow> ('l, 's, 'e, 'a) call \<Rightarrow> bool" where
  "yields I P (Done r) = (case r of Inl e \<Rightarrow> True | Inr x \<Rightarrow> P x)"
| "yields I P (Await l f g) = (\<forall>s. I s \<longrightarrow> I (g s) \<and> yields I P (f s))"

lemma yields_give [simp]: "yields I P (give x) = P x"
  by (simp add: give_def)

lemma yields_perform:
  assumes "\<And>s r s'. I s \<Longrightarrow> m s = (r, s') \<Longrightarrow> I s' \<and> (\<forall>x. r = Inr x \<longrightarrow> P x)"
  shows "yields I P (perform l m)"
  using assms by (auto simp: perform_def prod_eq_iff split: sum.split)

lemma yields_chain: "yields I P t \<Longrightarrow> (\<And>x. P x \<Longrightarrow> yields I Q (k x)) \<Longrightarrow> yields I Q (chain t k)"
  by (induction t) (auto split: sum.splits)

lemma yields_attempt: "yields I P t \<Longrightarrow> (\<And>e. Q (Inl e)) \<Longrightarrow> (\<And>x. P x \<Longrightarrow> Q (Inr x)) \<Longrightarrow> yields I Q (attempt t)"
  by (induction t) (auto split: sum.splits)

lemma yields_safe: "yields I P t \<Longrightarrow> safe I t"
  by (induction t) auto

lemma yields_mono: "yields I P t \<Longrightarrow> (\<And>x. P x \<Longrightarrow> Q x) \<Longrightarrow> yields I Q t"
  by (induction t) (auto split: sum.splits)

text \<open>Every stretch moves the state along a relation.\<close>

primrec abides :: "('s \<Rightarrow> 's \<Rightarrow> bool) \<Rightarrow> ('l, 's, 'r) thread \<Rightarrow> bool" where
  "abides R (Done r) = True"
| "abides R (Await l f g) = (\<forall>s. R s (g s) \<and> abides R (f s))"

lemma abides_give [simp]: "abides R (give x)"
  by (simp add: give_def)

lemma abides_perform: "(\<And>s r s'. m s = (r, s') \<Longrightarrow> R s s') \<Longrightarrow> abides R (perform l m)"
  by (simp add: perform_def prod_eq_iff)

lemma abides_chain: "abides R t \<Longrightarrow> (\<And>x. abides R (k x)) \<Longrightarrow> abides R (chain t k)"
  by (induction t) (auto split: sum.splits)

lemma safe_yields: "safe I t \<Longrightarrow> yields I (\<lambda>_. True) t"
  by (induction t) (auto split: sum.split)

lemma safe_attempt [simp]: "safe I (attempt t) = safe I t"
  by (induction t) auto

text \<open>A call on a part of the state.\<close>

primrec within :: "('s \<Rightarrow> 'u) \<Rightarrow> ('u \<Rightarrow> 's \<Rightarrow> 's) \<Rightarrow> ('k \<Rightarrow> 'l) \<Rightarrow> ('d \<Rightarrow> 'e) \<Rightarrow> ('k, 'u, 'd, 'a) call \<Rightarrow> ('l, 's, 'e, 'a) call" where
  "within get put lab err (Done r) = Done (map_sum err id r)"
| "within get put lab err (Await l f g) =
     Await (lab l) (\<lambda>s. within get put lab err (f (get s))) (\<lambda>s. put (g (get s)) s)"

lemma run_within:
  assumes "\<And>u s. get (put u s) = u" "\<And>u v s. put u (put v s) = put u s" "\<And>s. put (get s) s = s"
  shows "run (within get put lab err t) s = (map_sum err id (fst (run t (get s))), put (snd (run t (get s))) s)"
  using assms by (induction t arbitrary: s) auto

lemma yields_within_part:
  assumes "yields J P t" "abides R t" "\<And>s. I s \<Longrightarrow> J (get s)" "\<And>s u. I s \<Longrightarrow> J u \<Longrightarrow> R (get s) u \<Longrightarrow> I (put u s)"
  shows "yields I P (within get put lab err t)"
  using assms(1,2)
proof (induction t)
  case (Await l f g)
  with assms(3,4) show ?case by simp
qed (auto split: sum.splits)

section \<open>Paying before looking\<close>

text \<open>
  A counter of a shared state that bounds how often calls may look. A call has to raise the counter
  in a stretch of its own before each stretch that looks; the counter stays below the limit unless a
  stretch resets it. \<open>pays c n t\<close> says that \<open>t\<close> obeys this when it has \<open>n\<close> looks left to use.
\<close>

definition bounded_move :: "int \<Rightarrow> int \<Rightarrow> int \<Rightarrow> bool" where
  "bounded_move limit a b = (b = a \<or> b = 0 \<or> (b = a + 1 \<and> a < limit))"

primrec pays :: "int \<Rightarrow> ('s \<Rightarrow> int) \<Rightarrow> ('l \<Rightarrow> bool) \<Rightarrow> ('l, 's, 'r) thread \<Rightarrow> nat \<Rightarrow> bool" where
  "pays limit c looks (Done r) n = True"
| "pays limit c looks (Await l f g) n = (\<forall>s. 0 \<le> c s \<longrightarrow>
     bounded_move limit (c s) (c (g s)) \<and> (looks l \<longrightarrow> 0 < n)
     \<and> pays limit c looks (f s) (n - (if looks l then 1 else 0) + (if c (g s) = c s + 1 then 1 else 0)))"

lemma pays_mono: "pays limit c looks t n \<Longrightarrow> n \<le> m \<Longrightarrow> pays limit c looks t m"
proof (induction t arbitrary: n m)
  case (Await l f g)
  show ?case unfolding pays.simps
  proof (intro allI impI conjI)
    fix s assume s: "0 \<le> c s"
    with Await.prems show "bounded_move limit (c s) (c (g s))" by simp
    from Await.prems s show "looks l \<Longrightarrow> 0 < m" by fastforce
    let ?d = "\<lambda>n. n - (if looks l then 1 else 0) + (if c (g s) = c s + 1 then 1 else 0)"
    have "pays limit c looks (f s) (?d n)" using Await.prems s by simp
    moreover have "?d n \<le> ?d m" using Await.prems(2) by simp
    ultimately show "pays limit c looks (f s) (?d m)" by (rule Await.IH [rotated]) auto
  qed
qed simp

lemma pays_forget [simp]: "pays limit c looks (forget t) n = pays limit c looks t n"
  by (induction t arbitrary: n) (auto simp: forget_def)

lemma pays_give [simp]: "pays limit c looks (give x) n"
  by (simp add: give_def)

lemma pays_chain:
  "pays limit c looks t n \<Longrightarrow> (\<And>x. pays limit c looks (k x) 0) \<Longrightarrow> pays limit c looks (chain t k) n"
  by (induction t arbitrary: n) (auto split: sum.split intro: pays_mono)

text \<open>A first stretch that may raise the counter and so earn a look for the rest.\<close>

lemma pays_perform_chain:
  assumes "\<And>s r s'. 0 \<le> c s \<Longrightarrow> m s = (r, s') \<Longrightarrow> bounded_move limit (c s) (c s')" "\<not> looks l"
    and "\<And>s x s'. 0 \<le> c s \<Longrightarrow> m s = (Inr x, s') \<Longrightarrow>
      pays limit c looks (k x) (n + (if c s' = c s + 1 then 1 else 0))"
  shows "pays limit c looks (chain (perform l m) k) n"
proof -
  have "bounded_move limit (c s) (c (snd (m s))) \<and>
      pays limit c looks (case fst (m s) of Inl e \<Rightarrow> Done (Inl e) | Inr x \<Rightarrow> k x)
        (n + (if c (snd (m s)) = c s + 1 then 1 else 0))" if "0 \<le> c s" for s
    using assms(1) [OF that, of "fst (m s)" "snd (m s)"] assms(3) [OF that, of _ "snd (m s)"]
    by (cases "m s"; cases "fst (m s)") auto
  with assms(2) show ?thesis by (simp add: perform_def)
qed

lemma pays_perform:
  assumes "\<And>s r s'. 0 \<le> c s \<Longrightarrow> m s = (r, s') \<Longrightarrow> bounded_move limit (c s) (c s')" "looks l \<Longrightarrow> 0 < n"
  shows "pays limit c looks (perform l m) n"
  using assms by (simp add: perform_def) (metis prod.collapse)

lemma bounded_move_refl [simp]: "bounded_move limit a a" "bounded_move limit a 0"
  by (simp_all add: bounded_move_def)

definition resets :: "('s \<Rightarrow> int) \<Rightarrow> ('l \<times> 's \<times> 's) list \<Rightarrow> nat" where
  "resets c tr = length (filter (\<lambda>(l, s, s'). c s' < c s) tr)"

definition looked :: "('l \<Rightarrow> bool) \<Rightarrow> ('l \<times> 's \<times> 's) list \<Rightarrow> nat" where
  "looked looks tr = length (filter (\<lambda>(l, s, s'). looks l) tr)"

definition raised :: "('s \<Rightarrow> int) \<Rightarrow> ('l \<times> 's \<times> 's) list \<Rightarrow> nat" where
  "raised c tr = length (filter (\<lambda>(l, s, s'). c s' = c s + 1) tr)"

lemma pays_interleaved:
  assumes "interleaved calls env s0 tr ts s" "0 \<le> c s0" "c s0 \<le> limit"
    "\<And>t. t \<in> calls \<Longrightarrow> pays limit c looks t 0" "\<And>s s'. env s s' \<Longrightarrow> c s' = c s"
  shows "0 \<le> c s \<and> c s \<le> limit
    \<and> c s0 + int (raised c tr) \<le> limit * int (resets c tr) + c s
    \<and> (\<exists>ns. length ns = length ts \<and> looked looks tr + sum_list ns = raised c tr
         \<and> (\<forall>i < length ts. pays limit c looks (ts ! i) (ns ! i)))"
  using assms(1)
proof (induction rule: interleaved.induct)
  case start
  with assms(2,3) show ?case by (simp add: raised_def resets_def looked_def)
next
  case (call tr ts s t)
  then obtain ns where ns: "length ns = length ts" "looked looks tr + sum_list ns = raised c tr"
      "\<forall>i < length ts. pays limit c looks (ts ! i) (ns ! i)" by auto
  with call assms(4) [of t] show ?case
    by (intro conjI exI [of _ "ns @ [0]"]) (auto simp: nth_append less_Suc_eq)
next
  case (outside tr ts s s')
  with assms(5) show ?case by simp
next
  case (resume tr ts s i l f g)
  then obtain ns where ns: "length ns = length ts" "looked looks tr + sum_list ns = raised c tr"
      "\<forall>i < length ts. pays limit c looks (ts ! i) (ns ! i)" by auto
  let ?d = "(if looks l then 1 else 0 :: nat)" and ?u = "(if c (g s) = c s + 1 then 1 else 0 :: nat)"
  have p: "pays limit c looks (Await l f g) (ns ! i)" using ns resume by metis
  then have m: "bounded_move limit (c s) (c (g s))" "?d \<le> ns ! i"
      and pf: "pays limit c looks (f s) (ns ! i - ?d + ?u)"
    using resume.IH by (auto simp: Suc_leI)
  let ?ns = "ns[i := ns ! i - ?d + ?u]"
  have le: "ns ! i \<le> sum_list ns" using ns resume by (simp add: elem_le_sum_list)
  have "sum_list ?ns = sum_list ns + (ns ! i - ?d + ?u) - ns ! i"
    using ns resume by (simp add: sum_list_update)
  then have "sum_list ?ns + ?d = sum_list ns + ?u" using m(2) le by linarith
  moreover have "looked looks (tr @ [(l, s, g s)]) = looked looks tr + ?d"
    by (simp add: looked_def)
  moreover have r: "raised c (tr @ [(l, s, g s)]) = raised c tr + ?u"
    by (simp add: raised_def)
  ultimately have sums: "looked looks (tr @ [(l, s, g s)]) + sum_list ?ns = raised c (tr @ [(l, s, g s)])"
    using ns(2) by linarith
  have each: "\<forall>j < length (ts[i := f s]). pays limit c looks (ts[i := f s] ! j) (?ns ! j)"
  proof (intro allI impI)
    fix j assume j: "j < length (ts[i := f s])"
    show "pays limit c looks (ts[i := f s] ! j) (?ns ! j)"
    proof (cases "j = i")
      case True
      then have "ts[i := f s] ! j = f s" "?ns ! j = ns ! i - ?d + ?u"
        using ns(1) resume.hyps(2) by simp_all
      with pf show ?thesis by (simp only:)
    qed (use ns(3) j in simp)
  qed
  have bound: "c s0 + int (raised c (tr @ [(l, s, g s)])) \<le> limit * int (resets c (tr @ [(l, s, g s)])) + c (g s)
      \<and> 0 \<le> c (g s) \<and> c (g s) \<le> limit"
    unfolding r using m(1) resume.IH by (auto simp: bounded_move_def resets_def algebra_simps)
  have len: "length ?ns = length (ts[i := f s])" using ns(1) by simp
  from bound have "0 \<le> c (g s)" "c (g s) \<le> limit" by (rule conjunct2 [THEN conjunct1], rule conjunct2 [THEN conjunct2])
  then show ?case
    by (intro conjI exI [of _ ?ns] len sums each conjunct1 [OF bound])
qed

theorem looks_bounded:
  assumes "interleaved calls env s0 tr ts s" "0 \<le> c s0" "c s0 \<le> limit"
    "\<And>t. t \<in> calls \<Longrightarrow> pays limit c looks t 0" "\<And>s s'. env s s' \<Longrightarrow> c s' = c s"
  shows "int (looked looks tr) \<le> limit * (1 + int (resets c tr)) - c s0"
  using pays_interleaved [OF assms] by (auto simp: algebra_simps)

end
