(* ===== verification/Host_Vouching.thy ===== *)
theory Host_Vouching
  imports Threads Person_Roster Sync_Challenges
begin

text \<open>
  The host's side of vouching, \<^verbatim>\<open>electron-client/src/hostVouching.ts\<close>: every operation of
  \<open>createHostVouching\<close> as a thread whose stretches are the code between two awaits. The state is
  the roster, the challenge store behind \<open>consumeChallenge\<close>, the \<open>Map\<close> of waiting requests, the
  number of \<open>onChange\<close> calls, the clock \<open>now\<close> reads and the name \<open>hostLabel\<close> gives. Random ids and
  salts are arguments; the key pair, the collation of \<open>localeCompare\<close> and the delivery of
  revocations are fields of the environment.
\<close>

section \<open>State\<close>

definition MAX_PENDING :: nat where
  "MAX_PENDING = 16"

definition PENDING_TTL_MS :: int where
  "PENDING_TTL_MS = 10 * 60000"

definition MAX_PIN_FAILURES :: int where
  "MAX_PIN_FAILURES = 5"

datatype vouch_status = Pending | Rejected | Vouched

record vouch_entry =
  ve_id :: jstr
  ve_request :: vouch_request
  ve_personName :: jstr
  ve_deviceFingerprint :: jstr
  ve_receivedAt :: int
  ve_status :: vouch_status
  ve_vouch :: "signed option"

record host_state =
  hs_roster :: roster_state
  hs_challenges :: challenge_store
  hs_entries :: "(jstr \<times> vouch_entry) list"
  hs_changes :: nat
  hs_clock :: int
  hs_label :: jstr

text \<open>The URLs the delivery listed the revocation on; \<open>None\<close> when it rejects.\<close>

record host_env =
  he_platform :: platform
  he_node :: node_crypto
  he_keyPair :: "u8 list"
  he_collation :: "jstr \<Rightarrow> jstr"
  he_deliver :: "(jstr \<Rightarrow> u8 list \<Rightarrow> jstr \<Rightarrow> jstr \<Rightarrow> jstr list option) option"

datatype host_error =
    RosterError roster_error
  | Unserializable json_error
  | PinHashError
  | NotOnRoster
  | DeliveryError

text \<open>The one stretch an observer counts is the comparison of a PIN.\<close>

datatype stretch = Plain | Compare jstr

type_synonym 'a host_call = "(stretch, host_state, host_error, 'a) call"

definition on_roster :: "(roster_state, roster_error, 'a) eff \<Rightarrow> (host_state, host_error, 'a) eff" where
  "on_roster m = (\<lambda>s. case m (hs_roster s) of (r, ro) \<Rightarrow> (map_sum RosterError id r, s\<lparr>hs_roster := ro\<rparr>))"

definition hash_pin :: "host_env \<Rightarrow> jstr \<Rightarrow> u8 list \<Rightarrow> host_error + pin_hash" where
  "hash_pin env pin slt = (case hashPin (he_node env) pin slt of None \<Rightarrow> Inl PinHashError | Some h \<Rightarrow> Inr h)"

definition failuresOf :: "roster_entry \<Rightarrow> int" where
  "failuresOf e = (case re_pinFailures e of None \<Rightarrow> 0 | Some n \<Rightarrow> n)"

definition isLocked :: "roster_entry \<Rightarrow> bool" where
  "isLocked e = (MAX_PIN_FAILURES \<le> failuresOf e)"

section \<open>Waiting requests\<close>

definition is_stale :: "int \<Rightarrow> vouch_entry \<Rightarrow> bool" where
  "is_stale now e = (ve_receivedAt e < now - PENDING_TTL_MS)"

definition changed :: "host_state \<Rightarrow> host_state" where
  "changed s = s\<lparr>hs_changes := hs_changes s + 1\<rparr>"

definition dropStale :: "host_state \<Rightarrow> host_state" where
  "dropStale s =
     (let dropped = (\<exists>(rid, e) \<in> set (hs_entries s). is_stale (hs_clock s) e \<and> ve_status e = Pending);
          s' = s\<lparr>hs_entries := filter (\<lambda>(rid, e). \<not> is_stale (hs_clock s) e) (hs_entries s)\<rparr>
      in if dropped then changed s' else s')"

definition find_pending :: "host_state \<Rightarrow> jstr \<Rightarrow> vouch_entry option" where
  "find_pending s rid =
     (case map_of (hs_entries s) rid of
        None \<Rightarrow> None | Some e \<Rightarrow> if ve_status e = Pending then Some e else None)"

definition pendingEntry :: "jstr \<Rightarrow> (host_state, host_error, vouch_entry option) eff" where
  "pendingEntry rid = (\<lambda>s. (Inr (find_pending (dropStale s) rid), dropStale s))"

definition pending_entries :: "host_state \<Rightarrow> vouch_entry list" where
  "pending_entries s = filter (\<lambda>e. ve_status e = Pending) (map snd (hs_entries s))"

text \<open>Writing to an entry object: it shows in the \<open>Map\<close> while the entry is in it.\<close>

definition set_entry :: "jstr \<Rightarrow> (vouch_entry \<Rightarrow> vouch_entry) \<Rightarrow> host_state \<Rightarrow> host_state" where
  "set_entry rid f s = s\<lparr>hs_entries := map (\<lambda>(k, e). (k, if k = rid then f e else e)) (hs_entries s)\<rparr>"

section \<open>PINs\<close>

datatype pin_check = PinOk | WrongPin int | PinLocked | NoPin

definition count_guess :: "roster_entry \<Rightarrow> roster_entry option" where
  "count_guess e = (if re_pin e \<noteq> None \<and> \<not> isLocked e
     then Some (e\<lparr>re_pinFailures := Some (failuresOf e + 1)\<rparr>) else None)"

definition clear_failures :: "roster_entry \<Rightarrow> roster_entry option" where
  "clear_failures e = Some (e\<lparr>re_pinFailures := None\<rparr>)"

definition checkPin :: "host_env \<Rightarrow> jstr \<Rightarrow> jstr \<Rightarrow> pin_check host_call" where
  "checkPin env personKey pin =
     chain (perform Plain (on_roster (update_person personKey count_guess))) (\<lambda>counted.
       case Option.bind counted re_pin of
         None \<Rightarrow>
           chain (perform Plain (on_roster (find_person personKey))) (\<lambda>found.
             give (if Option.bind found re_pin \<noteq> None then PinLocked else NoPin))
       | Some stored \<Rightarrow>
           chain (perform (Compare personKey) (lift_sum (case pinMatches (he_node env) pin stored of
               None \<Rightarrow> Inl PinHashError | Some b \<Rightarrow> Inr b))) (\<lambda>same.
             if same then
               chain (perform Plain (on_roster (update_person personKey clear_failures))) (\<lambda>_. give PinOk)
             else (let failures = failuresOf (the counted)
                   in give (if MAX_PIN_FAILURES \<le> failures then PinLocked
                            else WrongPin (MAX_PIN_FAILURES - failures)))))"

definition new_pin :: "pin_hash option \<Rightarrow> roster_entry \<Rightarrow> roster_entry option" where
  "new_pin h e = Some (e\<lparr>re_pin := h, re_pinFailures := None\<rparr>)"

definition savePin :: "host_env \<Rightarrow> jstr \<Rightarrow> jstr option \<Rightarrow> u8 list \<Rightarrow> bool host_call" where
  "savePin env personKey pin slt =
     chain (case pin of
         None \<Rightarrow> give None
       | Some p \<Rightarrow> perform Plain (lift_sum (map_sum id Some (hash_pin env p slt)))) (\<lambda>h.
       chain (perform Plain (on_roster (update_person personKey (new_pin h)))) (\<lambda>saved.
         give (saved \<noteq> None)))"

section \<open>Vouches\<close>

definition add_vouch :: "signed_vouch \<Rightarrow> roster_entry \<Rightarrow> roster_entry option" where
  "add_vouch v e = Some (e\<lparr>re_vouches :=
     Some (filter (\<lambda>x. sv_address x \<noteq> sv_address v) (case re_vouches e of None \<Rightarrow> [] | Some vs \<Rightarrow> vs) @ [v])\<rparr>)"

definition sign_vouch ::
  "host_env \<Rightarrow> vouch_entry \<Rightarrow> vouch_method \<Rightarrow> roster_entry \<Rightarrow> host_state \<Rightarrow> host_error + (signed \<times> signed_vouch)" where
  "sign_vouch env e method someone s =
     (let p = he_platform env;
          made = device_vouch_for p (ve_request e) (hs_label s) (re_name someone) method
            (re_certAddress someone) (hs_clock s) (he_keyPair env)
      in case createDeviceVouch p (ve_request e) (hs_label s) (re_name someone) method
                (re_certAddress someone) (hs_clock s) (he_keyPair env) of
           Inl x \<Rightarrow> Inl (Unserializable x)
         | Inr vouch \<Rightarrow>
             (case statementAddress p vouch of
                Inl x \<Rightarrow> Inl (Unserializable x)
              | Inr address \<Rightarrow> Inr (vouch, \<lparr>sv_address = address, sv_deviceKey = dv_deviceKey made,
                  sv_deviceLabel = dv_deviceLabel made, sv_deviceFingerprint = ve_deviceFingerprint e,
                  sv_method = method, sv_vouchedAt = dv_vouchedAt made,
                  sv_revokedAt = None, sv_revocation = None\<rparr>)))"

definition vouchFor :: "host_env \<Rightarrow> vouch_entry \<Rightarrow> vouch_method \<Rightarrow> signed host_call" where
  "vouchFor env e method =
     chain (perform Plain (on_roster (find_person (vr_personKey (ve_request e))))) (\<lambda>found.
       case found of
         None \<Rightarrow> Done (Inl NotOnRoster)
       | Some someone \<Rightarrow>
           chain (perform Plain (\<lambda>s. (sign_vouch env e method someone s, s))) (\<lambda>(vouch, rec).
             chain (perform Plain (on_roster (update_person (re_personKey someone) (add_vouch rec)))) (\<lambda>_.
               chain (perform Plain (writes (\<lambda>s. changed
                   (set_entry (ve_id e) (\<lambda>x. x\<lparr>ve_status := Vouched, ve_vouch := Some vouch\<rparr>) s)))) (\<lambda>_.
                 give vouch))))"

definition vouches_of :: "roster_entry \<Rightarrow> signed_vouch list" where
  "vouches_of e = (case re_vouches e of None \<Rightarrow> [] | Some vs \<Rightarrow> vs)"

fun first_vouch :: "jstr \<Rightarrow> roster_entry list \<Rightarrow> (roster_entry \<times> signed_vouch) option" where
  "first_vouch address [] = None"
| "first_vouch address (e # es) =
     (case find (\<lambda>v. sv_address v = address) (vouches_of e) of
        Some v \<Rightarrow> Some (e, v) | None \<Rightarrow> first_vouch address es)"

definition findVouch :: "jstr \<Rightarrow> (roster_entry \<times> signed_vouch) option host_call" where
  "findVouch address = chain (perform Plain (on_roster load)) (\<lambda>people. give (first_vouch address people))"

section \<open>The operations\<close>

record roster_person =
  rp_personKey :: jstr
  rp_name :: jstr
  rp_hasPin :: bool
  rp_pinLocked :: bool

definition roster_view :: "roster_person list host_call" where
  "roster_view = chain (perform Plain (on_roster load)) (\<lambda>people.
     give (map (\<lambda>e. \<lparr>rp_personKey = re_personKey e, rp_name = re_name e, rp_hasPin = (re_pin e \<noteq> None),
       rp_pinLocked = (re_pin e \<noteq> None \<and> isLocked e)\<rparr>) people))"

datatype join_result = Joined | JoinProblem problem | StaleChallenge | CertificateMismatch | BadName | BadPin

text \<open>\<open>pin !== undefined && pin !== null && !isValidPin(pin)\<close>.\<close>

definition refused_pin :: "jsval \<Rightarrow> bool" where
  "refused_pin pin = (pin \<noteq> JUndefined \<and> pin \<noteq> JNull \<and> isValidPin pin = None)"

definition certificate_of_join :: "platform \<Rightarrow> join_request \<Rightarrow> signed \<Rightarrow> signed option" where
  "certificate_of_join p request certificate =
     (case checkDeviceCertificate p certificate of
        Inl _ \<Rightarrow> None
      | Inr (c, cert) \<Rightarrow>
          if dc_personKey cert \<noteq> jr_personKey request then None
          else if statementAddress p c \<noteq> Inr (jr_certificate request) then None
          else Some c)"

definition rename :: "jstr \<Rightarrow> jsval \<Rightarrow> pin_hash option \<Rightarrow> roster_entry \<Rightarrow> roster_entry option" where
  "rename name pin h e =
     (let renamed = e\<lparr>re_name := name\<rparr>
      in Some (if pin = JUndefined then renamed else renamed\<lparr>re_pin := h, re_pinFailures := None\<rparr>))"

definition newcomer :: "join_request \<Rightarrow> jstr \<Rightarrow> signed \<Rightarrow> pin_hash option \<Rightarrow> int \<Rightarrow> roster_entry" where
  "newcomer request name certificate h now =
     \<lparr>re_personKey = jr_personKey request, re_name = name, re_certAddress = jr_certificate request,
      re_certSigned = certificate, re_pin = h, re_pinFailures = None, re_vouches = None,
      re_passkeyRecords = None, re_joinedAt = toISOString now\<rparr>"

definition join_host :: "host_env \<Rightarrow> signed \<Rightarrow> signed \<Rightarrow> jsval \<Rightarrow> u8 list \<Rightarrow> join_result host_call" where
  "join_host env joining certificate pin slt =
     (let p = he_platform env in
      case checkJoinRequest p joining of
        Inl problem \<Rightarrow> give (JoinProblem problem)
      | Inr (_, request) \<Rightarrow>
          chain (perform Plain (\<lambda>s. case consume (hs_challenges s) (hs_clock s) (jr_challenge request) of
              (fresh, st) \<Rightarrow> (Inr fresh, s\<lparr>hs_challenges := st\<rparr>))) (\<lambda>fresh.
            if \<not> fresh then give StaleChallenge
            else case certificate_of_join p request certificate of
              None \<Rightarrow> give CertificateMismatch
            | Some cert \<Rightarrow>
                (case sanitizeLabel (JString (jr_personName request)) of
                   None \<Rightarrow> give BadName
                 | Some name \<Rightarrow>
                     if refused_pin pin then give BadPin
                     else
                       chain (case as_string pin of
                           None \<Rightarrow> give None
                         | Some text \<Rightarrow> perform Plain (lift_sum (map_sum id Some (hash_pin env text slt)))) (\<lambda>h.
                       chain (perform Plain (on_roster (update_person (jr_personKey request) (rename name pin h)))) (\<lambda>renamed.
                         if renamed \<noteq> None then give Joined
                         else chain (perform Plain (\<lambda>s. on_roster
                                (put_person (newcomer request name cert h (hs_clock s))) s)) (\<lambda>_. give Joined))))))"

datatype request_result = Requested jstr | RequestProblem problem | UnknownPerson | TooManyPending

definition insert_request :: "jstr \<Rightarrow> vouch_request \<Rightarrow> jstr \<Rightarrow> jstr \<Rightarrow> (host_state, host_error, request_result) eff" where
  "insert_request rid request personName fingerprint = (\<lambda>s.
     let waiting = pending_entries s;
         existing = find (\<lambda>e. vr_deviceKey (ve_request e) = vr_deviceKey request
                            \<and> vr_personKey (ve_request e) = vr_personKey request) waiting
     in case existing of
          Some e \<Rightarrow> (Inr (Requested (ve_id e)), s)
        | None \<Rightarrow>
            if MAX_PENDING \<le> length waiting then (Inr TooManyPending, s)
            else (Inr (Requested rid),
              changed (s\<lparr>hs_entries := AList.update rid
                \<lparr>ve_id = rid, ve_request = request, ve_personName = personName,
                 ve_deviceFingerprint = fingerprint, ve_receivedAt = hs_clock s,
                 ve_status = Pending, ve_vouch = None\<rparr> (hs_entries s)\<rparr>)))"

definition request_vouch :: "host_env \<Rightarrow> signed \<Rightarrow> jstr \<Rightarrow> request_result host_call" where
  "request_vouch env asked rid =
     (let p = he_platform env in
      chain (perform Plain (writes dropStale)) (\<lambda>_.
        case checkVouchRequest p asked of
          Inl problem \<Rightarrow> give (RequestProblem problem)
        | Inr (_, request) \<Rightarrow>
            chain (perform Plain (on_roster (find_person (vr_personKey request)))) (\<lambda>found.
              case found of
                None \<Rightarrow> give UnknownPerson
              | Some someone \<Rightarrow>
                  (let fingerprint = (case keyFingerprint p (vr_deviceKey request) of
                         None \<Rightarrow> js ''?'' | Some f \<Rightarrow> f)
                   in perform Plain (insert_request rid request (re_name someone) fingerprint)))))"

datatype vouch_view = IsPending | IsRejected | IsVouched "signed option"

definition status_of :: "jstr \<Rightarrow> vouch_view option host_call" where
  "status_of rid = perform Plain (\<lambda>s. let s' = dropStale s in
     (Inr (map_option (\<lambda>e. case ve_status e of
        Vouched \<Rightarrow> IsVouched (ve_vouch e) | Pending \<Rightarrow> IsPending | Rejected \<Rightarrow> IsRejected)
        (map_of (hs_entries s') rid)), s'))"

record pending_vouch =
  pv_id :: jstr
  pv_personName :: jstr
  pv_deviceLabel :: jstr
  pv_deviceFingerprint :: jstr
  pv_receivedAt :: jstr

definition pending_list :: "pending_vouch list host_call" where
  "pending_list = perform Plain (\<lambda>s. let s' = dropStale s in
     (Inr (map (\<lambda>e. \<lparr>pv_id = ve_id e, pv_personName = ve_personName e,
        pv_deviceLabel = vr_deviceLabel (ve_request e), pv_deviceFingerprint = ve_deviceFingerprint e,
        pv_receivedAt = toISOString (ve_receivedAt e)\<rparr>) (pending_entries s')), s'))"

definition confirm :: "host_env \<Rightarrow> jstr \<Rightarrow> signed option host_call" where
  "confirm env rid = chain (perform Plain (pendingEntry rid)) (\<lambda>entry.
     case entry of
       None \<Rightarrow> give None
     | Some e \<Rightarrow> chain (vouchFor env e Operator) (\<lambda>vouch. give (Some vouch)))"

definition reject :: "jstr \<Rightarrow> unit host_call" where
  "reject rid = perform Plain (\<lambda>s. let s' = dropStale s in
     (Inr (), case find_pending s' rid of
        None \<Rightarrow> s'
      | Some e \<Rightarrow> changed (set_entry rid (\<lambda>x. x\<lparr>ve_status := Rejected\<rparr>) s')))"

datatype pin_result = PinVouched signed | PinRefused pin_check | NotPending

definition enterPin :: "host_env \<Rightarrow> jstr \<Rightarrow> jstr \<Rightarrow> pin_result host_call" where
  "enterPin env rid pin = chain (perform Plain (pendingEntry rid)) (\<lambda>entry.
     case entry of
       None \<Rightarrow> give NotPending
     | Some e \<Rightarrow> chain (checkPin env (vr_personKey (ve_request e)) pin) (\<lambda>check.
         if check = PinOk then chain (vouchFor env e Pin) (\<lambda>vouch. give (PinVouched vouch))
         else give (PinRefused check)))"

datatype change_result = Changed | ChangeRefused pin_check | NobodyKnown | PinMalformed

definition new_pin_text :: "jsval \<Rightarrow> jstr option option" where
  "new_pin_text pin = (if pin = JNull then Some None else map_option Some (isValidPin pin))"

definition changePin :: "host_env \<Rightarrow> jstr \<Rightarrow> jstr \<Rightarrow> jsval \<Rightarrow> u8 list \<Rightarrow> change_result host_call" where
  "changePin env personKey oldPin pin slt =
     (case new_pin_text pin of
        None \<Rightarrow> give PinMalformed
      | Some next \<Rightarrow>
          chain (perform Plain (on_roster (find_person personKey))) (\<lambda>found.
            if found = None then give NobodyKnown
            else chain (checkPin env personKey oldPin) (\<lambda>check.
              if check \<noteq> PinOk then give (ChangeRefused check)
              else chain (savePin env personKey next slt) (\<lambda>saved.
                give (if saved then Changed else NobodyKnown)))))"

definition setPin :: "host_env \<Rightarrow> jstr \<Rightarrow> jsval \<Rightarrow> u8 list \<Rightarrow> change_result host_call" where
  "setPin env personKey pin slt =
     (case new_pin_text pin of
        None \<Rightarrow> give PinMalformed
      | Some next \<Rightarrow> chain (savePin env personKey next slt) (\<lambda>saved.
          give (if saved then Changed else NobodyKnown)))"

text \<open>A member that is absent or empty reads as false.\<close>

definition truthy :: "jstr option \<Rightarrow> bool" where
  "truthy x = (x \<noteq> None \<and> x \<noteq> Some [])"

datatype vouch_standing = Standing | Withdrawn jstr "jstr option"

definition signedVouchState :: "jstr \<Rightarrow> vouch_standing option host_call" where
  "signedVouchState address = chain (findVouch address) (\<lambda>found.
     give (map_option (\<lambda>(_, v).
       if truthy (sv_revokedAt v)
       then Withdrawn (the (sv_revokedAt v)) (if truthy (sv_revocation v) then sv_revocation v else None)
       else Standing) found))"

record vouch_summary =
  vs_vouch :: signed_vouch
  vs_personKey :: jstr
  vs_personName :: jstr

text \<open>\<open>sort\<close> is stable, and the comparator puts the later text first.\<close>

definition signedVouches :: "host_env \<Rightarrow> vouch_summary list host_call" where
  "signedVouches env = chain (perform Plain (on_roster load)) (\<lambda>people.
     give (rev (sort_key (\<lambda>x. he_collation env (sv_vouchedAt (vs_vouch x)))
       (rev (concat (map (\<lambda>e. map (\<lambda>v. \<lparr>vs_vouch = v, vs_personKey = re_personKey e, vs_personName = re_name e\<rparr>)
          (vouches_of e)) people))))))"

datatype revoke_result = Revoked jstr "jstr list" | UnknownVouch | AlreadyRevoked | NoDelivery

definition mark_revoked :: "jstr \<Rightarrow> jstr \<Rightarrow> jstr \<Rightarrow> roster_entry \<Rightarrow> roster_entry option" where
  "mark_revoked address revokedAt revocation e = Some (e\<lparr>re_vouches :=
     Some (map (\<lambda>v. if sv_address v = address
        then v\<lparr>sv_revokedAt := Some revokedAt, sv_revocation := Some revocation\<rparr> else v) (vouches_of e))\<rparr>)"

definition sign_revocation ::
  "host_env \<Rightarrow> jstr \<Rightarrow> jstr \<Rightarrow> int \<Rightarrow> host_error + (jstr \<times> jstr \<times> u8 list)" where
  "sign_revocation env deviceKey address now =
     (let p = he_platform env in
      case createDeviceRevocation p ByHost deviceKey address WrongPerson now (he_keyPair env) of
        Inl x \<Rightarrow> Inl (Unserializable x)
      | Inr revocation \<Rightarrow>
          (case statementBytes revocation of
             Inl x \<Rightarrow> Inl (Unserializable x)
           | Inr bytes \<Rightarrow> Inr (toISOString now, sha256Hex (sha256 p) bytes, bytes)))"

definition revokeVouch :: "host_env \<Rightarrow> jstr \<Rightarrow> jstr \<Rightarrow> revoke_result host_call" where
  "revokeVouch env address docUrl =
     (case he_deliver env of
        None \<Rightarrow> give NoDelivery
      | Some deliver \<Rightarrow>
          chain (findVouch address) (\<lambda>found.
            case found of
              None \<Rightarrow> give UnknownVouch
            | Some (someone, v) \<Rightarrow>
                if truthy (sv_revokedAt v) then give AlreadyRevoked
                else
                  chain (perform Plain (\<lambda>s. (sign_revocation env (sv_deviceKey v) address (hs_clock s), s)))
                    (\<lambda>(revokedAt, revocation, bytes).
                  chain (perform Plain (lift_sum (case deliver docUrl bytes revocation address of
                      None \<Rightarrow> Inl DeliveryError | Some urls \<Rightarrow> Inr urls))) (\<lambda>listedOn.
                  chain (perform Plain (on_roster (update_person (re_personKey someone)
                      (mark_revoked address revokedAt revocation)))) (\<lambda>_.
                    give (Revoked revocation listedOn))))))"

definition unlock :: "roster_entry \<Rightarrow> roster_entry option" where
  "unlock e = (if re_pinFailures e = None then None else Some (e\<lparr>re_pinFailures := None\<rparr>))"

definition unlockPin :: "jstr \<Rightarrow> bool host_call" where
  "unlockPin personKey =
     chain (perform Plain (on_roster (find_person personKey))) (\<lambda>found.
       if found = None then give False
       else chain (perform Plain (on_roster (update_person personKey unlock))) (\<lambda>_. give True))"

end
