(* ===== verification/Host_Safety.thy ===== *)
theory Host_Safety
  imports Host_Vouching
begin

text \<open>
  What the host keeps however calls of its operations interleave at their awaits, with the clock
  moving, the host renamed, challenges handed out and the disk refusing writes in between: a cap on
  waiting requests, a cap on PIN guesses, and a record of every vouch handed out.
\<close>

inductive_set settled_calls :: "host_env \<Rightarrow> (stretch, host_state, unit) thread set" for env where
  roster_call: "forget roster_view \<in> settled_calls env"
| request_call: "forget (request_vouch env asked rid) \<in> settled_calls env"
| status_call: "forget (status_of rid) \<in> settled_calls env"
| pending_call: "forget pending_list \<in> settled_calls env"
| confirm_call: "forget (confirm env rid) \<in> settled_calls env"
| reject_call: "forget (reject rid) \<in> settled_calls env"
| enterPin_call: "forget (enterPin env rid guess) \<in> settled_calls env"
| changePin_call: "forget (changePin env personKey guess pin slt) \<in> settled_calls env"
| setPin_call: "forget (setPin env personKey pin slt) \<in> settled_calls env"
| state_call: "forget (signedVouchState address) \<in> settled_calls env"
| vouches_call: "forget (signedVouches env) \<in> settled_calls env"
| revoke_call: "forget (revokeVouch env address docUrl) \<in> settled_calls env"
| unlock_call: "forget (unlockPin personKey) \<in> settled_calls env"

definition host_calls :: "host_env \<Rightarrow> (stretch, host_state, unit) thread set" where
  "host_calls env = settled_calls env
     \<union> {forget (join_host env joining certificate pin slt) | joining certificate pin slt. True}"

lemma host_calls_induct [consumes 1, case_names settled join_call]:
  assumes "t \<in> host_calls env" "\<And>t. t \<in> settled_calls env \<Longrightarrow> P t"
    "\<And>joining certificate pin slt. P (forget (join_host env joining certificate pin slt))"
  shows "P t"
  using assms by (auto simp: host_calls_def)

definition world :: "host_state \<Rightarrow> host_state \<Rightarrow> bool" where
  "world s s' = (\<exists>now label st w. hs_clock s \<le> now \<and>
     s' = s\<lparr>hs_clock := now, hs_label := label, hs_challenges := st, hs_roster := (hs_roster s)\<lparr>writable := w\<rparr>\<rparr>)"

lemmas host_operations =
  roster_view_def join_host_def request_vouch_def status_of_def pending_list_def confirm_def reject_def
  enterPin_def changePin_def setPin_def signedVouchState_def signedVouches_def revokeVouch_def
  unlockPin_def checkPin_def savePin_def vouchFor_def findVouch_def

section \<open>The waiting list\<close>

definition few_pending :: "host_state \<Rightarrow> bool" where
  "few_pending s = (length (pending_entries s) \<le> MAX_PENDING)"

lemma pending_simps [simp]:
  "pending_entries (s\<lparr>hs_roster := ro\<rparr>) = pending_entries s"
  "pending_entries (s\<lparr>hs_challenges := st\<rparr>) = pending_entries s"
  "pending_entries (changed s) = pending_entries s"
  by (simp_all add: pending_entries_def changed_def)

lemma keeps_on_roster: "(\<And>s ro. I s \<Longrightarrow> I (s\<lparr>hs_roster := ro\<rparr>)) \<Longrightarrow> keeps I (on_roster m)"
  by (auto simp: keeps_def on_roster_def split: prod.split)

lemma pending_filter_le:
  "length (filter P (map snd (filter Q es))) \<le> length (filter P (map snd es))"
  by (induction es) auto

lemma few_dropStale: "few_pending s \<Longrightarrow> few_pending (dropStale s)"
  using pending_filter_le [of "\<lambda>e. ve_status e = Pending" "\<lambda>(rid, e). \<not> is_stale (hs_clock s) e" "hs_entries s"]
  by (auto simp: few_pending_def dropStale_def Let_def) (auto simp: pending_entries_def changed_def)

lemma pending_set_entry_le:
  assumes "\<And>x. ve_status (f x) \<noteq> Pending"
  shows "length (pending_entries (set_entry rid f s)) \<le> length (pending_entries s)"
proof -
  have "length (filter (\<lambda>e. ve_status e = Pending) (map snd (map (\<lambda>(k, e). (k, if k = rid then f e else e)) es)))
      \<le> length (filter (\<lambda>e. ve_status e = Pending) (map snd es))" for es
    using assms by (induction es) (auto split: if_splits)
  then show ?thesis by (simp add: pending_entries_def set_entry_def)
qed

lemma pending_update_le:
  "length (filter P (map snd (AList.update k v es))) \<le> Suc (length (filter P (map snd es)))"
  by (induction es) auto

lemma few_insert: "keeps few_pending (insert_request rid request personName fingerprint)"
proof -
  have "length (pending_entries (s\<lparr>hs_entries := AList.update rid e (hs_entries s)\<rparr>)) \<le> MAX_PENDING"
    if "\<not> MAX_PENDING \<le> length (pending_entries s)" for s e
    using pending_update_le [of "\<lambda>e. ve_status e = Pending" rid e "hs_entries s"] that
    by (simp add: pending_entries_def)
  then show ?thesis
    by (auto simp: keeps_def insert_request_def few_pending_def Let_def split: option.split)
qed

lemma few_stretches:
  "keeps few_pending (on_roster m)" "keeps few_pending (pendingEntry rid)" "keeps few_pending (writes dropStale)"
  "keeps few_pending (\<lambda>s. (g s, dropStale s))" "keeps few_pending (\<lambda>s. (g s, s))"
  "keeps few_pending (\<lambda>s. on_roster (h s) s)"
  "keeps few_pending (writes (\<lambda>s. changed (set_entry rid (\<lambda>x. x\<lparr>ve_status := Vouched, ve_vouch := v\<rparr>) s)))"
  "keeps few_pending (\<lambda>s. let s' = dropStale s in (g' s', s'))"
  "keeps few_pending (\<lambda>s. (g s, case find_pending (dropStale s) rid of None \<Rightarrow> dropStale s
        | Some e \<Rightarrow> changed (set_entry rid (ve_status_update (\<lambda>_. Rejected)) (dropStale s))))"
  "keeps few_pending (\<lambda>s. case consume (hs_challenges s) (hs_clock s) c of
              (fresh, st) \<Rightarrow> (Inr fresh, s\<lparr>hs_challenges := st\<rparr>))"
  using pending_set_entry_le [of "\<lambda>x. x\<lparr>ve_status := Vouched, ve_vouch := v\<rparr>" rid]
    pending_set_entry_le [of "\<lambda>x. x\<lparr>ve_status := Rejected\<rparr>" rid] few_dropStale
  by (auto simp: keeps_def on_roster_def pendingEntry_def Let_def few_pending_def
      split: prod.splits option.split intro: order_trans)

lemma safe_few_pending: "t \<in> host_calls env \<Longrightarrow> safe few_pending t"
proof (induction rule: host_calls_induct)
  case (settled t)
  then show ?case
    by (induction rule: settled_calls.induct)
      (auto simp: host_operations Let_def intro!: safe_chain safe_perform few_stretches few_insert
        split: option.split sum.split prod.split)
qed (auto simp: host_operations Let_def intro!: safe_chain safe_perform few_stretches few_insert
      split: option.split sum.split prod.split)

text \<open>
  C17. However the host's operations interleave, at most sixteen requests wait at a time.
\<close>

theorem pending_bounded:
  assumes "interleaved (host_calls env) world s0 tr ts s" "length (pending_entries s0) \<le> MAX_PENDING"
  shows "length (pending_entries s) \<le> MAX_PENDING"
proof -
  have "few_pending s' \<longleftrightarrow> few_pending s" if "world s s'" for s s'
    using that by (auto simp: world_def few_pending_def pending_entries_def)
  with interleaved_invariant [OF assms(1), of few_pending] assms(2) safe_few_pending
  show ?thesis unfolding few_pending_def by blast
qed

section \<open>Guesses\<close>

definition wrong_guesses :: "jstr \<Rightarrow> host_state \<Rightarrow> int" where
  "wrong_guesses k s = (case person (hs_roster s) k of None \<Rightarrow> 0 | Some e \<Rightarrow> failuresOf e)"

definition compares :: "jstr \<Rightarrow> stretch \<Rightarrow> bool" where
  "compares k l = (l = Compare k)"

abbreviation obeys :: "jstr \<Rightarrow> (stretch, host_state, 'r) thread \<Rightarrow> nat \<Rightarrow> bool" where
  "obeys k t n \<equiv> pays MAX_PIN_FAILURES (wrong_guesses k) (compares k) t n"

lemma wrong_guesses_roster [simp]:
  "wrong_guesses k (s\<lparr>hs_challenges := st\<rparr>) = wrong_guesses k s" "wrong_guesses k (changed s) = wrong_guesses k s"
  "wrong_guesses k (set_entry rid f s) = wrong_guesses k s" "wrong_guesses k (dropStale s) = wrong_guesses k s"
  "wrong_guesses k (s\<lparr>hs_entries := es\<rparr>) = wrong_guesses k s"
  by (simp_all add: wrong_guesses_def changed_def set_entry_def dropStale_def Let_def)

lemma compares_Plain [simp]: "\<not> compares k Plain"
  by (simp add: compares_def)

definition tame :: "jstr \<Rightarrow> (host_state, host_error, 'a) eff \<Rightarrow> bool" where
  "tame k m = (\<forall>s r s'. 0 \<le> wrong_guesses k s \<longrightarrow> m s = (r, s') \<longrightarrow>
     wrong_guesses k s' = wrong_guesses k s \<or> wrong_guesses k s' = 0)"

lemma obeys_tame: "tame k m \<Longrightarrow> obeys k (perform Plain m) n"
  by (rule pays_perform) (auto simp: tame_def bounded_move_def)

lemma on_roster_eq: "on_roster m s = (r, s') \<Longrightarrow> \<exists>q ro. m (hs_roster s) = (q, ro)
    \<and> r = map_sum RosterError id q \<and> s' = s\<lparr>hs_roster := ro\<rparr>"
  by (auto simp: on_roster_def split: prod.splits)

lemma load_keeps_person: "load st = (r, st') \<Longrightarrow> person st' = person st"
  by (cases st rule: load_cases) (auto simp: person_def fun_eq_iff people_of_def load_def)

lemma tame_load: "tame k (on_roster load)"
  by (auto simp: tame_def wrong_guesses_def dest!: on_roster_eq load_keeps_person)

lemma tame_find: "tame k (on_roster (find_person j))"
  by (auto simp: tame_def wrong_guesses_def dest!: on_roster_eq roster.find_by)

lemma tame_update:
  assumes "\<And>x y. change x = Some y \<Longrightarrow> re_personKey y = re_personKey x
      \<and> (failuresOf y = failuresOf x \<or> failuresOf y = 0)"
  shows "tame k (on_roster (update_person j change))"
proof -
  have "wrong_guesses k (s\<lparr>hs_roster := ro\<rparr>) = wrong_guesses k s \<or> wrong_guesses k (s\<lparr>hs_roster := ro\<rparr>) = 0"
    if u: "update_person j change (hs_roster s) = (r, ro)" for s r ro
    using roster.update_by [OF u] person_keyed [of "hs_roster s" j] assms
    by (auto simp: wrong_guesses_def bind_eq_Some_conv split: option.splits if_splits) blast
  then show ?thesis unfolding tame_def by (blast dest!: on_roster_eq)
qed

lemma tame_put:
  assumes "\<And>s. failuresOf (h s) = 0"
  shows "tame k (\<lambda>s. on_roster (put_person (h s)) s)"
proof -
  have "wrong_guesses k (s\<lparr>hs_roster := ro\<rparr>) = wrong_guesses k s \<or> wrong_guesses k (s\<lparr>hs_roster := ro\<rparr>) = 0"
    if u: "put_person (h s) (hs_roster s) = (r, ro)" for s r ro
    using roster.put_by [OF u] assms by (auto simp: wrong_guesses_def)
  then show ?thesis unfolding tame_def by (blast dest!: on_roster_eq)
qed

lemma tame_changes:
  "tame k (on_roster (update_person j clear_failures))" "tame k (on_roster (update_person j (new_pin h)))"
  "tame k (on_roster (update_person j (add_vouch v)))" "tame k (on_roster (update_person j (rename name pin h)))"
  "tame k (on_roster (update_person j (mark_revoked a b c)))" "tame k (on_roster (update_person j unlock))"
  by (rule tame_update; auto simp: clear_failures_def new_pin_def add_vouch_def rename_def mark_revoked_def
      unlock_def failuresOf_def Let_def split: if_splits)+

lemma tame_stretches:
  "tame k (pendingEntry rid)" "tame k (writes dropStale)" "tame k (insert_request rid request n f)"
  "tame k (\<lambda>s. (g s, dropStale s))" "tame k (\<lambda>s. (g s, s))" "tame k (lift_sum r)"
  "tame k (writes (\<lambda>s. changed (set_entry rid u s)))"
  "tame k (\<lambda>s. (g s, case find_pending (dropStale s) rid of None \<Rightarrow> dropStale s
        | Some e \<Rightarrow> changed (set_entry rid u (dropStale s))))"
  "tame k (\<lambda>s. case consume (hs_challenges s) (hs_clock s) c of
              (fresh, st) \<Rightarrow> (Inr fresh, s\<lparr>hs_challenges := st\<rparr>))"
  by (auto simp: tame_def pendingEntry_def insert_request_def Let_def writes_def lift_sum_def
      split: option.splits prod.splits if_splits)

lemma tame_newcomer: "tame k (\<lambda>s. on_roster (put_person (newcomer request name cert h (hs_clock s))) s)"
  by (rule tame_put) (simp add: failuresOf_def newcomer_def)

lemma count_guess_moves:
  assumes "on_roster (update_person j count_guess) s = (r, s')"
  shows "bounded_move MAX_PIN_FAILURES (wrong_guesses k s) (wrong_guesses k s')
    \<and> (r = Inr (Some e) \<longrightarrow> j = k \<longrightarrow> wrong_guesses k s' = wrong_guesses k s + 1)"
proof -
  from on_roster_eq [OF assms] obtain q ro where u: "update_person j count_guess (hs_roster s) = (q, ro)"
      "r = map_sum RosterError id q" "s' = s\<lparr>hs_roster := ro\<rparr>" by blast
  from roster.update_by [OF u(1)] show ?thesis
  proof (elim disjE exE conjE)
    fix x assume x: "q = Inr x" "x = Option.bind (person (hs_roster s) j) count_guess"
      "person ro = (case x of None \<Rightarrow> person (hs_roster s) | Some e \<Rightarrow> (person (hs_roster s))(re_personKey e \<mapsto> e))"
    show ?thesis
    proof (cases x)
      case None
      with x u show ?thesis by (simp add: wrong_guesses_def)
    next
      case (Some y)
      have "Option.bind (person (hs_roster s) j) count_guess = Some y" using x(2) Some by simp
      then obtain z where z: "person (hs_roster s) j = Some z" "count_guess z = Some y"
        by (auto simp: bind_eq_Some_conv)
      then have "re_personKey y = j" "failuresOf y = failuresOf z + 1" "failuresOf z < MAX_PIN_FAILURES"
        using person_keyed by (auto simp: count_guess_def failuresOf_def isLocked_def split: if_splits)
      with z x u Some show ?thesis by (auto simp: wrong_guesses_def bounded_move_def)
    qed
  next
    fix e' assume "q = Inl e'" "person ro = person (hs_roster s)"
    with u show ?thesis by (simp add: wrong_guesses_def)
  qed
qed

lemma obeys_checkPin: "obeys k (checkPin env j pin) 0"
  unfolding checkPin_def
proof (rule pays_perform_chain)
  fix s :: host_state and counted s'
  assume "on_roster (update_person j count_guess) s = (Inr counted, s')"
  note moved = count_guess_moves [OF this, of k]
  let ?n = "0 + (if wrong_guesses k s' = wrong_guesses k s + 1 then 1 else 0) :: nat"
  show "obeys k (case Option.bind counted re_pin of
         None \<Rightarrow>
           chain (perform Plain (on_roster (find_person j))) (\<lambda>found.
             give (if Option.bind found re_pin \<noteq> None then PinLocked else NoPin))
       | Some stored \<Rightarrow>
           chain (perform (Compare j) (lift_sum (case pinMatches (he_node env) pin stored of
               None \<Rightarrow> Inl PinHashError | Some b \<Rightarrow> Inr b))) (\<lambda>same.
             if same then
               chain (perform Plain (on_roster (update_person j clear_failures))) (\<lambda>_. give PinOk)
             else (let failures = failuresOf (the counted)
                   in give (if MAX_PIN_FAILURES \<le> failures then PinLocked
                            else WrongPin (MAX_PIN_FAILURES - failures))))) ?n"
  proof (cases "Option.bind counted re_pin")
    case None
    then show ?thesis by (auto intro!: pays_chain obeys_tame tame_find)
  next
    case (Some stored)
    then obtain e where "counted = Some e" by (auto simp: bind_eq_Some_conv)
    with moved have "compares k (Compare j) \<Longrightarrow> 0 < ?n" by (auto simp: compares_def)
    with Some show ?thesis
      by (auto intro!: pays_chain pays_perform obeys_tame tame_changes simp: Let_def split: if_splits)
  qed
qed (use count_guess_moves in \<open>auto simp: compares_def\<close>)

lemmas open_operations =
  roster_view_def join_host_def request_vouch_def status_of_def pending_list_def confirm_def
  reject_def enterPin_def changePin_def setPin_def signedVouchState_def signedVouches_def
  revokeVouch_def unlockPin_def savePin_def vouchFor_def findVouch_def Let_def

lemma obeys_host_calls: "t \<in> host_calls env \<Longrightarrow> obeys k t 0"
proof (induction rule: host_calls_induct)
  case (settled t)
  then show ?case
    by (induction rule: settled_calls.induct)
      (auto simp: open_operations intro!: pays_chain obeys_checkPin obeys_tame tame_load tame_find
        tame_changes tame_stretches split: option.split sum.split prod.split)
qed (auto simp: open_operations intro!: pays_chain obeys_tame tame_changes tame_stretches tame_newcomer
      split: option.split sum.split prod.split)

text \<open>
  C18. However the host's operations interleave, a person's PIN is compared with at most five
  guesses, less those already counted, and five more for every time their count was cleared: guesses
  sent at once do not slip in under the limit, and refused writes do not open it.
\<close>

theorem guesses_bounded:
  assumes "interleaved (host_calls env) world s0 tr ts s"
    "0 \<le> wrong_guesses k s0" "wrong_guesses k s0 \<le> MAX_PIN_FAILURES"
  shows "int (looked (compares k) tr)
     \<le> MAX_PIN_FAILURES * (1 + int (resets (wrong_guesses k) tr)) - wrong_guesses k s0"
proof (rule looks_bounded [OF assms obeys_host_calls])
  fix s s' assume "world s s'"
  then obtain w where "hs_roster s' = (hs_roster s)\<lparr>writable := w\<rparr>" by (auto simp: world_def)
  then show "wrong_guesses k s' = wrong_guesses k s"
    by (simp add: wrong_guesses_def person_def people_of_def load_def split: option.split)
qed

section \<open>The record of vouches\<close>

text \<open>Who is on the roster, and the addresses of the vouches remembered for them.\<close>

definition remembered :: "host_state \<Rightarrow> (jstr \<times> jstr option) set" where
  "remembered s = {(k, x). \<exists>e. person (hs_roster s) k = Some e
     \<and> (case x of None \<Rightarrow> True | Some a \<Rightarrow> a \<in> sv_address ` set (vouches_of e))}"

definition backed :: "host_env \<Rightarrow> (jstr \<times> jstr option) set \<Rightarrow> signed option \<Rightarrow> bool" where
  "backed env known v = (\<exists>u a k. v = Some u \<and> statementAddress (he_platform env) u = Inr a
     \<and> verifyStatement (he_platform env) u (KeyText (keyText (he_platform env) (he_keyPair env)))
     \<and> (k, Some a) \<in> known)"

definition recorded :: "host_env \<Rightarrow> host_state \<Rightarrow> bool" where
  "recorded env s = (\<forall>e \<in> snd ` set (hs_entries s). ve_status e = Vouched \<longrightarrow> backed env (remembered s) (ve_vouch e))"

lemma backed_mono: "backed env known v \<Longrightarrow> known \<subseteq> known' \<Longrightarrow> backed env known' v"
  unfolding backed_def by blast

abbreviation tells :: "host_env \<Rightarrow> (stretch, host_state, 'r) thread \<Rightarrow> (jstr \<times> jstr option) set \<Rightarrow> bool" where
  "tells env t known \<equiv> knows (recorded env) remembered t known"

definition steady :: "host_env \<Rightarrow> (host_state, host_error, 'a) eff \<Rightarrow> bool" where
  "steady env m = (\<forall>s r s'. recorded env s \<longrightarrow> m s = (r, s') \<longrightarrow>
     recorded env s' \<and> remembered s \<subseteq> remembered s')"

lemma tells_steady: "steady env m \<Longrightarrow> tells env (perform l m) known"
  by (rule knows_perform) (auto simp: steady_def)

lemma steadyI:
  assumes "\<And>s r s'. m s = (r, s') \<Longrightarrow> remembered s \<subseteq> remembered s'"
    "\<And>s r s' e. m s = (r, s') \<Longrightarrow> e \<in> snd ` set (hs_entries s') \<Longrightarrow> ve_status e = Vouched
       \<Longrightarrow> e \<in> snd ` set (hs_entries s)"
  shows "steady env m"
  unfolding steady_def
proof (intro allI impI conjI)
  fix s r s' assume r: "recorded env s" and m: "m s = (r, s')"
  then show "remembered s \<subseteq> remembered s'" by (intro assms(1))
  then show "recorded env s'"
    using r assms(2) [OF m] unfolding recorded_def by (meson backed_mono)
qed

lemma remembered_entries [simp]:
  "remembered (s\<lparr>hs_challenges := st\<rparr>) = remembered s" "remembered (changed s) = remembered s"
  "remembered (set_entry rid f s) = remembered s" "remembered (dropStale s) = remembered s"
  "remembered (s\<lparr>hs_entries := es\<rparr>) = remembered s"
  by (simp_all add: remembered_def changed_def set_entry_def dropStale_def Let_def)

lemma entries_dropStale: "set (hs_entries (dropStale s)) \<subseteq> set (hs_entries s)"
  by (auto simp: dropStale_def changed_def Let_def)

lemma steady_pure:
  "steady env (lift_sum r)" "steady env (\<lambda>s. (g s, s))" "steady env (\<lambda>s. (g s, dropStale s))"
  "steady env (writes dropStale)" "steady env (pendingEntry rid)"
  using entries_dropStale
  by (auto simp: lift_sum_def writes_def pendingEntry_def intro!: steadyI)

lemma hs_entries_changed [simp]: "hs_entries (changed s) = hs_entries s"
  by (simp add: changed_def)

lemma set_entry_rejected:
  "e \<in> snd ` set (hs_entries (set_entry rid (ve_status_update (\<lambda>_. Rejected)) s)) \<Longrightarrow> ve_status e = Vouched
     \<Longrightarrow> e \<in> snd ` set (hs_entries s)"
  by (auto simp: set_entry_def split: if_splits)

lemma steady_reject:
  "steady env (\<lambda>s. (g s, case find_pending (dropStale s) rid of None \<Rightarrow> dropStale s
        | Some e \<Rightarrow> changed (set_entry rid (ve_status_update (\<lambda>_. Rejected)) (dropStale s))))"
proof (rule steadyI, goal_cases)
  case (2 s r s' e)
  have "snd ` set (hs_entries (dropStale s)) \<subseteq> snd ` set (hs_entries s)"
    using entries_dropStale by (rule image_mono)
  moreover from 2 have "e \<in> snd ` set (hs_entries (dropStale s))"
    using set_entry_rejected [of e rid "dropStale s"]
    by (simp split: option.splits) (metis hs_entries_changed)
  ultimately show ?case by blast
qed (auto split: option.splits)

lemma snd_AList_update: "snd ` set (AList.update k v al) \<subseteq> insert v (snd ` set al)"
  by (induction al) auto

lemma steady_insert: "steady env (insert_request rid request personName fingerprint)"
proof (rule steadyI)
  fix s r s' e
  assume "insert_request rid request personName fingerprint s = (r, s')"
    "e \<in> snd ` set (hs_entries s')" "ve_status e = Vouched"
  then show "e \<in> snd ` set (hs_entries s)"
    using snd_AList_update [of rid _ "hs_entries s"]
    by (auto simp: insert_request_def Let_def split: option.splits if_splits) force+
qed (auto simp: insert_request_def Let_def split: option.splits if_splits)

lemma steady_roster:
  assumes "\<And>st q ro k e. m st = (q, ro) \<Longrightarrow> person st k = Some e \<Longrightarrow> \<exists>e'. person ro k = Some e'
      \<and> sv_address ` set (vouches_of e) \<subseteq> sv_address ` set (vouches_of e')"
  shows "steady env (on_roster m)"
proof (rule steadyI)
  fix s r s' assume "on_roster m s = (r, s')"
  then obtain q ro where ro: "m (hs_roster s) = (q, ro)" "s' = s\<lparr>hs_roster := ro\<rparr>"
    by (blast dest: on_roster_eq)
  show "remembered s \<subseteq> remembered s'"
  proof
    fix kx assume "kx \<in> remembered s"
    then obtain k x e where kx: "kx = (k, x)" "person (hs_roster s) k = Some e"
        "case x of None \<Rightarrow> True | Some a \<Rightarrow> a \<in> sv_address ` set (vouches_of e)"
      by (auto simp: remembered_def)
    from assms [OF ro(1) kx(2)] kx ro(2) show "kx \<in> remembered s'"
      by (auto simp: remembered_def split: option.splits)
  qed
qed (auto dest!: on_roster_eq)

lemma steady_load: "steady env (on_roster load)"
  by (rule steady_roster) (auto dest!: load_keeps_person)

lemma steady_find: "steady env (on_roster (find_person j))"
  by (rule steady_roster) (auto dest!: roster.find_by)

lemma steady_update:
  assumes "\<And>x y. change x = Some y \<Longrightarrow> re_personKey y = re_personKey x
      \<and> sv_address ` set (vouches_of x) \<subseteq> sv_address ` set (vouches_of y)"
  shows "steady env (on_roster (update_person j change))"
proof (rule steady_roster)
  fix st q ro k e assume u: "update_person j change st = (q, ro)" and e: "person st k = Some e"
  show "\<exists>e'. person ro k = Some e' \<and> sv_address ` set (vouches_of e) \<subseteq> sv_address ` set (vouches_of e')"
  proof (cases "\<exists>y. q = Inr (Some y)")
    case True
    then obtain y where y: "q = Inr (Some y)" by blast
    with roster.update_own [of j change st y ro] u assms
    have own: "person ro = (person st)(j \<mapsto> y)" "\<exists>x. person st j = Some x \<and> change x = Some y" by blast+
    show ?thesis
    proof (cases "k = j")
      case True
      with own e assms show ?thesis by auto
    next
      case False
      with own e show ?thesis by simp
    qed
  next
    case False
    with roster.update_by [OF u] have "person ro = person st" by (auto split: option.splits)
    with e show ?thesis by simp
  qed
qed

lemma replaced_addresses:
  "insert (f v) (f ` set vs) = f ` set (filter (\<lambda>x. f x \<noteq> f v) vs @ [v])"
  by auto

lemma add_vouch_keeps:
  assumes "add_vouch v x = Some y"
  shows "re_personKey y = re_personKey x
    \<and> insert (sv_address v) (sv_address ` set (vouches_of x)) = sv_address ` set (vouches_of y)"
proof -
  have "y = x\<lparr>re_vouches := Some (filter (\<lambda>x. sv_address x \<noteq> sv_address v) (vouches_of x) @ [v])\<rparr>"
    using assms by (simp add: add_vouch_def vouches_of_def)
  then show ?thesis
    using replaced_addresses [of sv_address v "vouches_of x"] by (simp add: vouches_of_def)
qed

lemma vouches_of_simps [simp]:
  "vouches_of (x\<lparr>re_vouches := Some vs\<rparr>) = vs" "vouches_of (x\<lparr>re_pinFailures := n\<rparr>) = vouches_of x"
  "vouches_of (x\<lparr>re_pin := h\<rparr>) = vouches_of x" "vouches_of (x\<lparr>re_name := t\<rparr>) = vouches_of x"
  by (simp_all add: vouches_of_def)

lemma marked_addresses:
  "map sv_address (map (\<lambda>v. if sv_address v = a
     then v\<lparr>sv_revokedAt := Some b, sv_revocation := Some c\<rparr> else v) vs) = map sv_address vs"
  by (induction vs) auto

lemma mark_revoked_keeps:
  assumes "mark_revoked a b c x = Some y"
  shows "re_personKey y = re_personKey x \<and> sv_address ` set (vouches_of x) = sv_address ` set (vouches_of y)"
proof -
  have y: "y = x\<lparr>re_vouches := Some (map (\<lambda>v. if sv_address v = a
      then v\<lparr>sv_revokedAt := Some b, sv_revocation := Some c\<rparr> else v) (vouches_of x))\<rparr>"
    using assms by (simp add: mark_revoked_def)
  then have "map sv_address (vouches_of y) = map sv_address (vouches_of x)"
    by (simp only: vouches_of_simps marked_addresses)
  moreover have "re_personKey y = re_personKey x" using y by simp
  ultimately show ?thesis by (metis set_map)
qed

lemma steady_changes:
  "steady env (on_roster (update_person j count_guess))" "steady env (on_roster (update_person j clear_failures))"
  "steady env (on_roster (update_person j (new_pin h)))" "steady env (on_roster (update_person j (add_vouch v)))"
  "steady env (on_roster (update_person j (mark_revoked a b c)))" "steady env (on_roster (update_person j unlock))"
proof -
  show "steady env (on_roster (update_person j (add_vouch v)))"
    by (rule steady_update) (blast dest: add_vouch_keeps)
  show "steady env (on_roster (update_person j (mark_revoked a b c)))"
    by (rule steady_update) (blast dest: mark_revoked_keeps)
qed (rule steady_update, auto simp: count_guess_def clear_failures_def new_pin_def unlock_def
      split: if_splits)+

lemma tells_vouchFor:
  assumes "platform_ok (he_platform env)"
  shows "tells env (vouchFor env e method) known"
  unfolding vouchFor_def
proof (rule knows_perform_chain, goal_cases)
  case (1 s r s')
  with steady_find [of env] show ?case by (simp add: steady_def)
next
  case (2 s0 found s1)
  show ?case
  proof (cases found)
    case None
    then show ?thesis by simp
  next
    case (Some someone)
    from 2 obtain ro where ro: "find_person (vr_personKey (ve_request e)) (hs_roster s0) = (Inr found, ro)"
        "s1 = s0\<lparr>hs_roster := ro\<rparr>"
      by (auto simp: map_sum_def dest!: on_roster_eq split: sum.splits)
    from roster.find_by [OF this(1)] Some ro(2)
    have "person (hs_roster s1) (vr_personKey (ve_request e)) = Some someone" by simp
    then have known: "(re_personKey someone, None) \<in> remembered s1"
      using person_keyed by (fastforce simp: remembered_def)
    show ?thesis unfolding Some option.case
    proof (rule knows_perform_chain, goal_cases)
      case (1 s r s')
      then show ?case by simp
    next
      case (2 s2 x s3)
      obtain vouch rec where x: "x = (vouch, rec)" by (cases x)
      with 2 have made: "statementAddress (he_platform env) vouch = Inr (sv_address rec)"
          "verifyStatement (he_platform env) vouch (KeyText (keyText (he_platform env) (he_keyPair env)))"
        using verifyStatement_sign(1) [OF assms, of _ "he_keyPair env"]
        by (auto simp: sign_vouch_def createDeviceVouch_def Let_def split: sum.splits)
      have known3: "(re_personKey someone, None) \<in> remembered s3" using known 2 by auto
      show ?case unfolding x prod.case
      proof (rule knows_perform_chain, goal_cases)
        case (1 s r s')
        with steady_changes(4) [of env] show ?case by (simp add: steady_def)
      next
        case (2 s4 y s5)
        from 2 obtain ro where ro: "update_person (re_personKey someone) (add_vouch rec) (hs_roster s4) = (Inr y, ro)"
            "s5 = s4\<lparr>hs_roster := ro\<rparr>"
          by (auto simp: map_sum_def dest!: on_roster_eq split: sum.splits)
        from 2 known3 have "(re_personKey someone, None) \<in> remembered s4" by blast
        then obtain z where z: "person (hs_roster s4) (re_personKey someone) = Some z"
          by (auto simp: remembered_def)
        obtain w where w: "add_vouch rec z = Some w" by (simp add: add_vouch_def)
        with roster.update_by [OF ro(1)] z have "y = Some w" by auto
        with roster.update_own(1) [of _ "add_vouch rec" _ w ro] ro add_vouch_keeps
        have "person ro (re_personKey someone) = Some w" by fastforce
        then have told: "(re_personKey someone, Some (sv_address rec)) \<in> remembered s5"
          using ro(2) add_vouch_keeps [OF w] by (auto simp: remembered_def)
        show ?case
        proof (rule knows_perform_chain, goal_cases)
          case (1 s r s')
          let ?f = "\<lambda>x. x\<lparr>ve_status := Vouched, ve_vouch := Some vouch\<rparr>"
          have b: "backed env (remembered s) (Some vouch)"
            using 1(2) told made by (auto simp: backed_def)
          have "s' = changed (set_entry (ve_id e) ?f s)" using 1(3) by simp
          moreover have "ve_status x = Vouched \<longrightarrow> backed env (remembered s) (ve_vouch x)"
            if "x \<in> snd ` set (hs_entries (set_entry (ve_id e) ?f s))" for x
          proof -
            from that obtain k z where "(k, z) \<in> set (hs_entries s)" "x = (if k = ve_id e then ?f z else z)"
              by (auto simp: set_entry_def)
            with 1(1) b show ?thesis by (force simp: recorded_def)
          qed
          ultimately show ?case by (simp add: recorded_def)
        qed simp
      qed
    qed
  qed
qed

lemma tells_settled:
  assumes "platform_ok (he_platform env)" "t \<in> settled_calls env"
  shows "tells env t {}"
  using assms(2)
  by (induction rule: settled_calls.induct)
    (auto simp: roster_view_def request_vouch_def status_of_def pending_list_def confirm_def reject_def
      enterPin_def changePin_def setPin_def signedVouchState_def signedVouches_def revokeVouch_def
      unlockPin_def checkPin_def savePin_def findVouch_def Let_def
      intro!: knows_chain tells_vouchFor [OF assms(1)] tells_steady steady_load steady_find steady_changes
        steady_pure steady_reject steady_insert split: option.split sum.split prod.split)

text \<open>
  C19. However the host's operations other than a join interleave, every vouch the host hands out to
  a waiting device verifies under the host's key and is on the roster by its address, so the
  operator can find it and revoke it; no refused write and no concurrent change loses it.
\<close>

theorem vouches_recorded:
  assumes "interleaved (settled_calls env) world s0 tr ts s" "platform_ok (he_platform env)" "hs_entries s0 = []"
    "(rid, e) \<in> set (hs_entries s)" "ve_status e = Vouched"
  shows "\<exists>v a k someone. ve_vouch e = Some v \<and> statementAddress (he_platform env) v = Inr a
    \<and> verifyStatement (he_platform env) v (KeyText (keyText (he_platform env) (he_keyPair env)))
    \<and> person (hs_roster s) k = Some someone \<and> a \<in> sv_address ` set (vouches_of someone)"
proof -
  have "recorded env s' \<and> remembered s \<subseteq> remembered s'" if w: "world s s'" "recorded env s" for s s'
  proof -
    from w(1) obtain st where "hs_entries s' = hs_entries s" "remembered s' = remembered s"
      by (auto simp: world_def remembered_def person_def people_of_def load_def split: option.splits)
    with w(2) show ?thesis by (simp add: recorded_def)
  qed
  with interleaved_knowledge [OF assms(1), of "recorded env" remembered] assms(2,3) tells_settled
  have "recorded env s" by (auto simp: recorded_def)
  with assms(4,5) have "backed env (remembered s) (ve_vouch e)" by (force simp: recorded_def)
  then show ?thesis by (auto simp: backed_def remembered_def)
qed

end
