(* ===== verification/Host_Outcomes.thy ===== *)
theory Host_Outcomes
  imports Host_Safety
begin

text \<open>
  What the host's operations do when nothing comes in between: the outcome of a PIN guess on every
  branch, what a join changes on the roster, and what revoking a vouch leaves behind.
\<close>

section \<open>Roster stretches\<close>

definition host_ready :: "host_state \<Rightarrow> bool" where
  "host_ready s = roster_ready (hs_roster s)"

abbreviation somebody :: "host_state \<Rightarrow> jstr \<Rightarrow> roster_entry option" where
  "somebody s \<equiv> person (hs_roster s)"

lemma host_find_run:
  assumes "host_ready s"
  obtains s' where "on_roster (find_person k) s = (Inr (somebody s k), s')" "host_ready s'"
    "somebody s' = somebody s" "hs_clock s' = hs_clock s"
proof -
  from assms have "roster_ready (hs_roster s)" by (simp add: host_ready_def)
  from roster.find_run [OF this, of k] obtain ro where
    "find_person k (hs_roster s) = (Inr (somebody s k), ro)" "roster_ready ro" "person ro = somebody s"
    by blast
  then show ?thesis by (intro that [of "s\<lparr>hs_roster := ro\<rparr>"]) (simp_all add: on_roster_def host_ready_def)
qed

lemma on_roster_Inr:
  assumes "on_roster m s = (Inr x, s')"
  obtains ro where "m (hs_roster s) = (Inr x, ro)" "s' = s\<lparr>hs_roster := ro\<rparr>"
  using assms by (auto simp: on_roster_def map_sum_def split: prod.splits sum.splits)

lemma host_update_run:
  assumes "host_ready s" "\<And>x y. change x = Some y \<Longrightarrow> re_personKey y = re_personKey x"
  obtains s' where "on_roster (update_person k change) s = (Inr (Option.bind (somebody s k) change), s')"
    "host_ready s'" "hs_clock s' = hs_clock s"
    "somebody s' = (case Option.bind (somebody s k) change of
        None \<Rightarrow> somebody s | Some e \<Rightarrow> (somebody s)(k \<mapsto> e))"
proof -
  from assms(1) have "roster_ready (hs_roster s)" by (simp add: host_ready_def)
  from roster.update_run [OF this assms(2), where k = k] obtain ro where
    "update_person k change (hs_roster s) = (Inr (Option.bind (somebody s k) change), ro)"
    "roster_ready ro" "person ro = (case Option.bind (somebody s k) change of
        None \<Rightarrow> somebody s | Some e \<Rightarrow> (somebody s)(k \<mapsto> e))" by blast
  then show ?thesis by (intro that [of "s\<lparr>hs_roster := ro\<rparr>"]) (simp_all add: on_roster_def host_ready_def)
qed

lemma changes_key:
  "count_guess x = Some y \<Longrightarrow> re_personKey y = re_personKey x"
  "clear_failures x = Some y \<Longrightarrow> re_personKey y = re_personKey x"
  "new_pin h x = Some y \<Longrightarrow> re_personKey y = re_personKey x"
  "add_vouch v x = Some y \<Longrightarrow> re_personKey y = re_personKey x"
  "rename n p h x = Some y \<Longrightarrow> re_personKey y = re_personKey x"
  "mark_revoked a b c x = Some y \<Longrightarrow> re_personKey y = re_personKey x"
  "unlock x = Some y \<Longrightarrow> re_personKey y = re_personKey x"
  by (auto simp: count_guess_def clear_failures_def new_pin_def add_vouch_def rename_def mark_revoked_def
      unlock_def Let_def split: if_splits)

section \<open>A guess\<close>

text \<open>
  Every outcome of a PIN guess for a person on the roster: without a PIN, or once locked, the
  guess is refused unseen; otherwise it is counted first, and then the right PIN clears the count, a
  wrong one leaves the tries that are left, the fifth one locks, and a hash that cannot be computed
  still costs a try.
\<close>

lemma check_pin_outcome:
  assumes "host_ready s" "somebody s k = Some e" "run (checkPin env k pin) s = (r, s')"
  shows "case re_pin e of
      None \<Rightarrow> r = Inr NoPin \<and> somebody s' = somebody s
    | Some h \<Rightarrow>
        if isLocked e then r = Inr PinLocked \<and> somebody s' = somebody s
        else (let n = failuresOf e + 1; counted = e\<lparr>re_pinFailures := Some n\<rparr> in
          case pinMatches (he_node env) pin h of
            Some True \<Rightarrow> r = Inr PinOk \<and> somebody s' = (somebody s)(k \<mapsto> e\<lparr>re_pinFailures := None\<rparr>)
          | Some False \<Rightarrow> r = Inr (if n = MAX_PIN_FAILURES then PinLocked else WrongPin (MAX_PIN_FAILURES - n))
              \<and> somebody s' = (somebody s)(k \<mapsto> counted)
          | None \<Rightarrow> r = Inl PinHashError \<and> somebody s' = (somebody s)(k \<mapsto> counted))"
proof -
  from host_update_run [OF assms(1) changes_key(1), where k = k and change = count_guess] assms(2) obtain s1 where
    s1: "on_roster (update_person k count_guess) s = (Inr (count_guess e), s1)" "host_ready s1"
      "somebody s1 = (case count_guess e of None \<Rightarrow> somebody s | Some y \<Rightarrow> (somebody s)(k \<mapsto> y))"
    by auto
  show ?thesis
  proof (cases "re_pin e = None \<or> isLocked e")
    case True
    then have none: "count_guess e = None" by (auto simp: count_guess_def)
    from host_find_run [OF s1(2), of k] obtain s2 where
      "on_roster (find_person k) s1 = (Inr (somebody s1 k), s2)" "somebody s2 = somebody s1" by blast
    with True none s1 assms show ?thesis
      by (auto simp: checkPin_def run_chain split: option.split)
  next
    case False
    then obtain h where h: "re_pin e = Some h" and open_: "\<not> isLocked e" by auto
    let ?c = "e\<lparr>re_pinFailures := Some (failuresOf e + 1)\<rparr>"
    have c: "count_guess e = Some ?c" using h open_ by (simp add: count_guess_def)
    with s1 have p1: "somebody s1 k = Some ?c" "somebody s1 = (somebody s)(k \<mapsto> ?c)" by simp_all
    from host_update_run [OF s1(2) changes_key(2), where k = k and change = clear_failures] p1 obtain s2 where
      s2: "on_roster (update_person k clear_failures) s1 = (Inr (clear_failures ?c), s2)"
        "somebody s2 = (somebody s)(k \<mapsto> e\<lparr>re_pinFailures := None\<rparr>)"
      by (auto simp: clear_failures_def)
    have limit: "MAX_PIN_FAILURES \<le> failuresOf ?c \<longleftrightarrow> failuresOf e + 1 = MAX_PIN_FAILURES"
      "failuresOf ?c = failuresOf e + 1"
      using open_ by (auto simp: isLocked_def failuresOf_def)
    show ?thesis
      using assms(3) s1(1) c h open_ p1 s2 limit
      by (cases "pinMatches (he_node env) pin h") (auto simp: checkPin_def run_chain Let_def split: if_splits)
  qed
qed

section \<open>Joining\<close>

lemma rename_some:
  "rename name pin h e = Some (the (rename name pin h e))"
  "re_personKey (the (rename name pin h e)) = re_personKey e"
  by (simp_all add: rename_def Let_def)

text \<open>What a join that succeeds went through.\<close>

lemma join_host_joined:
  assumes "run (join_host env joining certificate pin slt) s = (Inr Joined, s')"
  obtains request fields name h s1 s3 renamed ro where
    "isJoinRequest (payload joining) = Some request"
    "verifyStatement (he_platform env) joining (KeyText (jr_personKey request))"
    "good_challenge (hs_challenges s) (hs_clock s) (jr_challenge request)"
    "s1 = s\<lparr>hs_challenges := snd (consume (hs_challenges s) (hs_clock s) (jr_challenge request))\<rparr>"
    "checkDeviceCertificate (he_platform env) certificate = Inr (certificate, fields)"
    "dc_personKey fields = jr_personKey request"
    "statementAddress (he_platform env) certificate = Inr (jr_certificate request)"
    "sanitizeLabel (JString (jr_personName request)) = Some name"
    "h = Option.bind (as_string pin) (\<lambda>text. hashPin (he_node env) text slt)"
    "update_person (jr_personKey request) (rename name pin h) (hs_roster s) = (Inr renamed, ro)"
    "s3 = s1\<lparr>hs_roster := ro\<rparr>"
    "if renamed \<noteq> None then s' = s3
     else fst (on_roster (put_person (newcomer request name certificate h (hs_clock s3))) s3) = Inr ()
       \<and> s' = snd (on_roster (put_person (newcomer request name certificate h (hs_clock s3))) s3)"
proof -
  let ?p = "he_platform env"
  from assms obtain request where rq: "isJoinRequest (payload joining) = Some request"
      "verifyStatement ?p joining (KeyText (jr_personKey request))"
      "checkJoinRequest ?p joining = Inr (joining, request)"
    by (auto simp: join_host_def Let_def checkJoinRequest_def split: sum.splits option.splits if_splits)
  define c where "c = consume (hs_challenges s) (hs_clock s) (jr_challenge request)"
  define s1 where "s1 = s\<lparr>hs_challenges := snd c\<rparr>"
  have good: "good_challenge (hs_challenges s) (hs_clock s) (jr_challenge request) = fst c"
    by (simp add: c_def challenges.consumes_good)
  from assms rq obtain cert name h s2 renamed s3 where run: "fst c"
      "certificate_of_join ?p request certificate = Some cert"
      "sanitizeLabel (JString (jr_personName request)) = Some name"
      "run (case as_string pin of None \<Rightarrow> give None
        | Some text \<Rightarrow> perform Plain (lift_sum (map_sum id Some (hash_pin env text slt)))) s1 = (Inr h, s2)"
      "on_roster (update_person (jr_personKey request) (rename name pin h)) s2 = (Inr renamed, s3)"
      "if renamed \<noteq> None then s' = s3
       else fst (on_roster (put_person (newcomer request name cert h (hs_clock s3))) s3) = Inr ()
         \<and> s' = snd (on_roster (put_person (newcomer request name cert h (hs_clock s3))) s3)"
    by (auto simp: join_host_def Let_def run_chain c_def s1_def
        split: option.splits prod.splits sum.splits if_splits)
  from run(2) obtain fields where cert: "cert = certificate"
      "checkDeviceCertificate ?p certificate = Inr (certificate, fields)"
      "dc_personKey fields = jr_personKey request"
      "statementAddress ?p certificate = Inr (jr_certificate request)"
    by (auto simp: certificate_of_join_def checkDeviceCertificate_def split: sum.splits option.splits if_splits)
  have s2: "s2 = s1" using run(4) by (auto split: option.splits)
  have h: "h = Option.bind (as_string pin) (\<lambda>text. hashPin (he_node env) text slt)"
    using run(4) by (auto simp: hash_pin_def map_sum_def lift_sum_def split: option.splits sum.splits)
  from on_roster_Inr [OF run(5)] s2 obtain ro where
    ro: "update_person (jr_personKey request) (rename name pin h) (hs_roster s) = (Inr renamed, ro)"
      "s3 = s1\<lparr>hs_roster := ro\<rparr>" by (auto simp: s1_def)
  show ?thesis
    using that [OF rq(1,2) _ s1_def [unfolded c_def] cert(2-4) run(3) h ro run(6) [unfolded cert(1)]] good run(1) by simp
qed

text \<open>
  C20. A join that succeeds answered a good challenge with a statement signed under the person key
  it names, and a certificate that key signed, at the address the join names; the challenge is used
  up. It changes that person's entry only. Somebody known gets the new name and keeps their first
  certificate and its address, their vouches, their passkey records and the time they joined; their
  PIN and its failures are kept when the join says nothing of a PIN, and otherwise the PIN becomes
  the hash of the one given, or none for \<open>null\<close>, with no failures. Somebody new gets an entry with
  the name, this certificate and its address, the PIN given, nothing vouched, no passkey records, and
  the host's time as the time they joined.
\<close>

theorem join_changes_signer_only:
  assumes "run (join_host env joining certificate pin slt) s = (Inr Joined, s')"
  shows "\<exists>request fields name e'. isJoinRequest (payload joining) = Some request
     \<and> verifyStatement (he_platform env) joining (KeyText (jr_personKey request))
     \<and> good_challenge (hs_challenges s) (hs_clock s) (jr_challenge request)
     \<and> \<not> good_challenge (hs_challenges s') (hs_clock s') (jr_challenge request)
     \<and> checkDeviceCertificate (he_platform env) certificate = Inr (certificate, fields)
     \<and> dc_personKey fields = jr_personKey request
     \<and> statementAddress (he_platform env) certificate = Inr (jr_certificate request)
     \<and> sanitizeLabel (JString (jr_personName request)) = Some name
     \<and> somebody s' = (somebody s)(jr_personKey request \<mapsto> e')
     \<and> re_personKey e' = jr_personKey request \<and> re_name e' = name
     \<and> (case somebody s (jr_personKey request) of
          Some e \<Rightarrow> re_certAddress e' = re_certAddress e \<and> re_certSigned e' = re_certSigned e
            \<and> re_vouches e' = re_vouches e \<and> re_passkeyRecords e' = re_passkeyRecords e
            \<and> re_joinedAt e' = re_joinedAt e
            \<and> (re_pin e', re_pinFailures e') = (if pin = JUndefined then (re_pin e, re_pinFailures e)
                 else (Option.bind (as_string pin) (\<lambda>text. hashPin (he_node env) text slt), None))
        | None \<Rightarrow> re_certAddress e' = jr_certificate request \<and> re_certSigned e' = certificate
            \<and> re_vouches e' = None \<and> re_passkeyRecords e' = None
            \<and> re_joinedAt e' = toISOString (hs_clock s)
            \<and> (re_pin e', re_pinFailures e')
                = (Option.bind (as_string pin) (\<lambda>text. hashPin (he_node env) text slt), None))"
proof -
  from join_host_joined [OF assms] obtain request fields name h s1 s3 renamed ro where
    rq: "isJoinRequest (payload joining) = Some request"
      "verifyStatement (he_platform env) joining (KeyText (jr_personKey request))"
      "good_challenge (hs_challenges s) (hs_clock s) (jr_challenge request)"
    and s1: "s1 = s\<lparr>hs_challenges := snd (consume (hs_challenges s) (hs_clock s) (jr_challenge request))\<rparr>"
    and cert: "checkDeviceCertificate (he_platform env) certificate = Inr (certificate, fields)"
      "dc_personKey fields = jr_personKey request"
      "statementAddress (he_platform env) certificate = Inr (jr_certificate request)"
      "sanitizeLabel (JString (jr_personName request)) = Some name"
    and h: "h = Option.bind (as_string pin) (\<lambda>text. hashPin (he_node env) text slt)"
    and ro: "update_person (jr_personKey request) (rename name pin h) (hs_roster s) = (Inr renamed, ro)"
      "s3 = s1\<lparr>hs_roster := ro\<rparr>"
    and put: "if renamed \<noteq> None then s' = s3
     else fst (on_roster (put_person (newcomer request name certificate h (hs_clock s3))) s3) = Inr ()
       \<and> s' = snd (on_roster (put_person (newcomer request name certificate h (hs_clock s3))) s3)" .
  note up = roster.update_by [OF ro(1)]
  have gone: "\<not> good_challenge (hs_challenges s1) later (jr_challenge request)" for later
    by (simp add: s1 challenges.consumed_gone)
  show ?thesis
  proof (cases "somebody s (jr_personKey request)")
    case None
    with up have n: "renamed = None" "person ro = somebody s" by auto
    with put obtain ro' where "put_person (newcomer request name certificate h (hs_clock s3)) ro = (Inr (), ro')"
        "s' = s3\<lparr>hs_roster := ro'\<rparr>"
      using ro(2) by (auto simp: on_roster_def map_sum_def split: prod.splits sum.splits)
    with roster.put_by [of "newcomer request name certificate h (hs_clock s3)" ro "Inr ()" ro'] n ro(2)
    have "somebody s' = (somebody s)(jr_personKey request \<mapsto> newcomer request name certificate h (hs_clock s))"
        "hs_challenges s' = hs_challenges s1"
      by (simp_all add: s1 newcomer_def)
    with None rq cert gone show ?thesis
      by (intro exI [of _ request] exI [of _ fields] exI [of _ name]
          exI [of _ "newcomer request name certificate h (hs_clock s)"]) (simp add: newcomer_def h)
  next
    case (Some e)
    obtain y where y: "rename name pin h e = Some y" "re_personKey y = re_personKey e"
      using rename_some by metis
    with up Some have "renamed = Some (the (rename name pin h e))"
        "person ro = (somebody s)(jr_personKey request \<mapsto> the (rename name pin h e))"
      using person_keyed [OF Some] by auto
    with put ro(2) have "somebody s' = (somebody s)(jr_personKey request \<mapsto> the (rename name pin h e))"
        "hs_challenges s' = hs_challenges s1" by auto
    with Some rq cert gone show ?thesis
      using person_keyed [OF Some]
      by (intro exI [of _ request] exI [of _ fields] exI [of _ name]
          exI [of _ "the (rename name pin h e)"]) (simp add: rename_def Let_def h)
  qed
qed

section \<open>Revoking\<close>

lemma update_person_people:
  assumes "update_person k change st = (Inr (Some e), st')"
  shows "load st' = (Inr (filter (\<lambda>x. re_personKey x \<noteq> re_personKey e) (people_of st) @ [e]), st')"
proof (cases st rule: load_cases)
  case (1 es)
  with assms show ?thesis
    by (auto simp: update_person_def replace_entry_def writeRoster_def and_then_def Let_def load_def
        split: option.splits if_splits)
next
  case (2 x)
  with assms show ?thesis by (simp add: update_person_def)
qed

lemma first_vouch_Some:
  "first_vouch a es = Some (e, v) \<Longrightarrow> e \<in> set es \<and> v \<in> set (vouches_of e) \<and> sv_address v = a"
  by (induction es) (auto split: option.splits simp: find_Some_iff)

lemma first_vouch_append:
  assumes "\<And>x v. x \<in> set es \<Longrightarrow> v \<in> set (vouches_of x) \<Longrightarrow> sv_address v \<noteq> a"
  shows "first_vouch a (es @ fs) = first_vouch a fs"
  using assms by (induction es) (auto split: option.splits simp: find_Some_iff in_set_conv_nth)

lemma find_marked:
  assumes "v \<in> set vs" "sv_address v = a"
  shows "\<exists>w. find (\<lambda>v. sv_address v = a) (map (\<lambda>v. if sv_address v = a
     then v\<lparr>sv_revokedAt := Some t, sv_revocation := Some r\<rparr> else v) vs) = Some w
     \<and> sv_revokedAt w = Some t \<and> sv_revocation w = Some r"
  using assms by (induction vs) auto

definition sole_holder :: "jstr \<Rightarrow> roster_entry list \<Rightarrow> bool" where
  "sole_holder a es = (distinct (map re_personKey es) \<and> (\<forall>x \<in> set es. \<forall>y \<in> set es.
     a \<in> sv_address ` set (vouches_of x) \<longrightarrow> a \<in> sv_address ` set (vouches_of y) \<longrightarrow> re_personKey x = re_personKey y))"

lemma find_distinct_key:
  "distinct (map re_personKey es) \<Longrightarrow> e \<in> set es \<Longrightarrow> find (\<lambda>x. re_personKey x = re_personKey e) es = Some e"
  by (induction es) auto

lemma toISOString_truthy [simp]: "truthy (Some (toISOString t))"
  by (simp add: truthy_def toISOString_def time_text_def js_def)

lemma sha256Hex_truthy: "platform_ok p \<Longrightarrow> truthy (Some (sha256Hex (sha256 p) bs))"
  by (auto simp: truthy_def platform_ok_def sha256Hex_def toHex_def hexByte_def)
    (metis list.size(3) zero_neq_numeral)

text \<open>What a revocation that succeeds went through, and that the vouch is found marked afterwards.\<close>

lemma revoke_run:
  assumes "run (revokeVouch env address docUrl) s = (Inr (Revoked revocation urls), s')"
  obtains deliver someone v ro1 at bytes renewed ro2 where "he_deliver env = Some deliver"
    "load (hs_roster s) = (Inr (people_of (hs_roster s)), ro1)"
    "first_vouch address (people_of (hs_roster s)) = Some (someone, v)"
    "sign_revocation env (sv_deviceKey v) address (hs_clock s) = Inr (at, revocation, bytes)"
    "deliver docUrl bytes revocation address = Some urls"
    "update_person (re_personKey someone) (mark_revoked address at revocation) ro1 = (Inr renewed, ro2)"
    "s' = s\<lparr>hs_roster := ro2\<rparr>"
proof -
  from assms obtain deliver people someone v s1 at bytes renewed where r:
    "he_deliver env = Some deliver"
    "on_roster load s = (Inr people, s1)" "first_vouch address people = Some (someone, v)"
    "sign_revocation env (sv_deviceKey v) address (hs_clock s1) = Inr (at, revocation, bytes)"
    "deliver docUrl bytes revocation address = Some urls"
    "on_roster (update_person (re_personKey someone) (mark_revoked address at revocation)) s1 = (Inr renewed, s')"
    by (auto simp: revokeVouch_def findVouch_def run_chain
        split: option.splits prod.splits sum.splits if_splits)
  from on_roster_Inr [OF r(2)] obtain ro1 where ro: "load (hs_roster s) = (Inr people, ro1)" "s1 = s\<lparr>hs_roster := ro1\<rparr>"
    by blast
  then have people: "people = people_of (hs_roster s)" by (simp add: people_of_def)
  from on_roster_Inr [OF r(6)] ro obtain ro2 where
    "update_person (re_personKey someone) (mark_revoked address at revocation) ro1 = (Inr renewed, ro2)"
      "s' = s\<lparr>hs_roster := ro2\<rparr>" by auto
  then show ?thesis using that r ro people by simp
qed

lemma marked_vouch_found:
  assumes "sole_holder address (people_of st0)" "load st0 = (Inr (people_of st0), st)"
    "first_vouch address (people_of st0) = Some (someone, v)"
    "update_person (re_personKey someone) (mark_revoked address at revocation) st = (Inr renewed, st')"
  obtains people e' w where "load st' = (Inr people, st')" "first_vouch address people = Some (e', w)"
    "sv_revokedAt w = Some at" "sv_revocation w = Some revocation"
proof -
  let ?L = "people_of st0"
  have L: "people_of st = ?L" "person st = person st0"
    using assms(2) by (cases st0 rule: load_cases; auto dest: load_keeps_person)+
  note fv = first_vouch_Some [OF assms(3)]
  have "person st (re_personKey someone) = Some someone"
    using find_distinct_key [of ?L someone] fv assms(1) L(1) by (simp only: person_def sole_holder_def)
  then obtain e' where e': "renewed = Some e'" "mark_revoked address at revocation someone = Some e'"
    using roster.update_by [OF assms(4)] by (auto simp: mark_revoked_def)
  let ?L' = "filter (\<lambda>x. re_personKey x \<noteq> re_personKey e') ?L @ [e']"
  have load': "load st' = (Inr ?L', st')"
    using update_person_people assms(4) e'(1) L(1) by metis
  have key: "re_personKey e' = re_personKey someone" using e'(2) by (auto simp: mark_revoked_def)
  have "first_vouch address ?L' = first_vouch address [e']"
  proof (rule first_vouch_append, rule notI)
    fix x u assume x: "x \<in> set (filter (\<lambda>x. re_personKey x \<noteq> re_personKey e') ?L)" "u \<in> set (vouches_of x)"
      "sv_address u = address"
    then have "address \<in> sv_address ` set (vouches_of x)" by (metis image_eqI)
    moreover have "address \<in> sv_address ` set (vouches_of someone)" using fv by (metis image_eqI)
    ultimately have "re_personKey x = re_personKey someone"
      using assms(1) fv x(1) unfolding sole_holder_def by simp
    with x(1) key show False by simp
  qed
  moreover from find_marked [where v = v and vs = "vouches_of someone" and a = address and t = at and r = revocation] fv e'(2)
  obtain w where "find (\<lambda>v. sv_address v = address) (vouches_of e') = Some w"
    and w: "sv_revokedAt w = Some at" "sv_revocation w = Some revocation"
    by (auto simp: mark_revoked_def vouches_of_def)
  ultimately have "first_vouch address ?L' = Some (e', w)" by simp
  from that [OF load' this w] show ?thesis .
qed

lemma sign_revocation_checks:
  assumes "sign_revocation env deviceKey address now = Inr (at, revocation, bytes)" "platform_ok (he_platform env)"
  obtains st r where "statementBytes st = Inr bytes" "at = toISOString now"
    "revocation = sha256Hex (sha256 (he_platform env)) bytes"
    "checkDeviceRevocation (he_platform env) st = Inr (st, r)" "dr_deviceLink r = address"
    "dr_signerKey r = keyText (he_platform env) (he_keyPair env)"
proof -
  let ?p = "he_platform env"
  let ?r = "device_revocation_of ?p ByHost deviceKey address WrongPerson now (he_keyPair env)"
  from assms(1) obtain st where st: "createDeviceRevocation ?p ByHost deviceKey address WrongPerson now
      (he_keyPair env) = Inr st" "statementBytes st = Inr bytes" "at = toISOString now"
      "revocation = sha256Hex (sha256 ?p) bytes"
    by (auto simp: sign_revocation_def Let_def split: sum.splits)
  note ver = verifyStatement_sign [OF assms(2) st(1) [unfolded createDeviceRevocation_def]]
  have "checkDeviceRevocation ?p st = Inr (st, ?r)"
    using ver by (simp add: checkDeviceRevocation_def view_dr) (simp add: device_revocation_of_def)
  from that [OF st(2-4) this] show ?thesis by (simp add: device_revocation_of_def)
qed

text \<open>
  After a vouch was revoked the host answers that it is withdrawn, since the moment of the
  revocation and by the revocation that was delivered, refuses to revoke it again, and what was
  delivered is a revocation of this vouch that verifies under the host's key.
\<close>

lemma revoked_vouch_withdrawn:
  assumes "run (revokeVouch env address docUrl) s = (Inr (Revoked revocation urls), s')"
    "platform_ok (he_platform env)" "sole_holder address (people_of (hs_roster s))"
  shows "fst (run (signedVouchState address) s')
       = Inr (Some (Withdrawn (toISOString (hs_clock s)) (Some revocation)))
    \<and> fst (run (revokeVouch env address docUrl') s') = Inr AlreadyRevoked
    \<and> (\<exists>deliver bytes st r. he_deliver env = Some deliver \<and> deliver docUrl bytes revocation address = Some urls
        \<and> statementBytes st = Inr bytes \<and> revocation = sha256Hex (sha256 (he_platform env)) bytes
        \<and> checkDeviceRevocation (he_platform env) st = Inr (st, r) \<and> dr_deviceLink r = address
        \<and> dr_signerKey r = keyText (he_platform env) (he_keyPair env))"
proof -
  let ?p = "he_platform env"
  from revoke_run [OF assms(1)] obtain deliver someone v ro1 at bytes renewed ro2 where
    d: "he_deliver env = Some deliver" "deliver docUrl bytes revocation address = Some urls"
    and ro: "load (hs_roster s) = (Inr (people_of (hs_roster s)), ro1)"
      "first_vouch address (people_of (hs_roster s)) = Some (someone, v)"
      "update_person (re_personKey someone) (mark_revoked address at revocation) ro1 = (Inr renewed, ro2)"
    and signed: "sign_revocation env (sv_deviceKey v) address (hs_clock s) = Inr (at, revocation, bytes)"
    and s': "s' = s\<lparr>hs_roster := ro2\<rparr>" .
  from sign_revocation_checks [OF signed assms(2)] obtain st r where
    st: "statementBytes st = Inr bytes" "at = toISOString (hs_clock s)" "revocation = sha256Hex (sha256 ?p) bytes"
      "checkDeviceRevocation ?p st = Inr (st, r)" "dr_deviceLink r = address" "dr_signerKey r = keyText ?p (he_keyPair env)" .
  from marked_vouch_found [OF assms(3) ro] obtain people e' w where
    w: "load ro2 = (Inr people, ro2)" "first_vouch address people = Some (e', w)"
      "sv_revokedAt w = Some at" "sv_revocation w = Some revocation" .
  have t: "truthy (Some at)" "truthy (Some revocation)"
    using st(2,3) sha256Hex_truthy [OF assms(2)] by simp_all
  have found: "run (findVouch address) s' = (Inr (Some (e', w)), s')"
    using w s' by (simp add: findVouch_def run_chain on_roster_def)
  have "fst (run (signedVouchState address) s') = Inr (Some (Withdrawn (toISOString (hs_clock s)) (Some revocation)))"
      "fst (run (revokeVouch env address docUrl') s') = Inr AlreadyRevoked"
    using w t found st(2) d(1) by (simp_all add: signedVouchState_def revokeVouch_def run_chain)
  with d st show ?thesis by blast
qed

end
