(* ===== verification/Host_Examples.thy ===== *)
theory Host_Examples
  imports Host_Outcomes
begin

text \<open>
  A host of the example platform that knows one person, with a PIN and one vouch, and runs of its
  operations on it: the hypotheses of the properties of the host hold there.
\<close>

section \<open>The host\<close>

definition ex_env :: host_env where
  "ex_env = \<lparr>he_platform = toy, he_node = ex_node, he_keyPair = [3], he_collation = (\<lambda>t. t),
     he_deliver = Some (\<lambda>doc bytes address link. Some [js ''recording''])\<rparr>"

definition ex_pin :: pin_hash where
  "ex_pin = the (hashPin ex_node (js ''1234'') [7])"

definition ex_signed_vouch :: signed_vouch where
  "ex_signed_vouch = \<lparr>sv_address = js ''vouch'', sv_deviceKey = js ''device'', sv_deviceLabel = js ''tablet'',
     sv_deviceFingerprint = js ''?'', sv_method = Pin, sv_vouchedAt = js ''then'', sv_revokedAt = None,
     sv_revocation = None\<rparr>"

definition ex_person :: roster_entry where
  "ex_person = ex_entry\<lparr>re_pin := Some ex_pin, re_vouches := Some [ex_signed_vouch]\<rparr>"

definition ex_host :: host_state where
  "ex_host = \<lparr>hs_roster = \<lparr>disk = Missing, writable = True, cached = Some (Inr [ex_person])\<rparr>,
     hs_challenges = ex_store, hs_entries = [], hs_changes = 0, hs_clock = 7, hs_label = js ''studio''\<rparr>"

lemma ex_host_load: "load (hs_roster ex_host) = (Inr [ex_person], hs_roster ex_host)"
  by (simp add: ex_host_def load_def)

lemma ex_host_person: "somebody ex_host k = (if k = js ''ada'' then Some ex_person else None)"
  by (simp add: person_def people_of_def ex_host_load) (simp add: ex_person_def ex_entry_def)

lemma ex_host_ready: "host_ready ex_host"
  by (simp add: host_ready_def roster_ready_def ex_host_load) (simp add: ex_host_def)

section \<open>Calls one after another\<close>

lemma pending_bounded_witness:
  "length (pending_entries (snd (run (forget (reject (js ''x''))) ex_host))) \<le> MAX_PENDING"
proof -
  have "forget (reject (js ''x'')) \<in> host_calls ex_env"
    by (simp add: host_calls_def settled_calls.reject_call)
  from interleaved_run [OF interleaved.start this] obtain tr' where
    "interleaved (host_calls ex_env) world ex_host ([] @ tr') ([] @ [Done ()])
       (snd (run (forget (reject (js ''x''))) ex_host))" by blast
  then show ?thesis by (rule pending_bounded) (simp add: ex_host_def pending_entries_def)
qed

section \<open>A guess\<close>

lemma ex_valid_pin: "valid_pin (js ''1234'')" "valid_pin (js ''0000'')"
  by (simp_all add: valid_pin_def js_def is_digit_def)

lemma ex_pin_hash: "hashPin ex_node (js ''1234'') [7] = Some ex_pin"
  by (simp add: ex_pin_def hashPin_def derive_def ex_node_def DEFAULT_ITERATIONS_def)

lemma ex_wrong_pin: "pinMatches ex_node (js ''0000'') ex_pin = Some False"
proof -
  have "hash ex_pin = toBase64Url (take 32 (utf8_encode (js ''1234'') @ [7] @ replicate 32 0))"
      "salt ex_pin = toBase64Url [7]" "iterations ex_pin = DEFAULT_ITERATIONS"
    using arg_cong [OF ex_pin_hash, of "\<lambda>h. hash (the h)"] arg_cong [OF ex_pin_hash, of "\<lambda>h. salt (the h)"]
      arg_cong [OF ex_pin_hash, of "\<lambda>h. iterations (the h)"]
    by (simp_all add: hashPin_def derive_def ex_node_def DEFAULT_ITERATIONS_def)
  then show ?thesis
    using ex_valid_pin(2)
    by (simp add: pinMatches_def isValidPin_def derive_def ex_node_def DEFAULT_ITERATIONS_def Let_def
        base64url.dec_enc) (simp add: js_def utf8_unit_def high_surrogate_def low_surrogate_def)
qed

lemma ex_person_simps [simp]:
  "re_pin ex_person = Some ex_pin" "re_pinFailures ex_person = Some 2" "failuresOf ex_person = 2"
  "\<not> isLocked ex_person" "re_personKey ex_person = js ''ada''" "vouches_of ex_person = [ex_signed_vouch]"
  by (simp_all add: ex_person_def ex_entry_def failuresOf_def isLocked_def MAX_PIN_FAILURES_def vouches_of_def)

text \<open>The third wrong guess leaves two.\<close>

lemma check_pin_outcome_witness:
  "fst (run (checkPin ex_env (js ''ada'') (js ''0000'')) ex_host) = Inr (WrongPin 2)"
  using check_pin_outcome [OF ex_host_ready, of "js ''ada''" ex_person ex_env "js ''0000''"
      "fst (run (checkPin ex_env (js ''ada'') (js ''0000'')) ex_host)"
      "snd (run (checkPin ex_env (js ''ada'') (js ''0000'')) ex_host)"] ex_wrong_pin
  by (simp add: ex_host_person ex_env_def Let_def MAX_PIN_FAILURES_def)

lemma guesses_bounded_witness:
  "\<exists>tr. interleaved (host_calls ex_env) world ex_host tr [Done ()]
      (snd (run (forget (changePin ex_env (js ''ada'') (js ''0000'') JNull [])) ex_host))
    \<and> int (looked (compares (js ''ada'')) tr)
       \<le> MAX_PIN_FAILURES * (1 + int (resets (wrong_guesses (js ''ada'')) tr)) - wrong_guesses (js ''ada'') ex_host"
proof -
  let ?t = "forget (changePin ex_env (js ''ada'') (js ''0000'') JNull [])"
  have "?t \<in> host_calls ex_env"
    by (simp add: host_calls_def settled_calls.changePin_call)
  from interleaved_run [OF interleaved.start this] obtain tr where
    i: "interleaved (host_calls ex_env) world ex_host tr [Done ()] (snd (run ?t ex_host))" by auto
  have "wrong_guesses (js ''ada'') ex_host = 2" by (simp add: wrong_guesses_def ex_host_person)
  with i guesses_bounded [OF i, of "js ''ada''"] show ?thesis
    by (auto simp: MAX_PIN_FAILURES_def)
qed

section \<open>A join\<close>

definition ex_joining :: signed where
  "ex_joining = projr (createJoinRequest toy (js ''Ada'') (type_address 3) (js ''nonce'') [2])"

lemma ex_joining: "checkJoinRequest toy ex_joining = Inr (ex_joining, \<lparr>jr_personKey = keyText toy [2],
     jr_personName = js ''Ada'', jr_certificate = type_address 3, jr_challenge = js ''nonce''\<rparr>)"
proof -
  let ?r = "\<lparr>jr_personKey = keyText toy [2], jr_personName = js ''Ada'', jr_certificate = type_address 3,
     jr_challenge = js ''nonce''\<rparr>"
  have "wellFormed (type_address 3)"
    using wellFormed_hex [of "sha256 toy" ex_cert_bytes] ex_cert(3) by simp
  then have "serializable (join_value ?r)"
    by (intro serializable_join) (simp_all add: exportPublicKey_def wellFormed_js plain_unit_def)
  note t = sign_total_projr [OF this, of toy "[2]"]
  have s: "signStatement toy (join_value ?r) [2] = Inr ex_joining"
    using t by (simp add: ex_joining_def createJoinRequest_def)
  show ?thesis
    using verifyStatement_sign [OF toy_ok s] by (simp add: checkJoinRequest_def view_join)
qed

lemma ex_certificate: "checkDeviceCertificate toy ex_cert = Inr (ex_cert, \<lparr>dc_personKey = keyText toy [2],
     dc_deviceKey = keyText toy [1], dc_deviceLabel = js ''laptop'', dc_issuedAt = toISOString 0\<rparr>)"
  using verifyStatement_sign [OF toy_ok ex_cert(1) [unfolded createDeviceCertificate_def]]
  by (simp add: checkDeviceCertificate_def view_cert)

lemma ex_name: "\<exists>name. sanitizeLabel (JString (js ''Ada'')) = Some name"
proof -
  have c: "code_points (js ''Ada'') = [(65, [65]), (100, [100]), (97, [97])]"
    by (simp add: js_def high_surrogate_def)
  have "clean_label (js ''Ada'')"
    unfolding clean_label_def visible_def c
    by (simp add: MAX_LABEL_LENGTH_def is_invisible_def is_space_def lone_def)
      (simp add: js_def space_unit_def is_space_def)
  then have "blank_out (js ''Ada'') = js ''Ada''" "collapse (js ''Ada'') = js ''Ada''" "trim (js ''Ada'') = js ''Ada''"
      "strip_tail (js ''Ada'') = js ''Ada''"
    using blank_out_visible collapse_single_spaced trim_clean strip_tail_clean by (auto simp: clean_label_def)
  then show ?thesis by (simp add: sanitizeLabel_def MAX_LABEL_LENGTH_def)
qed

lemma ex_join_run: "fst (run (join_host ex_env ex_joining ex_cert JUndefined []) ex_host) = Inr Joined"
proof -
  obtain name where name: "sanitizeLabel (JString (js ''Ada'')) = Some name" using ex_name by blast
  have cert: "certificate_of_join toy \<lparr>jr_personKey = keyText toy [2], jr_personName = js ''Ada'',
      jr_certificate = type_address 3, jr_challenge = js ''nonce''\<rparr> ex_cert = Some ex_cert"
    using ex_cert by (simp add: certificate_of_join_def ex_certificate statementAddress_def)
  let ?s = "ex_host\<lparr>hs_challenges := snd (consume ex_store 7 (js ''nonce''))\<rparr>"
  have fresh: "consume (hs_challenges ex_host) (hs_clock ex_host) (js ''nonce'')
      = (True, snd (consume ex_store 7 (js ''nonce'')))"
    by (simp add: ex_host_def consume_def ex_store_def)
  have "host_ready ?s" using ex_host_ready by (simp add: host_ready_def)
  then obtain s1 where s1: "on_roster (update_person (keyText toy [2]) (rename name JUndefined None)) ?s
        = (Inr (Option.bind (somebody ?s (keyText toy [2])) (rename name JUndefined None)), s1)" "host_ready s1"
    by (rule host_update_run [where k = "keyText toy [2]" and change = "rename name JUndefined None"])
      (rule changes_key(5))
  then obtain ro where "load (hs_roster s1) = (Inr (people_of (hs_roster s1)), ro)" "writable ro"
    by (auto simp: host_ready_def elim!: roster_ready_load)
  then have "\<exists>s2. on_roster (put_person e) s1 = (Inr (), s2)" for e
    using replace_ready [of ro "people_of (hs_roster s1)" e]
    by (auto simp: on_roster_def put_person_def)
  then obtain g where put: "on_roster (put_person e) s1 = (Inr (), g e)" for e by metis
  show ?thesis
    using s1 name cert fresh
    by (cases "Option.bind (somebody ?s (keyText toy [2])) (rename name JUndefined None)")
      (simp_all add: join_host_def ex_env_def ex_joining run_chain refused_pin_def Let_def put)
qed

lemma join_changes_signer_only_witness:
  "good_challenge (hs_challenges ex_host) (hs_clock ex_host) (js ''nonce'')
   \<and> \<not> good_challenge (hs_challenges (snd (run (join_host ex_env ex_joining ex_cert JUndefined []) ex_host)))
       (hs_clock (snd (run (join_host ex_env ex_joining ex_cert JUndefined []) ex_host))) (js ''nonce'')"
proof -
  have "isJoinRequest (payload ex_joining) = Some r \<Longrightarrow> jr_challenge r = js ''nonce''" for r
    using ex_joining by (auto simp: checkJoinRequest_def split: if_splits)
  moreover note join_changes_signer_only [of ex_env ex_joining ex_cert JUndefined "[]" ex_host
      "snd (run (join_host ex_env ex_joining ex_cert JUndefined []) ex_host)"]
  ultimately show ?thesis
    using ex_join_run by (metis (no_types, lifting) prod.collapse)
qed

section \<open>A revocation\<close>

lemma ex_revoke_run:
  "\<exists>r s'. run (revokeVouch ex_env (js ''vouch'') (js ''doc'')) ex_host = (Inr (Revoked r [js ''recording'']), s')"
proof -
  let ?v = "revocation_value (device_revocation_of toy ByHost (js ''device'') (js ''vouch'') WrongPerson 7 [3])"
  have "serializable ?v"
    by (intro serializable_revocation) (simp_all add: exportPublicKey_def device_revocation_of_def wellFormed_js plain_unit_def)
  note t = sign_total_projr [OF this, of toy "[3]"]
  have sign: "\<exists>r bytes. sign_revocation ex_env (js ''device'') (js ''vouch'') 7 = Inr (toISOString 7, r, bytes)"
    using t by (auto simp: sign_revocation_def createDeviceRevocation_def ex_env_def split: sum.split)
  have f: "run (findVouch (js ''vouch'')) ex_host = (Inr (Some (ex_person, ex_signed_vouch)), ex_host)"
    by (simp add: findVouch_def run_chain on_roster_def ex_host_load) (simp add: ex_signed_vouch_def)
  have "\<exists>x s1. on_roster (update_person (js ''ada'') (mark_revoked a b c)) ex_host = (Inr x, s1)" for a b c
    by (rule host_update_run [OF ex_host_ready changes_key(6), where k = "js ''ada''" and change = "mark_revoked a b c"])
      auto
  note up = this
  obtain r bytes where r: "sign_revocation ex_env (js ''device'') (js ''vouch'') 7 = Inr (toISOString 7, r, bytes)"
    using sign by blast
  obtain x s1 where "on_roster (update_person (js ''ada'') (mark_revoked (js ''vouch'') (toISOString 7) r)) ex_host = (Inr x, s1)"
    using up by blast
  moreover have "sv_deviceKey ex_signed_vouch = js ''device''" "sv_revokedAt ex_signed_vouch = None" "hs_clock ex_host = 7"
      "he_deliver ex_env = Some (\<lambda>doc bytes address link. Some [js ''recording''])"
    by (simp_all add: ex_signed_vouch_def ex_host_def ex_env_def)
  ultimately have "run (revokeVouch ex_env (js ''vouch'') (js ''doc'')) ex_host = (Inr (Revoked r [js ''recording'']), s1)"
    using f r by (simp add: revokeVouch_def run_chain truthy_def)
  then show ?thesis by blast
qed

lemma revoked_vouch_withdrawn_witness:
  "\<exists>r s'. run (revokeVouch ex_env (js ''vouch'') (js ''doc'')) ex_host = (Inr (Revoked r [js ''recording'']), s')
    \<and> fst (run (signedVouchState (js ''vouch'')) s') = Inr (Some (Withdrawn (toISOString (hs_clock ex_host)) (Some r)))"
proof -
  from ex_revoke_run obtain r s' where
    run: "run (revokeVouch ex_env (js ''vouch'') (js ''doc'')) ex_host = (Inr (Revoked r [js ''recording'']), s')" by blast
  have "platform_ok (he_platform ex_env)" by (simp add: ex_env_def toy_ok)
  moreover have "sole_holder (js ''vouch'') (people_of (hs_roster ex_host))"
    by (simp add: people_of_def ex_host_load sole_holder_def)
  ultimately show ?thesis using revoked_vouch_withdrawn [OF run] run by blast
qed

section \<open>A device vouched for\<close>

definition ex_asked :: signed where
  "ex_asked = projr (createVouchRequest toy (js ''ada'') (js ''phone'') 0 [1])"

definition ex_request :: vouch_request where
  "ex_request = \<lparr>vr_deviceKey = keyText toy [1], vr_personKey = js ''ada'', vr_deviceLabel = js ''phone'',
     vr_requestedAt = toISOString 0\<rparr>"

lemma ex_asked: "checkVouchRequest toy ex_asked = Inr (ex_asked, ex_request)"
proof -
  have "serializable (vouch_request_value ex_request)"
    by (simp add: ex_request_def vouch_request_value_def obj_def statement_types wellFormed_js plain_unit_def exportPublicKey_def)
  note t = sign_total_projr [OF this, of toy "[1]"]
  have s: "signStatement toy (vouch_request_value ex_request) [1] = Inr ex_asked"
    using t by (simp add: ex_asked_def createVouchRequest_def ex_request_def)
  show ?thesis
    using verifyStatement_sign [OF toy_ok s] by (simp add: checkVouchRequest_def view_vr ex_request_def)
qed

definition ex_waiting :: host_state where
  "ex_waiting = snd (run (request_vouch ex_env ex_asked (js ''id'')) ex_host)"

lemma ex_waiting: "\<exists>e. hs_entries ex_waiting = [(js ''id'', e)] \<and> ve_status e = Pending \<and> ve_request e = ex_request
    \<and> ve_id e = js ''id'' \<and> ve_receivedAt e = 7 \<and> hs_roster ex_waiting = hs_roster ex_host \<and> hs_clock ex_waiting = 7
    \<and> hs_label ex_waiting = js ''studio''"
proof -
  have "dropStale ex_host = ex_host" by (simp add: dropStale_def ex_host_def)
  moreover have "on_roster (find_person (js ''ada'')) ex_host = (Inr (Some ex_person), ex_host)"
    by (simp add: on_roster_def find_person_def and_then_def ex_host_load)
  ultimately show ?thesis
    by (simp add: ex_waiting_def request_vouch_def run_chain ex_env_def ex_asked Let_def ex_request_def)
      (simp add: insert_request_def pending_entries_def ex_host_def MAX_PENDING_def changed_def Let_def)
qed

lemma serializable_vouch:
  "wellFormed (dv_hostKey v) \<Longrightarrow> wellFormed (dv_hostLabel v) \<Longrightarrow> wellFormed (dv_personKey v)
    \<Longrightarrow> wellFormed (dv_personName v) \<Longrightarrow> wellFormed (dv_deviceKey v) \<Longrightarrow> wellFormed (dv_deviceLabel v)
    \<Longrightarrow> wellFormed (dv_firstCertificate v) \<Longrightarrow> wellFormed (dv_vouchedAt v) \<Longrightarrow> serializable (vouch_value v)"
  by (cases "dv_method v") (simp_all add: vouch_value_def obj_def statement_types wellFormed_js plain_unit_def)

lemma ex_sign_vouch:
  assumes "ve_request e = ex_request" "hs_label s = js ''studio''"
  shows "\<exists>vouch rec. sign_vouch ex_env e Operator ex_person s = Inr (vouch, rec)"
proof -
  let ?v = "device_vouch_for toy ex_request (js ''studio'') (js ''Ada'') Operator (js ''cert'') (hs_clock s) [3]"
  have "serializable (vouch_value ?v)"
    by (intro serializable_vouch)
      (simp_all add: device_vouch_for_def ex_request_def exportPublicKey_def wellFormed_js plain_unit_def)
  note t = sign_total_projr [OF this, of toy "[3]"]
  have "re_name ex_person = js ''Ada''" "re_certAddress ex_person = js ''cert''"
    by (simp_all add: ex_person_def ex_entry_def)
  then obtain vouch b where "createDeviceVouch toy ex_request (js ''studio'') (re_name ex_person) Operator
      (re_certAddress ex_person) (hs_clock s) [3] = Inr vouch" "statementBytes vouch = Inr b"
    using t(1,2) by (simp add: createDeviceVouch_def)
  then show ?thesis
    using assms by (simp add: sign_vouch_def ex_env_def statementAddress_def Let_def)
qed

lemma ex_confirm: "\<exists>e'. (js ''id'', e') \<in> set (hs_entries (snd (run (confirm ex_env (js ''id'')) ex_waiting)))
    \<and> ve_status e' = Vouched"
proof -
  obtain e where e: "hs_entries ex_waiting = [(js ''id'', e)]" "ve_status e = Pending" "ve_request e = ex_request"
      "ve_id e = js ''id''" "ve_receivedAt e = 7" "hs_roster ex_waiting = hs_roster ex_host" "hs_clock ex_waiting = 7"
      "hs_label ex_waiting = js ''studio''"
    using ex_waiting by (elim exE conjE)
  have drop: "dropStale ex_waiting = ex_waiting"
    using e by (simp add: dropStale_def is_stale_def PENDING_TTL_MS_def)
  have "ex_waiting\<lparr>hs_roster := hs_roster ex_host\<rparr> = ex_waiting" using e(6) [symmetric] by simp
  then have find: "on_roster (find_person (js ''ada'')) ex_waiting = (Inr (Some ex_person), ex_waiting)"
    using e(6) by (simp add: on_roster_def find_person_def and_then_def ex_host_load)
  obtain vouch rec where sign: "sign_vouch ex_env e Operator ex_person ex_waiting = Inr (vouch, rec)"
    using ex_sign_vouch e by blast
  have "host_ready ex_waiting" using ex_host_ready e(6) by (simp add: host_ready_def)
  then obtain s1 x where up: "on_roster (update_person (js ''ada'') (add_vouch rec)) ex_waiting = (Inr x, s1)"
    by (rule host_update_run [where k = "js ''ada''" and change = "add_vouch rec"]) (rule changes_key(4))
  then have "hs_entries s1 = [(js ''id'', e)]" using e(1) by (auto dest: on_roster_eq)
  then show ?thesis
    using e drop find sign up
    by (simp add: confirm_def vouchFor_def run_chain pendingEntry_def find_pending_def ex_request_def
        changed_def set_entry_def)
qed

lemma vouches_recorded_witness:
  "\<exists>tr ts s rid e. interleaved (settled_calls ex_env) world ex_host tr ts s
     \<and> (rid, e) \<in> set (hs_entries s) \<and> ve_status e = Vouched
     \<and> (\<exists>v a k someone. ve_vouch e = Some v \<and> statementAddress (he_platform ex_env) v = Inr a
       \<and> verifyStatement (he_platform ex_env) v (KeyText (keyText (he_platform ex_env) (he_keyPair ex_env)))
       \<and> person (hs_roster s) k = Some someone \<and> a \<in> sv_address ` set (vouches_of someone))"
proof -
  from interleaved_run [OF interleaved.start settled_calls.request_call [of ex_env ex_asked "js ''id''"]]
  obtain tr where "interleaved (settled_calls ex_env) world ex_host tr [Done ()] ex_waiting"
    by (auto simp: ex_waiting_def)
  from interleaved_run [OF this settled_calls.confirm_call [of ex_env "js ''id''"]]
  obtain tr' where i: "interleaved (settled_calls ex_env) world ex_host (tr @ tr') ([Done ()] @ [Done ()])
      (snd (run (confirm ex_env (js ''id'')) ex_waiting))" by auto
  obtain e where e: "(js ''id'', e) \<in> set (hs_entries (snd (run (confirm ex_env (js ''id'')) ex_waiting)))"
      "ve_status e = Vouched" using ex_confirm by blast
  have "platform_ok (he_platform ex_env)" "hs_entries ex_host = []" by (simp_all add: ex_env_def toy_ok ex_host_def)
  from vouches_recorded [OF i this e] i e show ?thesis by blast
qed

end
