(* ===== verification/Event_Log.thy ===== *)
theory Event_Log
  imports Threads Json_Copy Js_Date "HOL-Library.Multiset"
begin

text \<open>
  The host's log of playback events, \<^verbatim>\<open>eventStore.ts\<close>: one file per UTC day in the log
  directory, an index of what has been taken in memory, appending, replaying and retention.

  A file is its lines as \<open>JSON.parse\<close> reads them (\<open>None\<close>: not JSON, which includes blank lines).
  An unclean quit can leave a last line without its newline: \<open>sg_tail\<close>. What is appended next
  continues that line, and a prefix of an object followed by an object is never JSON. \<open>sg_broken\<close>
  is a read error after that many lines. What the disk does with a write is an argument of the
  operation. Appends are chained by the code, so each is one step; a sweep is a thread. The log holds
  what the store wrote: \<open>occurredAt\<close> and \<open>deviceId\<close>, which the guard does not look at, are read as
  text, and as missing when they are none.
\<close>

section \<open>Events\<close>

record play_event =
  ev_id :: jstr
  ev_recordingUrl :: jstr
  ev_completion :: jsnum
  ev_occurredAt :: jstr
  ev_deviceId :: "jstr option"

record stored_event = play_event +
  ev_receivedAt :: jstr

definition stamped :: "jstr \<Rightarrow> play_event \<Rightarrow> stored_event" where
  "stamped receivedAt e =
     \<lparr>ev_id = ev_id e, ev_recordingUrl = ev_recordingUrl e, ev_completion = ev_completion e,
      ev_occurredAt = ev_occurredAt e, ev_deviceId = ev_deviceId e, ev_receivedAt = receivedAt\<rparr>"

definition stored_value :: "stored_event \<Rightarrow> jsval" where
  "stored_value e = JObject
     [(js ''id'', JString (ev_id e)), (js ''recordingUrl'', JString (ev_recordingUrl e)),
      (js ''type'', JString (js ''play'')), (js ''completion'', JNumber (ev_completion e)),
      (js ''occurredAt'', JString (ev_occurredAt e)),
      (js ''deviceId'', (case ev_deviceId e of None \<Rightarrow> JUndefined | Some d \<Rightarrow> JString d)),
      (js ''receivedAt'', JString (ev_receivedAt e))]"

definition isStoredEvent :: "jsval \<Rightarrow> stored_event option" where
  "isStoredEvent v =
     (case (as_string (field v ''id''), as_string (field v ''recordingUrl''),
            as_number (field v ''completion''), as_string (field v ''receivedAt'')) of
        (Some i, Some url, Some c, Some at) \<Rightarrow>
          if i \<noteq> [] \<and> field v ''type'' = JString (js ''play'') \<and> isFinite c
          then Some \<lparr>ev_id = i, ev_recordingUrl = url, ev_completion = c,
            ev_occurredAt = (case as_string (field v ''occurredAt'') of None \<Rightarrow> [] | Some t \<Rightarrow> t),
            ev_deviceId = as_string (field v ''deviceId''), ev_receivedAt = at\<rparr>
          else None
      | _ \<Rightarrow> None)"

definition dedupeKey :: "'x play_event_scheme \<Rightarrow> jstr" where
  "dedupeKey e = (case ev_deviceId e of None \<Rightarrow> js ''unknown'' | Some d \<Rightarrow> d) @ [0] @ ev_id e"

section \<open>Day segments\<close>

definition DEFAULT_EVENT_MAX_AGE_MS :: int where
  "DEFAULT_EVENT_MAX_AGE_MS = 90 * 24 * 60 * 60 * 1000"

definition segmentName :: "int \<Rightarrow> jstr" where
  "segmentName t = take 10 (toISOString t) @ js ''.ndjson''"

definition segment_match :: "jstr \<Rightarrow> (int \<times> int \<times> int) option" where
  "segment_match name =
     (let y = take 4 name; m = take 2 (drop 5 name); d = take 2 (drop 8 name);
          number = (\<lambda>t. int (nat_of_digits (map digit_value t)))
      in if length name = 17 \<and> list_all is_digit (y @ m @ d)
            \<and> name = y @ js ''-'' @ m @ js ''-'' @ d @ js ''.ndjson''
         then Some (number y, number m, number d) else None)"

text \<open>\<open>Date.parse\<close> of V8: any day from 1 to 31 counts from the start of its month.\<close>

definition segmentEndMs :: "jstr \<Rightarrow> int option" where
  "segmentEndMs name =
     (case segment_match name of
        None \<Rightarrow> None
      | Some (y, m, d) \<Rightarrow>
          if 1 \<le> m \<and> m \<le> 12 \<and> 1 \<le> d \<and> d \<le> 31 then Some (day_number y m d * DAY_MS + DAY_MS) else None)"

record segment =
  sg_lines :: "jsval option list"
  sg_tail :: "jsval option option"
  sg_broken :: "nat option"

definition empty_segment :: segment where
  "empty_segment = \<lparr>sg_lines = [], sg_tail = None, sg_broken = None\<rparr>"

definition segment_lines :: "segment \<Rightarrow> jsval option list" where
  "segment_lines seg = sg_lines seg @ (case sg_tail seg of None \<Rightarrow> [] | Some l \<Rightarrow> [l])"

definition events_in :: "jsval option list \<Rightarrow> stored_event list" where
  "events_in ls = List.map_filter (\<lambda>l. Option.bind l isStoredEvent) ls"

text \<open>The events a reader is given, and whether it came to the end of the file.\<close>

definition readSegment :: "segment \<Rightarrow> stored_event list \<times> bool" where
  "readSegment seg =
     (case sg_broken seg of
        None \<Rightarrow> (events_in (segment_lines seg), True)
      | Some n \<Rightarrow> (events_in (take n (segment_lines seg)), False))"

definition continue_lines ::
  "segment \<Rightarrow> jsval option list \<Rightarrow> jsval option option \<Rightarrow> segment" where
  "continue_lines seg new torn =
     (case sg_tail seg of
        None \<Rightarrow> seg\<lparr>sg_lines := sg_lines seg @ new, sg_tail := torn\<rparr>
      | Some t \<Rightarrow>
          (case new of
             l # ls \<Rightarrow> seg\<lparr>sg_lines := sg_lines seg @ None # ls, sg_tail := torn\<rparr>
           | [] \<Rightarrow> if torn = None then seg else seg\<lparr>sg_tail := Some None\<rparr>))"

section \<open>The store\<close>

datatype log_error = BadTime | MkdirFailed | ReadFailed | AppendFailed | UnlinkFailed | SaveFailed
  | FoldedNotIterable

text \<open>
  \<open>seen\<close> and \<open>opened\<close> are the process, the rest is the disk: whether directories can be made, the
  directory listed and files unlinked is up to the machine.
\<close>

record event_log =
  log_files :: "(jstr \<times> segment) list"
  makes_dirs :: bool
  lists_dir :: bool
  unlinks :: bool
  seen :: "jstr set"
  opened :: bool

definition segments :: "'x event_log_scheme \<Rightarrow> jstr list" where
  "segments s = (if lists_dir s then sort (filter (\<lambda>n. segment_match n \<noteq> None) (map fst (log_files s))) else [])"

definition replaySegment :: "'x event_log_scheme \<Rightarrow> jstr \<Rightarrow> stored_event list \<times> bool" where
  "replaySegment s name = (case map_of (log_files s) name of None \<Rightarrow> ([], False) | Some seg \<Rightarrow> readSegment seg)"

primrec index_segments :: "jstr list \<Rightarrow> ('x event_log_scheme, log_error, unit) eff" where
  "index_segments [] s = (Inr (), s)"
| "index_segments (name # names) s =
     (case replaySegment s name of (es, complete) \<Rightarrow>
        let s' = s\<lparr>seen := seen s \<union> dedupeKey ` set es\<rparr>
        in if complete then index_segments names s' else (Inl ReadFailed, s'))"

definition open_log :: "('x event_log_scheme, log_error, nat) eff" where
  "open_log = (\<lambda>s.
     if opened s then (Inr (card (seen s)), s)
     else if \<not> makes_dirs s then (Inl MkdirFailed, s)
     else and_then (index_segments (segments s))
            (\<lambda>_ s'. (Inr (card (seen s')), s'\<lparr>opened := True\<rparr>)) s)"

definition has_event :: "'x event_log_scheme \<Rightarrow> 'y play_event_scheme \<Rightarrow> bool" where
  "has_event s e = (dedupeKey e \<in> seen s)"

fun take_new :: "jstr \<Rightarrow> play_event list \<Rightarrow> jstr set \<Rightarrow> stored_event list \<times> jstr list \<times> jstr set" where
  "take_new receivedAt [] known = ([], [], known)"
| "take_new receivedAt (e # es) known =
     (if ev_id e = [] then take_new receivedAt es known
      else if dedupeKey e \<in> known then
        (case take_new receivedAt es known of (acc, dup, known') \<Rightarrow> (acc, ev_id e # dup, known'))
      else (case take_new receivedAt es (insert (dedupeKey e) known) of
              (acc, dup, known') \<Rightarrow> (stamped receivedAt e # acc, dup, known')))"

text \<open>The disk takes the whole write, or some lines of it and perhaps a piece of the next.\<close>

datatype append_outcome = Wrote | WroteOnly nat "jsval option option"

definition line_of :: "stored_event \<Rightarrow> jsval option" where
  "line_of e = Some (json_copy (stored_value e))"

definition append_lines ::
  "jstr \<Rightarrow> jsval option list \<Rightarrow> jsval option option \<Rightarrow> (jstr \<times> segment) list \<Rightarrow> (jstr \<times> segment) list" where
  "append_lines name new torn files =
     AList.update name
       (continue_lines (case map_of files name of None \<Rightarrow> empty_segment | Some seg \<Rightarrow> seg) new torn) files"

definition append_events ::
  "play_event list \<Rightarrow> int \<Rightarrow> append_outcome
     \<Rightarrow> ('x event_log_scheme, log_error, stored_event list \<times> jstr list) eff" where
  "append_events events now outcome = (\<lambda>s.
     if \<not> time_value now then (Inl BadTime, s)
     else case take_new (toISOString now) events (seen s) of (accepted, duplicates, known) \<Rightarrow>
       let s' = s\<lparr>seen := known\<rparr>; payload = map line_of accepted
       in if accepted = [] then (Inr (accepted, duplicates), s')
          else if \<not> makes_dirs s then (Inl MkdirFailed, s')
          else case outcome of
              Wrote \<Rightarrow> (Inr (accepted, duplicates),
                s'\<lparr>log_files := append_lines (segmentName now) payload None (log_files s)\<rparr>)
            | WroteOnly n torn \<Rightarrow> (Inl AppendFailed,
                s'\<lparr>log_files := append_lines (segmentName now) (take n payload) torn (log_files s),
                   seen := known - dedupeKey ` set accepted\<rparr>))"

definition replay :: "'x event_log_scheme \<Rightarrow> stored_event list" where
  "replay s = concat (map (\<lambda>name. fst (replaySegment s name)) (segments s))"

definition log_size :: "'x event_log_scheme \<Rightarrow> nat" where
  "log_size s = card (seen s)"

section \<open>Retention\<close>

record sweep_result =
  sw_segments :: "jstr list"
  sw_events :: nat
  sw_retained :: "jstr list"

datatype sweep_stretch = Listing | Reading_segment | Folding | Unlinking | Saving

type_synonym ('s, 'a) sweep_call = "(sweep_stretch, 's, log_error, 'a) call"

definition expired :: "int \<Rightarrow> jstr \<Rightarrow> bool" where
  "expired cutoff name = (case segmentEndMs name of None \<Rightarrow> False | Some e \<Rightarrow> e \<le> cutoff)"

definition unlink :: "jstr \<Rightarrow> stored_event list \<Rightarrow> ('x event_log_scheme, log_error, unit) eff" where
  "unlink name expiring = (\<lambda>s.
     if unlinks s
     then (Inr (), s\<lparr>log_files := AList.delete name (log_files s), seen := seen s - dedupeKey ` set expiring\<rparr>)
     else (Inl UnlinkFailed, s))"

primrec sweep_segments ::
  "int \<Rightarrow> (jstr \<Rightarrow> stored_event list \<Rightarrow> ('x event_log_scheme, unit) sweep_call) \<Rightarrow> jstr list
     \<Rightarrow> sweep_result \<Rightarrow> ('x event_log_scheme, sweep_result) sweep_call" where
  "sweep_segments cutoff onSegment [] r = give r"
| "sweep_segments cutoff onSegment (name # names) r =
     (if \<not> expired cutoff name then sweep_segments cutoff onSegment names r
      else chain (perform Reading_segment (reads (\<lambda>s. fst (replaySegment s name)))) (\<lambda>expiring.
        chain (attempt (onSegment name expiring)) (\<lambda>folded.
          case folded of
            Inl _ \<Rightarrow> sweep_segments cutoff onSegment names (r\<lparr>sw_retained := sw_retained r @ [name]\<rparr>)
          | Inr _ \<Rightarrow> chain (perform Unlinking (unlink name expiring)) (\<lambda>_.
              sweep_segments cutoff onSegment names
                (r\<lparr>sw_segments := sw_segments r @ [name], sw_events := sw_events r + length expiring\<rparr>)))))"

definition sweep_log ::
  "(jstr \<Rightarrow> stored_event list \<Rightarrow> ('x event_log_scheme, unit) sweep_call) option \<Rightarrow> int \<Rightarrow> int
     \<Rightarrow> ('x event_log_scheme, sweep_result) sweep_call" where
  "sweep_log onSegment maxAgeMs now =
     chain (perform Listing (reads segments)) (\<lambda>names.
       sweep_segments (now - maxAgeMs)
         (case onSegment of None \<Rightarrow> (\<lambda>_ _. give ()) | Some hook \<Rightarrow> hook) names
         \<lparr>sw_segments = [], sw_events = 0, sw_retained = []\<rparr>)"

section \<open>Lines\<close>

definition plain_play :: "'x play_event_scheme \<Rightarrow> bool" where
  "plain_play e = (isFinite (ev_completion e) \<and> plain_zero (ev_completion e) = ev_completion e)"

lemma dedupeKey_stamped [simp]: "dedupeKey (stamped t e) = dedupeKey e"
  by (simp add: dedupeKey_def stamped_def)

lemma stamped_simps [simp]:
  "ev_id (stamped t e) = ev_id e" "ev_recordingUrl (stamped t e) = ev_recordingUrl e"
  "ev_completion (stamped t e) = ev_completion e" "ev_receivedAt (stamped t e) = t"
  "ev_deviceId (stamped t e) = ev_deviceId e" "ev_occurredAt (stamped t e) = ev_occurredAt e"
  by (simp_all add: stamped_def)

lemma plain_play_stamped [simp]: "plain_play (stamped t e) = plain_play e"
  by (simp add: plain_play_def)

lemma read_line:
  assumes "plain_play e" "ev_id e \<noteq> []"
  shows "Option.bind (line_of e) isStoredEvent = Some e"
  using assms
  by (cases "ev_deviceId e")
    (simp_all add: line_of_def stored_value_def isStoredEvent_def plain_play_def)

lemma events_in_append [simp]: "events_in (xs @ ys) = events_in xs @ events_in ys"
  by (simp add: events_in_def List.map_filter_def)

lemma events_in_Nil [simp]: "events_in [] = []"
  by (simp add: events_in_def List.map_filter_def)

lemma events_in_Cons:
  "events_in (l # ls) = (case Option.bind l isStoredEvent of None \<Rightarrow> [] | Some e \<Rightarrow> [e]) @ events_in ls"
  by (simp add: events_in_def List.map_filter_def split: option.split)

lemma events_in_lines:
  "(\<And>e. e \<in> set es \<Longrightarrow> plain_play e \<and> ev_id e \<noteq> []) \<Longrightarrow> events_in (map line_of es) = es"
  by (induction es) (auto simp: events_in_def List.map_filter_def read_line)

definition sound_segment :: "segment \<Rightarrow> bool" where
  "sound_segment seg = (sg_tail seg = None \<and> sg_broken seg = None)"

lemma sound_empty [simp]: "sound_segment empty_segment" "readSegment empty_segment = ([], True)"
  by (simp_all add: sound_segment_def empty_segment_def readSegment_def events_in_def segment_lines_def
      List.map_filter_def)

lemma continue_sound:
  assumes "sound_segment seg"
  shows "sound_segment (continue_lines seg ls None)"
    "readSegment (continue_lines seg ls None) = (fst (readSegment seg) @ events_in ls, True)"
  using assms by (simp_all add: sound_segment_def continue_lines_def readSegment_def segment_lines_def)

section \<open>Taking a batch\<close>

definition taken_well :: "jstr \<Rightarrow> play_event list \<Rightarrow> jstr set \<Rightarrow> stored_event list \<Rightarrow> jstr set \<Rightarrow> bool" where
  "taken_well t es known acc known' =
     (known' = known \<union> dedupeKey ` set acc \<and> distinct (map dedupeKey acc) \<and> dedupeKey ` set acc \<inter> known = {}
      \<and> (\<forall>e \<in> set acc. \<exists>p \<in> set es. e = stamped t p \<and> ev_id p \<noteq> [])
      \<and> (\<forall>p \<in> set es. ev_id p \<noteq> [] \<longrightarrow> dedupeKey p \<in> known'))"

lemma take_new_facts:
  "take_new t es known = (acc, dup, known') \<Longrightarrow> taken_well t es known acc known'"
proof (induction t es known arbitrary: acc dup known' rule: take_new.induct)
  case (1 t known)
  then show ?case by (simp add: taken_well_def)
next
  case (2 t e es known)
  consider (blank) "ev_id e = []" | (dup) "ev_id e \<noteq> []" "dedupeKey e \<in> known"
    | (new) "ev_id e \<noteq> []" "dedupeKey e \<notin> known" by blast
  then show ?case
  proof cases
    case blank
    with 2 show ?thesis by (auto simp: taken_well_def)
  next
    case dup
    obtain a d k where r: "take_new t es known = (a, d, k)" by (cases "take_new t es known")
    have "taken_well t es known a k" using "2.IH"(2) dup r by blast
    moreover have "acc = a" "known' = k" using "2.prems" dup r by simp_all
    ultimately show ?thesis using dup by (auto simp: taken_well_def)
  next
    case new
    let ?known = "insert (dedupeKey e) known"
    obtain a d k where r: "take_new t es ?known = (a, d, k)" by (cases "take_new t es ?known")
    have "taken_well t es ?known a k" using "2.IH"(3) new r by blast
    moreover have "acc = stamped t e # a" "known' = k" using "2.prems" new r by simp_all
    ultimately show ?thesis using new by (auto simp: taken_well_def)
  qed
qed

section \<open>What the log holds\<close>

definition file_events :: "jstr \<times> segment \<Rightarrow> stored_event list" where
  "file_events f = (if segment_match (fst f) \<noteq> None then fst (readSegment (snd f)) else [])"

lemma mset_concat_sort: "mset (concat (map f (sort xs))) = mset (concat (map f xs))"
proof -
  have "mset (concat (map f ys)) = sum_mset (image_mset (\<lambda>x. mset (f x)) (mset ys))" for ys
    by (induction ys) auto
  then show ?thesis by simp
qed

lemma concat_files:
  assumes "distinct (map fst files)" "\<And>k v. (k, v) \<in> set files \<Longrightarrow> f k = fst (readSegment v)"
  shows "concat (map f (filter (\<lambda>n. segment_match n \<noteq> None) (map fst files))) = concat (map file_events files)"
  using assms by (induction files) (auto simp: file_events_def)

lemma mset_replay:
  assumes "distinct (map fst (log_files s))" "lists_dir s"
  shows "mset (replay s) = mset (concat (map file_events (log_files s)))"
proof -
  have "fst (replaySegment s k) = fst (readSegment v)" if "(k, v) \<in> set (log_files s)" for k v
    using that assms(1) by (simp add: replaySegment_def)
  then have "concat (map (\<lambda>n. fst (replaySegment s n)) (filter (\<lambda>n. segment_match n \<noteq> None) (map fst (log_files s))))
      = concat (map file_events (log_files s))"
    by (rule concat_files [OF assms(1)])
  then show ?thesis
    using assms(2) unfolding replay_def segments_def by (simp only: mset_concat_sort if_True)
qed

lemma mset_files_update:
  assumes "distinct (map fst files)"
  shows "mset (concat (map file_events (AList.update k v files)))
      + (case map_of files k of None \<Rightarrow> {#} | Some old \<Rightarrow> mset (file_events (k, old)))
    = mset (concat (map file_events files)) + mset (file_events (k, v))"
  using assms
proof (induction files)
  case (Cons f files)
  obtain k' v' where f: "f = (k', v')" by (cases f)
  show ?case
  proof (cases "k' = k")
    case True
    with Cons.prems f have "map_of files k = None" by (simp add: map_of_eq_None_iff)
    with True f show ?thesis by simp
  next
    case False
    with Cons f show ?thesis by (simp add: ac_simps)
  qed
qed simp

lemma mset_files_delete:
  assumes "distinct (map fst files)"
  shows "mset (concat (map file_events files)) = mset (concat (map file_events (AList.delete k files)))
      + (case map_of files k of None \<Rightarrow> {#} | Some old \<Rightarrow> mset (file_events (k, old)))"
  using assms
proof (induction files)
  case (Cons f files)
  obtain k' v' where f: "f = (k', v')" by (cases f)
  show ?case
  proof (cases "k' = k")
    case True
    with Cons.prems f have n: "map_of files k = None" by (simp add: map_of_eq_None_iff)
    then have "AList.delete k files = files"
      by (force simp: AList.delete_eq filter_id_conv map_of_eq_None_iff)
    with True f show ?thesis by simp
  next
    case False
    with Cons f show ?thesis by (simp add: ac_simps)
  qed
qed simp

definition sound_files :: "'x event_log_scheme \<Rightarrow> bool" where
  "sound_files s = (distinct (map fst (log_files s)) \<and> lists_dir s
     \<and> (\<forall>f \<in> set (log_files s). sound_segment (snd f)))"

lemma sound_filesD: "sound_files s \<Longrightarrow> map_of (log_files s) n = Some seg \<Longrightarrow> sound_segment seg"
  unfolding sound_files_def by (auto dest!: map_of_SomeD)

lemma set_AList_update: "distinct (map fst al) \<Longrightarrow> x \<in> set (AList.update k v al) \<Longrightarrow> x = (k, v) \<or> x \<in> set al"
  by (induction al) (auto split: if_splits)

lemma sound_append:
  assumes "sound_files s" "log_files s' = append_lines n ls None (log_files s)" "lists_dir s' = lists_dir s"
  shows "sound_files s'"
proof -
  let ?seg = "case map_of (log_files s) n of None \<Rightarrow> empty_segment | Some seg \<Rightarrow> seg"
  have "sound_segment ?seg" using assms(1) by (auto split: option.split dest: sound_filesD)
  then have "sound_segment (continue_lines ?seg ls None)" by (rule continue_sound)
  with assms show ?thesis
    unfolding sound_files_def append_lines_def
    by (auto dest!: set_AList_update simp: distinct_update)
qed

lemma mset_replay_append:
  assumes "sound_files s" "log_files s' = append_lines n ls None (log_files s)" "lists_dir s' = lists_dir s"
    "segment_match n \<noteq> None"
  shows "mset (replay s') = mset (replay s) + mset (events_in ls)"
proof -
  let ?old = "case map_of (log_files s) n of None \<Rightarrow> empty_segment | Some seg \<Rightarrow> seg"
  have d: "distinct (map fst (log_files s))" "lists_dir s" using assms(1) by (simp_all add: sound_files_def)
  have seg: "sound_segment ?old" using assms(1) by (auto split: option.split dest: sound_filesD)
  have "sound_files s'" using assms(1,2,3) by (rule sound_append)
  then have "mset (replay s') = mset (concat (map file_events (log_files s')))"
    by (simp add: sound_files_def mset_replay)
  moreover have "mset (file_events (n, continue_lines ?old ls None))
      = (case map_of (log_files s) n of None \<Rightarrow> {#} | Some old \<Rightarrow> mset (file_events (n, old))) + mset (events_in ls)"
    using continue_sound(2) [OF seg] assms(4) by (auto simp: file_events_def split: option.split)
  ultimately show ?thesis
    using mset_files_update [OF d(1), of n "continue_lines ?old ls None"] mset_replay [OF d] assms(2)
    by (simp add: append_lines_def ac_simps)
qed

section \<open>The index\<close>

definition log_ok :: "'x event_log_scheme \<Rightarrow> bool" where
  "log_ok s = (sound_files s \<and> makes_dirs s \<and> distinct (map dedupeKey (replay s))
     \<and> (if opened s then seen s = dedupeKey ` set (replay s) else seen s = {}))"

lemma replay_cong: "log_files s = log_files s' \<Longrightarrow> lists_dir s = lists_dir s' \<Longrightarrow> replay s = replay s'"
  unfolding replay_def segments_def replaySegment_def by simp

lemma distinct_mset: "mset xs = mset ys \<Longrightarrow> distinct (map f xs) = distinct (map f ys)"
  by (metis mset_eq_imp_distinct_iff mset_map)

lemma log_ok_append:
  assumes "log_ok s" "opened s" "segment_match (segmentName now) \<noteq> None" "\<And>e. e \<in> set es \<Longrightarrow> plain_play e"
    "append_events es now Wrote s = (Inr (acc, dup), s')"
  shows "log_ok s'" "mset (replay s') = mset (replay s) + mset acc" "opened s'"
proof -
  obtain a d k where t: "take_new (toISOString now) es (seen s) = (a, d, k)" by (cases "take_new (toISOString now) es (seen s)")
  note w = take_new_facts [OF t, unfolded taken_well_def]
  have "a = acc" using assms(1,5) t by (auto simp: append_events_def Let_def log_ok_def split: if_splits)
  have plain: "plain_play e \<and> ev_id e \<noteq> []" if "e \<in> set acc" for e
    using w that assms(4) \<open>a = acc\<close> by fastforce
  then have lines: "events_in (map line_of acc) = acc" by (rule events_in_lines)
  have fields: "makes_dirs s'" "lists_dir s' = lists_dir s" "opened s'" "seen s' = k"
    using assms(1,2,5) t by (auto simp: append_events_def Let_def log_ok_def split: if_splits)
  have files: "log_files s' = (if acc = [] then log_files s
      else append_lines (segmentName now) (map line_of acc) None (log_files s))"
    using assms(1,5) t by (auto simp: append_events_def Let_def log_ok_def split: if_splits)
  have sound: "sound_files s" using assms(1) by (simp add: log_ok_def)
  have "sound_files s' \<and> mset (replay s') = mset (replay s) + mset acc"
  proof (cases "acc = []")
    case True
    then have "log_files s' = log_files s" using files by simp
    with sound fields replay_cong [of s' s] True show ?thesis by (simp add: sound_files_def)
  next
    case False
    with files have f: "log_files s' = append_lines (segmentName now) (map line_of acc) None (log_files s)" by simp
    from sound_append [OF sound f fields(2)] mset_replay_append [OF sound f fields(2) assms(3)] lines
    show ?thesis by simp
  qed
  then have sound': "sound_files s'" and m: "mset (replay s') = mset (replay s @ acc)" by simp_all
  from m show "mset (replay s') = mset (replay s) + mset acc" by simp
  from m have set: "set (replay s') = set (replay s) \<union> set acc" by (metis set_append set_mset_mset)
  have old: "distinct (map dedupeKey (replay s))" "seen s = dedupeKey ` set (replay s)"
    using assms(1,2) by (simp_all add: log_ok_def)
  then have "distinct (map dedupeKey (replay s @ acc))" using w \<open>a = acc\<close> by auto
  then have "distinct (map dedupeKey (replay s'))" using distinct_mset [OF m] by blast
  moreover have "seen s' = dedupeKey ` set (replay s')"
    using w old set fields \<open>a = acc\<close> by (simp add: image_Un)
  ultimately show "log_ok s'" using sound' fields by (simp add: log_ok_def)
  from fields show "opened s'" by simp
qed

lemma log_ok_unlink:
  assumes "log_ok s" "opened s" "map_of (log_files s) name = Some seg" "segment_match name \<noteq> None"
    "unlink name (fst (replaySegment s name)) s = (r, s')"
  shows "log_ok s'" "opened s'"
proof -
  have same: "s' = s \<or> s' = s\<lparr>log_files := AList.delete name (log_files s),
      seen := seen s - dedupeKey ` set (fst (replaySegment s name))\<rparr>"
    using assms(5) by (auto simp: unlink_def split: if_splits)
  have "log_ok s' \<and> opened s'"
  proof (cases "s' = s")
    case False
    let ?gone = "fst (replaySegment s name)"
    have s': "s' = s\<lparr>log_files := AList.delete name (log_files s), seen := seen s - dedupeKey ` set ?gone\<rparr>"
      using same False by blast
    have d: "distinct (map fst (log_files s))" "lists_dir s" using assms(1) by (simp_all add: log_ok_def sound_files_def)
    have "set (AList.delete name (log_files s)) \<subseteq> set (log_files s)" by (auto simp: AList.delete_eq)
    then have snd: "sound_files s'" using assms(1) d distinct_delete [OF d(1)]
      unfolding s' log_ok_def sound_files_def by auto
    then have "mset (replay s') = mset (concat (map file_events (log_files s')))"
      by (simp add: sound_files_def mset_replay)
    moreover have "file_events (name, seg) = ?gone" using assms(3,4) by (simp add: file_events_def replaySegment_def)
    ultimately have m: "mset (replay s) = mset (replay s' @ ?gone)"
      using mset_files_delete [OF d(1), of name] mset_replay [OF d] assms(3) by (simp add: s')
    then have set: "set (replay s) = set (replay s') \<union> set ?gone" by (metis set_append set_mset_mset)
    have "distinct (map dedupeKey (replay s))" using assms(1) by (simp add: log_ok_def)
    with distinct_mset [OF m, of dedupeKey] have dist: "distinct (map dedupeKey (replay s' @ ?gone))" by (simp only:)
    have disjoint: "dedupeKey ` set (replay s') \<inter> dedupeKey ` set ?gone = {}"
      and own: "distinct (map dedupeKey (replay s'))"
      using dist by (simp_all only: map_append distinct_append set_map)
    have "seen s' = dedupeKey ` set (replay s')"
    proof -
      have "seen s' = dedupeKey ` set (replay s) - dedupeKey ` set ?gone"
        using assms(1,2) by (simp add: log_ok_def s')
      with disjoint show ?thesis unfolding set image_Un by blast
    qed
    moreover have "makes_dirs s'" "opened s'" using assms(1,2) by (simp_all add: log_ok_def s')
    ultimately show ?thesis using snd own by (simp add: log_ok_def)
  qed (use assms in simp)
  then show "log_ok s'" "opened s'" by simp_all
qed

section \<open>Files that can be read\<close>

text \<open>
  What is left of \<open>sound_files\<close> when a line may be torn: the files can be listed and read to
  their ends.
\<close>

definition readable_files :: "'x event_log_scheme \<Rightarrow> bool" where
  "readable_files s = (distinct (map fst (log_files s)) \<and> lists_dir s
     \<and> (\<forall>f \<in> set (log_files s). sg_broken (snd f) = None))"

lemma sound_readable: "sound_files s \<Longrightarrow> readable_files s"
  by (simp add: sound_files_def readable_files_def sound_segment_def)

lemma readable_filesD: "readable_files s \<Longrightarrow> map_of (log_files s) n = Some seg \<Longrightarrow> sg_broken seg = None"
  unfolding readable_files_def by (auto dest!: map_of_SomeD)

lemma listed_segments:
  assumes "readable_files s" "n \<in> set (segments s)"
  obtains seg where "map_of (log_files s) n = Some seg" "snd (replaySegment s n)" "segment_match n \<noteq> None"
proof -
  from assms have "n \<in> fst ` set (log_files s)" "segment_match n \<noteq> None"
    by (auto simp: segments_def split: if_splits)
  then obtain seg where seg: "map_of (log_files s) n = Some seg" by (metis map_of_eq_None_iff option.exhaust)
  then have "snd (replaySegment s n)"
    using readable_filesD [OF assms(1) seg] by (simp add: replaySegment_def readSegment_def)
  then show ?thesis using that seg \<open>segment_match n \<noteq> None\<close> by blast
qed

lemmas readable_segments = listed_segments [OF sound_readable]

definition old_segment :: "'x event_log_scheme \<Rightarrow> jstr \<Rightarrow> segment" where
  "old_segment s n = (case map_of (log_files s) n of None \<Rightarrow> empty_segment | Some seg \<Rightarrow> seg)"

lemma old_segment_readable: "readable_files s \<Longrightarrow> sg_broken (old_segment s n) = None"
  by (auto simp: old_segment_def empty_segment_def readable_filesD split: option.split)

text \<open>Writing one file changes what a replay finds by what is read from that file.\<close>

lemma replay_update:
  assumes "readable_files s" "segment_match n \<noteq> None" "sg_broken seg = None"
    "log_files s' = AList.update n seg (log_files s)" "lists_dir s' = lists_dir s"
  shows "readable_files s'"
    "mset (replay s') + mset (fst (readSegment (old_segment s n)))
      = mset (replay s) + mset (fst (readSegment seg))"
proof -
  have d: "distinct (map fst (log_files s))" "lists_dir s"
    using assms(1) by (simp_all add: readable_files_def)
  then have d': "distinct (map fst (log_files s'))" "lists_dir s'"
    using assms(4,5) by (simp_all add: distinct_update)
  show "readable_files s'"
    using assms d' unfolding readable_files_def by (auto dest!: set_AList_update)
  show "mset (replay s') + mset (fst (readSegment (old_segment s n)))
      = mset (replay s) + mset (fst (readSegment seg))"
    using mset_files_update [OF d(1), of n seg] mset_replay [OF d] mset_replay [OF d'] assms(2,4)
    by (simp add: old_segment_def file_events_def split: option.splits)
qed

text \<open>
  What can be read after lines were added to a file: at most what was there before and the plays of
  the new lines, and exactly that when the last line was complete. A line that continues a torn one
  is lost, with the torn one.
\<close>

lemma continue_read:
  assumes "sg_broken seg = None"
  shows "sg_broken (continue_lines seg new torn) = None"
    "mset (fst (readSegment (continue_lines seg new torn)))
      \<subseteq># mset (fst (readSegment seg)) + mset (events_in (new @ (case torn of None \<Rightarrow> [] | Some l \<Rightarrow> [l])))"
    "sg_tail seg \<noteq> None \<Longrightarrow> mset (fst (readSegment (continue_lines seg (l # new) None)))
      \<subseteq># mset (fst (readSegment seg)) + mset (events_in new)"
    "sg_tail seg = None \<Longrightarrow> fst (readSegment (continue_lines seg new None))
      = fst (readSegment seg) @ events_in new"
proof -
  note reads = continue_lines_def readSegment_def segment_lines_def events_in_Cons subseteq_mset_def
  show "sg_broken (continue_lines seg new torn) = None"
    using assms by (simp add: continue_lines_def split: option.split list.split)
  show "mset (fst (readSegment (continue_lines seg new torn)))
      \<subseteq># mset (fst (readSegment seg)) + mset (events_in (new @ (case torn of None \<Rightarrow> [] | Some l \<Rightarrow> [l])))"
    using assms by (cases "sg_tail seg"; cases new; cases torn) (simp_all add: reads)
  show "mset (fst (readSegment (continue_lines seg (l # new) None)))
      \<subseteq># mset (fst (readSegment seg)) + mset (events_in new)" if "sg_tail seg \<noteq> None"
    using assms that by (cases "sg_tail seg") (simp_all add: reads)
  show "fst (readSegment (continue_lines seg new None)) = fst (readSegment seg) @ events_in new"
    if "sg_tail seg = None"
    using assms that by (simp add: continue_lines_def readSegment_def segment_lines_def)
qed

lemma mset_sub_distinct:
  assumes "mset xs \<subseteq># mset ys" "distinct (map f ys)"
  shows "distinct (map f xs)"
proof -
  obtain zs where "mset ys = mset xs + mset zs"
    using assms(1) by (metis ex_mset subset_mset.add_diff_inverse)
  then have "mset ys = mset (xs @ zs)" by simp
  with distinct_mset [OF this, of f] assms(2) show ?thesis by simp
qed

section \<open>A life of the log\<close>

text \<open>
  What happens to a log that is opened before anything else, as its comment asks: batches taken;
  batches the disk refuses whole; batches cut short by a crash, after some of their lines and
  perhaps inside the next one or just before its newline; restarts; retention; and a machine on
  which directories can be made and files unlinked or not. Files can be listed and read throughout.
\<close>

datatype cut = AfterNewline | InsideLine | BeforeNewline

datatype log_op =
    Take "play_event list" int
  | Take_refused "play_event list" int
  | Take_crash "play_event list" int nat cut
  | Restart
  | Open
  | Retain int int
  | Machine bool bool

definition restart :: "'x event_log_scheme \<Rightarrow> 'x event_log_scheme" where
  "restart s = s\<lparr>seen := {}, opened := False\<rparr>"

text \<open>The plays of a batch that are new to the index.\<close>

definition new_plays :: "play_event list \<Rightarrow> int \<Rightarrow> 'x event_log_scheme \<Rightarrow> stored_event list" where
  "new_plays es now s = (if time_value now then fst (take_new (toISOString now) es (seen s)) else [])"

text \<open>What a crash leaves behind the first \<open>n\<close> lines of a write: a prefix of an object is not JSON.\<close>

definition torn_by :: "cut \<Rightarrow> jsval option list \<Rightarrow> nat \<Rightarrow> jsval option option" where
  "torn_by c payload n =
     (if length payload \<le> n then None
      else case c of AfterNewline \<Rightarrow> None | InsideLine \<Rightarrow> Some None | BeforeNewline \<Rightarrow> Some (payload ! n))"

definition crash_outcome :: "play_event list \<Rightarrow> int \<Rightarrow> nat \<Rightarrow> cut \<Rightarrow> 'x event_log_scheme \<Rightarrow> append_outcome" where
  "crash_outcome es now n c s = WroteOnly n (torn_by c (map line_of (new_plays es now s)) n)"

fun log_step :: "log_op \<Rightarrow> event_log \<Rightarrow> event_log" where
  "log_step (Take es now) s = (if opened s then snd (append_events es now Wrote s) else s)"
| "log_step (Take_refused es now) s = (if opened s then snd (append_events es now (WroteOnly 0 None) s) else s)"
| "log_step (Take_crash es now n c) s =
     restart (if opened s then snd (append_events es now (crash_outcome es now n c s) s) else s)"
| "log_step Restart s = restart s"
| "log_step Open s = snd (open_log s)"
| "log_step (Retain age now) s = (if opened s then snd (run (sweep_log None age now) s) else s)"
| "log_step (Machine dirs rms) s = s\<lparr>makes_dirs := dirs, unlinks := rms\<rparr>"

fun plain_op :: "log_op \<Rightarrow> bool" where
  "plain_op (Take es now) = (list_all plain_play es \<and> segment_match (segmentName now) \<noteq> None)"
| "plain_op (Take_refused es now) = (list_all plain_play es \<and> segment_match (segmentName now) \<noteq> None)"
| "plain_op (Take_crash es now n c) = (list_all plain_play es \<and> segment_match (segmentName now) \<noteq> None)"
| "plain_op _ = True"

text \<open>
  The two ways the index and the files part, both only for a batch with a new play: the log
  directory cannot be made, or the file of the day ends in a torn line.
\<close>

fun parts :: "log_op \<Rightarrow> event_log \<Rightarrow> bool" where
  "parts (Take es now) s = (opened s \<and> new_plays es now s \<noteq> []
     \<and> (\<not> makes_dirs s \<or> sg_tail (old_segment s (segmentName now)) \<noteq> None))"
| "parts (Take_refused es now) s = (opened s \<and> new_plays es now s \<noteq> [] \<and> \<not> makes_dirs s)"
| "parts _ s = False"

fun restarts :: "log_op \<Rightarrow> bool" where
  "restarts Restart = True"
| "restarts (Take_crash es now n c) = True"
| "restarts _ = False"

fun intact :: "log_op list \<Rightarrow> bool \<Rightarrow> event_log \<Rightarrow> bool" where
  "intact [] b s = b"
| "intact (op # ops) b s = intact ops (restarts op \<or> b \<and> \<not> parts op s) (log_step op s)"

definition log_live :: "event_log \<Rightarrow> bool" where
  "log_live s = (readable_files s \<and> distinct (map dedupeKey (replay s)) \<and> finite (seen s)
     \<and> (if opened s then dedupeKey ` set (replay s) \<subseteq> seen s else seen s = {}))"

definition exact :: "event_log \<Rightarrow> bool" where
  "exact s = (opened s \<longrightarrow> seen s = dedupeKey ` set (replay s))"

lemma index_segments_seen:
  assumes "\<And>n. n \<in> set names \<Longrightarrow> snd (replaySegment s n)"
  shows "index_segments names s =
    (Inr (), s\<lparr>seen := seen s \<union> dedupeKey ` set (concat (map (\<lambda>n. fst (replaySegment s n)) names))\<rparr>)"
  using assms
proof (induction names arbitrary: s)
  case (Cons n names)
  let ?s = "s\<lparr>seen := seen s \<union> dedupeKey ` set (fst (replaySegment s n))\<rparr>"
  have same: "replaySegment ?s = replaySegment s" by (simp add: replaySegment_def fun_eq_iff)
  have "snd (replaySegment s n)" using Cons.prems by simp
  moreover have "index_segments names ?s = (Inr (), ?s\<lparr>seen := seen ?s
      \<union> dedupeKey ` set (concat (map (\<lambda>n. fst (replaySegment ?s n)) names))\<rparr>)"
    by (rule Cons.IH) (use Cons.prems same in simp)
  ultimately show ?case by (simp add: Let_def split_beta same image_Un Un_assoc)
qed simp

lemma log_ok_open: "log_ok s \<Longrightarrow> log_ok (snd (open_log s)) \<and> opened (snd (open_log s))"
proof (cases "opened s")
  case False
  assume ok: "log_ok s"
  then have "snd (replaySegment s n)" if "n \<in> set (segments s)" for n
    using that by (auto simp: log_ok_def elim: readable_segments)
  then have "index_segments (segments s) s = (Inr (), s\<lparr>seen := seen s \<union> dedupeKey ` set (replay s)\<rparr>)"
    unfolding replay_def by (rule index_segments_seen)
  then have s': "snd (open_log s) = s\<lparr>seen := dedupeKey ` set (replay s), opened := True\<rparr>"
    using ok False by (simp add: open_log_def log_ok_def)
  have "replay (snd (open_log s)) = replay s" unfolding s' by (rule replay_cong) simp_all
  with ok show ?thesis by (simp add: log_ok_def s' sound_files_def)
qed (simp add: open_log_def)

lemma log_ok_refused:
  assumes "log_ok s" "opened s" "append_events es now (WroteOnly 0 None) s = (r, s')"
    "segment_match (segmentName now) \<noteq> None"
  shows "log_ok s'" "opened s'" "mset (replay s') = mset (replay s)"
proof -
  obtain a d k where t: "take_new (toISOString now) es (seen s) = (a, d, k)" by (cases "take_new (toISOString now) es (seen s)")
  note w = take_new_facts [OF t, unfolded taken_well_def]
  have ok: "makes_dirs s" "sound_files s" "distinct (map dedupeKey (replay s))" "seen s = dedupeKey ` set (replay s)"
    using assms(1,2) by (simp_all add: log_ok_def)
  have "log_ok s' \<and> opened s' \<and> mset (replay s') = mset (replay s)"
  proof (cases "\<not> time_value now \<or> a = []")
    case True
    then have "s' = s" using assms(3) t w by (auto simp: append_events_def Let_def split: if_splits)
    with assms(1,2) show ?thesis by simp
  next
    case False
    then have s': "s' = s\<lparr>log_files := append_lines (segmentName now) [] None (log_files s),
        seen := k - dedupeKey ` set a\<rparr>"
      using assms(3) t ok by (simp add: append_events_def Let_def split: if_splits)
    then have f: "log_files s' = append_lines (segmentName now) [] None (log_files s)"
        "lists_dir s' = lists_dir s" by simp_all
    have m: "mset (replay s') = mset (replay s)"
      using mset_replay_append [OF ok(2) f assms(4)] by (simp add: events_in_def List.map_filter_def)
    then have "distinct (map dedupeKey (replay s'))" "set (replay s') = set (replay s)"
      using ok(3) distinct_mset [OF m] by (blast, metis set_mset_mset)
    moreover have "seen s' = seen s" using w by (auto simp: s')
    ultimately show ?thesis
      using sound_append [OF ok(2) f] ok(1,4) assms(2) m by (simp add: log_ok_def s')
  qed
  then show "log_ok s'" "opened s'" "mset (replay s') = mset (replay s)" by simp_all
qed

text \<open>
  Whatever becomes of a write, even a write of part of the batch, the files can be read, and hold at
  most the plays they held and the new ones.
\<close>

lemma crash_lines:
  assumes "\<And>e. e \<in> set acc \<Longrightarrow> plain_play e \<and> ev_id e \<noteq> []"
  shows "mset (events_in (take n (map line_of acc)
      @ (case torn_by c (map line_of acc) n of None \<Rightarrow> [] | Some l \<Rightarrow> [l]))) \<subseteq># mset acc"
proof -
  have lines: "events_in (map line_of xs) = xs" if "set xs \<subseteq> set acc" for xs
    using that assms by (intro events_in_lines) auto
  have whole: "events_in (take m (map line_of acc)) = take m acc" for m
    by (simp add: take_map lines set_take_subset)
  have part: "mset (take m acc) \<subseteq># mset acc" for m
    by (metis append_take_drop_id mset_append mset_subset_eq_add_left)
  show ?thesis
  proof (cases "n < length acc \<and> c = BeforeNewline")
    case True
    then have "take n (map line_of acc) @ [map line_of acc ! n] = take (Suc n) (map line_of acc)"
      by (simp add: take_Suc_conv_app_nth)
    with True show ?thesis
      using whole [of "Suc n"] part [of "Suc n"] by (simp add: torn_by_def del: events_in_append)
  next
    case False
    then have "events_in (case torn_by c (map line_of acc) n of None \<Rightarrow> [] | Some l \<Rightarrow> [l]) = []"
      by (cases c) (auto simp: torn_by_def events_in_def List.map_filter_def)
    then show ?thesis by (simp add: whole part)
  qed
qed

lemma new_plays_facts:
  "distinct (map dedupeKey (new_plays es now s))"
  "dedupeKey ` set (new_plays es now s) \<inter> seen s = {}"
  "list_all plain_play es \<Longrightarrow> e \<in> set (new_plays es now s) \<Longrightarrow> plain_play e \<and> ev_id e \<noteq> []"
proof -
  obtain a d k where t: "take_new (toISOString now) es (seen s) = (a, d, k)"
    by (cases "take_new (toISOString now) es (seen s)")
  have "taken_well (toISOString now) es (seen s) a k" using t by (rule take_new_facts)
  then show "distinct (map dedupeKey (new_plays es now s))"
    "dedupeKey ` set (new_plays es now s) \<inter> seen s = {}"
    "list_all plain_play es \<Longrightarrow> e \<in> set (new_plays es now s) \<Longrightarrow> plain_play e \<and> ev_id e \<noteq> []"
    by (auto simp: new_plays_def t taken_well_def list_all_iff split: if_splits)
qed

text \<open>An append as a change of the state.\<close>

lemma append_run:
  "snd (append_events es now outcome s) =
     (let acc = new_plays es now s; n = segmentName now; old = old_segment s n
      in if acc = [] \<or> \<not> makes_dirs s then s\<lparr>seen := seen s \<union> dedupeKey ` set acc\<rparr>
         else case outcome of
           Wrote \<Rightarrow> s\<lparr>log_files := AList.update n (continue_lines old (map line_of acc) None) (log_files s),
             seen := seen s \<union> dedupeKey ` set acc\<rparr>
         | WroteOnly m torn \<Rightarrow>
             s\<lparr>log_files := AList.update n (continue_lines old (take m (map line_of acc)) torn) (log_files s)\<rparr>)"
proof (cases "time_value now")
  case True
  obtain a d k where t: "take_new (toISOString now) es (seen s) = (a, d, k)"
    by (cases "take_new (toISOString now) es (seen s)")
  have w: "taken_well (toISOString now) es (seen s) a k" using t by (rule take_new_facts)
  then have k: "k = seen s \<union> dedupeKey ` set a" "k - dedupeKey ` set a = seen s"
    by (auto simp: taken_well_def)
  from True t k show ?thesis
    by (simp add: append_events_def new_plays_def append_lines_def old_segment_def Let_def
        split: append_outcome.split)
qed (simp add: append_events_def new_plays_def)

lemma append_live:
  assumes "log_live s" "opened s" "segment_match (segmentName now) \<noteq> None" "list_all plain_play es"
    "outcome = Wrote \<or> outcome = WroteOnly m (torn_by c (map line_of (new_plays es now s)) m)"
    "s' = snd (append_events es now outcome s)"
  shows "readable_files s'" "opened s'" "distinct (map dedupeKey (replay s'))"
    "mset (replay s') \<subseteq># mset (replay s) + mset (new_plays es now s)"
    "seen s' = (if outcome = Wrote \<or> \<not> makes_dirs s
       then seen s \<union> dedupeKey ` set (new_plays es now s) else seen s)"
proof -
  let ?acc = "new_plays es now s" and ?n = "segmentName now"
  have live: "readable_files s" "distinct (map dedupeKey (replay s))" "dedupeKey ` set (replay s) \<subseteq> seen s"
    using assms(1,2) by (simp_all add: log_live_def)
  have plain: "plain_play e \<and> ev_id e \<noteq> []" if "e \<in> set ?acc" for e
    using new_plays_facts(3) [OF assms(4) that] .
  have main: "readable_files s' \<and> mset (replay s') \<subseteq># mset (replay s) + mset ?acc"
  proof (cases "?acc = [] \<or> \<not> makes_dirs s")
    case True
    then have "s' = s\<lparr>seen := seen s \<union> dedupeKey ` set ?acc\<rparr>" by (simp add: assms(6) append_run Let_def)
    then have f: "log_files s' = log_files s" "lists_dir s' = lists_dir s" by simp_all
    from live(1) f replay_cong [OF f] show ?thesis by (simp add: readable_files_def)
  next
    case False
    define new torn where "new = (case outcome of Wrote \<Rightarrow> map line_of ?acc | WroteOnly m _ \<Rightarrow> take m (map line_of ?acc))"
      and "torn = (case outcome of Wrote \<Rightarrow> None | WroteOnly _ torn \<Rightarrow> torn)"
    let ?seg = "continue_lines (old_segment s ?n) new torn"
    have s': "log_files s' = AList.update ?n ?seg (log_files s)" "lists_dir s' = lists_dir s"
      using False by (simp_all add: assms(6) append_run Let_def new_def torn_def split: append_outcome.split)
    have "mset (events_in (new @ (case torn of None \<Rightarrow> [] | Some l \<Rightarrow> [l]))) \<subseteq># mset ?acc"
      using assms(5) crash_lines [of ?acc m c, OF plain] events_in_lines [of ?acc, OF plain]
      by (auto simp: new_def torn_def)
    with continue_read(2) [of "old_segment s ?n" new torn] old_segment_readable [OF live(1)]
    have seg: "mset (fst (readSegment ?seg)) \<subseteq># mset (fst (readSegment (old_segment s ?n))) + mset ?acc"
      by (meson subset_mset.add_left_mono subset_mset.order_trans)
    note up = replay_update [OF live(1) assms(3) continue_read(1) [OF old_segment_readable [OF live(1)]] s']
    from up(2) seg have "mset (replay s') \<subseteq># mset (replay s) + mset ?acc"
      by (smt (verit, best) add.assoc add.commute mset_subset_eq_mono_add_left_cancel)
    with up(1) show ?thesis by simp
  qed
  then show "readable_files s'" "mset (replay s') \<subseteq># mset (replay s) + mset ?acc" by simp_all
  show "opened s'" using assms(2) by (simp add: assms(6) append_run Let_def split: append_outcome.split)
  show "seen s' = (if outcome = Wrote \<or> \<not> makes_dirs s then seen s \<union> dedupeKey ` set ?acc else seen s)"
    by (auto simp: assms(6) append_run Let_def split: append_outcome.split)
  have "distinct (map dedupeKey (replay s @ ?acc))"
  proof -
    have "dedupeKey ` set (replay s) \<inter> dedupeKey ` set ?acc = {}"
      using live(3) new_plays_facts(2) [of es now s] by blast
    with live(2) new_plays_facts(1) [of es now s] show ?thesis by (simp only: map_append distinct_append set_map simp_thms)
  qed
  with mset_sub_distinct [of "replay s'" "replay s @ ?acc" dedupeKey] main
  show "distinct (map dedupeKey (replay s'))" by simp
qed

lemma sub_keys: "mset xs \<subseteq># mset ys + mset zs \<Longrightarrow> f ` set xs \<subseteq> f ` set ys \<union> f ` set zs"
  by (metis image_Un image_mono set_mset_mono set_mset_mset set_mset_union)

lemma finite_seen_append: "finite (seen s) \<Longrightarrow> finite (seen (snd (append_events es now outcome s)))"
  by (simp add: append_run Let_def split: append_outcome.split)

text \<open>A batch taken keeps the index exact unless it is one of those that part index and files.\<close>

lemma take_live:
  assumes "log_live s" "opened s" "segment_match (segmentName now) \<noteq> None" "list_all plain_play es"
    "s' = snd (append_events es now Wrote s)"
  shows "log_live s'" "exact s' \<longleftrightarrow> exact s \<and> \<not> parts (Take es now) s"
proof -
  let ?acc = "new_plays es now s" and ?n = "segmentName now"
  note made = append_live [OF assms(1-4) disjI1 [OF refl] assms(5)]
  have live: "readable_files s" "dedupeKey ` set (replay s) \<subseteq> seen s" "finite (seen s)"
    using assms(1,2) by (simp_all add: log_live_def)
  show "log_live s'"
  proof -
    have "dedupeKey ` set (replay s') \<subseteq> dedupeKey ` set (replay s) \<union> dedupeKey ` set ?acc"
      by (rule sub_keys [OF made(4)])
    also have "\<dots> \<subseteq> seen s'" using made(5) live(2) by (simp add: le_supI1)
    finally have "dedupeKey ` set (replay s') \<subseteq> seen s'" .
    with made(1-3,5) live(3) show ?thesis by (simp add: log_live_def)
  qed
  show "exact s' \<longleftrightarrow> exact s \<and> \<not> parts (Take es now) s"
  proof (cases "?acc = [] \<or> \<not> makes_dirs s")
    case True
    then have s': "s' = s\<lparr>seen := seen s \<union> dedupeKey ` set ?acc\<rparr>" by (simp add: assms(5) append_run Let_def)
    then have f: "log_files s' = log_files s" "lists_dir s' = lists_dir s"
      and own: "seen s' = seen s \<union> dedupeKey ` set ?acc" "opened s' = opened s" by simp_all
    note same = replay_cong [OF f] own
    show ?thesis
    proof (cases ?acc)
      case Nil
      with same show ?thesis by (simp add: exact_def)
    next
      case (Cons e acc)
      have "dedupeKey e \<notin> dedupeKey ` set (replay s)"
        using live(2) new_plays_facts(2) [of es now s] Cons by auto
      moreover have "dedupeKey e \<in> seen s'" using same(2) Cons by simp
      ultimately have "seen s' \<noteq> dedupeKey ` set (replay s')" unfolding same(1) by blast
      with same(3) True Cons assms(2) show ?thesis by (simp add: exact_def)
    qed
  next
    case False
    let ?old = "old_segment s ?n"
    have s': "log_files s' = AList.update ?n (continue_lines ?old (map line_of ?acc) None) (log_files s)"
      "lists_dir s' = lists_dir s"
      using False by (simp_all add: assms(5) append_run Let_def)
    note old = old_segment_readable [OF live(1)]
    note up = replay_update(2) [OF live(1) assms(3) continue_read(1) [OF old] s']
    have lines: "events_in (map line_of xs) = xs" if "set xs \<subseteq> set ?acc" for xs
      using that new_plays_facts(3) [OF assms(4)] by (intro events_in_lines) auto
    obtain e acc where acc: "?acc = e # acc" using False by (cases ?acc) auto
    show ?thesis
    proof (cases "sg_tail (old_segment s ?n) = None")
      case True
      with continue_read(4) [OF old True] up lines [of ?acc]
      have "mset (replay s') = mset (replay s @ ?acc)" by simp
      then have "set (replay s') = set (replay s) \<union> set ?acc" by (metis set_append set_mset_mset)
      then have "seen s' = dedupeKey ` set (replay s') \<longleftrightarrow>
          seen s \<union> dedupeKey ` set ?acc = dedupeKey ` set (replay s) \<union> dedupeKey ` set ?acc"
        using made(5) by (simp add: image_Un)
      also have "\<dots> \<longleftrightarrow> seen s = dedupeKey ` set (replay s)"
        using live(2) new_plays_facts(2) [of es now s] by blast
      finally show ?thesis
        using True False made(2) assms(2) by (simp add: exact_def)
    next
      case torn: False
      have "mset (fst (readSegment (continue_lines ?old (map line_of ?acc) None)))
          \<subseteq># mset (fst (readSegment ?old)) + mset acc"
        using continue_read(3) [OF old torn, of "line_of e" "map line_of acc"] lines [of acc] unfolding acc
        by (simp add: subset_insertI)
      with up have "mset (replay s') \<subseteq># mset (replay s) + mset acc"
        by (smt (verit, best) add.assoc add.commute mset_subset_eq_mono_add_left_cancel)
      then have "dedupeKey ` set (replay s') \<subseteq> dedupeKey ` set (replay s) \<union> dedupeKey ` set acc"
        by (rule sub_keys)
      then have "dedupeKey e \<notin> dedupeKey ` set (replay s')"
        using live(2) new_plays_facts(1,2) [of es now s] acc by auto
      with torn False made(2,5) acc assms(2) show ?thesis by (auto simp: exact_def)
    qed
  qed
qed

lemma refused_live:
  assumes "log_live s" "opened s" "segment_match (segmentName now) \<noteq> None" "list_all plain_play es"
    "s' = snd (append_events es now (WroteOnly 0 None) s)"
  shows "log_live s'" "exact s' \<longleftrightarrow> exact s \<and> \<not> parts (Take_refused es now) s"
proof -
  let ?acc = "new_plays es now s" and ?n = "segmentName now"
  have live: "readable_files s" "distinct (map dedupeKey (replay s))" "finite (seen s)"
    "dedupeKey ` set (replay s) \<subseteq> seen s"
    using assms(1,2) by (simp_all add: log_live_def)
  have "log_live s' \<and> (exact s' \<longleftrightarrow> exact s \<and> \<not> parts (Take_refused es now) s)"
  proof (cases "?acc = [] \<or> \<not> makes_dirs s")
    case True
    then have "s' = snd (append_events es now Wrote s)"
      "parts (Take_refused es now) s = parts (Take es now) s"
      by (auto simp: assms(5) append_run Let_def)
    with take_live [OF assms(1-4)] show ?thesis by simp
  next
    case False
    then have s': "log_files s' = AList.update ?n (continue_lines (old_segment s ?n) [] None) (log_files s)"
      "lists_dir s' = lists_dir s" "seen s' = seen s" "opened s'"
      using assms(2) by (simp_all add: assms(5) append_run Let_def)
    have "continue_lines (old_segment s ?n) [] None = old_segment s ?n"
      by (simp add: continue_lines_def split: option.split)
    with replay_update [OF live(1) assms(3) continue_read(1) [OF old_segment_readable [OF live(1)]] s'(1,2)]
    have m: "mset (replay s') = mset (replay s)" and r: "readable_files s'" by simp_all
    have "distinct (map dedupeKey (replay s'))" "set (replay s') = set (replay s)"
      using live(2) distinct_mset [OF m, of dedupeKey] m by (simp, metis set_mset_mset)
    with live r s'(3,4) assms(2) False show ?thesis by (simp add: log_live_def exact_def)
  qed
  then show "log_live s'" "exact s' \<longleftrightarrow> exact s \<and> \<not> parts (Take_refused es now) s" by simp_all
qed

lemma unlink_live:
  assumes "log_live s" "opened s" "map_of (log_files s) name = Some seg" "segment_match name \<noteq> None"
    "unlink name (fst (replaySegment s name)) s = (r, s')"
  shows "log_live s'" "opened s'" "exact s' \<longleftrightarrow> exact s"
proof -
  let ?gone = "fst (replaySegment s name)"
  have live: "readable_files s" "distinct (map dedupeKey (replay s))" "finite (seen s)"
    "dedupeKey ` set (replay s) \<subseteq> seen s"
    using assms(1,2) by (simp_all add: log_live_def)
  have "log_live s' \<and> opened s' \<and> (exact s' \<longleftrightarrow> exact s)"
  proof (cases "unlinks s")
    case True
    with assms(5) have s': "s' = s\<lparr>log_files := AList.delete name (log_files s), seen := seen s - dedupeKey ` set ?gone\<rparr>"
      by (simp add: unlink_def)
    have d: "distinct (map fst (log_files s))" "lists_dir s" using live(1) by (simp_all add: readable_files_def)
    have "set (AList.delete name (log_files s)) \<subseteq> set (log_files s)" by (auto simp: AList.delete_eq)
    then have r: "readable_files s'"
      using live(1) d distinct_delete [OF d(1)] unfolding s' readable_files_def by auto
    then have "mset (replay s') = mset (concat (map file_events (log_files s')))"
      by (simp add: readable_files_def mset_replay)
    moreover have "file_events (name, seg) = ?gone" using assms(3,4) by (simp add: file_events_def replaySegment_def)
    ultimately have m: "mset (replay s) = mset (replay s' @ ?gone)"
      using mset_files_delete [OF d(1), of name] mset_replay [OF d] assms(3) by (simp add: s')
    then have "set (replay s) = set (replay s') \<union> set ?gone" by (metis set_append set_mset_mset)
    then have keys: "dedupeKey ` set (replay s) = dedupeKey ` set (replay s') \<union> dedupeKey ` set ?gone"
      by (simp only: image_Un)
    from live(2) distinct_mset [OF m, of dedupeKey] have "distinct (map dedupeKey (replay s' @ ?gone))" by (simp only:)
    then have apart: "dedupeKey ` set (replay s') \<inter> dedupeKey ` set ?gone = {}"
      and own: "distinct (map dedupeKey (replay s'))"
      by (simp_all only: map_append distinct_append set_map)
    have "dedupeKey ` set (replay s') \<subseteq> seen s - dedupeKey ` set ?gone"
      using live(4) apart unfolding keys by blast
    moreover have "seen s - dedupeKey ` set ?gone = dedupeKey ` set (replay s')
        \<longleftrightarrow> seen s = dedupeKey ` set (replay s)"
      using live(4) apart unfolding keys by blast
    moreover have "seen s' = seen s - dedupeKey ` set ?gone" "opened s'" using assms(2) by (simp_all add: s')
    ultimately show ?thesis using r own live(3) assms(2) by (simp add: log_live_def exact_def)
  next
    case False
    with assms show ?thesis by (simp add: unlink_def)
  qed
  then show "log_live s'" "opened s'" "exact s' \<longleftrightarrow> exact s" by simp_all
qed

lemma sweep_live:
  assumes "log_live s" "opened s" "distinct names" "\<And>n. n \<in> set names \<Longrightarrow> n \<in> set (segments s)"
  shows "log_live (snd (run (sweep_segments cutoff (\<lambda>_ _. give ()) names r) s))
    \<and> (exact (snd (run (sweep_segments cutoff (\<lambda>_ _. give ()) names r) s)) \<longleftrightarrow> exact s)"
  using assms
proof (induction names arbitrary: s r)
  case (Cons n names)
  show ?case
  proof (cases "expired cutoff n")
    case False
    with Cons show ?thesis by simp
  next
    case True
    let ?gone = "fst (replaySegment s n)"
    let ?r = "r\<lparr>sw_segments := sw_segments r @ [n], sw_events := sw_events r + length ?gone\<rparr>"
    obtain u s' where u: "unlink n ?gone s = (u, s')" by fastforce
    have "readable_files s" "n \<in> set (segments s)" using Cons.prems by (simp_all add: log_live_def)
    then obtain seg where "map_of (log_files s) n = Some seg" "segment_match n \<noteq> None"
      by (rule listed_segments)
    note k = unlink_live [OF Cons.prems(1,2) this u]
    have keep: "x \<in> set (segments s')" if "x \<in> set names" for x
    proof -
      have "x \<noteq> n" "x \<in> set (segments s)" using that Cons.prems(3,4) by auto
      then show ?thesis using u by (auto simp: unlink_def segments_def AList.delete_eq image_iff split: if_splits)
    qed
    have start: "run (sweep_segments cutoff (\<lambda>_ _. give ()) (n # names) r) s =
        (case u of Inl e \<Rightarrow> (Inl e, s') | Inr _ \<Rightarrow> run (sweep_segments cutoff (\<lambda>_ _. give ()) names ?r) s')"
      using True u by (simp add: run_chain run_attempt split: sum.split)
    have "log_live (snd (run (sweep_segments cutoff (\<lambda>_ _. give ()) names ?r) s'))
      \<and> (exact (snd (run (sweep_segments cutoff (\<lambda>_ _. give ()) names ?r) s')) \<longleftrightarrow> exact s')"
      by (rule Cons.IH) (use k keep Cons.prems(3) in auto)
    with k show ?thesis unfolding start by (auto split: sum.split)
  qed
qed simp

lemma restart_live:
  "readable_files s \<Longrightarrow> distinct (map dedupeKey (replay s)) \<Longrightarrow> log_live (restart s) \<and> exact (restart s)"
  using replay_cong [of "restart s" s] by (simp add: log_live_def exact_def restart_def readable_files_def)

lemma open_live:
  assumes "log_live s"
  shows "log_live (snd (open_log s))" "exact (snd (open_log s)) \<longleftrightarrow> exact s"
proof -
  have "log_live (snd (open_log s)) \<and> (exact (snd (open_log s)) \<longleftrightarrow> exact s)"
  proof (cases "opened s \<or> \<not> makes_dirs s")
    case True
    with assms show ?thesis by (auto simp: open_log_def)
  next
    case False
    have "snd (replaySegment s n)" if "n \<in> set (segments s)" for n
      using assms that by (auto simp: log_live_def elim: listed_segments)
    then have "index_segments (segments s) s = (Inr (), s\<lparr>seen := seen s \<union> dedupeKey ` set (replay s)\<rparr>)"
      unfolding replay_def by (rule index_segments_seen)
    then have s': "snd (open_log s) = s\<lparr>seen := dedupeKey ` set (replay s), opened := True\<rparr>"
      using assms False by (simp add: open_log_def log_live_def)
    have "replay (snd (open_log s)) = replay s" unfolding s' by (rule replay_cong) simp_all
    with assms False show ?thesis by (simp add: log_live_def exact_def s' readable_files_def)
  qed
  then show "log_live (snd (open_log s))" "exact (snd (open_log s)) \<longleftrightarrow> exact s" by simp_all
qed

lemma log_live_step:
  assumes "log_live s" "plain_op op"
  shows "log_live (log_step op s)" "exact (log_step op s) \<longleftrightarrow> restarts op \<or> exact s \<and> \<not> parts op s"
proof -
  have "log_live (log_step op s) \<and> (exact (log_step op s) \<longleftrightarrow> restarts op \<or> exact s \<and> \<not> parts op s)"
  proof (cases op)
    case (Take es now)
    with assms take_live [of s now es] show ?thesis by simp
  next
    case (Take_refused es now)
    with assms refused_live [of s now es] show ?thesis by simp
  next
    case (Take_crash es now n c)
    have "readable_files s" "distinct (map dedupeKey (replay s))" using assms(1) by (simp_all add: log_live_def)
    moreover have "log_live (restart (snd (append_events es now (crash_outcome es now n c s) s)))
        \<and> exact (restart (snd (append_events es now (crash_outcome es now n c s) s)))" if "opened s"
      using assms Take_crash that append_live [OF assms(1) that, of now es "crash_outcome es now n c s" n c]
      by (intro restart_live) (simp_all add: crash_outcome_def)
    ultimately show ?thesis using Take_crash restart_live [of s] by simp
  next
    case Restart
    with assms restart_live [of s] show ?thesis by (simp add: log_live_def)
  next
    case Open
    with open_live [OF assms(1)] show ?thesis by simp
  next
    case (Retain age now)
    have "distinct (segments s)" using assms(1) by (simp add: segments_def log_live_def readable_files_def)
    with Retain assms sweep_live [of s "segments s"] show ?thesis by (simp add: sweep_log_def run_chain)
  next
    case (Machine dirs rms)
    have "replay (s\<lparr>makes_dirs := dirs, unlinks := rms\<rparr>) = replay s" by (rule replay_cong) simp_all
    with Machine assms show ?thesis by (simp add: log_live_def exact_def readable_files_def)
  qed
  then show "log_live (log_step op s)" "exact (log_step op s) \<longleftrightarrow> restarts op \<or> exact s \<and> \<not> parts op s"
    by simp_all
qed

lemma log_live_life:
  "log_live s \<Longrightarrow> list_all plain_op ops \<Longrightarrow> log_live (fold log_step ops s)"
  "log_live s \<Longrightarrow> list_all plain_op ops \<Longrightarrow> exact (fold log_step ops s) \<longleftrightarrow> intact ops (exact s) s"
  by (induction ops arbitrary: s) (simp_all add: log_live_step)

lemma take_new_known:
  "(\<And>e. e \<in> set es \<Longrightarrow> ev_id e \<noteq> [] \<Longrightarrow> dedupeKey e \<in> known) \<Longrightarrow>
     take_new t es known = ([], map ev_id (filter (\<lambda>e. ev_id e \<noteq> []) es), known)"
  by (induction es) auto

lemma take_new_split:
  "take_new t es known = (acc, dup, known') \<Longrightarrow>
     mset (map ev_id acc) + mset dup = mset (map ev_id (filter (\<lambda>e. ev_id e \<noteq> []) es))"
  by (induction t es known arbitrary: acc dup known' rule: take_new.induct)
    (auto split: if_splits prod.splits)

text \<open>
  C22. Whatever a log goes through - batches taken, refused whole, or cut short by a crash between two
  lines, inside a line or just before a newline; restarts; retention; a disk where directories
  cannot be made or files unlinked for a while - every play is in it at most once, and an open index
  knows every play a replay finds, so none is taken twice. The index is exact - it counts the plays
  of a replay and answers for them and no others - precisely when, since the process started, no new
  play was taken onto a torn last line or while the log directory could not be made; in those two
  cases it goes on answering for plays the log does not hold, until a restart
  (\<open>torn_line_swallows_play\<close>, \<open>failed_mkdir_keeps_ids\<close>). The log starts as \<open>log_live\<close> says: its
  files can be listed and read, hold every play once, and an open index knows them. It is opened
  before anything else, as its comment asks, its files stay readable, plays are as the ingest guard
  lets them through, and a write that fails while the process goes on has written nothing: see
  \<open>short_write_is_taken_again\<close>.
\<close>

theorem log_index_exact:
  fixes s0 :: event_log
  assumes "log_live s0" "list_all plain_op ops" "s = fold log_step ops s0"
  shows "distinct (map dedupeKey (replay s))
    \<and> (opened s \<longrightarrow> (\<forall>x \<in> set (replay s). has_event s x)
         \<and> (log_size s = length (replay s) \<longleftrightarrow> intact ops (exact s0) s0)
         \<and> (intact ops (exact s0) s0 \<longrightarrow>
              (has_event s (e :: play_event) \<longleftrightarrow> (\<exists>x \<in> set (replay s). dedupeKey x = dedupeKey e))))"
proof -
  have live: "log_live s" and ex: "opened s \<Longrightarrow> intact ops (exact s0) s0 \<longleftrightarrow> seen s = dedupeKey ` set (replay s)"
    using log_live_life [OF assms(1,2)] by (simp_all add: assms(3) exact_def)
  have "card (dedupeKey ` set (replay s)) = length (replay s)"
    using live by (metis distinct_card length_map list.set_map log_live_def)
  moreover have "card (seen s) = card (dedupeKey ` set (replay s)) \<longleftrightarrow> seen s = dedupeKey ` set (replay s)"
    if "opened s"
    using live that card_subset_eq [of "seen s" "dedupeKey ` set (replay s)"] by (auto simp: log_live_def)
  moreover have "k \<in> dedupeKey ` set (replay s) \<longleftrightarrow> (\<exists>x \<in> set (replay s). dedupeKey x = k)" for k by auto
  moreover have "distinct (map dedupeKey (replay s))" "opened s \<Longrightarrow> dedupeKey ` set (replay s) \<subseteq> seen s"
    using live by (simp_all add: log_live_def)
  ultimately show ?thesis
    by (cases "opened s") (auto simp: ex log_size_def has_event_def image_subset_iff)
qed

section \<open>Retries\<close>

text \<open>
  Taking a batch sorts its plays into accepted and duplicate, and sending the same batch again,
  after a lost answer, finds every play of it a duplicate and leaves the log as it is.
\<close>

lemma retried_batch_is_duplicate:
  assumes "append_events es now outcome s = (Inr (acc, dup), s')" "time_value again"
  shows "mset (map ev_id acc) + mset dup = mset (map ev_id (filter (\<lambda>e. ev_id e \<noteq> []) es))
    \<and> append_events es again outcome' s' = (Inr ([], map ev_id (filter (\<lambda>e. ev_id e \<noteq> []) es)), s')"
proof -
  obtain a d k where t: "take_new (toISOString now) es (seen s) = (a, d, k)" by (cases "take_new (toISOString now) es (seen s)")
  have r: "a = acc" "d = dup" "seen s' = k"
    using assms(1) t by (auto simp: append_events_def Let_def split: if_splits append_outcome.splits)
  have "dedupeKey e \<in> k" if "e \<in> set es" "ev_id e \<noteq> []" for e
    using take_new_facts [OF t] that by (auto simp: taken_well_def)
  then have "take_new (toISOString again) es k = ([], map ev_id (filter (\<lambda>e. ev_id e \<noteq> []) es), k)"
    by (rule take_new_known)
  moreover have "s'\<lparr>seen := k\<rparr> = s'" using r(3) by simp
  ultimately show ?thesis
    using assms(2) r take_new_split [OF t] by (simp add: append_events_def)
qed

text \<open>
  A write that fails part way while the process goes on: the index forgets the whole batch, although
  the lines that were written are in the log, so the retry takes those plays a second time.
\<close>

lemma short_write_is_taken_again:
  assumes "readable_files s" "makes_dirs s" "new_plays es now s = acc" "acc \<noteq> []" "list_all plain_play es"
    "segment_match (segmentName now) \<noteq> None" "sg_tail (old_segment s (segmentName now)) = None"
    "s' = snd (append_events es now (WroteOnly n None) s)"
  shows "mset (replay s') = mset (replay s) + mset (take n acc) \<and> seen s' = seen s
    \<and> new_plays es now s' = acc"
proof -
  let ?n = "segmentName now"
  let ?seg = "continue_lines (old_segment s ?n) (take n (map line_of acc)) None"
  note old = old_segment_readable [OF assms(1)]
  have s': "log_files s' = AList.update ?n ?seg (log_files s)" "lists_dir s' = lists_dir s" "seen s' = seen s"
    using assms(2,4) by (simp_all add: assms(8) append_run Let_def assms(3))
  have "events_in (map line_of (take n acc)) = take n acc"
    using new_plays_facts(3) [OF assms(5), of _ now s] assms(3)
    by (intro events_in_lines) (auto dest: in_set_takeD)
  with continue_read(4) [OF old assms(7)] have "fst (readSegment ?seg) = fst (readSegment (old_segment s ?n)) @ take n acc"
    by (simp add: take_map)
  with replay_update(2) [OF assms(1,6) continue_read(1) [OF old] s'(1,2)] s'(3) assms(3) show ?thesis
    by (auto simp: new_plays_def)
qed

text \<open>
  The two ways the index and the log part: a directory that could not be made leaves the ids of the
  batch in the index, so the retry is told that they are held; and what continues a torn line is
  accepted, indexed and lost.
\<close>

lemma failed_mkdir_keeps_ids:
  assumes "time_value now" "take_new (toISOString now) es (seen s) = (acc, dup, known)" "acc \<noteq> []" "\<not> makes_dirs s"
  shows "append_events es now outcome s = (Inl MkdirFailed, s\<lparr>seen := known\<rparr>)
    \<and> append_events es now outcome' (s\<lparr>seen := known, makes_dirs := True\<rparr>)
      = (Inr ([], map ev_id (filter (\<lambda>e. ev_id e \<noteq> []) es)), s\<lparr>seen := known, makes_dirs := True\<rparr>)"
proof -
  have "take_new (toISOString now) es known = ([], map ev_id (filter (\<lambda>e. ev_id e \<noteq> []) es), known)"
    using take_new_facts [OF assms(2)] by (intro take_new_known) (auto simp: taken_well_def)
  with assms show ?thesis by (simp add: append_events_def Let_def)
qed

lemma torn_line_swallows_play:
  assumes "sg_tail seg = Some torn" "sg_broken seg = None"
  shows "fst (readSegment (continue_lines seg (map line_of (e # es)) None))
    = events_in (sg_lines seg) @ events_in (map line_of es)"
  using assms
  by (simp add: continue_lines_def readSegment_def segment_lines_def events_in_def List.map_filter_def)

section \<open>Examples\<close>

definition ex_play :: play_event where
  "ex_play = \<lparr>ev_id = js ''p1'', ev_recordingUrl = js ''automerge:4'', ev_completion = Finite False [5] 0,
     ev_occurredAt = js ''1970-01-01'', ev_deviceId = Some (js ''phone'')\<rparr>"

definition empty_log :: event_log where
  "empty_log = \<lparr>log_files = [], makes_dirs = True, lists_dir = True, unlinks = True, seen = {}, opened = False\<rparr>"

lemma empty_log_ok: "log_ok empty_log"
  by (simp add: log_ok_def empty_log_def sound_files_def replay_def segments_def)

lemma segment_of_epoch: "segmentName 0 = js ''1970-01-01.ndjson''"
  by code_simp

lemma match_of_epoch: "segment_match (js ''1970-01-01.ndjson'') = Some (1970, 1, 1)"
  by code_simp

lemma empty_log_live: "log_live empty_log" "exact empty_log"
  by (simp_all add: log_live_def exact_def empty_log_def readable_files_def replay_def segments_def)

text \<open>
  A crash inside the first line of a batch, then the retry, which is taken onto the torn line; and
  after the next start once more.
\<close>

definition ex_torn_life :: "log_op list" where
  "ex_torn_life = [Open, Take_crash [ex_play] 0 0 InsideLine, Open, Take [ex_play] 0, Restart, Open, Take [ex_play] 0]"

abbreviation day_log :: "jsval option list \<Rightarrow> jsval option option \<Rightarrow> jstr set \<Rightarrow> bool \<Rightarrow> event_log" where
  "day_log ls torn known up \<equiv> \<lparr>log_files = [(segmentName 0, \<lparr>sg_lines = ls, sg_tail = torn, sg_broken = None\<rparr>)],
     makes_dirs = True, lists_dir = True, unlinks = True, seen = known, opened = up\<rparr>"

lemma day_steps:
  "log_step Open (day_log ls torn {} False) = day_log ls torn
     (dedupeKey ` set (events_in (ls @ (case torn of None \<Rightarrow> [] | Some l \<Rightarrow> [l])))) True"
  "log_step Restart (day_log ls torn known up) = day_log ls torn {} False"
  "log_step (Take [ex_play] 0) (day_log ls torn {} True) =
     day_log (ls @ [if torn = None then line_of (stamped (toISOString 0) ex_play) else None]) None {dedupeKey ex_play} True"
  "new_plays [ex_play] 0 (day_log ls torn {} True) = [stamped (toISOString 0) ex_play]"
  "log_step Open empty_log = empty_log\<lparr>opened := True\<rparr>"
  "log_step (Take_crash [ex_play] 0 0 InsideLine) (empty_log\<lparr>opened := True\<rparr>) = day_log [] (Some None) {} False"
proof -
  have new: "new_plays [ex_play] 0 s = [stamped (toISOString 0) ex_play]" if "seen s = {}" for s :: event_log
    using that by (simp add: new_plays_def time_value_def ex_play_def)
  then show "new_plays [ex_play] 0 (day_log ls torn {} True) = [stamped (toISOString 0) ex_play]" by simp
  show "log_step Restart (day_log ls torn known up) = day_log ls torn {} False" by (simp add: restart_def)
  show "log_step Open (day_log ls torn {} False) = day_log ls torn
     (dedupeKey ` set (events_in (ls @ (case torn of None \<Rightarrow> [] | Some l \<Rightarrow> [l])))) True"
    by (simp add: open_log_def segments_def segment_of_epoch match_of_epoch replaySegment_def readSegment_def
        segment_lines_def and_then_def)
  show "log_step (Take [ex_play] 0) (day_log ls torn {} True) =
     day_log (ls @ [if torn = None then line_of (stamped (toISOString 0) ex_play) else None]) None {dedupeKey ex_play} True"
    by (cases torn) (simp_all add: append_run new Let_def old_segment_def continue_lines_def)
  show "log_step Open empty_log = empty_log\<lparr>opened := True\<rparr>"
    by (simp add: open_log_def segments_def empty_log_def and_then_def)
  show "log_step (Take_crash [ex_play] 0 0 InsideLine) (empty_log\<lparr>opened := True\<rparr>) = day_log [] (Some None) {} False"
    by (simp add: append_run new Let_def old_segment_def continue_lines_def crash_outcome_def torn_by_def
      restart_def empty_log_def empty_segment_def)
qed

lemma ex_torn_life_run:
  "fold log_step ex_torn_life empty_log
     = day_log [None, line_of (stamped (toISOString 0) ex_play)] None {dedupeKey ex_play} True"
  "intact ex_torn_life True empty_log" "\<not> intact (take 4 ex_torn_life) True empty_log"
  by (simp_all add: ex_torn_life_def day_steps events_in_Cons old_segment_def del: log_step.simps)

text \<open>The index was not exact after the retry, and is again after the restart.\<close>

lemma log_index_exact_witness:
  "let s = fold log_step ex_torn_life empty_log
   in opened s \<and> distinct (map dedupeKey (replay s)) \<and> log_size s = length (replay s)
     \<and> has_event s ex_play \<and> (\<exists>x \<in> set (replay s). dedupeKey x = dedupeKey ex_play)
     \<and> \<not> intact (take 4 ex_torn_life) True empty_log"
proof -
  have "list_all plain_op ex_torn_life"
    by (simp add: ex_torn_life_def plain_play_def ex_play_def isFinite_def plain_zero_def segment_of_epoch match_of_epoch)
  from log_index_exact [OF empty_log_live(1) this refl, of ex_play]
  have "distinct (map dedupeKey (replay (fold log_step ex_torn_life empty_log)))
      \<and> log_size (fold log_step ex_torn_life empty_log) = length (replay (fold log_step ex_torn_life empty_log))
      \<and> (has_event (fold log_step ex_torn_life empty_log) ex_play
         \<longleftrightarrow> (\<exists>x \<in> set (replay (fold log_step ex_torn_life empty_log)). dedupeKey x = dedupeKey ex_play))"
    unfolding empty_log_live(2) [THEN eqTrueI] using ex_torn_life_run by (metis event_log.select_convs(6))
  moreover have "opened (fold log_step ex_torn_life empty_log)" "has_event (fold log_step ex_torn_life empty_log) ex_play"
    by (simp_all add: ex_torn_life_run(1) has_event_def)
  ultimately show ?thesis
    unfolding Let_def using ex_torn_life_run(3) by blast
qed

lemma retried_batch_is_duplicate_witness:
  "\<exists>s'. append_events [ex_play] 0 Wrote empty_log = (Inr ([stamped (toISOString 0) ex_play], []), s')
     \<and> append_events [ex_play] 0 Wrote s' = (Inr ([], [js ''p1'']), s')"
proof -
  obtain s' where a: "append_events [ex_play] 0 Wrote empty_log = (Inr ([stamped (toISOString 0) ex_play], []), s')"
    by (simp add: append_events_def time_value_def empty_log_def ex_play_def Let_def)
  have "time_value 0" by (simp add: time_value_def)
  from a retried_batch_is_duplicate [OF a this, of Wrote] show ?thesis by (auto simp: ex_play_def)
qed

end
