(* ===== verification/Aggregates.thy ===== *)
theory Aggregates
  imports Event_Log
begin

text \<open>
  Per-recording playback numbers, \<^verbatim>\<open>aggregates.ts\<close>: totals folded from the event log, the frozen
  baseline for events retention has deleted, the rollup that answers reads, and the sweep that folds
  a day segment into the baseline before the log unlinks it.

  The state extends the log's with the baseline file and the store's variables. Addition and division
  of doubles are parameters; the proofs use two laws of IEEE addition (\<open>add_ok\<close>). Each stretch of the
  sweep ends in one change of the disk, so a crash finds the disk as one of the stretches left it:
  the temporary file before the rename is never read.
\<close>

section \<open>Totals\<close>

record totals =
  plays :: jsnum
  completionSum :: jsnum

record recording_aggregate =
  ra_recordingUrl :: jstr
  ra_plays :: jsnum
  ra_averageCompletion :: jsnum

record float_ops =
  fl_add :: "jsnum \<Rightarrow> jsnum \<Rightarrow> jsnum"
  fl_div :: "jsnum \<Rightarrow> jsnum \<Rightarrow> jsnum"

definition num_one :: jsnum where
  "num_one = Finite False [1] 1"

definition emptyTotals :: totals where
  "emptyTotals = \<lparr>plays = Zero False, completionSum = Zero False\<rparr>"

text \<open>\<open>Math.min(1, Math.max(0, x))\<close>.\<close>

definition clamp_unit :: "jsnum \<Rightarrow> jsnum" where
  "clamp_unit x = (case x of
     NaN \<Rightarrow> NaN
   | Infinite neg \<Rightarrow> if neg then Zero False else num_one
   | Zero _ \<Rightarrow> Zero False
   | Finite neg ds n \<Rightarrow> if neg then Zero False else if 1 \<le> n then num_one else x)"

definition fold_event :: "float_ops \<Rightarrow> totals \<Rightarrow> stored_event \<Rightarrow> totals" where
  "fold_event fl t e =
     (let completion = (if isFinite (ev_completion e) then clamp_unit (ev_completion e) else Zero False)
      in \<lparr>plays = fl_add fl (plays t) num_one, completionSum = fl_add fl (completionSum t) completion\<rparr>)"

type_synonym totals_map = "(jstr \<times> totals) list"

definition totals_of :: "totals_map \<Rightarrow> jstr \<Rightarrow> totals" where
  "totals_of m url = (case map_of m url of None \<Rightarrow> emptyTotals | Some t \<Rightarrow> t)"

definition add_totals :: "float_ops \<Rightarrow> totals_map \<Rightarrow> jstr \<Rightarrow> totals \<Rightarrow> totals_map" where
  "add_totals fl into url t =
     (let current = totals_of into url
      in AList.update url \<lparr>plays = fl_add fl (plays current) (plays t),
           completionSum = fl_add fl (completionSum current) (completionSum t)\<rparr> into)"

definition toAggregate :: "float_ops \<Rightarrow> jstr \<Rightarrow> totals \<Rightarrow> recording_aggregate" where
  "toAggregate fl url t = \<lparr>ra_recordingUrl = url, ra_plays = plays t,
     ra_averageCompletion =
       (if num_eq (plays t) (Zero False) then Zero False else fl_div fl (completionSum t) (plays t))\<rparr>"

definition fold_into :: "float_ops \<Rightarrow> stored_event \<Rightarrow> totals_map \<Rightarrow> totals_map" where
  "fold_into fl e m =
     AList.update (ev_recordingUrl e) (fold_event fl (totals_of m (ev_recordingUrl e)) e) m"

definition deriveAggregates :: "float_ops \<Rightarrow> stored_event list \<Rightarrow> totals_map \<Rightarrow> totals_map" where
  "deriveAggregates fl events seed = fold (fold_into fl) events (fold (\<lambda>(url, t) m. add_totals fl m url t) seed [])"

section \<open>The store\<close>

record aggregate_state = event_log +
  baseline_file :: disk_file
  saves :: bool
  baseline :: totals_map
  foldedSegments :: "jstr list"
  rollup :: totals_map
  agg_opened :: bool

definition BASELINE_VERSION :: jsnum where
  "BASELINE_VERSION = num_one"

text \<open>\<open>Object.entries\<close>, as far as an entry can be one of totals, and \<open>for ... of\<close> over a JSON value.\<close>

definition object_entries :: "jsval \<Rightarrow> (jstr \<times> jsval) list" where
  "object_entries v = (case v of
     JObject ps \<Rightarrow> ps
   | JArray vs \<Rightarrow> zip (map (\<lambda>i. digits_text (decimal i)) [0..<length vs]) vs
   | _ \<Rightarrow> [])"

fun text_points :: "jstr \<Rightarrow> jstr list" where
  "text_points [] = []"
| "text_points (u # us) =
     (if high_surrogate u \<and> us \<noteq> [] \<and> low_surrogate (hd us) then [u, hd us] # text_points (tl us)
      else [u] # text_points us)"

definition iterate :: "jsval \<Rightarrow> jsval list option" where
  "iterate v = (case v of
     JUndefined \<Rightarrow> Some [] | JNull \<Rightarrow> Some []
   | JArray vs \<Rightarrow> Some vs
   | JString t \<Rightarrow> Some (map JString (text_points t))
   | _ \<Rightarrow> None)"

definition read_totals :: "jstr \<times> jsval \<Rightarrow> (jstr \<times> totals) option" where
  "read_totals = (\<lambda>(url, v).
     case (as_number (field v ''plays''), as_number (field v ''completionSum'')) of
       (Some p, Some c) \<Rightarrow>
         if url \<noteq> [] \<and> isFinite p \<and> isFinite c then Some (url, \<lparr>plays = p, completionSum = c\<rparr>) else None
     | _ \<Rightarrow> None)"

definition set_all :: "(jstr \<times> 'v) list \<Rightarrow> (jstr \<times> 'v) list" where
  "set_all ps = fold (\<lambda>(k, v). AList.update k v) ps []"

definition add_name :: "jstr \<Rightarrow> jstr list \<Rightarrow> jstr list" where
  "add_name n ns = (if n \<in> set ns then ns else ns @ [n])"

definition readBaseline :: "('x aggregate_state_scheme, log_error, unit) eff" where
  "readBaseline = (\<lambda>s.
     let s' = s\<lparr>baseline := [], foldedSegments := []\<rparr>
     in case baseline_file s of
          Holds file \<Rightarrow>
            (case as_number (field file ''version'') of
               None \<Rightarrow> (Inr (), s')
             | Some v \<Rightarrow>
                 if \<not> num_eq v BASELINE_VERSION then (Inr (), s')
                 else
                   let s'' = s'\<lparr>baseline :=
                     set_all (List.map_filter read_totals (object_entries (field file ''recordings'')))\<rparr>
                   in case iterate (field file ''foldedSegments'') of
                        None \<Rightarrow> (Inl FoldedNotIterable, s'')
                      | Some names \<Rightarrow>
                          (Inr (), s''\<lparr>foldedSegments := fold add_name (List.map_filter as_string names) []\<rparr>))
        | _ \<Rightarrow> (Inr (), s'))"

definition totals_value :: "totals \<Rightarrow> jsval" where
  "totals_value t = JObject [(js ''plays'', JNumber (plays t)), (js ''completionSum'', JNumber (completionSum t))]"

definition baseline_value :: "jstr \<Rightarrow> 'x aggregate_state_scheme \<Rightarrow> jsval" where
  "baseline_value stamp s = JObject
     [(js ''version'', JNumber BASELINE_VERSION), (js ''updatedAt'', JString stamp),
      (js ''foldedSegments'', JArray (map JString (sort (foldedSegments s)))),
      (js ''recordings'', JObject (map (\<lambda>(url, t). (url, totals_value t)) (baseline s)))]"

definition writeBaseline :: "jstr \<Rightarrow> ('x aggregate_state_scheme, log_error, unit) eff" where
  "writeBaseline stamp = (\<lambda>s.
     if \<not> makes_dirs s then (Inl MkdirFailed, s)
     else if \<not> saves s then (Inl SaveFailed, s)
     else (Inr (), s\<lparr>baseline_file := Holds (json_copy (baseline_value stamp s))\<rparr>))"

definition derive_rollup :: "float_ops \<Rightarrow> 'x aggregate_state_scheme \<Rightarrow> log_error + totals_map" where
  "derive_rollup fl s =
     (let read = map (replaySegment s) (filter (\<lambda>n. n \<notin> set (foldedSegments s)) (segments s))
      in if list_all snd read then Inr (deriveAggregates fl (concat (map fst read)) (baseline s))
         else Inl ReadFailed)"

definition rebuild :: "float_ops \<Rightarrow> ('x aggregate_state_scheme, log_error, nat) eff" where
  "rebuild fl =
     and_then readBaseline (\<lambda>_.
     and_then (\<lambda>s. (derive_rollup fl s, s)) (\<lambda>r s.
       (Inr (length r), s\<lparr>rollup := r, agg_opened := True\<rparr>)))"

definition open_aggregates :: "float_ops \<Rightarrow> ('x aggregate_state_scheme, log_error, nat) eff" where
  "open_aggregates fl = (\<lambda>s. if agg_opened s then (Inr (length (rollup s)), s) else rebuild fl s)"

definition record_accepted :: "float_ops \<Rightarrow> stored_event list \<Rightarrow> ('x aggregate_state_scheme, log_error, unit) eff" where
  "record_accepted fl accepted = writes (\<lambda>s. s\<lparr>rollup := fold (fold_into fl) accepted (rollup s)\<rparr>)"

text \<open>The hook of the log's sweep: fold, remember the name, save; nothing for a name already folded.\<close>

definition fold_segment ::
  "float_ops \<Rightarrow> jstr \<Rightarrow> jstr \<Rightarrow> stored_event list \<Rightarrow> ('x aggregate_state_scheme, unit) sweep_call" where
  "fold_segment fl stamp name expiring = perform Folding (\<lambda>s.
     if name \<in> set (foldedSegments s) then (Inr (), s)
     else writeBaseline stamp
            (s\<lparr>baseline := fold (fold_into fl) expiring (baseline s),
               foldedSegments := add_name name (foldedSegments s)\<rparr>))"

definition settle_folded :: "jstr \<Rightarrow> sweep_result \<Rightarrow> ('x aggregate_state_scheme, log_error, unit) eff" where
  "settle_folded stamp r = (\<lambda>s.
     let settled = filter (\<lambda>n. n \<in> set (foldedSegments s)) (sw_segments r)
     in if settled = [] then (Inr (), s)
        else writeBaseline stamp
               (s\<lparr>foldedSegments := filter (\<lambda>n. n \<notin> set settled) (foldedSegments s)\<rparr>))"

definition sweep_aggregates ::
  "float_ops \<Rightarrow> jstr \<Rightarrow> int \<Rightarrow> int \<Rightarrow> ('x aggregate_state_scheme, sweep_result) sweep_call" where
  "sweep_aggregates fl stamp maxAgeMs now =
     chain (sweep_log (Some (fold_segment fl stamp)) maxAgeMs now) (\<lambda>r.
       chain (perform Saving (settle_folded stamp r)) (\<lambda>_. give r))"

definition get_aggregate :: "float_ops \<Rightarrow> 'x aggregate_state_scheme \<Rightarrow> jstr \<Rightarrow> recording_aggregate option" where
  "get_aggregate fl s url = map_option (toAggregate fl url) (map_of (rollup s) url)"

definition all_aggregates :: "float_ops \<Rightarrow> 'x aggregate_state_scheme \<Rightarrow> recording_aggregate list" where
  "all_aggregates fl s = map (\<lambda>(url, t). toAggregate fl url t) (rollup s)"

definition frozen_aggregates :: "float_ops \<Rightarrow> 'x aggregate_state_scheme \<Rightarrow> recording_aggregate list" where
  "frozen_aggregates fl s = map (\<lambda>(url, t). toAggregate fl url t) (baseline s)"

section \<open>Arithmetic\<close>

definition plain_num :: "jsnum \<Rightarrow> bool" where
  "plain_num x = (isFinite x \<and> plain_zero x = x)"

definition in_unit :: "jsnum \<Rightarrow> bool" where
  "in_unit x = (case x of Zero neg \<Rightarrow> \<not> neg | Finite neg ds n \<Rightarrow> \<not> neg \<and> (n \<le> 0 \<or> x = num_one) | _ \<Rightarrow> False)"

text \<open>Of IEEE addition: zero is neutral, and adding a fraction of one to a finite number stays finite.\<close>

definition add_ok :: "float_ops \<Rightarrow> bool" where
  "add_ok fl = (\<forall>x. plain_num x \<longrightarrow> fl_add fl (Zero False) x = x
     \<and> (\<forall>c. in_unit c \<longrightarrow> plain_num (fl_add fl x c)))"

definition plain_totals :: "totals \<Rightarrow> bool" where
  "plain_totals t = (plain_num (plays t) \<and> plain_num (completionSum t))"

definition plain_map :: "totals_map \<Rightarrow> bool" where
  "plain_map m = (distinct (map fst m) \<and> (\<forall>(url, t) \<in> set m. url \<noteq> [] \<and> plain_totals t))"

lemma clamp_in_unit: "isFinite x \<Longrightarrow> in_unit (clamp_unit x)"
  by (cases x) (auto simp: clamp_unit_def in_unit_def num_one_def isFinite_def)

lemma in_unit_consts [simp]: "in_unit num_one" "in_unit (Zero False)" "plain_num (Zero False)"
  by (simp_all add: in_unit_def num_one_def plain_num_def isFinite_def plain_zero_def)

lemma plain_fold_event: "add_ok fl \<Longrightarrow> plain_totals t \<Longrightarrow> plain_totals (fold_event fl t e)"
  by (simp add: plain_totals_def fold_event_def add_ok_def Let_def clamp_in_unit)

lemma plain_map_update: "plain_map m \<Longrightarrow> url \<noteq> [] \<Longrightarrow> plain_totals t \<Longrightarrow> plain_map (AList.update url t m)"
  unfolding plain_map_def by (auto simp: distinct_update dest!: set_AList_update)

lemma plain_totals_of: "plain_map m \<Longrightarrow> plain_totals (totals_of m url)"
  unfolding plain_map_def totals_of_def
  by (auto simp: emptyTotals_def plain_totals_def split: option.split dest!: map_of_SomeD)

lemma plain_fold_into: "add_ok fl \<Longrightarrow> plain_map m \<Longrightarrow> ev_recordingUrl e \<noteq> [] \<Longrightarrow> plain_map (fold_into fl e m)"
  unfolding fold_into_def by (intro plain_map_update plain_fold_event plain_totals_of)

lemma plain_fold:
  "add_ok fl \<Longrightarrow> plain_map m \<Longrightarrow> (\<And>e. e \<in> set es \<Longrightarrow> ev_recordingUrl e \<noteq> []) \<Longrightarrow> plain_map (fold (fold_into fl) es m)"
  by (induction es arbitrary: m) (auto intro: plain_fold_into)

section \<open>Reading the baseline back\<close>

lemma json_data_baseline: "plain_map (baseline s) \<Longrightarrow> json_data (baseline_value stamp s)"
  by (auto simp: baseline_value_def plain_map_def plain_totals_def plain_num_def totals_value_def
      BASELINE_VERSION_def num_one_def isFinite_def plain_zero_def)

lemma read_totals_value: "url \<noteq> [] \<Longrightarrow> plain_totals t \<Longrightarrow> read_totals (url, totals_value t) = Some (url, t)"
  by (simp add: read_totals_def totals_value_def plain_totals_def plain_num_def)

lemma read_all_totals:
  "(\<And>url t. (url, t) \<in> set m \<Longrightarrow> url \<noteq> [] \<and> plain_totals t) \<Longrightarrow>
     List.map_filter read_totals (map (\<lambda>(url, t). (url, totals_value t)) m) = m"
proof (induction m)
  case (Cons x m)
  obtain url t where x: "x = (url, t)" by (cases x)
  with Cons.prems have "read_totals (url, totals_value t) = Some (url, t)" by (auto intro: read_totals_value)
  moreover have "List.map_filter read_totals (map (\<lambda>(url, t). (url, totals_value t)) m) = m"
    by (rule Cons.IH) (use Cons.prems in auto)
  ultimately show ?case by (simp add: List.map_filter_def x)
qed (simp add: List.map_filter_def)

lemma set_fold_add_name: "set (fold add_name ns acc) = set acc \<union> set ns"
  by (induction ns arbitrary: acc) (auto simp: add_name_def)

lemma map_filter_as_string [simp]: "List.map_filter as_string (map JString ns) = ns"
  by (induction ns) (simp_all add: List.map_filter_def)

text \<open>What is in memory is what a process started now would read.\<close>

definition file_agrees :: "'x aggregate_state_scheme \<Rightarrow> bool" where
  "file_agrees s = (case readBaseline s of (r, s') \<Rightarrow>
     r = Inr () \<and> baseline s' = baseline s \<and> set (foldedSegments s') = set (foldedSegments s))"

lemma saved_agrees:
  assumes "plain_map (baseline s)" "writeBaseline stamp s = (Inr (), s')"
  shows "file_agrees s'"
proof -
  have s': "s' = s\<lparr>baseline_file := Holds (baseline_value stamp s)\<rparr>"
    using assms json_copy_data [OF json_data_baseline [of s stamp]]
    by (simp add: writeBaseline_def split: if_splits)
  have m: "List.map_filter read_totals (map (\<lambda>(url, t). (url, totals_value t)) (baseline s)) = baseline s"
    using assms(1) by (intro read_all_totals) (auto simp: plain_map_def)
  have "set_all (baseline s) = baseline s"
    using assms(1) unfolding set_all_def plain_map_def by (intro fold_AList_update_distinct) simp
  with m show ?thesis
    unfolding s' file_agrees_def
    by (simp add: readBaseline_def baseline_value_def object_entries_def iterate_def Let_def
        BASELINE_VERSION_def num_one_def set_fold_add_name)
qed

section \<open>What a restarted process serves\<close>

definition restart_process :: "'x aggregate_state_scheme \<Rightarrow> 'x aggregate_state_scheme" where
  "restart_process s =
     s\<lparr>seen := {}, opened := False, baseline := [], foldedSegments := [], rollup := [], agg_opened := False\<rparr>"

definition served :: "float_ops \<Rightarrow> 'x aggregate_state_scheme \<Rightarrow> (jstr \<Rightarrow> totals option) option" where
  "served fl s = (case rebuild fl (restart_process s) of
     (Inl _, _) \<Rightarrow> None | (Inr _, s') \<Rightarrow> Some (map_of (rollup s')))"

definition live :: "'x aggregate_state_scheme \<Rightarrow> stored_event list" where
  "live s = concat (map (\<lambda>n. fst (replaySegment s n)) (filter (\<lambda>n. n \<notin> set (foldedSegments s)) (segments s)))"

definition chronological :: "'x event_log_scheme \<Rightarrow> bool" where
  "chronological s = ((\<forall>n \<in> set (segments s). segmentEndMs n \<noteq> None)
     \<and> sorted (map (\<lambda>n. the (segmentEndMs n)) (segments s)))"

definition steady :: "'x aggregate_state_scheme \<Rightarrow> bool" where
  "steady s = (sound_files s \<and> makes_dirs s \<and> saves s \<and> plain_map (baseline s) \<and> file_agrees s
     \<and> (\<forall>e \<in> set (replay s). ev_recordingUrl e \<noteq> []) \<and> chronological s)"

lemma map_of_fold_into:
  "map_of (fold_into fl e m) = (map_of m)(ev_recordingUrl e \<mapsto>
     fold_event fl (case map_of m (ev_recordingUrl e) of None \<Rightarrow> emptyTotals | Some t \<Rightarrow> t) e)"
  by (simp add: fold_into_def totals_of_def)

lemma fold_into_cong:
  "map_of m = map_of m' \<Longrightarrow> map_of (fold (fold_into fl) es m) = map_of (fold (fold_into fl) es m')"
proof (induction es arbitrary: m m')
  case (Cons e es)
  have "map_of (fold_into fl e m) = map_of (fold_into fl e m')" by (simp add: map_of_fold_into Cons.prems)
  from Cons.IH [OF this] show ?case by simp
qed simp

lemma seed_is_baseline:
  assumes "add_ok fl" "plain_map m"
  shows "fold (\<lambda>(url, t) m. add_totals fl m url t) m [] = m"
proof -
  have "distinct (map fst (acc @ m)) \<Longrightarrow> (\<And>url t. (url, t) \<in> set m \<Longrightarrow> plain_totals t) \<Longrightarrow>
      fold (\<lambda>(url, t) m. add_totals fl m url t) m acc = acc @ m" for acc
  proof (induction m arbitrary: acc)
    case (Cons x m)
    obtain url t where x: "x = (url, t)" by (cases x)
    have n: "map_of acc url = None" using Cons.prems(1) x by (auto simp: map_of_eq_None_iff)
    have "plain_totals t" using Cons.prems(2) [of url t] x by simp
    then have "add_totals fl acc url t = acc @ [(url, t)]"
      using assms(1) n
      by (simp add: add_totals_def totals_of_def emptyTotals_def add_ok_def plain_totals_def AList_update_new Let_def)
    moreover have "fold (\<lambda>(url, t) m. add_totals fl m url t) m (acc @ [x]) = (acc @ [x]) @ m"
      by (rule Cons.IH) (use Cons.prems in auto)
    ultimately show ?case by (simp add: x)
  qed simp
  from this [of "[]"] assms(2) show ?thesis by (auto simp: plain_map_def)
qed

lemma readBaseline_eq:
  "baseline_file s' = baseline_file s \<Longrightarrow> readBaseline s = (r, t) \<Longrightarrow>
     readBaseline s' = (r, s'\<lparr>baseline := baseline t, foldedSegments := foldedSegments t\<rparr>)"
  by (auto simp: readBaseline_def Let_def split: disk_file.splits option.splits if_splits)

lemma file_agrees_cong:
  assumes "file_agrees s" "baseline_file s' = baseline_file s" "baseline s' = baseline s"
    "set (foldedSegments s') = set (foldedSegments s)"
  shows "file_agrees s'"
proof -
  obtain r t where r: "readBaseline s = (r, t)" by fastforce
  from readBaseline_eq [OF assms(2) r] r assms show ?thesis by (simp add: file_agrees_def)
qed

lemma rebuild_steady:
  assumes "add_ok fl" "steady s" "baseline_file v = baseline_file s" "log_files v = log_files s"
    "lists_dir v = lists_dir s"
  obtains fs n where "set fs = set (foldedSegments s)"
    "rebuild fl v = (Inr n, v\<lparr>baseline := baseline s, foldedSegments := fs,
       rollup := fold (fold_into fl) (live s) (baseline s), agg_opened := True\<rparr>)"
proof -
  obtain r t where t: "readBaseline s = (r, t)" by fastforce
  with assms(2) have b: "r = Inr ()" "baseline t = baseline s" "set (foldedSegments t) = set (foldedSegments s)"
    by (simp_all add: steady_def file_agrees_def)
  let ?w = "v\<lparr>baseline := baseline s, foldedSegments := foldedSegments t\<rparr>"
  have w: "readBaseline v = (Inr (), ?w)" using readBaseline_eq [OF assms(3) t] b by simp
  have same: "segments ?w = segments s" "replaySegment ?w = replaySegment s"
    using assms(4,5) by (simp_all add: segments_def replaySegment_def fun_eq_iff)
  have "\<forall>n \<in> set (segments s). snd (replaySegment s n)"
    using assms(2) by (auto simp: steady_def elim: readable_segments)
  then have "derive_rollup fl ?w = Inr (fold (fold_into fl) (live s) (baseline s))"
    using assms(1,2) seed_is_baseline [of fl "baseline s"]
    by (simp add: derive_rollup_def deriveAggregates_def same b live_def list_all_iff steady_def o_def)
  then show ?thesis using that [of "foldedSegments t"] b w by (simp add: rebuild_def and_then_def)
qed

lemma served_steady:
  assumes "add_ok fl" "steady s"
  shows "served fl s = Some (map_of (fold (fold_into fl) (live s) (baseline s)))"
  by (rule rebuild_steady [OF assms, of "restart_process s"]) (simp_all add: restart_process_def served_def)

section \<open>Crashes during retention\<close>

lemma distinct_segments: "sound_files s \<Longrightarrow> distinct (segments s)"
  by (simp add: segments_def sound_files_def)

lemma fold_segment_step:
  assumes fl: "add_ok fl" and s: "steady s" and n: "segments s = n # names"
    and r: "run (fold_segment fl stamp n (fst (replaySegment s n))) s = (r, s')"
  shows "r = Inr ()" "steady s'" "served fl s' = served fl s" "n \<in> set (foldedSegments s')"
    "log_files s' = log_files s" "lists_dir s' = lists_dir s" "rollup s' = rollup s" "seen s' = seen s"
    "opened s' = opened s" "agg_opened s' = agg_opened s"
proof -
  let ?es = "fst (replaySegment s n)"
  let ?s = "s\<lparr>baseline := fold (fold_into fl) ?es (baseline s), foldedSegments := add_name n (foldedSegments s)\<rparr>"
  have same: "log_files s' = log_files s \<and> lists_dir s' = lists_dir s \<and> rollup s' = rollup s \<and> seen s' = seen s
      \<and> opened s' = opened s \<and> agg_opened s' = agg_opened s \<and> makes_dirs s' = makes_dirs s \<and> saves s' = saves s"
    using r by (auto simp: fold_segment_def writeBaseline_def split: if_splits)
  have main: "r = Inr () \<and> steady s' \<and> served fl s' = served fl s \<and> n \<in> set (foldedSegments s')"
  proof (cases "n \<in> set (foldedSegments s)")
    case True
    with r s show ?thesis by (auto simp: fold_segment_def)
  next
    case False
    have w: "writeBaseline stamp ?s = (Inr (), s')" "r = Inr ()"
      using r s False by (auto simp: fold_segment_def writeBaseline_def steady_def)
    then have b: "baseline s' = fold (fold_into fl) ?es (baseline s)" "foldedSegments s' = foldedSegments s @ [n]"
      using False by (auto simp: writeBaseline_def add_name_def split: if_splits)
    have "ev_recordingUrl e \<noteq> []" if "e \<in> set ?es" for e
      using that s n by (auto simp: steady_def replay_def)
    then have plain: "plain_map (baseline ?s)" using fl s by (auto simp: steady_def intro: plain_fold)
    have agrees: "file_agrees s'" using plain w(1) by (rule saved_agrees)
    have views: "segments s' = segments s" "replaySegment s' = replaySegment s"
      using same by (simp_all add: segments_def replaySegment_def fun_eq_iff)
    then have "replay s' = replay s" by (simp add: replay_def)
    note views = views this
    have st: "steady s'"
      using s same plain agrees views b
      by (simp add: steady_def sound_files_def chronological_def)
    have "n \<notin> set names" using s n distinct_segments [of s] by (simp add: steady_def)
    then have "filter (\<lambda>k. k \<notin> set (foldedSegments s')) names = filter (\<lambda>k. k \<notin> set (foldedSegments s)) names"
      by (intro filter_cong) (auto simp: b)
    then have "live s = ?es @ live s'" using False n views b by (simp add: live_def)
    then have "served fl s' = served fl s"
      using served_steady [OF fl s] served_steady [OF fl st] b by simp
    with st w b show ?thesis by simp
  qed
  from main show "r = Inr ()" "steady s'" "served fl s' = served fl s" "n \<in> set (foldedSegments s')" by blast+
  from same show "log_files s' = log_files s" "lists_dir s' = lists_dir s" "rollup s' = rollup s" "seen s' = seen s"
    "opened s' = opened s" "agg_opened s' = agg_opened s" by blast+
qed

lemma segments_delete:
  assumes "segments s = n # names" "sound_files s" "log_files s' = AList.delete n (log_files s)"
    "lists_dir s' = lists_dir s"
  shows "segments s' = names" "\<And>k. k \<noteq> n \<Longrightarrow> replaySegment s' k = replaySegment s k"
proof -
  have "map fst (AList.delete n al) = filter (\<lambda>k. k \<noteq> n) (map fst al)" for al :: "(jstr \<times> segment) list"
    by (induction al) auto
  then have "filter (\<lambda>k. segment_match k \<noteq> None) (map fst (log_files s'))
      = filter (\<lambda>k. k \<noteq> n) (filter (\<lambda>k. segment_match k \<noteq> None) (map fst (log_files s)))"
    using assms(3) by (simp add: conj_commute)
  then have "segments s' = filter (\<lambda>k. k \<noteq> n) (segments s)"
    using assms(2,4) by (simp add: segments_def sound_files_def filter_sort)
  moreover have "n \<notin> set names" using distinct_segments [OF assms(2)] assms(1) by simp
  then have "filter (\<lambda>k. k \<noteq> n) names = names" by (auto simp: filter_id_conv)
  ultimately show "segments s' = names" using assms(1) by simp
  show "replaySegment s' k = replaySegment s k" if "k \<noteq> n" for k
    using that assms(3) by (simp add: replaySegment_def)
qed

lemma unlink_step:
  assumes fl: "add_ok fl" and s: "steady s" and n: "segments s = n # names" "n \<in> set (foldedSegments s)"
    and r: "unlink n es s = (Inr (), s')"
  shows "steady s'" "served fl s' = served fl s" "segments s' = names"
proof -
  have s': "log_files s' = AList.delete n (log_files s)" "lists_dir s' = lists_dir s" "makes_dirs s' = makes_dirs s"
      "saves s' = saves s" "baseline s' = baseline s" "foldedSegments s' = foldedSegments s"
      "baseline_file s' = baseline_file s"
    using r by (auto simp: unlink_def split: if_splits)
  have snd: "sound_files s" using s by (simp add: steady_def)
  note seg = segments_delete [OF n(1) snd s'(1,2)]
  have "n \<notin> set names" using distinct_segments [OF snd] n by simp
  then have rep: "map (\<lambda>k. fst (replaySegment s' k)) names = map (\<lambda>k. fst (replaySegment s k)) names"
    by (auto intro!: seg(2) arg_cong [where f = fst])
  have rep': "map (\<lambda>k. fst (replaySegment s' k)) (filter P names) = map (\<lambda>k. fst (replaySegment s k)) (filter P names)" for P
    using \<open>n \<notin> set names\<close> by (auto intro!: seg(2) arg_cong [where f = fst])
  have "replay s = fst (replaySegment s n) @ replay s'" by (simp add: replay_def seg n rep)
  moreover have "file_agrees s'" using s s' by - (rule file_agrees_cong [of s], simp_all add: steady_def)
  moreover have "sound_files s'"
    using snd s' distinct_delete [of "log_files s" n] by (auto simp: sound_files_def AList.delete_eq)
  moreover have "chronological s'" using s n seg by (auto simp: steady_def chronological_def)
  ultimately show st: "steady s'" using s s' by (simp add: steady_def)
  have "live s' = live s" using n by (simp add: live_def seg s' rep')
  with served_steady [OF fl s] served_steady [OF fl st] s' show "served fl s' = served fl s" by simp
  show "segments s' = names" by (rule seg)
qed

text \<open>Nothing a reader can see has moved, in this process or in the next.\<close>

definition unmoved :: "float_ops \<Rightarrow> 'x aggregate_state_scheme \<Rightarrow> 'x aggregate_state_scheme \<Rightarrow> bool" where
  "unmoved fl s0 s = (steady s \<and> log_ok s \<and> opened s \<and> served fl s = served fl s0 \<and> rollup s = rollup s0
     \<and> agg_opened s = agg_opened s0)"

lemma unmoved_trans: "unmoved fl s0 s1 \<Longrightarrow> unmoved fl s1 s2 \<Longrightarrow> unmoved fl s0 s2"
  by (simp add: unmoved_def)

lemma log_ok_cong:
  assumes "log_ok s" "log_files s' = log_files s" "lists_dir s' = lists_dir s" "makes_dirs s' = makes_dirs s"
    "seen s' = seen s" "opened s' = opened s"
  shows "log_ok s'"
proof -
  have "replay s' = replay s" using assms(2,3) by (rule replay_cong)
  with assms show ?thesis by (simp add: log_ok_def sound_files_def)
qed

lemma unmoved_fold:
  assumes fl: "add_ok fl" and s: "steady s" "log_ok s" "opened s" and n: "segments s = n # names"
  shows "unmoved fl s (snd (run (fold_segment fl stamp n (fst (replaySegment s n))) s))"
proof -
  obtain r s' where r: "run (fold_segment fl stamp n (fst (replaySegment s n))) s = (r, s')" by fastforce
  note f = fold_segment_step [OF fl s(1) n r]
  have "makes_dirs s' = makes_dirs s" using f(2) s(1) by (simp add: steady_def)
  with log_ok_cong [OF s(2)] f have "log_ok s'" by blast
  with f s r show ?thesis by (simp add: unmoved_def)
qed

lemma unmoved_unlink:
  assumes fl: "add_ok fl" and s: "steady s" "log_ok s" "opened s"
    and n: "segments s = n # names" "n \<in> set (foldedSegments s)"
    and r: "unlink n (fst (replaySegment s n)) s = (r, s')"
  shows "unmoved fl s s'" "r = Inr () \<Longrightarrow> segments s' = names"
proof -
  have snd: "sound_files s" "n \<in> set (segments s)" using s n by (simp_all add: steady_def)
  from readable_segments [OF snd] obtain seg where seg: "map_of (log_files s) n = Some seg" "segment_match n \<noteq> None"
    by blast
  note ok = log_ok_unlink [OF s(2,3) seg r]
  have "(r = Inr () \<and> rollup s' = rollup s \<and> agg_opened s' = agg_opened s) \<or> s' = s"
    using r by (auto simp: unlink_def split: if_splits)
  then show "unmoved fl s s'"
  proof
    assume a: "r = Inr () \<and> rollup s' = rollup s \<and> agg_opened s' = agg_opened s"
    with r have "unlink n (fst (replaySegment s n)) s = (Inr (), s')" by simp
    from unlink_step [OF fl s(1) n this] ok a show ?thesis by (simp add: unmoved_def)
  qed (use s in \<open>simp add: unmoved_def\<close>)
  show "segments s' = names" if "r = Inr ()"
    using unlink_step(3) [OF fl s(1) n] r that by simp
qed

lemma nothing_expired: "(\<And>n. n \<in> set names \<Longrightarrow> \<not> expired cutoff n) \<Longrightarrow> sweep_segments cutoff hook names r = give r"
  by (induction names) auto

lemma sweep_loop:
  assumes fl: "add_ok fl" and "steady s" "log_ok s" "opened s" "segments s = names"
    "set (sw_segments r) \<inter> set names = {}"
  shows "(\<forall>s' \<in> set (passes (sweep_segments cutoff (fold_segment fl stamp) names r) s). unmoved fl s s')
    \<and> (\<forall>res s'. run (sweep_segments cutoff (fold_segment fl stamp) names r) s = (res, s') \<longrightarrow>
       unmoved fl s s' \<and> (\<forall>r'. res = Inr r' \<longrightarrow> set (sw_segments r') \<inter> set (segments s') = {}))"
  using assms(2-)
proof (induction names arbitrary: s r)
  case Nil
  then show ?case by (auto simp: unmoved_def)
next
  case (Cons n names)
  let ?hook = "fold_segment fl stamp"
  let ?es = "fst (replaySegment s n)"
  let ?r = "r\<lparr>sw_segments := sw_segments r @ [n], sw_events := sw_events r + length ?es\<rparr>"
  note p = Cons.prems
  show ?case
  proof (cases "expired cutoff n")
    case False
    have "\<not> expired cutoff k" if "k \<in> set (n # names)" for k
      using False that p(1,4) by (fastforce simp: expired_def steady_def chronological_def)
    then have g: "sweep_segments cutoff ?hook (n # names) r = give r" by (rule nothing_expired)
    have "unmoved fl s s" using p by (simp add: unmoved_def)
    with p(4,5) show ?thesis unfolding g by simp
  next
    case True
    obtain x s1 where h: "run (?hook n ?es) s = (x, s1)" by fastforce
    note f = fold_segment_step [OF fl p(1,4) h]
    have u1: "unmoved fl s s1" using unmoved_fold [OF fl p(1,2,3,4), of stamp] h by simp
    have "segments s1 = segments s" using f by (simp add: segments_def)
    then have v: "segments s1 = n # names" "replaySegment s1 = replaySegment s"
      using f p(4) by (simp_all add: replaySegment_def fun_eq_iff)
    obtain y s2 where ul: "unlink n ?es s1 = (y, s2)" by fastforce
    have s1: "steady s1" "log_ok s1" "opened s1" using u1 by (simp_all add: unmoved_def)
    have "unlink n (fst (replaySegment s1 n)) s1 = (y, s2)" using ul v by simp
    note u2 = unmoved_unlink [OF fl s1 v(1) f(4) this]
    have u12: "unmoved fl s s2" using u1 u2(1) by (rule unmoved_trans)
    have hook_passes: "passes (?hook n ?es) s = [s1]" using h by (simp add: fold_segment_def)
    show ?thesis
    proof (cases y)
      case (Inl e)
      with True f(1) h ul u1 u12 p show ?thesis
        by (simp add: passes_chain run_chain run_attempt hook_passes unmoved_def)
    next
      case (Inr z)
      have s2: "steady s2" "log_ok s2" "opened s2" "segments s2 = names"
        using u2 Inr by (simp_all add: unmoved_def)
      have "n \<notin> set names" using p(1,4) distinct_segments [of s] by (simp add: steady_def)
      then have d: "set (sw_segments ?r) \<inter> set names = {}" using p(5) by auto
      note ih = Cons.IH [OF s2 d]
      have pas: "passes (sweep_segments cutoff ?hook (n # names) r) s
          = [s, s1, s2] @ passes (sweep_segments cutoff ?hook names ?r) s2"
        using True f(1) h ul Inr by (simp add: passes_chain run_chain run_attempt hook_passes)
      have run: "run (sweep_segments cutoff ?hook (n # names) r) s = run (sweep_segments cutoff ?hook names ?r) s2"
        using True f(1) h ul Inr by (simp add: run_chain run_attempt)
      have "unmoved fl s s" using p by (simp add: unmoved_def)
      have tail: "unmoved fl s x" if "unmoved fl s2 x" for x using u12 that by (rule unmoved_trans)
      have "\<forall>x \<in> set ([s, s1, s2] @ passes (sweep_segments cutoff ?hook names ?r) s2). unmoved fl s x"
        using ih tail u1 u12 \<open>unmoved fl s s\<close> by auto
      moreover have "unmoved fl s s' \<and> (\<forall>r'. res = Inr r' \<longrightarrow> set (sw_segments r') \<inter> set (segments s') = {})"
        if "run (sweep_segments cutoff ?hook names ?r) s2 = (res, s')" for res s'
        using ih that tail by blast
      ultimately show ?thesis unfolding pas run by simp
    qed
  qed
qed

lemma settle_step:
  assumes fl: "add_ok fl" and s: "steady s" "log_ok s" "opened s"
    and d: "set (sw_segments r) \<inter> set (segments s) = {}" and q: "settle_folded stamp r s = (res, s')"
  shows "unmoved fl s s'"
proof (cases "filter (\<lambda>n. n \<in> set (foldedSegments s)) (sw_segments r) = []")
  case True
  with q s show ?thesis by (simp add: settle_folded_def unmoved_def)
next
  case False
  let ?settled = "filter (\<lambda>n. n \<in> set (foldedSegments s)) (sw_segments r)"
  let ?s = "s\<lparr>foldedSegments := filter (\<lambda>n. n \<notin> set ?settled) (foldedSegments s)\<rparr>"
  have w: "writeBaseline stamp ?s = (Inr (), s')"
    using q s False by (auto simp: settle_folded_def Let_def writeBaseline_def steady_def)
  then have b: "log_files s' = log_files s" "lists_dir s' = lists_dir s" "makes_dirs s' = makes_dirs s"
      "saves s' = saves s" "seen s' = seen s" "opened s' = opened s" "baseline s' = baseline s"
      "rollup s' = rollup s" "agg_opened s' = agg_opened s"
      "foldedSegments s' = filter (\<lambda>n. n \<notin> set ?settled) (foldedSegments s)"
    by (auto simp: writeBaseline_def split: if_splits)
  have "plain_map (baseline ?s)" using s by (simp add: steady_def)
  then have agrees: "file_agrees s'" using w by (rule saved_agrees)
  have views: "segments s' = segments s" "replaySegment s' = replaySegment s"
    using b by (simp_all add: segments_def replaySegment_def fun_eq_iff)
  then have "replay s' = replay s" by (simp add: replay_def)
  then have st: "steady s'"
    using s b agrees views by (simp add: steady_def sound_files_def chronological_def)
  have "log_ok s'" using s(2) b(1-3,5,6) by (rule log_ok_cong)
  moreover have "filter (\<lambda>n. n \<notin> set (foldedSegments s')) (segments s)
      = filter (\<lambda>n. n \<notin> set (foldedSegments s)) (segments s)"
    using d by (intro filter_cong) (auto simp: b)
  then have "live s' = live s" by (simp add: live_def views)
  then have "served fl s' = served fl s"
    using served_steady [OF fl s(1)] served_steady [OF fl st] b by simp
  ultimately show ?thesis using st b s by (simp add: unmoved_def)
qed

lemma sweep_unmoved:
  assumes fl: "add_ok fl" and s: "steady s" "log_ok s" "opened s"
  shows "\<forall>s' \<in> set (passes (sweep_aggregates fl stamp age now) s). unmoved fl s s'"
    "unmoved fl s (snd (run (sweep_aggregates fl stamp age now) s))"
proof -
  let ?r0 = "\<lparr>sw_segments = [], sw_events = 0, sw_retained = []\<rparr>"
  let ?t = "sweep_segments (now - age) (fold_segment fl stamp) (segments s) ?r0"
  obtain res s1 where r: "run ?t s = (res, s1)" by fastforce
  have "set (sw_segments ?r0) \<inter> set (segments s) = {}" by simp
  from sweep_loop [OF fl s refl this, of "now - age" stamp] r
  have l: "\<forall>s' \<in> set (passes ?t s). unmoved fl s s'"
    "unmoved fl s s1 \<and> (\<forall>r'. res = Inr r' \<longrightarrow> set (sw_segments r') \<inter> set (segments s1) = {})"
    by blast+
  have run: "run (sweep_log (Some (fold_segment fl stamp)) age now) s = (res, s1)"
    using r by (simp add: sweep_log_def run_chain)
  have pas: "passes (sweep_log (Some (fold_segment fl stamp)) age now) s = s # passes ?t s"
    by (simp add: sweep_log_def passes_chain)
  have refl: "unmoved fl s s" using s by (simp add: unmoved_def)
  have "(\<forall>s' \<in> set (passes (sweep_aggregates fl stamp age now) s). unmoved fl s s')
      \<and> unmoved fl s (snd (run (sweep_aggregates fl stamp age now) s))"
  proof (cases res)
    case (Inl e)
    with l refl show ?thesis by (simp add: sweep_aggregates_def passes_chain run_chain run pas)
  next
    case (Inr r')
    obtain x s2 where st: "settle_folded stamp r' s1 = (x, s2)" by fastforce
    have "steady s1" "log_ok s1" "opened s1" "set (sw_segments r') \<inter> set (segments s1) = {}"
      using l(2) Inr by (simp_all add: unmoved_def)
    from settle_step [OF fl this st] l(2) have "unmoved fl s s2" by (blast intro: unmoved_trans)
    with Inr l(1) refl st show ?thesis
      by (cases x) (simp_all add: sweep_aggregates_def passes_chain run_chain run pas)
  qed
  then show "\<forall>s' \<in> set (passes (sweep_aggregates fl stamp age now) s). unmoved fl s s'"
    "unmoved fl s (snd (run (sweep_aggregates fl stamp age now) s))" by blast+
qed

text \<open>
  C23. Retention loses and doubles nothing: as long as the baseline can be saved, a process killed
  after any stretch of a sweep, or after all of it, restarts to exactly the totals it would have
  restarted to before, with the sums equal to the last bit.
\<close>

theorem sweep_keeps_totals:
  assumes "add_ok fl" "steady s" "log_ok s" "opened s"
    "s' \<in> set (passes (sweep_aggregates fl stamp age now) s) \<or> s' = snd (run (sweep_aggregates fl stamp age now) s)"
  shows "served fl s' = served fl s \<and> served fl s \<noteq> None"
proof -
  from sweep_unmoved [OF assms(1-4), of stamp age now] assms(5) have "unmoved fl s s'" by blast
  then show ?thesis using served_steady [OF assms(1,2)] by (simp add: unmoved_def)
qed

section \<open>The rollup and the log\<close>

text \<open>The clock has not gone back past a day that has a file, and that day is not folded yet.\<close>

definition newest :: "'x aggregate_state_scheme \<Rightarrow> jstr \<Rightarrow> bool" where
  "newest s t = (segment_match t \<noteq> None \<and> segmentEndMs t \<noteq> None \<and> t \<notin> set (foldedSegments s)
     \<and> (\<forall>n \<in> set (segments s). n \<le> t \<and> the (segmentEndMs n) \<le> the (segmentEndMs t)))"

definition ingestible :: "play_event \<Rightarrow> bool" where
  "ingestible e = (plain_play e \<and> ev_recordingUrl e \<noteq> [])"

definition reopened :: "float_ops \<Rightarrow> aggregate_state \<Rightarrow> aggregate_state" where
  "reopened fl s = snd (open_aggregates fl (snd (open_log (restart_process s))))"

text \<open>
  The life of a host that serves: batches taken whole, refused whole, or cut short by a crash between
  two lines; retention sweeps, and crashes after any stretch of one. Batches come at times that are
  never on a day before the newest one in the log, and nothing here changes whether baselines can be
  saved, so a host that starts out with a disk that takes them (\<open>steady\<close>) keeps one.
\<close>

inductive lifetime :: "float_ops \<Rightarrow> aggregate_state \<Rightarrow> aggregate_state \<Rightarrow> bool" for fl s0 where
  begin_life: "lifetime fl s0 s0"
| ingest: "lifetime fl s0 s \<Longrightarrow> append_events es now Wrote s = (Inr (acc, dup), s1) \<Longrightarrow> list_all ingestible es \<Longrightarrow>
    newest s (segmentName now) \<Longrightarrow> record_accepted fl acc s1 = (r, s2) \<Longrightarrow> lifetime fl s0 s2"
| refused: "lifetime fl s0 s \<Longrightarrow> append_events es now (WroteOnly 0 None) s = (Inl x, s1) \<Longrightarrow> list_all ingestible es \<Longrightarrow>
    newest s (segmentName now) \<Longrightarrow> lifetime fl s0 s1"
| cut_short: "lifetime fl s0 s \<Longrightarrow> append_events es now (WroteOnly n None) s = (Inl x, s1) \<Longrightarrow> list_all ingestible es \<Longrightarrow>
    newest s (segmentName now) \<Longrightarrow> lifetime fl s0 (reopened fl s1)"
| sweep: "lifetime fl s0 s \<Longrightarrow> run (sweep_aggregates fl stamp age now) s = (r, s') \<Longrightarrow> lifetime fl s0 s'"
| crash: "lifetime fl s0 s \<Longrightarrow> s' \<in> set (passes (sweep_aggregates fl stamp age now) s) \<Longrightarrow>
    lifetime fl s0 (reopened fl s')"

definition serving :: "float_ops \<Rightarrow> 'x aggregate_state_scheme \<Rightarrow> bool" where
  "serving fl s = (steady s \<and> log_ok s \<and> opened s \<and> agg_opened s \<and> served fl s = Some (map_of (rollup s)))"

lemma map_fst_update: "map fst (AList.update k v al) = map fst al @ (if k \<in> fst ` set al then [] else [k])"
  by (induction al) auto

lemma sort_newest:
  fixes t :: jstr
  assumes "distinct xs" "\<And>x. x \<in> set xs \<Longrightarrow> x \<le> t"
  shows "sort (xs @ (if t \<in> set xs then [] else [t])) = sort (filter (\<lambda>x. x \<noteq> t) xs) @ [t]"
proof (rule properties_for_sort)
  show "sorted (sort (filter (\<lambda>x. x \<noteq> t) xs) @ [t])" using assms(2) by (auto simp: sorted_append)
  have "mset xs = mset (filter (\<lambda>x. x \<noteq> t) xs) + (if t \<in> set xs then {#t#} else {#})"
    using assms(1) by (induction xs) auto
  from this [symmetric] show "mset (sort (filter (\<lambda>x. x \<noteq> t) xs) @ [t]) = mset (xs @ (if t \<in> set xs then [] else [t]))"
    by (cases "t \<in> set xs") simp_all
qed

lemma live_append:
  assumes s: "sound_files s" and t: "newest s t"
    and f: "log_files s' = append_lines t ls None (log_files s)" "lists_dir s' = lists_dir s"
      "foldedSegments s' = foldedSegments s"
  shows "live s' = live s @ events_in ls" "chronological s \<Longrightarrow> chronological s'"
proof -
  let ?keys = "filter (\<lambda>n. segment_match n \<noteq> None) (map fst (log_files s))"
  define others where "others = sort (filter (\<lambda>x. x \<noteq> t) ?keys)"
  let ?old = "case map_of (log_files s) t of None \<Rightarrow> empty_segment | Some seg \<Rightarrow> seg"
  have m: "segment_match t \<noteq> None" "t \<notin> set (foldedSegments s)" using t by (simp_all add: newest_def)
  have d: "distinct ?keys" "lists_dir s" "segments s = sort ?keys"
    using s by (simp_all add: sound_files_def segments_def)
  have le: "x \<le> t" if "x \<in> set ?keys" for x using t that d(3) by (simp add: newest_def)
  have keys: "t \<in> set ?keys \<longleftrightarrow> t \<in> fst ` set (log_files s)" using m(1) by auto
  have new: "segments s' = others @ [t]"
    using sort_newest [OF d(1) le] m(1) d(2) keys
    by (simp add: segments_def f append_lines_def map_fst_update others_def)
  have old: "segments s = others @ (if t \<in> set ?keys then [t] else [])"
  proof (cases "t \<in> set ?keys")
    case True
    then show ?thesis using sort_newest [OF d(1) le] d(3) by (simp add: others_def)
  next
    case False
    then have "filter (\<lambda>x. x \<noteq> t) ?keys = ?keys" by (metis (mono_tags, lifting) filter_True)
    with False d(3) show ?thesis by (simp add: others_def)
  qed
  have seg: "sound_segment ?old" using s by (auto split: option.split dest: sound_filesD)
  have rt: "fst (replaySegment s' t) = fst (readSegment ?old) @ events_in ls"
    using continue_sound(2) [OF seg] by (simp add: replaySegment_def f append_lines_def)
  have ro: "map (\<lambda>n. fst (replaySegment s' n)) (filter P others) = map (\<lambda>n. fst (replaySegment s n)) (filter P others)" for P
    by (auto simp: replaySegment_def f append_lines_def others_def)
  have same: "fst (replaySegment s t) = fst (readSegment ?old)"
    by (simp add: replaySegment_def split: option.split)
  have none: "fst (readSegment ?old) = []" if "t \<notin> set ?keys"
  proof -
    have "map_of (log_files s) t = None" using that unfolding keys map_of_eq_None_iff .
    then show ?thesis by simp
  qed
  have "concat (map (\<lambda>n. fst (replaySegment s n)) (if t \<in> set ?keys then [t] else []))
      = fst (readSegment ?old)"
  proof (cases "t \<in> set ?keys")
    case True
    then show ?thesis by (simp only: if_True list.map concat.simps append_Nil2 same)
  next
    case False
    then show ?thesis by (simp only: if_False list.map concat.simps none [OF False])
  qed
  then have "live s = concat (map (\<lambda>n. fst (replaySegment s n)) (filter (\<lambda>n. n \<notin> set (foldedSegments s)) others))
      @ fst (readSegment ?old)"
    using m(2) unfolding live_def old by auto
  moreover have "live s' = concat (map (\<lambda>n. fst (replaySegment s n)) (filter (\<lambda>n. n \<notin> set (foldedSegments s)) others))
      @ fst (readSegment ?old) @ events_in ls"
    using m(2) unfolding live_def new f(3) by (simp add: rt ro)
  ultimately show "live s' = live s @ events_in ls" by simp
  show "chronological s'" if "chronological s"
    using that t unfolding chronological_def new newest_def old by (auto simp: sorted_append)
qed

text \<open>What lines added to the file of the newest day do to the live part of the log.\<close>

lemma steady_append:
  assumes s: "steady s" "newest s (segmentName now)"
    and es: "\<And>e. e \<in> set es \<Longrightarrow> plain_play e \<and> ev_id e \<noteq> [] \<and> ev_recordingUrl e \<noteq> []"
    and f: "log_files s1 = append_lines (segmentName now) (map line_of es) None (log_files s)"
      "lists_dir s1 = lists_dir s" "makes_dirs s1 = makes_dirs s" "saves s1 = saves s"
      "baseline s1 = baseline s" "foldedSegments s1 = foldedSegments s" "baseline_file s1 = baseline_file s"
  shows "steady s1" "live s1 = live s @ es" "mset (replay s1) = mset (replay s) + mset es"
proof -
  have ok: "sound_files s" "segment_match (segmentName now) \<noteq> None" "chronological s"
    using s by (simp_all add: steady_def newest_def)
  have lines: "events_in (map line_of es) = es" using es by (intro events_in_lines) blast
  note lv = live_append [OF ok(1) s(2) f(1,2,6)]
  show "live s1 = live s @ es" using lv(1) lines by simp
  show m: "mset (replay s1) = mset (replay s) + mset es"
    using mset_replay_append [OF ok(1) f(1,2) ok(2)] lines by simp
  have "ev_recordingUrl e \<noteq> []" if "e \<in> set (replay s1)" for e
  proof -
    have "e \<in> set (replay s) \<or> e \<in> set es" using that m by (metis UnE set_append set_mset_mset mset_append)
    then show ?thesis using s(1) es by (auto simp: steady_def)
  qed
  moreover have "file_agrees s1"
    using s(1) f by - (rule file_agrees_cong [of s], simp_all add: steady_def)
  ultimately show "steady s1"
    using s(1) f lv(2) [OF ok(3)] sound_append [OF ok(1) f(1,2)] by (simp add: steady_def)
qed

lemma new_plays_ingested:
  assumes "list_all ingestible es" "e \<in> set (new_plays es now s)"
  shows "plain_play e \<and> ev_id e \<noteq> [] \<and> ev_recordingUrl e \<noteq> []"
proof -
  obtain a d k where t: "take_new (toISOString now) es (seen s) = (a, d, k)"
    by (cases "take_new (toISOString now) es (seen s)")
  have "e \<in> set a" using assms(2) t by (simp add: new_plays_def split: if_splits)
  then show ?thesis
    using take_new_facts [OF t] assms(1) by (fastforce simp: taken_well_def list_all_iff ingestible_def)
qed

lemma serving_ingest:
  assumes fl: "add_ok fl" and s: "serving fl s" and a: "append_events es now Wrote s = (Inr (acc, dup), s1)"
    and es: "list_all ingestible es" and t: "newest s (segmentName now)"
    and r: "record_accepted fl acc s1 = (r, s2)"
  shows "serving fl s2"
proof -
  have ok: "log_ok s" "opened s" "steady s" "makes_dirs s"
    using s by (simp_all add: serving_def log_ok_def)
  have "segment_match (segmentName now) \<noteq> None" using t by (simp add: newest_def)
  moreover have "plain_play e" if "e \<in> set es" for e using es that by (simp add: list_all_iff ingestible_def)
  ultimately have l: "log_ok s1" "opened s1"
    using log_ok_append [OF ok(1,2) _ _ a] by blast+
  obtain a' d k where tn: "take_new (toISOString now) es (seen s) = (a', d, k)" by (cases "take_new (toISOString now) es (seen s)")
  have fields: "a' = acc" "lists_dir s1 = lists_dir s" "makes_dirs s1 = makes_dirs s" "saves s1 = saves s"
      "baseline s1 = baseline s" "foldedSegments s1 = foldedSegments s" "baseline_file s1 = baseline_file s"
      "rollup s1 = rollup s" "agg_opened s1 = agg_opened s"
      "log_files s1 = (if acc = [] then log_files s
        else append_lines (segmentName now) (map line_of acc) None (log_files s))"
    using a tn ok(4) by (auto simp: append_events_def Let_def split: if_splits)
  have acc: "plain_play e \<and> ev_id e \<noteq> [] \<and> ev_recordingUrl e \<noteq> []" if "e \<in> set acc" for e
    using take_new_facts [OF tn] that es fields(1)
    by (fastforce simp: taken_well_def list_all_iff ingestible_def)
  have st: "steady s1 \<and> live s1 = live s @ acc"
  proof (cases "acc = []")
    case True
    then have "segments s1 = segments s" "replaySegment s1 = replaySegment s"
      using fields by (simp_all add: segments_def replaySegment_def fun_eq_iff)
    moreover have "file_agrees s1"
      using ok(3) fields by - (rule file_agrees_cong [of s], simp_all add: steady_def)
    ultimately show ?thesis
      using True fields ok(3) by (simp add: live_def replay_def steady_def chronological_def sound_files_def)
  next
    case False
    then have "log_files s1 = append_lines (segmentName now) (map line_of acc) None (log_files s)"
      using fields by simp
    from steady_append [OF ok(3) t acc this fields(2-7)] show ?thesis by simp
  qed
  have s2: "s2 = s1\<lparr>rollup := fold (fold_into fl) acc (rollup s1)\<rparr>" using r by (simp add: record_accepted_def)
  have same: "segments s2 = segments s1" "replaySegment s2 = replaySegment s1" "live s2 = live s1"
    by (simp_all add: s2 segments_def replaySegment_def live_def fun_eq_iff)
  have "file_agrees s1" using st by (simp add: steady_def)
  then have "file_agrees s2" unfolding s2 by (rule file_agrees_cong) simp_all
  then have st2: "steady s2" using st same by (simp add: s2 steady_def sound_files_def chronological_def replay_def)
  have "log_ok s2" using l(1) by (rule log_ok_cong) (simp_all add: s2)
  moreover have "map_of (fold (fold_into fl) (live s) (baseline s)) = map_of (rollup s)"
    using s served_steady [OF fl ok(3)] by (simp add: serving_def)
  then have "map_of (fold (fold_into fl) acc (fold (fold_into fl) (live s) (baseline s)))
      = map_of (fold (fold_into fl) acc (rollup s))"
    by (rule fold_into_cong)
  then have "served fl s2 = Some (map_of (rollup s2))"
    using served_steady [OF fl st2] same st fields by (simp add: s2)
  ultimately show ?thesis using st2 l(2) s fields by (simp add: serving_def s2)
qed

text \<open>A batch that the disk refuses whole, or that a crash cuts short between two lines.\<close>

lemma serving_unsaved:
  assumes fl: "add_ok fl" and s: "serving fl s"
    and s1: "s1 = snd (append_events es now (WroteOnly n None) s)"
    and es: "list_all ingestible es" and t: "newest s (segmentName now)"
  shows "steady s1" "log_ok (restart_process s1)" "n = 0 \<Longrightarrow> serving fl s1"
proof -
  let ?acc = "new_plays es now s"
  have ok: "log_ok s" "opened s" "steady s" "makes_dirs s"
    using s by (simp_all add: serving_def log_ok_def)
  have acc: "plain_play e \<and> ev_id e \<noteq> [] \<and> ev_recordingUrl e \<noteq> []" if "e \<in> set ?acc" for e
    using new_plays_ingested [OF es that] .
  have frame: "lists_dir s1 = lists_dir s" "makes_dirs s1 = makes_dirs s" "saves s1 = saves s"
      "baseline s1 = baseline s" "foldedSegments s1 = foldedSegments s" "baseline_file s1 = baseline_file s"
      "rollup s1 = rollup s" "agg_opened s1 = agg_opened s" "opened s1" "seen s1 = seen s"
    using ok(2,4) by (simp_all add: s1 append_run Let_def)
  have "steady s1 \<and> live s1 = live s @ take n ?acc \<and> mset (replay s1) = mset (replay s) + mset (take n ?acc)"
  proof (cases "?acc = []")
    case True
    then have "s1 = s" by (simp add: s1 append_run Let_def)
    with True ok(3) show ?thesis by simp
  next
    case False
    have "log_files s1 = append_lines (segmentName now) (map line_of (take n ?acc)) None (log_files s)"
      using False ok(4) by (simp add: s1 append_run Let_def append_lines_def old_segment_def take_map)
    from steady_append [OF ok(3) t _ this frame(1-6)] acc show ?thesis
      by (auto dest: in_set_takeD)
  qed
  then have st: "steady s1" and lv: "live s1 = live s @ take n ?acc"
    and m: "mset (replay s1) = mset (replay s @ take n ?acc)" by simp_all
  show "steady s1" by (rule st)
  have keys: "distinct (map dedupeKey (replay s))" "seen s = dedupeKey ` set (replay s)"
    using ok(1,2) by (simp_all add: log_ok_def)
  have "dedupeKey ` set (take n ?acc) \<inter> dedupeKey ` set (replay s) = {}"
    using new_plays_facts(2) [of es now s] keys(2) set_take_subset [of n ?acc] by blast
  moreover have "distinct (map dedupeKey (take n ?acc))"
    using new_plays_facts(1) [of es now s] by (metis distinct_take take_map)
  ultimately have "distinct (map dedupeKey (replay s @ take n ?acc))"
    using keys(1) by (simp only: map_append distinct_append set_map) blast
  with distinct_mset [OF m, of dedupeKey] have d: "distinct (map dedupeKey (replay s1))" by simp
  have "replay (restart_process s1) = replay s1" by (rule replay_cong) (simp_all add: restart_process_def)
  with d st show "log_ok (restart_process s1)"
    by (simp add: log_ok_def restart_process_def steady_def sound_files_def)
  show "serving fl s1" if "n = 0"
  proof -
    have "set (replay s1) = set (replay s)" using m that by (metis append_Nil2 set_mset_mset take0)
    with d st frame keys(2) have "log_ok s1" by (simp add: log_ok_def steady_def)
    moreover have "served fl s1 = Some (map_of (rollup s1))"
      using served_steady [OF fl st] served_steady [OF fl ok(3)] lv that frame s by (simp add: serving_def)
    ultimately show ?thesis using st s frame by (simp add: serving_def)
  qed
qed

lemma index_segments_frame: "\<exists>x. snd (index_segments names s) = s\<lparr>seen := x\<rparr>"
proof (induction names arbitrary: s)
  case Nil
  have "s = s\<lparr>seen := seen s\<rparr>" by simp
  then show ?case by (metis index_segments.simps(1) snd_conv)
next
  case (Cons n names)
  obtain es c where r: "replaySegment s n = (es, c)" by fastforce
  from Cons [of "s\<lparr>seen := seen s \<union> dedupeKey ` set es\<rparr>"] r show ?case by (auto simp: Let_def)
qed

lemma open_log_frame: "\<exists>x y. snd (open_log s) = s\<lparr>seen := x, opened := y\<rparr>"
proof (cases "opened s \<or> \<not> makes_dirs s")
  case True
  have "s = s\<lparr>seen := seen s, opened := opened s\<rparr>" by simp
  moreover have "snd (open_log s) = s" using True by (auto simp: open_log_def)
  ultimately show ?thesis by metis
next
  case False
  obtain r t where t: "index_segments (segments s) s = (r, t)" by fastforce
  with index_segments_frame [of "segments s" s] obtain x where x: "t = s\<lparr>seen := x\<rparr>" by auto
  show ?thesis
  proof (cases r)
    case (Inl e)
    have "t = s\<lparr>seen := x, opened := opened s\<rparr>" using x by simp
    with Inl False t show ?thesis by (simp add: open_log_def) metis
  next
    case (Inr u)
    have "snd (open_log s) = s\<lparr>seen := x, opened := True\<rparr>" using Inr False t x by (simp add: open_log_def)
    then show ?thesis by blast
  qed
qed

lemma log_ok_restart: "log_ok s \<Longrightarrow> log_ok (restart_process s)"
  using replay_cong [of "restart_process s" s] by (simp add: log_ok_def restart_process_def sound_files_def)

lemma serving_reopened:
  assumes fl: "add_ok fl" and s: "steady s" "log_ok (restart_process s)"
  shows "serving fl (reopened fl s)"
proof -
  let ?u = "restart_process s"
  have v: "log_ok (snd (open_log ?u))" "opened (snd (open_log ?u))" using log_ok_open [OF s(2)] by blast+
  obtain x y where f: "snd (open_log ?u) = ?u\<lparr>seen := x, opened := y\<rparr>" using open_log_frame by blast
  let ?v = "snd (open_log ?u)"
  have vf: "baseline_file ?v = baseline_file s" "log_files ?v = log_files s" "lists_dir ?v = lists_dir s"
      "makes_dirs ?v = makes_dirs s" "saves ?v = saves s" "\<not> agg_opened ?v"
    unfolding f by (simp_all add: restart_process_def)
  obtain fs n where fs: "set fs = set (foldedSegments s)"
      "rebuild fl ?v = (Inr n, ?v\<lparr>baseline := baseline s, foldedSegments := fs,
         rollup := fold (fold_into fl) (live s) (baseline s), agg_opened := True\<rparr>)"
    by (rule rebuild_steady [OF fl s(1) vf(1-3)])
  let ?z = "?v\<lparr>baseline := baseline s, foldedSegments := fs,
      rollup := fold (fold_into fl) (live s) (baseline s), agg_opened := True\<rparr>"
  have z: "reopened fl s = ?z" using fs(2) vf(6) by (simp add: reopened_def open_aggregates_def)
  have same: "segments ?z = segments s" "replaySegment ?z = replaySegment s"
    using vf by (simp_all add: segments_def replaySegment_def fun_eq_iff)
  then have views: "replay ?z = replay s" "live ?z = live s" using fs(1) by (simp_all add: replay_def live_def)
  have "file_agrees ?z" using s(1) vf fs(1) by - (rule file_agrees_cong [of s], simp_all add: steady_def)
  then have st: "steady ?z"
    using s(1) vf same views by (simp add: steady_def sound_files_def chronological_def)
  have "log_ok ?z" using v(1) by (rule log_ok_cong) simp_all
  moreover have "served fl ?z = Some (map_of (rollup ?z))"
    using served_steady [OF fl st] views by simp
  ultimately show ?thesis using st v(2) by (simp add: serving_def z)
qed

text \<open>
  C24. On a host whose disk takes every baseline it saves, whose log can be read, and whose clock never
  returns to a day before the newest in the log, the rollup it answers from is a fold over the log and
  nothing else: after batches taken, refused whole or cut short between two lines by a crash, sweeps,
  and crashes after any stretch of a sweep, every number it serves is the number a process started now
  would derive from the files, the sums equal to the last bit. The conditions are needed: after a
  baseline that could not be saved the next sweep unlinks plays that are in no file
  (\<open>refused_save_then_unlinked\<close>), a play taken onto a torn line is counted and lost
  (\<open>torn_line_swallows_play\<close>), and sums of doubles depend on the order of the days.
\<close>

theorem rollup_is_replay:
  assumes "add_ok fl" "serving fl s0" "lifetime fl s0 s"
  shows "get_aggregate fl s url = get_aggregate fl (reopened fl s) url"
proof -
  from assms(3) have "serving fl s"
  proof induction
    case begin_life
    show ?case by (rule assms(2))
  next
    case (ingest s es now acc dup s1 r s2)
    from serving_ingest [OF assms(1) ingest.IH ingest.hyps(2-5)] show ?case .
  next
    case (refused s es now x s1)
    from serving_unsaved(3) [OF assms(1) refused.IH _ refused.hyps(3,4) refl] refused.hyps(2) show ?case by simp
  next
    case (cut_short s es now n x s1)
    from serving_unsaved(1,2) [OF assms(1) cut_short.IH _ cut_short.hyps(3,4), of s1 n] cut_short.hyps(2)
    show ?case by (simp add: serving_reopened [OF assms(1)])
  next
    case (sweep s stamp age now r s')
    then have "unmoved fl s s'"
      using sweep_unmoved(2) [OF assms(1), of s stamp age now] by (simp add: serving_def)
    with sweep show ?case by (simp add: serving_def unmoved_def)
  next
    case (crash s s' stamp age now)
    then have "unmoved fl s s'"
      using sweep_unmoved(1) [OF assms(1), of s stamp age now] by (simp add: serving_def)
    then show ?case by (simp add: unmoved_def serving_reopened [OF assms(1)] log_ok_restart)
  qed
  then have s: "steady s" "log_ok s" "served fl s = Some (map_of (rollup s))" by (simp_all add: serving_def)
  obtain x y where f: "snd (open_log (restart_process s)) = (restart_process s)\<lparr>seen := x, opened := y\<rparr>"
    using open_log_frame by blast
  let ?v = "snd (open_log (restart_process s))"
  have vf: "baseline_file ?v = baseline_file s" "log_files ?v = log_files s" "lists_dir ?v = lists_dir s" "\<not> agg_opened ?v"
    unfolding f by (simp_all add: restart_process_def)
  obtain fs n where "rebuild fl ?v = (Inr n, ?v\<lparr>baseline := baseline s, foldedSegments := fs,
         rollup := fold (fold_into fl) (live s) (baseline s), agg_opened := True\<rparr>)"
    by (rule rebuild_steady [OF assms(1) s(1) vf(1-3)])
  then have "rollup (reopened fl s) = fold (fold_into fl) (live s) (baseline s)"
    using vf(4) by (simp add: reopened_def open_aggregates_def)
  then have "map_of (rollup (reopened fl s)) = map_of (rollup s)"
    using s(3) served_steady [OF assms(1) s(1)] by simp
  then show ?thesis by (simp add: get_aggregate_def)
qed

end
