(* ===== verification/Aggregate_Examples.thy ===== *)
theory Aggregate_Examples
  imports Aggregates
begin

text \<open>
  Concrete runs of the analytics store: the properties of \<^verbatim>\<open>Aggregates\<close> applied to a store that takes
  a play and sweeps it, and what a sweep does once a baseline could not be saved.
\<close>

section \<open>A store\<close>

definition ex_float :: float_ops where
  "ex_float = \<lparr>fl_add = \<lambda>x y. if x = Zero False then y
       else (case (int_of_num x, int_of_num y) of (Some a, Some b) \<Rightarrow> num_of_int (a + b) | _ \<Rightarrow> plain_zero x),
     fl_div = \<lambda>x y. x\<rparr>"

lemma ex_float_ok: "add_ok ex_float"
proof -
  have "plain_num (plain_zero x)" if "isFinite x" for x
    using that by (cases x) (simp_all add: plain_num_def plain_zero_def isFinite_def)
  moreover have "plain_num (num_of_int i)" for i by (simp add: plain_num_def)
  moreover have "plain_num c" if "in_unit c" for c
    using that by (cases c) (simp_all add: plain_num_def plain_zero_def isFinite_def in_unit_def)
  ultimately show ?thesis
    by (auto simp: add_ok_def ex_float_def plain_num_def [of x for x] split: option.split)
qed

definition ex_store :: aggregate_state where
  "ex_store = \<lparr>log_files = [], makes_dirs = True, lists_dir = True, unlinks = True, seen = {}, opened = True,
     baseline_file = Missing, saves = True, baseline = [], foldedSegments = [], rollup = [], agg_opened = True\<rparr>"

lemma ex_store_serving: "serving ex_float ex_store"
proof -
  have "segments ex_store = []" by (simp add: segments_def ex_store_def)
  then have none: "replay ex_store = []" "live ex_store = []" "chronological ex_store"
    by (simp_all add: replay_def live_def chronological_def)
  then have st: "steady ex_store"
    by (simp add: steady_def sound_files_def plain_map_def file_agrees_def readBaseline_def ex_store_def)
  have "log_ok ex_store" using none by (simp add: log_ok_def sound_files_def ex_store_def)
  moreover have "served ex_float ex_store = Some (map_of (rollup ex_store))"
    using served_steady [OF ex_float_ok st] none by (simp add: ex_store_def)
  ultimately show ?thesis using st by (simp add: serving_def ex_store_def)
qed

lemma ex_newest: "newest ex_store (segmentName 0)"
proof -
  have "segmentEndMs (js ''1970-01-01.ndjson'') = Some 86400000" by code_simp
  then show ?thesis
    by (simp add: newest_def segment_of_epoch match_of_epoch segments_def ex_store_def)
qed

definition ex_taken :: aggregate_state where
  "ex_taken = snd (record_accepted ex_float [stamped (toISOString 0) ex_play]
     (snd (append_events [ex_play] 0 Wrote ex_store)))"

lemma ex_takes: "append_events [ex_play] 0 Wrote ex_store =
    (Inr ([stamped (toISOString 0) ex_play], []), snd (append_events [ex_play] 0 Wrote ex_store))"
  by (simp add: append_events_def time_value_def ex_store_def ex_play_def Let_def)

lemma ex_ingestible: "list_all ingestible [ex_play]"
  by (simp add: ingestible_def plain_play_def ex_play_def isFinite_def plain_zero_def)

lemma ex_records: "record_accepted ex_float [stamped (toISOString 0) ex_play]
    (snd (append_events [ex_play] 0 Wrote ex_store)) = (Inr (), ex_taken)"
  by (simp add: ex_taken_def record_accepted_def)

lemma ex_life: "lifetime ex_float ex_store ex_taken"
  by (rule lifetime.ingest [OF lifetime.begin_life ex_takes ex_ingestible ex_newest ex_records])

lemma ex_taken_serving: "serving ex_float ex_taken"
  by (rule serving_ingest [OF ex_float_ok ex_store_serving ex_takes ex_ingestible ex_newest ex_records])

lemma ex_rollup: "get_aggregate ex_float ex_taken (js ''automerge:4'') \<noteq> None"
  by (simp add: get_aggregate_def ex_taken_def record_accepted_def fold_into_def ex_play_def)

lemma rollup_is_replay_witness:
  "\<exists>s. lifetime ex_float ex_store s \<and> get_aggregate ex_float s (js ''automerge:4'') \<noteq> None
     \<and> get_aggregate ex_float s (js ''automerge:4'') = get_aggregate ex_float (reopened ex_float s) (js ''automerge:4'')"
  using rollup_is_replay [OF ex_float_ok ex_store_serving ex_life] ex_life ex_rollup by blast

lemma sweep_keeps_totals_witness:
  "let s' = snd (run (sweep_aggregates ex_float (js ''now'') 0 864000000) ex_taken)
   in served ex_float s' = served ex_float ex_taken \<and> served ex_float ex_taken \<noteq> None"
proof -
  have "steady ex_taken" "log_ok ex_taken" "opened ex_taken" using ex_taken_serving by (simp_all add: serving_def)
  from sweep_keeps_totals [OF ex_float_ok this disjI2 [OF refl]] show ?thesis unfolding Let_def .
qed

section \<open>A save that fails\<close>

text \<open>
  The name of a segment enters the set of folded ones before the baseline is written. When the write
  fails the segment is kept, but the next sweep takes it for folded and unlinks it: at that moment
  its plays are in no file.
\<close>

lemma refused_save_then_unlinked:
  assumes "segments s = [n]" "expired (now - age) n" "n \<notin> set (foldedSegments s)" "makes_dirs s" "\<not> saves s" "unlinks s"
  obtains r s1 s2 where "run (sweep_aggregates fl stamp age now) s = (Inr r, s1)" "sw_retained r = [n]"
    "s2 \<in> set (passes (sweep_aggregates fl stamp age now) s1)"
    "map_of (log_files s2) n = None" "baseline_file s2 = baseline_file s"
proof -
  let ?es = "fst (replaySegment s n)"
  let ?s1 = "s\<lparr>baseline := fold (fold_into fl) ?es (baseline s), foldedSegments := add_name n (foldedSegments s)\<rparr>"
  let ?r = "\<lparr>sw_segments = [], sw_events = 0, sw_retained = [n]\<rparr>"
  let ?s2 = "snd (unlink n ?es ?s1)"
  have "run (sweep_aggregates fl stamp age now) s = (Inr ?r, ?s1)"
    using assms by (simp add: sweep_aggregates_def sweep_log_def run_chain run_attempt fold_segment_def
        writeBaseline_def settle_folded_def)
  moreover have "?s2 \<in> set (passes (sweep_aggregates fl stamp age now) ?s1)"
  proof -
    have "segments ?s1 = segments s" by (simp add: segments_def)
    then have same: "segments ?s1 = [n]" "replaySegment ?s1 = replaySegment s"
      using assms(1) by (simp_all add: replaySegment_def fun_eq_iff)
    show ?thesis
      using assms(2) same
      by (simp add: sweep_aggregates_def sweep_log_def passes_chain run_chain run_attempt fold_segment_def add_name_def)
  qed
  moreover have "map_of (log_files ?s2) n = None" "baseline_file ?s2 = baseline_file s"
    using assms(6) by (simp_all add: unlink_def)
  ultimately show ?thesis using that [of ?r ?s1 ?s2] by simp
qed

end
