(* ===== verification/Event_Queue.thy ===== *)
theory Event_Queue
  imports Threads Js_Value
begin

text \<open>
  The guest's outbox for playback events, \<^verbatim>\<open>packages/core/app/eventQueue.ts\<close>: one queue per host in
  device storage. The stored JSON is kept as the queues it spells (\<open>None\<close>: nothing stored, or
  nothing that reads as an object); storage may refuse a write, which throws. A flush is a thread: it
  reads the batch, waits for the host, and then applies the answer to what is queued by that time.
  The answer of \<open>fetch\<close> is an argument of the call; ids and random numbers are arguments too.
\<close>

section \<open>Events and answers\<close>

record playback_event =
  pe_id :: jstr
  pe_recordingUrl :: jstr
  pe_completion :: jsnum
  pe_occurredAt :: jstr
  pe_deviceId :: "jstr option"

record rejection =
  rj_index :: int
  rj_id :: "jstr option"
  rj_reason :: jstr
  rj_retryable :: bool

text \<open>The lists may be missing from a truncated answer.\<close>

record ingest_response =
  ir_accepted :: "jstr list option"
  ir_duplicates :: "jstr list option"
  ir_rejected :: "rejection list option"

record play_session =
  ps_recordingUrl :: jstr
  ps_completion :: jsnum
  ps_occurredAt :: jstr

definition DEFAULT_MAX_QUEUED_EVENTS :: nat where
  "DEFAULT_MAX_QUEUED_EVENTS = 500"

section \<open>Ids\<close>

text \<open>The version 4 UUID of sixteen random bytes, where \<open>crypto.randomUUID\<close> is missing.\<close>

definition random_uuid :: "(u8 list \<Rightarrow> jstr) \<Rightarrow> u8 list \<Rightarrow> jstr" where
  "random_uuid hex random =
     (let bytes = random[6 := (random ! 6 AND 0x0f) OR 0x40];
          bytes' = bytes[8 := (bytes ! 8 AND 0x3f) OR 0x80];
          h = hex bytes'
      in take 8 h @ js ''-'' @ take 4 (drop 8 h) @ js ''-'' @ take 4 (drop 12 h) @ js ''-''
         @ take 4 (drop 16 h) @ js ''-'' @ drop 20 h)"

definition createEvent :: "jstr \<Rightarrow> play_session \<Rightarrow> jstr \<Rightarrow> playback_event" where
  "createEvent fresh session deviceId =
     \<lparr>pe_id = fresh, pe_recordingUrl = ps_recordingUrl session, pe_completion = ps_completion session,
      pe_occurredAt = ps_occurredAt session, pe_deviceId = Some deviceId\<rparr>"

section \<open>Device storage\<close>

record device_storage =
  queues :: "(jstr \<times> playback_event list) list option"
  device_id :: "jstr option"
  has_room :: bool

datatype storage_error = QuotaExceeded

type_synonym 'a storage_eff = "(device_storage, storage_error, 'a) eff"

definition getDeviceId :: "jstr \<Rightarrow> jstr storage_eff" where
  "getDeviceId minted = (\<lambda>s.
     case device_id s of
       Some existing \<Rightarrow> if existing \<noteq> [] then (Inr existing, s)
         else if has_room s then (Inr minted, s\<lparr>device_id := Some minted\<rparr>) else (Inl QuotaExceeded, s)
     | None \<Rightarrow> if has_room s then (Inr minted, s\<lparr>device_id := Some minted\<rparr>) else (Inl QuotaExceeded, s))"

record blob_endpoint =
  be_baseUrl :: jstr
  be_local :: bool
  be_token :: "jstr option"

definition edgeKey :: "blob_endpoint \<Rightarrow> jstr" where
  "edgeKey endpoint = be_baseUrl endpoint"

definition readQueues :: "device_storage \<Rightarrow> (jstr \<times> playback_event list) list" where
  "readQueues s = (case queues s of None \<Rightarrow> [] | Some qs \<Rightarrow> qs)"

definition writeQueues :: "(jstr \<times> playback_event list) list \<Rightarrow> unit storage_eff" where
  "writeQueues qs = (\<lambda>s. if has_room s then (Inr (), s\<lparr>queues := Some qs\<rparr>) else (Inl QuotaExceeded, s))"

definition readQueue :: "device_storage \<Rightarrow> blob_endpoint \<Rightarrow> playback_event list" where
  "readQueue s endpoint =
     (case map_of (readQueues s) (edgeKey endpoint) of None \<Rightarrow> [] | Some q \<Rightarrow> q)"

definition writeQueue :: "blob_endpoint \<Rightarrow> playback_event list \<Rightarrow> unit storage_eff" where
  "writeQueue endpoint events = (\<lambda>s.
     let qs = readQueues s
     in writeQueues (if events = [] then AList.delete (edgeKey endpoint) qs
                     else AList.update (edgeKey endpoint) events qs) s)"

definition resolveEventTarget :: "jstr \<Rightarrow> blob_endpoint list \<Rightarrow> blob_endpoint option" where
  "resolveEventTarget recordingUrl endpoints =
     (case find (\<lambda>e. \<not> be_local e) endpoints of
        Some e \<Rightarrow> Some e
      | None \<Rightarrow> (case endpoints of [] \<Rightarrow> None | e # _ \<Rightarrow> Some e))"

definition enqueueEvent :: "blob_endpoint \<Rightarrow> playback_event \<Rightarrow> nat \<Rightarrow> unit storage_eff" where
  "enqueueEvent endpoint event cap = (\<lambda>s.
     let queue = readQueue s endpoint @ [event]
     in writeQueue endpoint (drop (length queue - cap) queue) s)"

section \<open>Flushing\<close>

definition at_index :: "playback_event list \<Rightarrow> int \<Rightarrow> playback_event option" where
  "at_index batch i = (if 0 \<le> i \<and> i < int (length batch) then Some (batch ! nat i) else None)"

definition settled_by :: "playback_event list \<Rightarrow> rejection \<Rightarrow> jstr option" where
  "settled_by batch r =
     (if rj_retryable r then None
      else case rj_id r of Some i \<Rightarrow> Some i | None \<Rightarrow> map_option pe_id (at_index batch (rj_index r)))"

definition the_list :: "'a list option \<Rightarrow> 'a list" where
  "the_list xs = (case xs of None \<Rightarrow> [] | Some ys \<Rightarrow> ys)"

definition settled_ids :: "playback_event list \<Rightarrow> ingest_response \<Rightarrow> jstr set" where
  "settled_ids batch a = set (the_list (ir_accepted a)) \<union> set (the_list (ir_duplicates a))
     \<union> set (List.map_filter (settled_by batch) (the_list (ir_rejected a)))"

definition applyIngestResponse :: "playback_event list \<Rightarrow> ingest_response \<Rightarrow> playback_event list" where
  "applyIngestResponse batch a = filter (\<lambda>e. pe_id e \<notin> settled_ids batch a) batch"

text \<open>
  \<open>backoffDelay\<close> in exact arithmetic, with \<open>Math.random\<close> as a fraction \<open>p / q\<close> of one.
\<close>

definition INITIAL_BACKOFF_MS :: nat where
  "INITIAL_BACKOFF_MS = 5000"

definition MAX_BACKOFF_MS :: nat where
  "MAX_BACKOFF_MS = 5 * 60 * 1000"

definition backoffDelay :: "nat \<Rightarrow> nat \<Rightarrow> nat \<Rightarrow> nat" where
  "backoffDelay failures p q =
     (let base = min MAX_BACKOFF_MS (INITIAL_BACKOFF_MS * 2 ^ (failures - 1))
      in (base * (q + p) + q) div (2 * q))"

text \<open>What \<open>fetch\<close> and \<open>response.json()\<close> come to.\<close>

datatype fetched_answer = Unreachable | Refused nat | NotOk nat | Unreadable_body | Answer ingest_response

definition refusal :: "nat \<Rightarrow> bool" where
  "refusal status = (status \<in> {400, 413, 415})"

definition answer_of :: "nat \<Rightarrow> ingest_response option \<Rightarrow> fetched_answer" where
  "answer_of status body =
     (if refusal status then Refused status
      else if \<not> (200 \<le> status \<and> status \<le> 299) then NotOk status
      else case body of None \<Rightarrow> Unreadable_body | Some a \<Rightarrow> Answer a)"

datatype flush_outcome = Flushed nat | Empty_queue | Deferred

definition settle_queue :: "blob_endpoint \<Rightarrow> playback_event list \<Rightarrow> ingest_response \<Rightarrow> nat storage_eff" where
  "settle_queue endpoint batch a = (\<lambda>s.
     let kept = applyIngestResponse batch a;
         sent = set (map pe_id batch); keep = set (map pe_id kept); current = readQueue s endpoint
     in and_then (writeQueue endpoint (filter (\<lambda>e. pe_id e \<notin> sent \<or> pe_id e \<in> keep) current))
          (\<lambda>_. ret (length kept)) s)"

datatype queue_stretch = Sending | Settling | Queueing

definition flushQueue ::
  "blob_endpoint \<Rightarrow> fetched_answer \<Rightarrow> (queue_stretch, device_storage, storage_error, flush_outcome) call" where
  "flushQueue endpoint fetched =
     chain (perform Sending (reads (\<lambda>s. readQueue s endpoint))) (\<lambda>batch.
       if batch = [] then give Empty_queue
       else case fetched of
           Unreachable \<Rightarrow> give Deferred
         | Refused status \<Rightarrow> chain (perform Settling (writeQueue endpoint [])) (\<lambda>_. give (Flushed 0))
         | NotOk status \<Rightarrow> give Deferred
         | Unreadable_body \<Rightarrow> give Deferred
         | Answer a \<Rightarrow> chain (perform Settling (settle_queue endpoint batch a)) (\<lambda>n. give (Flushed n)))"

section \<open>Queues\<close>

lemma readQueue_writeQueue:
  assumes "has_room s"
  shows "\<exists>s'. writeQueue endpoint events s = (Inr (), s') \<and> has_room s'
    \<and> (\<forall>e. readQueue s' e = (if edgeKey e = edgeKey endpoint then events else readQueue s e))"
  using assms by (auto simp: writeQueue_def writeQueues_def readQueue_def readQueues_def Let_def split: option.splits)

lemma writeQueue_cases:
  assumes "writeQueue endpoint events s = (r, s')"
  shows "(has_room s \<and> r = Inr () \<and> (\<forall>e. readQueue s' e = (if edgeKey e = edgeKey endpoint then events else readQueue s e)))
    \<or> (\<not> has_room s \<and> r = Inl QuotaExceeded \<and> s' = s)"
  using assms readQueue_writeQueue [of s endpoint events]
  by (cases "has_room s") (auto simp: writeQueue_def writeQueues_def Let_def)

text \<open>
  C21. What a flush takes out of the queue once the host has answered, whatever was queued while the
  request was in flight: every event that was not sent stays, a sent one goes exactly when the answer
  settles its id, the queues of other hosts are untouched, and a refused write changes nothing.
\<close>

theorem settle_keeps_unsettled:
  "case settle_queue endpoint batch a s of (r, s') \<Rightarrow>
     if has_room s then r = Inr (length (applyIngestResponse batch a))
       \<and> readQueue s' endpoint = filter (\<lambda>e. \<not> (pe_id e \<in> set (map pe_id batch) \<and> pe_id e \<in> settled_ids batch a))
            (readQueue s endpoint)
       \<and> (edgeKey other = edgeKey endpoint \<or> readQueue s' other = readQueue s other)
     else r = Inl QuotaExceeded \<and> s' = s"
proof -
  let ?P = "\<lambda>e. \<not> (pe_id e \<in> set (map pe_id batch) \<and> pe_id e \<in> settled_ids batch a)"
  have same: "pe_id e \<notin> set (map pe_id batch) \<or> pe_id e \<in> set (map pe_id (applyIngestResponse batch a))
      \<longleftrightarrow> \<not> (pe_id e \<in> set (map pe_id batch) \<and> pe_id e \<in> settled_ids batch a)" for e
    by (auto simp: applyIngestResponse_def)
  obtain r s' where w: "writeQueue endpoint (filter ?P (readQueue s endpoint)) s = (r, s')" by fastforce
  have settle: "settle_queue endpoint batch a s =
      and_then (writeQueue endpoint (filter ?P (readQueue s endpoint))) (\<lambda>_. ret (length (applyIngestResponse batch a))) s"
    by (simp only: settle_queue_def Let_def same)
  show ?thesis
  proof (cases "has_room s")
    case True
    with writeQueue_cases [OF w] have "r = Inr ()"
      "\<forall>e. readQueue s' e = (if edgeKey e = edgeKey endpoint then filter ?P (readQueue s endpoint) else readQueue s e)"
      by simp_all
    with True w show ?thesis by (simp add: settle)
  next
    case False
    with writeQueue_cases [OF w] w show ?thesis by (simp add: settle)
  qed
qed

section \<open>The cap\<close>

inductive_set queue_calls :: "nat \<Rightarrow> (queue_stretch, device_storage, unit) thread set" for cap where
  enqueue_call: "forget (perform Queueing (enqueueEvent endpoint event cap)) \<in> queue_calls cap"
| flush_call: "forget (flushQueue endpoint fetched) \<in> queue_calls cap"

definition capped :: "nat \<Rightarrow> device_storage \<Rightarrow> bool" where
  "capped cap s = (\<forall>e. length (readQueue s e) \<le> cap)"

lemma keeps_capped_write:
  assumes "\<And>s. capped cap s \<Longrightarrow> length (events s) \<le> cap"
  shows "keeps (capped cap) (\<lambda>s. writeQueue endpoint (events s) s)"
  unfolding keeps_def
proof (intro allI impI)
  fix s assume c: "capped cap s"
  obtain r s' where w: "writeQueue endpoint (events s) s = (r, s')" by fastforce
  from writeQueue_cases [OF w] c assms [OF c] w show "capped cap (snd (writeQueue endpoint (events s) s))"
    by (auto simp: capped_def)
qed

lemma keeps_enqueue: "keeps (capped cap) (enqueueEvent endpoint event cap)"
proof -
  have "keeps (capped cap) (\<lambda>s. writeQueue endpoint ((\<lambda>s. let queue = readQueue s endpoint @ [event]
      in drop (length queue - cap) queue) s) s)"
    by (rule keeps_capped_write) (auto simp: Let_def)
  then show ?thesis by (simp add: enqueueEvent_def Let_def)
qed

lemma keeps_settle: "keeps (capped cap) (settle_queue endpoint batch a)"
proof -
  have "keeps (capped cap) (\<lambda>s. writeQueue endpoint ((\<lambda>s. filter (\<lambda>e. pe_id e \<notin> set (map pe_id batch)
      \<or> pe_id e \<in> set (map pe_id (applyIngestResponse batch a))) (readQueue s endpoint)) s) s)"
    by (rule keeps_capped_write) (auto simp: capped_def intro: order_trans [OF length_filter_le])
  then show ?thesis
    by (auto simp: keeps_def settle_queue_def Let_def and_then_def split: prod.splits sum.splits)
qed

text \<open>
  However plays and flushes interleave, and whatever the hosts answer, no queue grows past its
  cap.
\<close>

lemma queue_capped:
  assumes "interleaved (queue_calls cap) env s0 tr ts s" "\<forall>e. length (readQueue s0 e) \<le> cap"
    "\<forall>s s'. env s s' \<longrightarrow> queues s' = queues s"
  shows "length (readQueue s e) \<le> cap"
proof -
  have "safe (capped cap) t" if "t \<in> queue_calls cap" for t
    using that
  proof cases
    case (enqueue_call endpoint event)
    then show ?thesis using keeps_enqueue by (simp add: safe_perform)
  next
    case (flush_call endpoint fetched)
    have "keeps (capped cap) (writeQueue endpoint [])"
      using keeps_capped_write [of cap "\<lambda>_. []" endpoint] by simp
    then show ?thesis
      unfolding flush_call flushQueue_def safe_forget
      by (auto intro!: safe_chain safe_perform keeps_settle split: fetched_answer.split)
  qed
  moreover have "capped cap s'" if "env s s'" "capped cap s" for s s'
    using that assms(3) by (simp add: capped_def readQueue_def readQueues_def)
  ultimately have "capped cap s"
    using interleaved_invariant [OF assms(1), of "capped cap"] assms(2) by (auto simp: capped_def)
  then show ?thesis by (simp add: capped_def)
qed

lemma queue_capped_witness:
  "\<exists>tr ts s. interleaved (queue_calls 1) (\<lambda>_ _. False) \<lparr>queues = None, device_id = None, has_room = True\<rparr> tr ts s
     \<and> length (readQueue s \<lparr>be_baseUrl = [], be_local = False, be_token = None\<rparr>) \<le> 1 \<and> queues s \<noteq> None"
proof -
  let ?e = "\<lparr>be_baseUrl = [], be_local = False, be_token = None\<rparr>"
  let ?play = "\<lparr>pe_id = [], pe_recordingUrl = [], pe_completion = Zero False, pe_occurredAt = [], pe_deviceId = None\<rparr>"
  let ?s0 = "\<lparr>queues = None, device_id = None, has_room = True\<rparr>"
  let ?t = "forget (perform Queueing (enqueueEvent ?e ?play 1)) :: (queue_stretch, device_storage, unit) thread"
  have "?t \<in> queue_calls 1" by (rule queue_calls.enqueue_call)
  from interleaved_run [OF interleaved.start this] obtain tr
    where i: "interleaved (queue_calls 1) (\<lambda>_ _. False) ?s0 tr [Done ()] (snd (run ?t ?s0))" by auto
  have "\<forall>e. length (readQueue ?s0 e) \<le> 1" by (simp add: readQueue_def readQueues_def)
  from queue_capped [OF i this] have "length (readQueue (snd (run ?t ?s0)) ?e) \<le> 1" by simp
  moreover have "queues (snd (run ?t ?s0)) \<noteq> None"
    by (simp add: forget_def perform_def enqueueEvent_def writeQueue_def writeQueues_def readQueue_def
        readQueues_def Let_def)
  ultimately show ?thesis using i by blast
qed

end
