(* ===== verification/Event_Http.thy ===== *)
theory Event_Http
  imports Aggregate_Examples Event_Queue Http_Auth Labels
begin

text \<open>
  The \<open>/events\<close> routes of the host, \<^verbatim>\<open>eventHttp.ts\<close>: validation, the token bucket per connection,
  the ingest route with its answer per event, the aggregates route with its entity tag, and the gate
  in front of both. The state extends the stores' with the buckets. UTF-8 decoding with
  \<open>JSON.parse\<close>, \<open>Date.parse\<close>, the digest of a JSON text and the lookup of a recording are fields of
  the options; the time and what the disk does with the write come with the request. The limiter's
  tokens are counted in thousandths, exactly. An answer is its status, its JSON body and the headers
  that carry meaning; the CORS headers are left out.
\<close>

section \<open>Options, requests, answers\<close>

definition DEFAULT_MAX_BATCH_EVENTS :: nat where
  "DEFAULT_MAX_BATCH_EVENTS = 500"

definition DEFAULT_MAX_BODY_BYTES :: nat where
  "DEFAULT_MAX_BODY_BYTES = 1024 * 1024"

definition DEFAULT_RATE_BURST :: int where
  "DEFAULT_RATE_BURST = 30"

definition DEFAULT_RATE_REFILL_PER_SECOND :: int where
  "DEFAULT_RATE_REFILL_PER_SECOND = 1"

record event_options =
  eh_parse :: "u8 list \<Rightarrow> jsval option"
  eh_isDate :: "jstr \<Rightarrow> bool"
  eh_digest :: "jsval \<Rightarrow> jstr"
  eh_float :: float_ops
  eh_aggregates :: bool
  eh_token :: "jstr option"
  eh_isKnownRecording :: "(jstr \<Rightarrow> bool option) option"
  eh_maxBatchEvents :: nat
  eh_maxBodyBytes :: nat
  eh_rateBurst :: int
  eh_rateRefillPerSecond :: int

record event_request = http_request +
  rq_contentType :: "jstr option"
  rq_ifNoneMatch :: "jstr option"
  rq_chunks :: "u8 list list"
  rq_socket :: nat
  rq_now :: int
  rq_disk :: append_outcome

record event_answer =
  ea_status :: nat
  ea_json :: "jsval option"
  ea_etag :: "jstr option"
  ea_retryAfter :: "int option"

definition answer_json :: "nat \<Rightarrow> jsval \<Rightarrow> event_answer" where
  "answer_json status v = \<lparr>ea_status = status, ea_json = Some v, ea_etag = None, ea_retryAfter = None\<rparr>"

definition answer_status :: "nat \<Rightarrow> event_answer" where
  "answer_status status = \<lparr>ea_status = status, ea_json = None, ea_etag = None, ea_retryAfter = None\<rparr>"

datatype rejection_reason = Malformed | Unknown_recording

record ingest_rejection =
  ij_index :: nat
  ij_id :: "jstr option"
  ij_reason :: rejection_reason
  ij_retryable :: bool

record ingest_answer =
  ia_accepted :: "jstr list"
  ia_duplicates :: "jstr list"
  ia_rejected :: "ingest_rejection list"

section \<open>Validation\<close>

text \<open>Abandons the body with the first chunk that passes the ceiling.\<close>

fun readBody :: "nat \<Rightarrow> nat \<Rightarrow> u8 list list \<Rightarrow> u8 list option" where
  "readBody maxBytes got [] = Some []"
| "readBody maxBytes got (chunk # chunks) =
     (if maxBytes < got + length chunk then None
      else map_option (append chunk) (readBody maxBytes (got + length chunk) chunks))"

definition clampCompletion :: "jsnum \<Rightarrow> jsnum" where
  "clampCompletion x = clamp_unit x"

definition base58_unit :: "u16 \<Rightarrow> bool" where
  "base58_unit u = (0x31 \<le> u \<and> u \<le> 0x39 \<or> 0x41 \<le> u \<and> u \<le> 0x48 \<or> 0x4a \<le> u \<and> u \<le> 0x4e
     \<or> 0x50 \<le> u \<and> u \<le> 0x5a \<or> 0x61 \<le> u \<and> u \<le> 0x6b \<or> 0x6d \<le> u \<and> u \<le> 0x7a)"

definition recording_url :: "jstr \<Rightarrow> bool" where
  "recording_url url = (startsWith url (js ''automerge:'')
     \<and> 16 \<le> length (drop 10 url) \<and> list_all base58_unit (drop 10 url))"

datatype validated = Valid play_event | Invalid "jstr option"

fun nonempty :: "jsval \<Rightarrow> jstr option" where
  "nonempty (JString t) = (if t = [] then None else Some t)"
| "nonempty _ = None"

definition validate :: "event_options \<Rightarrow> jsval \<Rightarrow> validated" where
  "validate opts v =
     (if \<not> is_object v then Invalid None
      else case nonempty (field v ''id'') of
          None \<Rightarrow> Invalid None
        | Some i \<Rightarrow>
            if field v ''type'' \<noteq> JString (js ''play'') then Invalid (Some i)
            else case as_string (field v ''recordingUrl'') of
                None \<Rightarrow> Invalid (Some i)
              | Some url \<Rightarrow>
                  if \<not> recording_url url then Invalid (Some i)
                  else case as_number (field v ''completion'') of
                      None \<Rightarrow> Invalid (Some i)
                    | Some c \<Rightarrow>
                        if \<not> isFinite c then Invalid (Some i)
                        else case as_string (field v ''occurredAt'') of
                            None \<Rightarrow> Invalid (Some i)
                          | Some at \<Rightarrow>
                              if \<not> eh_isDate opts at then Invalid (Some i)
                              else Valid \<lparr>ev_id = i, ev_recordingUrl = url, ev_completion = clampCompletion c,
                                ev_occurredAt = at, ev_deviceId = nonempty (field v ''deviceId'')\<rparr>)"

section \<open>The rate limiter\<close>

record bucket =
  tokens :: int
  updated :: int

type_synonym buckets = "(nat \<times> bucket) list"

definition take_token :: "int \<Rightarrow> int \<Rightarrow> int \<Rightarrow> nat \<Rightarrow> buckets \<Rightarrow> bool \<times> buckets" where
  "take_token burst refillPerSecond at key bs =
     (let b = (case map_of bs key of None \<Rightarrow> \<lparr>tokens = 1000 * burst, updated = at\<rparr> | Some b \<Rightarrow> b);
          filled = min (1000 * burst) (tokens b + (at - updated b) * refillPerSecond)
      in if filled < 1000 then (False, AList.update key \<lparr>tokens = filled, updated = at\<rparr> bs)
         else (True, AList.update key \<lparr>tokens = filled - 1000, updated = at\<rparr> bs))"

record event_server = aggregate_state +
  es_buckets :: buckets

section \<open>Ingest\<close>

datatype handler_error = Store_error log_error | Lookup_error

definition in_store :: "('s, log_error, 'a) eff \<Rightarrow> ('s, handler_error, 'a) eff" where
  "in_store m = (\<lambda>s. case m s of (r, s') \<Rightarrow> (map_sum Store_error id r, s'))"

definition known_recording :: "event_options \<Rightarrow> jstr \<Rightarrow> bool option" where
  "known_recording opts url = (case eh_isKnownRecording opts of None \<Rightarrow> Some True | Some known \<Rightarrow> known url)"

text \<open>Rejections and valid events, in the order of the batch; \<open>None\<close> when a lookup throws.\<close>

fun judge :: "event_options \<Rightarrow> nat \<Rightarrow> jsval list \<Rightarrow> (ingest_rejection list \<times> play_event list) option" where
  "judge opts i [] = Some ([], [])"
| "judge opts i (v # vs) =
     (case validate opts v of
        Invalid rid \<Rightarrow> map_option (\<lambda>(rej, es).
          (\<lparr>ij_index = i, ij_id = rid, ij_reason = Malformed, ij_retryable = False\<rparr> # rej, es)) (judge opts (Suc i) vs)
      | Valid e \<Rightarrow>
          (case known_recording opts (ev_recordingUrl e) of
             None \<Rightarrow> None
           | Some False \<Rightarrow> map_option (\<lambda>(rej, es).
               (\<lparr>ij_index = i, ij_id = Some (ev_id e), ij_reason = Unknown_recording, ij_retryable = True\<rparr> # rej, es))
               (judge opts (Suc i) vs)
           | Some True \<Rightarrow> map_option (\<lambda>(rej, es). (rej, e # es)) (judge opts (Suc i) vs)))"

definition ingest_batch ::
  "event_options \<Rightarrow> int \<Rightarrow> append_outcome \<Rightarrow> jsval list \<Rightarrow> ('x aggregate_state_scheme, handler_error, ingest_answer) eff" where
  "ingest_batch opts now disk submitted =
     (case judge opts 0 submitted of
        None \<Rightarrow> fail Lookup_error
      | Some (rejected, valid) \<Rightarrow>
          and_then (in_store (append_events valid now disk)) (\<lambda>(accepted, duplicates).
          and_then (if eh_aggregates opts then in_store (record_accepted (eh_float opts) accepted) else ret ()) (\<lambda>_.
          ret \<lparr>ia_accepted = map ev_id accepted, ia_duplicates = duplicates, ia_rejected = rejected\<rparr>)))"

definition rejection_value :: "ingest_rejection \<Rightarrow> jsval" where
  "rejection_value r = JObject
     [(js ''index'', JNumber (num_of_nat (ij_index r))),
      (js ''id'', (case ij_id r of None \<Rightarrow> JUndefined | Some i \<Rightarrow> JString i)),
      (js ''reason'', JString (case ij_reason r of Malformed \<Rightarrow> js ''malformed'' | Unknown_recording \<Rightarrow> js ''unknown-recording'')),
      (js ''retryable'', JBool (ij_retryable r))]"

definition ingest_answer_value :: "ingest_answer \<Rightarrow> jsval" where
  "ingest_answer_value a = JObject
     [(js ''accepted'', JArray (map JString (ia_accepted a))),
      (js ''duplicates'', JArray (map JString (ia_duplicates a))),
      (js ''rejected'', JArray (map rejection_value (ia_rejected a)))]"

definition lower_ascii :: "u16 \<Rightarrow> u16" where
  "lower_ascii u = (if 0x41 \<le> u \<and> u \<le> 0x5a then u + 0x20 else u)"

definition media_type :: "jstr option \<Rightarrow> jstr" where
  "media_type contentType = map lower_ascii (trim (takeWhile (\<lambda>u. u \<noteq> 0x3b)
     (case contentType of None \<Rightarrow> [] | Some t \<Rightarrow> t)))"

definition handleIngest :: "event_options \<Rightarrow> event_request \<Rightarrow> ('x aggregate_state_scheme, handler_error, event_answer) eff" where
  "handleIngest opts rq =
     (if media_type (rq_contentType rq) \<noteq> js ''application/json''
      then ret (answer_json 415 (error_body ''Expected an application/json body''))
      else case readBody (eh_maxBodyBytes opts) 0 (rq_chunks rq) of
          None \<Rightarrow> ret (answer_json 413 (error_body ''Event batch is too large''))
        | Some body \<Rightarrow>
            (case eh_parse opts body of
               None \<Rightarrow> ret (answer_json 400 (error_body ''Body is not valid JSON''))
             | Some parsed \<Rightarrow>
                 (case (case as_array parsed of Some vs \<Rightarrow> Some vs | None \<Rightarrow> as_array (field parsed ''events'')) of
                    None \<Rightarrow> ret (answer_json 400 (error_body ''Expected an array of events''))
                  | Some submitted \<Rightarrow>
                      if eh_maxBatchEvents opts < length submitted
                      then ret (answer_json 413 (JObject [(js ''error'', JString (js ''Batch exceeds ''
                             @ number_text (num_of_nat (eh_maxBatchEvents opts)) @ js '' events''))]))
                      else and_then (ingest_batch opts (rq_now rq) (rq_disk rq) submitted)
                             (\<lambda>a. ret (answer_json 200 (ingest_answer_value a))))))"

section \<open>Aggregates\<close>

definition aggregate_value :: "recording_aggregate \<Rightarrow> jsval" where
  "aggregate_value a = JObject
     [(js ''recordingUrl'', JString (ra_recordingUrl a)), (js ''plays'', JNumber (ra_plays a)),
      (js ''averageCompletion'', JNumber (ra_averageCompletion a))]"

definition handleAggregates :: "event_options \<Rightarrow> event_request \<Rightarrow> ('x aggregate_state_scheme, handler_error, event_answer) eff" where
  "handleAggregates opts rq = (\<lambda>s.
     if \<not> eh_aggregates opts
     then (Inr (answer_json 503 (error_body ''Playback aggregates are not available'')), s)
     else
       let sorted = JArray (map aggregate_value (sort_key ra_recordingUrl (all_aggregates (eh_float opts) s)));
           etag = [0x22] @ take 32 (eh_digest opts sorted) @ [0x22]
       in if rq_ifNoneMatch rq = Some etag
          then (Inr ((answer_status 304)\<lparr>ea_etag := Some etag\<rparr>), s)
          else (Inr \<lparr>ea_status = 200,
             ea_json = (if rq_method rq = Some (js ''HEAD'') then None
               else Some (JObject [(js ''aggregates'', sorted), (js ''generatedAt'', JString (toISOString (rq_now rq)))])),
             ea_etag = Some etag, ea_retryAfter = None\<rparr>, s))"

section \<open>The gate\<close>

definition EVENTS_PATH :: jstr where
  "EVENTS_PATH = js ''/events''"

definition AGGREGATES_PATH :: jstr where
  "AGGREGATES_PATH = js ''/events/aggregates''"

definition plain_request :: "event_request \<Rightarrow> http_request" where
  "plain_request rq = http_request.truncate rq"

definition take_budget :: "event_options \<Rightarrow> event_request \<Rightarrow> (event_server, handler_error, bool) eff" where
  "take_budget opts rq = (\<lambda>s.
     case take_token (eh_rateBurst opts) (eh_rateRefillPerSecond opts) (rq_now rq) (rq_socket rq) (es_buckets s) of
       (ok, bs) \<Rightarrow> (Inr ok, s\<lparr>es_buckets := bs\<rparr>))"

text \<open>\<open>String(Math.ceil(1 / refillPerSecond))\<close> for a whole rate.\<close>

definition retry_after :: "int \<Rightarrow> int" where
  "retry_after refill = - ((- 1) div refill)"

definition handleEventRequest :: "event_options \<Rightarrow> event_request \<Rightarrow> event_server \<Rightarrow> event_answer option \<times> event_server" where
  "handleEventRequest opts rq s =
     (let isAggregates = (rq_path rq = AGGREGATES_PATH); method = method_of (plain_request rq)
      in if \<not> isAggregates \<and> rq_path rq \<noteq> EVENTS_PATH then (None, s)
         else if method = js ''OPTIONS'' then (Some (answer_status 204), s)
         else if \<not> isAuthorized (plain_request rq) (eh_token opts) then (Some (answer_json 401 (error_body ''Unauthorized'')), s)
         else if \<not> (if isAggregates then method = js ''GET'' \<or> method = js ''HEAD'' else method = js ''POST'')
         then (Some (answer_json 405 (error_body ''Method not allowed'')), s)
         else case take_budget opts rq s of (ok, s1) \<Rightarrow>
           if ok = Inr False
           then (Some ((answer_json 429 (error_body ''Too many event batches''))
                  \<lparr>ea_retryAfter := Some (retry_after (eh_rateRefillPerSecond opts))\<rparr>), s1)
           else case (if isAggregates then handleAggregates opts rq else handleIngest opts rq) s1 of
               (Inr a, s2) \<Rightarrow> (Some a, s2)
             | (Inl _, s2) \<Rightarrow> (Some (answer_json 500
                 (error_body (if isAggregates then ''Aggregate read failed'' else ''Event ingest failed''))), s2))"

section \<open>Valid events\<close>

lemma nonempty_Some [simp]: "nonempty v = Some t \<longleftrightarrow> v = JString t \<and> t \<noteq> []"
  by (cases v) auto

lemma validate_Valid:
  "validate opts v = Valid e \<longleftrightarrow>
     is_object v \<and> field v ''id'' = JString (ev_id e) \<and> ev_id e \<noteq> [] \<and> field v ''type'' = JString (js ''play'')
     \<and> field v ''recordingUrl'' = JString (ev_recordingUrl e) \<and> recording_url (ev_recordingUrl e)
     \<and> (\<exists>c. field v ''completion'' = JNumber c \<and> isFinite c \<and> ev_completion e = clampCompletion c)
     \<and> field v ''occurredAt'' = JString (ev_occurredAt e) \<and> eh_isDate opts (ev_occurredAt e)
     \<and> ev_deviceId e = nonempty (field v ''deviceId'')"
  unfolding validate_def by (cases e) (auto split: option.split)

lemma in_unit_plain: "in_unit x \<Longrightarrow> isFinite x \<and> plain_zero x = x"
  by (cases x) (simp_all add: in_unit_def isFinite_def plain_zero_def)

text \<open>
  C27. What passes validation is fit for the log: it has an id, names a recording, its completion lies
  between zero and one, and once stored and stamped it is read back as exactly the event it was.
\<close>

theorem validated_play_is_storable:
  assumes "validate opts v = Valid e"
  shows "ingestible e \<and> ev_id e \<noteq> [] \<and> recording_url (ev_recordingUrl e) \<and> in_unit (ev_completion e)
    \<and> Option.bind (line_of (stamped t e)) isStoredEvent = Some (stamped t e)"
proof -
  have "in_unit (ev_completion e)" "ev_id e \<noteq> []" "recording_url (ev_recordingUrl e)"
    using assms by (auto simp: validate_Valid clampCompletion_def clamp_in_unit)
  moreover from this have "ingestible e"
    using in_unit_plain by (auto simp: ingestible_def plain_play_def recording_url_def)
  ultimately show ?thesis using read_line [of "stamped t e"] by (simp add: ingestible_def)
qed

section \<open>From queue to log\<close>

text \<open>One event of the guest's batch as the host parses it, and the host's answer as the guest reads it.\<close>

definition event_value :: "playback_event \<Rightarrow> jsval" where
  "event_value e = JObject
     [(js ''id'', JString (pe_id e)), (js ''recordingUrl'', JString (pe_recordingUrl e)),
      (js ''type'', JString (js ''play'')), (js ''completion'', JNumber (pe_completion e)),
      (js ''occurredAt'', JString (pe_occurredAt e)),
      (js ''deviceId'', (case pe_deviceId e of None \<Rightarrow> JUndefined | Some d \<Rightarrow> JString d))]"

definition guest_rejection :: "ingest_rejection \<Rightarrow> rejection" where
  "guest_rejection r = \<lparr>rj_index = int (ij_index r), rj_id = ij_id r,
     rj_reason = (case ij_reason r of Malformed \<Rightarrow> js ''malformed'' | Unknown_recording \<Rightarrow> js ''unknown-recording''),
     rj_retryable = ij_retryable r\<rparr>"

definition guest_answer :: "ingest_answer \<Rightarrow> ingest_response" where
  "guest_answer a = \<lparr>ir_accepted = Some (ia_accepted a), ir_duplicates = Some (ia_duplicates a),
     ir_rejected = Some (map guest_rejection (ia_rejected a))\<rparr>"

definition awaits_recording :: "event_options \<Rightarrow> playback_event \<Rightarrow> bool" where
  "awaits_recording opts e = (case validate opts (event_value e) of
     Valid p \<Rightarrow> known_recording opts (ev_recordingUrl p) = Some False | Invalid _ \<Rightarrow> False)"

lemma validate_event_id:
  assumes "pe_id e \<noteq> []"
  shows "case validate opts (event_value e) of Valid p \<Rightarrow> ev_id p = pe_id e | Invalid r \<Rightarrow> r = Some (pe_id e)"
  using assms by (auto simp: validate_def event_value_def split: option.split)

definition settled_rejections :: "playback_event list \<Rightarrow> ingest_rejection list \<Rightarrow> jstr set" where
  "settled_rejections batch rej = set (List.map_filter (settled_by batch) (map guest_rejection rej))"

lemma settled_rejections_simps [simp]:
  "settled_rejections batch [] = {}"
  "settled_rejections batch (r # rej) = (case settled_by batch (guest_rejection r) of
     None \<Rightarrow> settled_rejections batch rej | Some i \<Rightarrow> insert i (settled_rejections batch rej))"
  by (simp_all add: settled_rejections_def List.map_filter_def split: option.split)

lemma judge_batch:
  assumes "judge opts i (map event_value sent) = Some (rej, es)" "\<forall>e \<in> set sent. pe_id e \<noteq> []"
  shows "ev_id ` set es \<union> settled_rejections batch rej = pe_id ` {e \<in> set sent. \<not> awaits_recording opts e}
    \<and> (\<forall>e \<in> set sent. \<forall>p. validate opts (event_value e) = Valid p \<and> \<not> awaits_recording opts e \<longrightarrow> p \<in> set es)
    \<and> (\<forall>p \<in> set es. ev_id p \<noteq> [])"
  using assms
proof (induction sent arbitrary: i rej es)
  case (Cons e sent)
  note nonempty = Cons.prems(2)
  have ide: "case validate opts (event_value e) of Valid p \<Rightarrow> ev_id p = pe_id e | Invalid r \<Rightarrow> r = Some (pe_id e)"
    using nonempty by (intro validate_event_id) simp
  obtain rej' es' where j: "judge opts (Suc i) (map event_value sent) = Some (rej', es')"
    using Cons.prems(1) by (auto split: validated.splits option.splits bool.splits)
  note ih = Cons.IH [OF j]
  show ?case
  proof (cases "validate opts (event_value e)")
    case (Invalid r)
    then have "rej = \<lparr>ij_index = i, ij_id = r, ij_reason = Malformed, ij_retryable = False\<rparr> # rej'" "es = es'"
        "r = Some (pe_id e)" "\<not> awaits_recording opts e"
      using Cons.prems(1) j ide by (simp_all add: awaits_recording_def)
    moreover from this have "settled_rejections batch rej = insert (pe_id e) (settled_rejections batch rej')"
      by (simp add: settled_by_def guest_rejection_def)
    ultimately show ?thesis using ih nonempty Invalid by auto
  next
    case (Valid p)
    show ?thesis
    proof (cases "awaits_recording opts e")
      case True
      then have "rej = \<lparr>ij_index = i, ij_id = Some (ev_id p), ij_reason = Unknown_recording, ij_retryable = True\<rparr> # rej'"
          "es = es'"
        using Cons.prems(1) j Valid by (simp_all add: awaits_recording_def)
      moreover from this have "settled_rejections batch rej = settled_rejections batch rej'"
        by (simp add: settled_by_def guest_rejection_def)
      ultimately show ?thesis using ih nonempty True by auto
    next
      case False
      then have "rej = rej'" "es = p # es'"
        using Cons.prems(1) j Valid by (auto simp: awaits_recording_def split: option.splits bool.splits)
      moreover have "ev_id p = pe_id e" using ide Valid by simp
      ultimately show ?thesis using ih nonempty False Valid by auto
    qed
  qed
qed simp

lemma append_events_Inr:
  assumes "append_events es now disk s = (Inr (acc, dup), s')" "\<forall>p \<in> set es. ev_id p \<noteq> []"
  shows "ev_id ` set acc \<union> set dup = ev_id ` set es" "\<forall>p \<in> set es. dedupeKey p \<in> seen s'"
proof -
  obtain a d k where t: "take_new (toISOString now) es (seen s) = (a, d, k)" by (cases "take_new (toISOString now) es (seen s)")
  have r: "a = acc" "d = dup" "seen s' = k"
    using assms(1) t by (auto simp: append_events_def Let_def split: if_splits append_outcome.splits)
  have "filter (\<lambda>p. ev_id p \<noteq> []) es = es" using assms(2) by (simp add: filter_id_conv)
  then have "mset (map ev_id acc @ dup) = mset (map ev_id es)" using take_new_split [OF t] r by simp
  from arg_cong [OF this, of set_mset] show "ev_id ` set acc \<union> set dup = ev_id ` set es" by simp
  show "\<forall>p \<in> set es. dedupeKey p \<in> seen s'"
    using take_new_facts [OF t] assms(2) r by (auto simp: taken_well_def)
qed

text \<open>
  C25. What the host's answer does to the guest's queue, however much of the batch the host held
  already and whatever it is a retry of: a play stays queued exactly when the host does not know its
  recording yet, and every valid play that leaves the queue is one the host's index has.
\<close>

theorem ingest_settles_queue:
  assumes "ingest_batch opts now disk (map event_value batch) s = (Inr a, s')"
    "\<forall>e \<in> set batch. pe_id e \<noteq> []" "distinct (map pe_id batch)"
  shows "applyIngestResponse batch (guest_answer a) = filter (awaits_recording opts) batch
    \<and> (\<forall>e \<in> set batch. \<forall>p. validate opts (event_value e) = Valid p \<and> \<not> awaits_recording opts e
         \<longrightarrow> has_event s' p)"
proof -
  obtain rej es where j: "judge opts 0 (map event_value batch) = Some (rej, es)"
    using assms(1) by (cases "judge opts 0 (map event_value batch)") (auto simp: ingest_batch_def)
  obtain r s1 where ap: "append_events es now disk s = (r, s1)" by fastforce
  obtain acc dup where r: "r = Inr (acc, dup)"
    using assms(1) j ap by (cases r) (auto simp: ingest_batch_def in_store_def and_then_def)
  note b = judge_batch [OF j assms(2)]
  have p: "ev_id ` set acc \<union> set dup = ev_id ` set es" "\<forall>p \<in> set es. dedupeKey p \<in> seen s1"
    using append_events_Inr [OF ap [unfolded r]] b by simp_all
  have a: "a = \<lparr>ia_accepted = map ev_id acc, ia_duplicates = dup, ia_rejected = rej\<rparr>" "seen s' = seen s1"
    using assms(1) j ap r
    by (auto simp: ingest_batch_def in_store_def and_then_def record_accepted_def split: if_splits)
  have "settled_ids batch (guest_answer a) = ev_id ` set acc \<union> set dup \<union> settled_rejections batch rej"
    by (simp add: settled_ids_def the_list_def guest_answer_def a settled_rejections_def)
  then have ids: "settled_ids batch (guest_answer a) = pe_id ` {e \<in> set batch. \<not> awaits_recording opts e}"
    using p(1) b by simp
  have "pe_id e \<notin> settled_ids batch (guest_answer a) \<longleftrightarrow> awaits_recording opts e" if "e \<in> set batch" for e
    using that assms(3) unfolding ids by (auto simp: distinct_map dest: inj_onD)
  then have "applyIngestResponse batch (guest_answer a) = filter (awaits_recording opts) batch"
    unfolding applyIngestResponse_def by (intro filter_cong) simp_all
  with p(2) b show ?thesis by (auto simp: has_event_def a(2))
qed

section \<open>The budget\<close>

text \<open>A run of requests, each from a socket at a time; what they were granted.\<close>

fun grants :: "int \<Rightarrow> int \<Rightarrow> (nat \<times> int) list \<Rightarrow> buckets \<Rightarrow> (nat \<times> bool) list" where
  "grants burst refill [] bs = []"
| "grants burst refill ((key, at) # rs) bs =
     (case take_token burst refill at key bs of (ok, bs') \<Rightarrow> (key, ok) # grants burst refill rs bs')"

definition granted :: "nat \<Rightarrow> (nat \<times> bool) list \<Rightarrow> nat" where
  "granted key gs = length (filter (\<lambda>g. g = (key, True)) gs)"

lemma take_token_other: "k \<noteq> key \<Longrightarrow> map_of (snd (take_token burst refill at key bs)) k = map_of bs k"
  by (simp add: take_token_def Let_def)

lemma take_token_own:
  assumes "map_of bs key = Some b" "take_token burst refill at key bs = (ok, bs')"
  obtains b' where "map_of bs' key = Some b'" "updated b' = at" "tokens b' \<le> 1000 * burst"
    "tokens b' + (if ok then 1000 else 0) \<le> tokens b + (at - updated b) * refill"
    "0 \<le> tokens b \<Longrightarrow> 0 \<le> burst \<Longrightarrow> 0 \<le> refill \<Longrightarrow> updated b \<le> at \<Longrightarrow> 0 \<le> tokens b'"
proof -
  let ?filled = "min (1000 * burst) (tokens b + (at - updated b) * refill)"
  let ?b = "\<lparr>tokens = (if ok then ?filled - 1000 else ?filled), updated = at\<rparr>"
  have t: "ok = (\<not> ?filled < 1000)" "map_of bs' key = Some ?b"
    using assms by (auto simp: take_token_def Let_def split: if_splits)
  have "0 \<le> tokens ?b" if "0 \<le> tokens b" "0 \<le> burst" "0 \<le> refill" "updated b \<le> at"
    using that t(1) mult_nonneg_nonneg [of "at - updated b" refill] by auto
  moreover have "tokens ?b \<le> 1000 * burst" "tokens ?b + (if ok then 1000 else 0) \<le> tokens b + (at - updated b) * refill"
    by (auto simp: min_def)
  ultimately show ?thesis using that [OF t(2)] by simp
qed

lemma granted_from:
  assumes "sorted (map snd rs)" "\<forall>r \<in> set rs. start \<le> snd r \<and> snd r \<le> last_at" "start \<le> last_at"
    "map_of bs key = Some b" "updated b \<le> start" "0 \<le> tokens b" "0 \<le> burst" "0 \<le> refill"
  shows "1000 * int (granted key (grants burst refill rs bs)) \<le> tokens b + (last_at - updated b) * refill"
  using assms
proof (induction rs arbitrary: bs b start)
  case Nil
  then show ?case by (simp add: granted_def)
next
  case (Cons r rs)
  obtain k at where r: "r = (k, at)" by (cases r)
  obtain ok bs' where t: "take_token burst refill at k bs = (ok, bs')" by fastforce
  have le: "start \<le> at" "at \<le> last_at" "\<forall>x \<in> set rs. at \<le> snd x \<and> snd x \<le> last_at" "sorted (map snd rs)"
    using Cons.prems(1,2) r by auto
  show ?case
  proof (cases "k = key")
    case True
    obtain b' where b': "map_of bs' key = Some b'" "updated b' = at"
        "tokens b' + (if ok then 1000 else 0) \<le> tokens b + (at - updated b) * refill" "0 \<le> tokens b'"
      using take_token_own [OF Cons.prems(4) t [unfolded True]] Cons.prems(5-8) le(1) by force
    have "1000 * int (granted key (grants burst refill rs bs')) \<le> tokens b' + (last_at - updated b') * refill"
      by (rule Cons.IH [OF le(4,3,2) b'(1)]) (use b' Cons.prems in auto)
    moreover have "(last_at - updated b) * refill = (last_at - at) * refill + (at - updated b) * refill"
      by (simp add: algebra_simps)
    moreover have "granted key (grants burst refill (r # rs) bs) =
        (if ok then 1 else 0) + granted key (grants burst refill rs bs')"
      using r t True by (simp add: granted_def)
    ultimately show ?thesis using b' by (simp split: if_splits)
  next
    case False
    then have "map_of bs' key = Some b" using take_token_other [of key k burst refill at bs] t Cons.prems(4) by simp
    then have "1000 * int (granted key (grants burst refill rs bs')) \<le> tokens b + (last_at - updated b) * refill"
      by (rule Cons.IH [OF le(4,3,2)]) (use Cons.prems le in auto)
    then show ?thesis using r t False by (simp add: granted_def)
  qed
qed

text \<open>
  C26. However the connections take turns, one connection is granted at most its burst plus what the
  refill gives over the time the requests span, as long as the clock does not go back.
\<close>

theorem rate_bounded:
  assumes "sorted (map snd rs)" "\<forall>r \<in> set rs. start \<le> snd r \<and> snd r \<le> last_at" "start \<le> last_at"
    "0 \<le> burst" "0 \<le> refill"
  shows "1000 * int (granted key (grants burst refill rs bs)) \<le> 1000 * burst + (last_at - start) * refill"
  using assms(1-3)
proof (induction rs arbitrary: bs start)
  case Nil
  then show ?case using assms(4,5) by (simp add: granted_def)
next
  case (Cons r rs)
  obtain k at where r: "r = (k, at)" by (cases r)
  obtain ok bs' where t: "take_token burst refill at k bs = (ok, bs')" by fastforce
  have le: "start \<le> at" "at \<le> last_at" "\<forall>x \<in> set rs. at \<le> snd x \<and> snd x \<le> last_at" "sorted (map snd rs)"
    using Cons.prems(1,2) r by auto
  have less: "(last_at - at) * refill \<le> (last_at - start) * refill"
    using le(1) assms(5) by (intro mult_right_mono) auto
  show ?case
  proof (cases "k = key \<and> ok")
    case True
    let ?b = "case map_of bs key of None \<Rightarrow> \<lparr>tokens = 1000 * burst, updated = at\<rparr> | Some b \<Rightarrow> b"
    let ?filled = "min (1000 * burst) (tokens ?b + (at - updated ?b) * refill)"
    have f: "1000 \<le> ?filled" "map_of bs' key = Some \<lparr>tokens = ?filled - 1000, updated = at\<rparr>"
      using t True by (auto simp: take_token_def Let_def split: if_splits)
    have "1000 * int (granted key (grants burst refill rs bs')) \<le> (?filled - 1000) + (last_at - at) * refill"
      using granted_from [OF le(4,3,2) f(2)] f(1) assms(4,5) by simp
    moreover have "granted key (grants burst refill (r # rs) bs) = 1 + granted key (grants burst refill rs bs')"
      using r t True by (simp add: granted_def)
    ultimately show ?thesis using less by linarith
  next
    case False
    have "granted key (grants burst refill (r # rs) bs) = granted key (grants burst refill rs bs')"
      using r t False by (auto simp: granted_def)
    moreover have "1000 * int (granted key (grants burst refill rs bs')) \<le> 1000 * burst + (last_at - at) * refill"
      by (rule Cons.IH [OF le(4,3,2)])
    ultimately show ?thesis using less by linarith
  qed
qed

text \<open>Only a POST that is authorised and within its budget can reach the log.\<close>

lemma handleAggregates_state: "snd (handleAggregates opts rq s) = s"
  by (simp add: handleAggregates_def Let_def)

lemma gate_protects_log:
  assumes "handleEventRequest opts rq s = (a, s')" "event_log.truncate s' \<noteq> event_log.truncate s"
  shows "rq_path rq = EVENTS_PATH \<and> method_of (plain_request rq) = js ''POST''
    \<and> isAuthorized (plain_request rq) (eh_token opts)
    \<and> fst (take_token (eh_rateBurst opts) (eh_rateRefillPerSecond opts) (rq_now rq) (rq_socket rq) (es_buckets s))"
proof -
  obtain ok s1 where t: "take_budget opts rq s = (ok, s1)" by fastforce
  then have s1: "event_log.truncate s1 = event_log.truncate s"
      "ok = Inr (fst (take_token (eh_rateBurst opts) (eh_rateRefillPerSecond opts) (rq_now rq) (rq_socket rq) (es_buckets s)))"
    by (auto simp: take_budget_def event_log.truncate_def split: prod.splits)
  show ?thesis
  proof (rule ccontr)
    assume "\<not> ?thesis"
    moreover have "AGGREGATES_PATH \<noteq> EVENTS_PATH" by (simp add: AGGREGATES_PATH_def EVENTS_PATH_def)
    ultimately have "event_log.truncate s' = event_log.truncate s"
      using assms(1) t s1 handleAggregates_state [of opts rq s1]
      by (auto simp: handleEventRequest_def Let_def split: if_splits prod.splits sum.splits)
    with assms(2) show False by simp
  qed
qed

section \<open>Examples\<close>

definition ex_opts :: event_options where
  "ex_opts = \<lparr>eh_parse = \<lambda>_. None, eh_isDate = \<lambda>_. True, eh_digest = \<lambda>_. [], eh_float = ex_float,
     eh_aggregates = True, eh_token = None, eh_isKnownRecording = None, eh_maxBatchEvents = 500,
     eh_maxBodyBytes = 1048576, eh_rateBurst = 30, eh_rateRefillPerSecond = 1\<rparr>"

definition ex_url :: jstr where
  "ex_url = js ''automerge:4JLbqmtGGkqb9ocMpAf8''"

definition ex_event :: playback_event where
  "ex_event = \<lparr>pe_id = js ''p1'', pe_recordingUrl = ex_url, pe_completion = Finite False [5] 0,
     pe_occurredAt = js ''1970-01-01'', pe_deviceId = Some (js ''phone'')\<rparr>"

lemma ex_url_good: "recording_url ex_url"
  by (simp add: recording_url_def ex_url_def startsWith_def js_def base58_unit_def)

definition ex_valid :: play_event where
  "ex_valid = \<lparr>ev_id = js ''p1'', ev_recordingUrl = ex_url, ev_completion = Finite False [5] 0,
     ev_occurredAt = js ''1970-01-01'', ev_deviceId = Some (js ''phone'')\<rparr>"

lemma ex_event_valid: "validate ex_opts (event_value ex_event) = Valid ex_valid"
  by (simp add: validate_Valid event_value_def ex_event_def ex_valid_def ex_url_good ex_opts_def isFinite_def
      clampCompletion_def clamp_unit_def)

lemma validated_play_is_storable_witness:
  "validate ex_opts (event_value ex_event) = Valid ex_valid \<and> ingestible ex_valid
    \<and> Option.bind (line_of (stamped [] ex_valid)) isStoredEvent = Some (stamped [] ex_valid)"
  using validated_play_is_storable [OF ex_event_valid, of "[]"] ex_event_valid by blast

lemma ingest_settles_queue_witness:
  "\<exists>a s'. ingest_batch ex_opts 0 Wrote (map event_value [ex_event]) ex_store = (Inr a, s')
     \<and> applyIngestResponse [ex_event] (guest_answer a) = filter (awaits_recording ex_opts) [ex_event]
     \<and> has_event s' ex_valid"
proof -
  have "judge ex_opts 0 (map event_value [ex_event]) = Some ([], [ex_valid])"
    by (simp add: ex_event_valid known_recording_def) (simp add: ex_opts_def)
  then obtain a s' where i: "ingest_batch ex_opts 0 Wrote (map event_value [ex_event]) ex_store = (Inr a, s')"
    by (simp add: ingest_batch_def in_store_def and_then_def append_events_def time_value_def ex_store_def
        record_accepted_def ex_valid_def Let_def ex_opts_def)
  have "\<not> awaits_recording ex_opts ex_event"
    by (simp add: awaits_recording_def ex_event_valid known_recording_def) (simp add: ex_opts_def)
  with ingest_settles_queue [OF i] i ex_event_valid show ?thesis by (auto simp: ex_event_def)
qed

lemma rate_bounded_witness:
  "1000 * int (granted 7 (grants 2 1 [(7, 0), (7, 10), (8, 15), (7, 20)] [])) \<le> 1000 * 2 + (20 - 0) * 1
    \<and> granted 7 (grants 2 1 [(7, 0), (7, 10), (8, 15), (7, 20)] []) = 2"
proof -
  have "1000 * int (granted 7 (grants 2 1 [(7, 0), (7, 10), (8, 15), (7, 20)] [])) \<le> 1000 * 2 + (20 - 0) * 1"
    by (rule rate_bounded) simp_all
  moreover have "granted 7 (grants 2 1 [(7, 0), (7, 10), (8, 15), (7, 20)] []) = 2" by code_simp
  ultimately show ?thesis by blast
qed

end
