(* ===== verification/Blob_Store.thy ===== *)
theory Blob_Store
  imports Threads Js_Value
begin

text \<open>
  The content-addressed store of the host, \<^verbatim>\<open>blobStore.ts\<close>. The disk is the files under the store's
  root: objects by address, their metadata and owners beside them, the receipts of claims, and the
  names of uploads under way. Reference files are written under a lock per hash, so each of those
  operations is one stretch; an upload is a thread, and everything else can happen between its
  stretches. The bytes of an upload travel with its thread: nothing else uses its random name. The
  SHA-256 of bytes as hex, the clock and the user's own files are parameters or state. Every
  directory can be listed; a disk that takes no writes refuses each of them.
\<close>

section \<open>The disk\<close>

record blob_meta =
  bm_hash :: jstr
  bm_size :: nat
  bm_mimeType :: jstr
  bm_ext :: jstr
  bm_createdAt :: int

record stored_file =
  sf_bytes :: "u8 list"
  sf_nlink :: nat
  sf_ctimeMs :: int

record stored_object =
  so_hash :: jstr
  so_size :: nat
  so_nlink :: nat
  so_ctimeMs :: int

record blob_disk =
  bd_objects :: "(jstr \<times> stored_file) list"
  bd_metas :: "(jstr \<times> blob_meta) list"
  bd_refs :: "(jstr \<times> jstr list) list"
  bd_receipts :: "(jstr \<times> jstr) list"
  bd_tmp :: "(jstr \<times> int) list"
  bd_user :: "(jstr \<times> u8 list) list"
  bd_writable :: bool
  bd_clock :: int

datatype blob_error = Write_failed | Source_failed | BlobTooLarge nat | Link_failed

type_synonym 'a blob_eff = "(blob_disk, blob_error, 'a) eff"

datatype blob_stretch = Receive | Look | Place | Describe | Own

type_synonym 'a blob_call = "(blob_stretch, blob_disk, blob_error, 'a) call"

definition isValidBlobHash :: "jstr \<Rightarrow> bool" where
  "isValidBlobHash h =
     (length h = 64 \<and> list_all (\<lambda>u. 0x30 \<le> u \<and> u \<le> 0x39 \<or> 0x61 \<le> u \<and> u \<le> 0x66) h)"

definition MIME_TYPE_BY_EXTENSION :: "(jstr \<times> jstr) list" where
  "MIME_TYPE_BY_EXTENSION =
     [(js ''.wav'', js ''audio/wav''), (js ''.mp3'', js ''audio/mpeg''), (js ''.ogg'', js ''audio/ogg''),
      (js ''.flac'', js ''audio/flac''), (js ''.mp4'', js ''audio/mp4''), (js ''.m4a'', js ''audio/mp4''),
      (js ''.webm'', js ''audio/webm'')]"

definition EXTENSION_BY_MIME_TYPE :: "(jstr \<times> jstr) list" where
  "EXTENSION_BY_MIME_TYPE =
     [(js ''audio/wav'', js ''.wav''), (js ''audio/x-wav'', js ''.wav''), (js ''audio/wave'', js ''.wav''),
      (js ''audio/mpeg'', js ''.mp3''), (js ''audio/ogg'', js ''.ogg''), (js ''audio/flac'', js ''.flac''),
      (js ''audio/mp4'', js ''.mp4''), (js ''audio/webm'', js ''.webm'')]"

text \<open>The lower-cased extension of the path comes with the call.\<close>

definition mimeTypeOfFile :: "jstr \<Rightarrow> jstr" where
  "mimeTypeOfFile ext = (case map_of MIME_TYPE_BY_EXTENSION ext of
     Some m \<Rightarrow> m | None \<Rightarrow> js ''application/octet-stream'')"

definition resolveExt :: "jstr \<Rightarrow> jstr option \<Rightarrow> jstr" where
  "resolveExt mimeType fallbackExt =
     (case fallbackExt of
        Some (u # us) \<Rightarrow> if u = 0x2e then u # us else 0x2e # u # us
      | _ \<Rightarrow> (case map_of EXTENSION_BY_MIME_TYPE mimeType of Some e \<Rightarrow> e | None \<Rightarrow> js ''.bin''))"

section \<open>Reading\<close>

definition readRefs :: "blob_disk \<Rightarrow> jstr \<Rightarrow> jstr list" where
  "readRefs s h = (case map_of (bd_refs s) h of None \<Rightarrow> [] | Some refs \<Rightarrow> refs)"

definition has_blob :: "blob_disk \<Rightarrow> jstr \<Rightarrow> bool" where
  "has_blob s h = (isValidBlobHash h \<and> map_of (bd_objects s) h \<noteq> None)"

definition statBlob :: "blob_disk \<Rightarrow> jstr \<Rightarrow> blob_meta option" where
  "statBlob s h =
     (if \<not> isValidBlobHash h then None
      else case map_of (bd_metas s) h of
          None \<Rightarrow> None
        | Some m \<Rightarrow>
            (case map_of (bd_objects s) h of
               None \<Rightarrow> None | Some f \<Rightarrow> Some (m\<lparr>bm_size := length (sf_bytes f)\<rparr>)))"

definition readBlob :: "blob_disk \<Rightarrow> jstr \<Rightarrow> u8 list option" where
  "readBlob s h = map_option sf_bytes (map_of (bd_objects s) h)"

definition findReceipt :: "blob_disk \<Rightarrow> jstr \<Rightarrow> jstr option" where
  "findReceipt s claimHash =
     (if \<not> isValidBlobHash claimHash then None
      else case map_of (bd_receipts s) claimHash of
          None \<Rightarrow> None | Some r \<Rightarrow> if isValidBlobHash r then Some r else None)"

definition totalBytes :: "blob_disk \<Rightarrow> nat" where
  "totalBytes s = sum_list (map (\<lambda>(h, f). length (sf_bytes f)) (bd_objects s))"

definition listObjects :: "blob_disk \<Rightarrow> stored_object list" where
  "listObjects s = List.map_filter (\<lambda>(h, f).
     if isValidBlobHash h
     then Some \<lparr>so_hash = h, so_size = length (sf_bytes f), so_nlink = sf_nlink f, so_ctimeMs = sf_ctimeMs f\<rparr>
     else None) (bd_objects s)"

section \<open>Writing\<close>

definition disk_write :: "(blob_disk \<Rightarrow> blob_disk) \<Rightarrow> unit blob_eff" where
  "disk_write f = (\<lambda>s. if bd_writable s then (Inr (), f s) else (Inl Write_failed, s))"

definition addRef :: "jstr \<Rightarrow> jstr \<Rightarrow> jstr list blob_eff" where
  "addRef h docUrl = (\<lambda>s.
     let refs = readRefs s h
     in if docUrl \<in> set refs then (Inr refs, s)
        else and_then (disk_write (\<lambda>s. s\<lparr>bd_refs := AList.update h (refs @ [docUrl]) (bd_refs s)\<rparr>))
               (\<lambda>_. ret (refs @ [docUrl])) s)"

definition unlinkAll :: "jstr \<Rightarrow> unit blob_eff" where
  "unlinkAll h = disk_write (\<lambda>s. s\<lparr>bd_objects := AList.delete h (bd_objects s),
     bd_metas := AList.delete h (bd_metas s), bd_refs := AList.delete h (bd_refs s),
     bd_receipts := AList.delete h (bd_receipts s)\<rparr>)"

definition recordReceipt :: "jstr \<Rightarrow> jstr \<Rightarrow> unit blob_eff" where
  "recordReceipt claimHash receiptHash =
     disk_write (\<lambda>s. s\<lparr>bd_receipts := AList.update claimHash receiptHash (bd_receipts s)\<rparr>)"

definition releaseRef :: "jstr \<Rightarrow> jstr \<Rightarrow> (bool \<times> jstr list) blob_eff" where
  "releaseRef h docUrl = (\<lambda>s.
     let refs = readRefs s h; next = filter (\<lambda>ref. ref \<noteq> docUrl) refs
     in if length next = length refs \<and> 0 < length refs then (Inr (False, refs), s)
        else if next \<noteq> []
        then and_then (disk_write (\<lambda>s. s\<lparr>bd_refs := AList.update h next (bd_refs s)\<rparr>))
               (\<lambda>_. ret (False, next)) s
        else and_then (unlinkAll h) (\<lambda>_. ret (True, [])) s)"

definition remove_blob :: "jstr \<Rightarrow> bool blob_eff" where
  "remove_blob h = (\<lambda>s.
     if \<not> isValidBlobHash h then (Inr False, s)
     else let existed = has_blob s h in and_then (unlinkAll h) (\<lambda>_. ret existed) s)"

definition finalizeMeta :: "jstr \<Rightarrow> nat \<Rightarrow> jstr \<Rightarrow> jstr \<Rightarrow> blob_meta blob_eff" where
  "finalizeMeta h len mimeType ext = (\<lambda>s.
     let m = \<lparr>bm_hash = h, bm_size = len, bm_mimeType = mimeType, bm_ext = ext, bm_createdAt = bd_clock s\<rparr>
     in and_then (disk_write (\<lambda>s. s\<lparr>bd_metas := AList.update h m (bd_metas s)\<rparr>)) (\<lambda>_. ret m) s)"

text \<open>Files whose \<open>rm\<close> fails stay and are not counted.\<close>

definition sweepTmp :: "int \<Rightarrow> nat blob_eff" where
  "sweepTmp maxAgeMs = (\<lambda>s.
     let old = (\<lambda>t. snd t < bd_clock s - maxAgeMs)
     in if bd_writable s
        then (Inr (length (filter old (bd_tmp s))), s\<lparr>bd_tmp := filter (\<lambda>t. \<not> old t) (bd_tmp s)\<rparr>)
        else (Inr 0, s))"

section \<open>Taking bytes in\<close>

text \<open>A stream is its chunks and whether it ends well.\<close>

record byte_source =
  src_chunks :: "u8 list list"
  src_fails :: bool

fun receive :: "nat option \<Rightarrow> nat \<Rightarrow> u8 list list \<Rightarrow> blob_error + u8 list" where
  "receive maxBytes got [] = Inr []"
| "receive maxBytes got (c # cs) =
     (let now = got + length c
      in if (case maxBytes of None \<Rightarrow> False | Some m \<Rightarrow> m < now) then Inl (BlobTooLarge (the maxBytes))
         else map_sum id (append c) (receive maxBytes now cs))"

definition receive_scratch :: "jstr \<Rightarrow> nat option \<Rightarrow> byte_source \<Rightarrow> u8 list blob_eff" where
  "receive_scratch scratch maxBytes src = (\<lambda>s.
     if \<not> bd_writable s then (Inl Write_failed, s)
     else case receive maxBytes 0 (src_chunks src) of
         Inl e \<Rightarrow> (Inl e, s)
       | Inr bytes \<Rightarrow> if src_fails src then (Inl Source_failed, s)
           else (Inr bytes, s\<lparr>bd_tmp := AList.update scratch (bd_clock s) (bd_tmp s)\<rparr>))"

definition drop_scratch :: "jstr \<Rightarrow> unit blob_eff" where
  "drop_scratch scratch = disk_write (\<lambda>s. s\<lparr>bd_tmp := AList.delete scratch (bd_tmp s)\<rparr>)"

text \<open>\<open>rename\<close> from the scratch name to the address: it fails when the scratch file is gone.\<close>

definition place_scratch :: "jstr \<Rightarrow> jstr \<Rightarrow> u8 list \<Rightarrow> unit blob_eff" where
  "place_scratch scratch h bytes = (\<lambda>s.
     if map_of (bd_tmp s) scratch = None then (Inl Write_failed, s)
     else disk_write (\<lambda>s. s\<lparr>bd_tmp := AList.delete scratch (bd_tmp s),
       bd_objects := AList.update h \<lparr>sf_bytes = bytes, sf_nlink = 1, sf_ctimeMs = bd_clock s\<rparr> (bd_objects s)\<rparr>) s)"

definition describe_held :: "jstr \<Rightarrow> nat \<Rightarrow> jstr \<Rightarrow> jstr \<Rightarrow> blob_meta blob_call" where
  "describe_held h len mimeType ext =
     chain (perform Describe (reads (\<lambda>s. statBlob s h))) (\<lambda>existing.
       case existing of Some m \<Rightarrow> give m | None \<Rightarrow> perform Describe (finalizeMeta h len mimeType ext))"

definition ingestStream ::
  "(u8 list \<Rightarrow> jstr) \<Rightarrow> jstr \<Rightarrow> byte_source \<Rightarrow> jstr \<Rightarrow> jstr option \<Rightarrow> jstr \<Rightarrow> nat option
     \<Rightarrow> (blob_meta \<times> bool) blob_call" where
  "ingestStream digest scratch src mimeType extOption docUrl maxBytes =
     chain (perform Receive (receive_scratch scratch maxBytes src)) (\<lambda>bytes.
       let h = digest bytes; ext = resolveExt mimeType extOption
       in chain (perform Look (reads (\<lambda>s. has_blob s h))) (\<lambda>held.
            if held then
              chain (perform Place (drop_scratch scratch)) (\<lambda>_.
              chain (perform Own (addRef h docUrl)) (\<lambda>_.
              chain (describe_held h (length bytes) mimeType ext) (\<lambda>m. give (m, True))))
            else
              chain (perform Place (place_scratch scratch h bytes)) (\<lambda>_.
              chain (perform Describe (finalizeMeta h (length bytes) mimeType ext)) (\<lambda>m.
              chain (perform Own (addRef h docUrl)) (\<lambda>_. give (m, False))))))"

datatype ingest_mode = Hardlink | Copy | Deduped

text \<open>What \<open>link\<close> answers where nothing is at the address: it links, the file system will not link, or another error.\<close>

datatype link_outcome = Links | Will_not_link | Link_error

definition link_file :: "link_outcome \<Rightarrow> jstr \<Rightarrow> jstr \<Rightarrow> ingest_mode blob_eff" where
  "link_file outcome path h = (\<lambda>s.
     if \<not> bd_writable s then (Inl Write_failed, s)
     else if map_of (bd_objects s) h \<noteq> None then (Inr Deduped, s)
     else case map_of (bd_user s) path of
         None \<Rightarrow> (Inl Link_failed, s)
       | Some bytes \<Rightarrow>
           (case outcome of
              Links \<Rightarrow> (Inr Hardlink, s\<lparr>bd_objects :=
                AList.update h \<lparr>sf_bytes = bytes, sf_nlink = 2, sf_ctimeMs = bd_clock s\<rparr> (bd_objects s)\<rparr>)
            | Will_not_link \<Rightarrow> (Inr Copy, s\<lparr>bd_objects :=
                AList.update h \<lparr>sf_bytes = bytes, sf_nlink = 1, sf_ctimeMs = bd_clock s\<rparr> (bd_objects s)\<rparr>)
            | Link_error \<Rightarrow> (Inl Link_failed, s)))"

definition hashFile :: "(u8 list \<Rightarrow> jstr) \<Rightarrow> jstr \<Rightarrow> (jstr \<times> nat) blob_eff" where
  "hashFile digest path = (\<lambda>s. case map_of (bd_user s) path of
     None \<Rightarrow> (Inl Source_failed, s) | Some bytes \<Rightarrow> (Inr (digest bytes, length bytes), s))"

definition ingestFile ::
  "(u8 list \<Rightarrow> jstr) \<Rightarrow> link_outcome \<Rightarrow> jstr \<Rightarrow> jstr \<Rightarrow> jstr option \<Rightarrow> jstr \<Rightarrow> (blob_meta \<times> bool \<times> ingest_mode) blob_call" where
  "ingestFile digest outcome path ext mimeOption docUrl =
     (let mimeType = (case mimeOption of Some m \<Rightarrow> m | None \<Rightarrow> mimeTypeOfFile ext)
      in chain (perform Receive (hashFile digest path)) (\<lambda>(h, len).
         chain (perform Look (reads (\<lambda>s. has_blob s h))) (\<lambda>held.
           if held then
             chain (perform Own (addRef h docUrl)) (\<lambda>_.
             chain (describe_held h len mimeType ext) (\<lambda>m. give (m, True, Deduped)))
           else
             chain (perform Place (link_file outcome path h)) (\<lambda>mode.
             chain (perform Describe (finalizeMeta h len mimeType ext)) (\<lambda>m.
             chain (perform Own (addRef h docUrl)) (\<lambda>_. give (m, mode = Deduped, mode)))))))"

section \<open>Addresses\<close>

text \<open>The file at an address hashes to it.\<close>

definition content_ok :: "(u8 list \<Rightarrow> jstr) \<Rightarrow> blob_disk \<Rightarrow> bool" where
  "content_ok digest s = (\<forall>h f. map_of (bd_objects s) h = Some f \<longrightarrow> digest (sf_bytes f) = h)"

definition user_files :: "blob_disk \<Rightarrow> (jstr \<times> u8 list) set" where
  "user_files s = {(path, bytes). map_of (bd_user s) path = Some bytes}"

lemma content_ok_update:
  "content_ok digest s \<Longrightarrow> digest (sf_bytes f) = h \<Longrightarrow> bd_objects s' = AList.update h f (bd_objects s) \<Longrightarrow> content_ok digest s'"
  by (auto simp: content_ok_def split: if_splits)

lemma content_ok_same: "bd_objects s' = bd_objects s \<Longrightarrow> content_ok digest s' = content_ok digest s"
  by (simp add: content_ok_def)

lemma content_ok_delete: "content_ok digest s \<Longrightarrow> bd_objects s' = AList.delete h (bd_objects s) \<Longrightarrow> content_ok digest s'"
  by (auto simp: content_ok_def split: if_splits)

named_theorems blob_defs \<open>the operations that are one stretch\<close>

lemmas [blob_defs] = addRef_def unlinkAll_def recordReceipt_def releaseRef_def remove_blob_def finalizeMeta_def
  sweepTmp_def drop_scratch_def disk_write_def and_then_def Let_def

text \<open>What the single stretches leave alone: the user's files, and the objects or all but one of them.\<close>

lemma stretch_frame:
  "addRef h d s = (ra, s') \<Longrightarrow> bd_objects s' = bd_objects s \<and> bd_user s' = bd_user s"
  "finalizeMeta h n m e s = (rm, s') \<Longrightarrow> bd_objects s' = bd_objects s \<and> bd_user s' = bd_user s"
  "recordReceipt h r s = (rr, s') \<Longrightarrow> bd_objects s' = bd_objects s \<and> bd_user s' = bd_user s"
  "sweepTmp age s = (rs, s') \<Longrightarrow> bd_objects s' = bd_objects s \<and> bd_user s' = bd_user s"
  "drop_scratch t s = (rd, s') \<Longrightarrow> bd_objects s' = bd_objects s \<and> bd_user s' = bd_user s"
  "receive_scratch t mx src s = (rc, s') \<Longrightarrow> bd_objects s' = bd_objects s \<and> bd_user s' = bd_user s"
  "hashFile digest path s = (rh, s') \<Longrightarrow> bd_objects s' = bd_objects s \<and> bd_user s' = bd_user s"
  by (auto simp: blob_defs receive_scratch_def hashFile_def split: if_splits sum.splits option.splits)

lemma stretch_frame_delete:
  "releaseRef h d s = (ra, s') \<Longrightarrow>
     (bd_objects s' = bd_objects s \<or> bd_objects s' = AList.delete h (bd_objects s)) \<and> bd_user s' = bd_user s"
  "remove_blob h s = (rb, s') \<Longrightarrow>
     (bd_objects s' = bd_objects s \<or> bd_objects s' = AList.delete h (bd_objects s)) \<and> bd_user s' = bd_user s"
  by (auto simp: blob_defs split: if_splits)

inductive_set blob_calls :: "(u8 list \<Rightarrow> jstr) \<Rightarrow> (blob_stretch, blob_disk, unit) thread set" for digest where
  stream_call: "forget (ingestStream digest scratch src mimeType ext docUrl maxBytes) \<in> blob_calls digest"
| file_call: "forget (ingestFile digest outcome path ext mime docUrl) \<in> blob_calls digest"
| add_call: "forget (perform Own (addRef h docUrl)) \<in> blob_calls digest"
| release_call: "forget (perform Own (releaseRef h docUrl)) \<in> blob_calls digest"
| remove_call: "forget (perform Own (remove_blob h)) \<in> blob_calls digest"
| receipt_call: "forget (perform Own (recordReceipt claim receipt)) \<in> blob_calls digest"
| sweep_call: "forget (perform Own (sweepTmp age)) \<in> blob_calls digest"

abbreviation keeps_content :: "(u8 list \<Rightarrow> jstr) \<Rightarrow> (blob_stretch, blob_disk, 'r) thread \<Rightarrow> (jstr \<times> u8 list) set \<Rightarrow> bool" where
  "keeps_content digest \<equiv> knows (content_ok digest) user_files"

lemma keeps_content_stretch:
  assumes "\<And>s r s'. m s = (r, s') \<Longrightarrow> (bd_objects s' = bd_objects s \<or> bd_objects s' = AList.delete h (bd_objects s))
    \<and> bd_user s' = bd_user s"
  shows "keeps_content digest (perform l m) X"
proof (rule knows_perform)
  fix s r s' assume "content_ok digest s" "X \<subseteq> user_files s" "m s = (r, s')"
  with assms [of s r s'] show "content_ok digest s' \<and> user_files s \<subseteq> user_files s'"
    using content_ok_same [of s' s digest] content_ok_delete [of digest s s' h] by (auto simp: user_files_def)
qed

lemma keeps_content_same:
  assumes "\<And>s r s'. m s = (r, s') \<Longrightarrow> bd_objects s' = bd_objects s \<and> bd_user s' = bd_user s"
  shows "keeps_content digest (perform l m) X"
  using assms by (intro keeps_content_stretch) auto

lemma keeps_content_reads [simp]: "keeps_content digest (perform l (reads f)) X"
  by (rule keeps_content_same) simp

lemma keeps_content_simple:
  "keeps_content digest (perform l (addRef h d)) X"
  "keeps_content digest (perform l (finalizeMeta h n m e)) X"
  "keeps_content digest (perform l (recordReceipt h r)) X"
  "keeps_content digest (perform l (sweepTmp age)) X"
  "keeps_content digest (perform l (drop_scratch t)) X"
  "keeps_content digest (perform l (receive_scratch t mx src)) X"
  "keeps_content digest (perform l (releaseRef h d)) X"
  "keeps_content digest (perform l (remove_blob h)) X"
  by (rule keeps_content_same, erule stretch_frame)+
    (rule keeps_content_stretch, erule stretch_frame_delete)+

lemma keeps_content_place: "keeps_content digest (perform Place (place_scratch scratch (digest bytes) bytes)) X"
proof (rule knows_perform)
  fix s r s' assume c: "content_ok digest s" "X \<subseteq> user_files s" "place_scratch scratch (digest bytes) bytes s = (r, s')"
  then have "bd_user s' = bd_user s"
    by (auto simp: place_scratch_def disk_write_def split: if_splits)
  moreover have "s' = s \<or> bd_objects s' = AList.update (digest bytes)
      \<lparr>sf_bytes = bytes, sf_nlink = 1, sf_ctimeMs = bd_clock s\<rparr> (bd_objects s)"
    using c(3) by (auto simp: place_scratch_def disk_write_def split: if_splits)
  ultimately show "content_ok digest s' \<and> user_files s \<subseteq> user_files s'"
    using c(1) content_ok_update [of digest s "\<lparr>sf_bytes = bytes, sf_nlink = 1, sf_ctimeMs = bd_clock s\<rparr>" "digest bytes" s']
    by (auto simp: user_files_def)
qed

lemma keeps_content_link:
  assumes "(path, bytes) \<in> X" "h = digest bytes"
  shows "keeps_content digest (perform Place (link_file outcome path h)) X"
proof (rule knows_perform)
  fix s r s' assume c: "content_ok digest s" "X \<subseteq> user_files s" "link_file outcome path h s = (r, s')"
  then have b: "map_of (bd_user s) path = Some bytes" using assms(1) by (auto simp: user_files_def)
  have "bd_user s' = bd_user s"
    using c(3) by (auto simp: link_file_def split: if_splits option.splits link_outcome.splits)
  moreover have "s' = s \<or> (\<exists>n. bd_objects s' =
      AList.update h \<lparr>sf_bytes = bytes, sf_nlink = n, sf_ctimeMs = bd_clock s\<rparr> (bd_objects s))"
    using c(3) b by (auto simp: link_file_def split: if_splits link_outcome.splits)
  ultimately show "content_ok digest s' \<and> user_files s \<subseteq> user_files s'"
  proof (elim disjE exE)
    assume u: "bd_user s' = bd_user s"
    { assume "s' = s" with c(1) show ?thesis by simp }
    fix n assume "bd_objects s' = AList.update h \<lparr>sf_bytes = bytes, sf_nlink = n, sf_ctimeMs = bd_clock s\<rparr> (bd_objects s)"
    from content_ok_update [OF c(1) _ this] assms(2) u show ?thesis by (simp add: user_files_def)
  qed
qed

lemma keeps_content_describe: "keeps_content digest (describe_held h n m e) X"
  unfolding describe_held_def
  by (rule knows_chain) (auto split: option.split intro: keeps_content_simple)

lemma keeps_content_stream: "keeps_content digest (ingestStream digest scratch src m e d mx) X"
  unfolding ingestStream_def Let_def
  by (intro knows_chain) (auto intro!: knows_chain keeps_content_simple keeps_content_place keeps_content_describe)

lemma keeps_content_file: "keeps_content digest (ingestFile digest outcome path e m d) X"
proof -
  have rest: "keeps_content digest
      (chain (perform Look (reads (\<lambda>s. has_blob s h))) (\<lambda>held.
           if held then chain (perform Own (addRef h d)) (\<lambda>_.
             chain (describe_held h n mime e) (\<lambda>m. give (m, True, Deduped)))
           else chain (perform Place (link_file outcome path h)) (\<lambda>mode.
             chain (perform Describe (finalizeMeta h n mime e)) (\<lambda>m.
             chain (perform Own (addRef h d)) (\<lambda>_. give (m, mode = Deduped, mode)))))) Y"
    if "(path, bytes) \<in> Y" "h = digest bytes" for h n mime bytes Y
    using that
    by (intro knows_chain) (auto intro!: knows_chain keeps_content_simple keeps_content_describe
        keeps_content_link [of path bytes])
  show ?thesis
    unfolding ingestFile_def Let_def
  proof (rule knows_perform_chain)
    fix s r s' assume "content_ok digest s" "X \<subseteq> user_files s" "hashFile digest path s = (r, s')"
    with stretch_frame(7) [of digest path s r s'] show "content_ok digest s' \<and> user_files s \<subseteq> user_files s'"
      by (auto simp: user_files_def content_ok_def)
  next
    fix s x s' assume "content_ok digest s" "hashFile digest path s = (Inr x, s')"
    then obtain bytes where b: "map_of (bd_user s) path = Some bytes" "x = (digest bytes, length bytes)" "s' = s"
      by (auto simp: hashFile_def split: option.splits)
    then have "(path, bytes) \<in> user_files s'" by (simp add: user_files_def)
    from rest [OF this refl] b(2) show "keeps_content digest (case x of (h, n) \<Rightarrow>
        chain (perform Look (reads (\<lambda>s. has_blob s h))) (\<lambda>held.
           if held then chain (perform Own (addRef h d)) (\<lambda>_.
             chain (describe_held h n (case m of None \<Rightarrow> mimeTypeOfFile e | Some m \<Rightarrow> m) e) (\<lambda>m. give (m, True, Deduped)))
           else chain (perform Place (link_file outcome path h)) (\<lambda>mode.
             chain (perform Describe (finalizeMeta h n (case m of None \<Rightarrow> mimeTypeOfFile e | Some m \<Rightarrow> m) e)) (\<lambda>m.
             chain (perform Own (addRef h d)) (\<lambda>_. give (m, mode = Deduped, mode)))))) (user_files s')"
      by simp
  qed
qed

text \<open>
  C28. However uploads, releases, removals and sweeps interleave, and wherever writes are refused, the
  file at an address is one that hashes to it, as long as nobody else touches the store or changes a
  file while it is taken in.
\<close>

theorem content_addressed:
  assumes "interleaved (blob_calls digest) env s0 tr ts s" "content_ok digest s0"
    "\<forall>s s'. env s s' \<longrightarrow> bd_objects s' = bd_objects s \<and> bd_user s' = bd_user s"
    "readBlob s h = Some bytes"
  shows "digest bytes = h"
proof -
  have "knows (content_ok digest) user_files t {}" if "t \<in> blob_calls digest" for t
    using that
    by cases (simp_all add: keeps_content_stream keeps_content_file keeps_content_simple)
  moreover have "content_ok digest s' \<and> user_files s \<subseteq> user_files s'" if "env s s'" "content_ok digest s" for s s'
    using that assms(3) content_ok_same [of s' s digest] by (auto simp: user_files_def)
  ultimately have "content_ok digest s"
    using interleaved_knowledge [where I = "content_ok digest" and K = user_files, OF assms(1,2)] by blast
  with assms(4) show ?thesis by (auto simp: content_ok_def readBlob_def)
qed

section \<open>One upload\<close>

lemma addRef_owns:
  assumes "bd_writable s"
  obtains refs s' where "addRef h docUrl s = (Inr refs, s')" "docUrl \<in> set (readRefs s' h)"
    "bd_objects s' = bd_objects s" "bd_metas s' = bd_metas s"
proof (cases "docUrl \<in> set (readRefs s h)")
  case True
  then show ?thesis using that [of "readRefs s h" s] by (simp add: addRef_def)
next
  case False
  let ?s = "s\<lparr>bd_refs := AList.update h (readRefs s h @ [docUrl]) (bd_refs s)\<rparr>"
  have "addRef h docUrl s = (Inr (readRefs s h @ [docUrl]), ?s)"
    using False assms by (simp add: addRef_def disk_write_def and_then_def Let_def)
  then show ?thesis using that [of _ ?s] by (simp add: readRefs_def)
qed

text \<open>
  An upload that is not overtaken: the bytes are at their address, described and owned by the document.
\<close>

lemma upload_stores:
  assumes "bd_writable s" "receive maxBytes 0 (src_chunks src) = Inr bytes" "\<not> src_fails src"
    "isValidBlobHash (digest bytes)" "map_of (bd_objects s) (digest bytes) = None"
  obtains m s' where "run (ingestStream digest scratch src mimeType ext docUrl maxBytes) s = (Inr (m, False), s')"
    "bm_hash m = digest bytes" "readBlob s' (digest bytes) = Some bytes" "docUrl \<in> set (readRefs s' (digest bytes))"
    "statBlob s' (digest bytes) = Some m" "bm_size m = length bytes"
proof -
  define s1 where "s1 = s\<lparr>bd_tmp := AList.update scratch (bd_clock s) (bd_tmp s)\<rparr>"
  define s2 where "s2 = s1\<lparr>bd_tmp := AList.delete scratch (bd_tmp s1), bd_objects :=
      AList.update (digest bytes) \<lparr>sf_bytes = bytes, sf_nlink = 1, sf_ctimeMs = bd_clock s\<rparr> (bd_objects s)\<rparr>"
  define m where "m = \<lparr>bm_hash = digest bytes, bm_size = length bytes, bm_mimeType = mimeType, bm_ext = resolveExt mimeType ext,
      bm_createdAt = bd_clock s\<rparr>"
  define s3 where "s3 = s2\<lparr>bd_metas := AList.update (digest bytes) m (bd_metas s2)\<rparr>"
  have rcv: "receive_scratch scratch maxBytes src s = (Inr bytes, s1)"
    using assms by (simp add: receive_scratch_def s1_def)
  have look: "\<not> has_blob s1 (digest bytes)" using assms by (simp add: has_blob_def s1_def)
  have place: "place_scratch scratch (digest bytes) bytes s1 = (Inr (), s2)"
    using assms by (simp add: place_scratch_def disk_write_def s2_def s1_def)
  have describe: "finalizeMeta (digest bytes) (length bytes) mimeType (resolveExt mimeType ext) s2 = (Inr m, s3)"
    using assms by (simp add: finalizeMeta_def disk_write_def and_then_def Let_def m_def s3_def s2_def s1_def)
  have "bd_writable s3" using assms by (simp add: s3_def s2_def s1_def)
  then obtain refs s4 where own: "addRef (digest bytes) docUrl s3 = (Inr refs, s4)"
      "docUrl \<in> set (readRefs s4 (digest bytes))" "bd_objects s4 = bd_objects s3" "bd_metas s4 = bd_metas s3"
    by (rule addRef_owns)
  have "run (ingestStream digest scratch src mimeType ext docUrl maxBytes) s = (Inr (m, False), s4)"
    using look by (simp add: ingestStream_def run_chain rcv place describe own(1) Let_def)
  then show ?thesis
    using that [of m s4] own assms(4) by (simp add: readBlob_def statBlob_def s3_def s2_def s1_def m_def)
qed

text \<open>
  An upload that finds its bytes in the store relies on them afterwards without holding the lock: when
  they are removed in between, it is answered as stored and owned while nothing is at the address.
\<close>

lemma overtaken_upload_is_lost:
  assumes "bd_writable s" "receive maxBytes 0 (src_chunks src) = Inr bytes" "\<not> src_fails src"
    "isValidBlobHash (digest bytes)" "map_of (bd_objects s) (digest bytes) = Some f"
  obtains m s' where
    "interrupt 2 (\<lambda>s. snd (remove_blob (digest bytes) s))
       (ingestStream digest scratch src mimeType ext docUrl maxBytes) s = (Inr (m, True), s')"
    "\<not> has_blob s' (digest bytes)" "docUrl \<in> set (readRefs s' (digest bytes))"
proof -
  let ?h = "digest bytes"
  define s1 where "s1 = s\<lparr>bd_tmp := AList.update scratch (bd_clock s) (bd_tmp s)\<rparr>"
  define s2 where "s2 = snd (remove_blob ?h s1)"
  define s3 where "s3 = s2\<lparr>bd_tmp := AList.delete scratch (bd_tmp s2)\<rparr>"
  have rcv: "receive_scratch scratch maxBytes src s = (Inr bytes, s1)"
    using assms by (simp add: receive_scratch_def s1_def)
  have look: "has_blob s1 ?h" using assms by (simp add: has_blob_def s1_def)
  have gone: "bd_writable s2" "map_of (bd_objects s2) ?h = None" "map_of (bd_metas s2) ?h = None"
      "map_of (bd_refs s2) ?h = None"
    using assms by (simp_all add: s2_def s1_def remove_blob_def unlinkAll_def disk_write_def and_then_def Let_def)
  have drop: "drop_scratch scratch s2 = (Inr (), s3)" using gone by (simp add: drop_scratch_def disk_write_def s3_def)
  define s4 where "s4 = s3\<lparr>bd_refs := AList.update ?h [docUrl] (bd_refs s3)\<rparr>"
  have own: "addRef ?h docUrl s3 = (Inr [docUrl], s4)"
    using gone by (simp add: addRef_def readRefs_def disk_write_def and_then_def Let_def s4_def s3_def)
  have none: "statBlob s4 ?h = None" using gone by (simp add: statBlob_def s4_def s3_def)
  define m where "m = \<lparr>bm_hash = ?h, bm_size = length bytes, bm_mimeType = mimeType, bm_ext = resolveExt mimeType ext,
      bm_createdAt = bd_clock s4\<rparr>"
  define s5 where "s5 = s4\<lparr>bd_metas := AList.update ?h m (bd_metas s4)\<rparr>"
  have describe: "finalizeMeta ?h (length bytes) mimeType (resolveExt mimeType ext) s4 = (Inr m, s5)"
    using gone by (simp add: finalizeMeta_def disk_write_def and_then_def Let_def s5_def m_def s4_def s3_def)
  have "interrupt 2 (\<lambda>s. snd (remove_blob ?h s)) (ingestStream digest scratch src mimeType ext docUrl maxBytes) s
      = (Inr (m, True), s5)"
    using look by (simp add: ingestStream_def numeral_2_eq_2 interrupt_perform_chain rcv Let_def run_chain drop own
        describe_held_def none describe flip: s2_def)
  then show ?thesis using that [of m s5] gone by (simp add: has_blob_def readRefs_def s5_def s4_def s3_def)
qed

section \<open>An example\<close>

definition ex_digest :: "u8 list \<Rightarrow> jstr" where
  "ex_digest bytes = replicate 64 (if bytes = [] then 0x30 else 0x31)"

definition ex_disk :: blob_disk where
  "ex_disk = \<lparr>bd_objects = [], bd_metas = [], bd_refs = [], bd_receipts = [], bd_tmp = [], bd_user = [],
     bd_writable = True, bd_clock = 0\<rparr>"

lemma content_addressed_witness:
  "\<exists>tr ts s. interleaved (blob_calls ex_digest) (\<lambda>_ _. False) ex_disk tr ts s
     \<and> readBlob s (ex_digest [7]) = Some [7] \<and> ex_digest [7] = ex_digest [7]"
proof -
  let ?src = "\<lparr>src_chunks = [[7]], src_fails = False\<rparr>"
  let ?t = "ingestStream ex_digest [] ?src [] None [] None"
  have e: "bd_writable ex_disk" "receive None 0 (src_chunks ?src) = Inr [7]" "\<not> src_fails ?src"
      "isValidBlobHash (ex_digest [7])" "map_of (bd_objects ex_disk) (ex_digest [7]) = None"
    by (simp_all add: ex_disk_def isValidBlobHash_def ex_digest_def list_all_iff)
  obtain m s' where r: "run ?t ex_disk = (Inr (m, False), s')" "readBlob s' (ex_digest [7]) = Some [7]"
    by (rule upload_stores [where digest = ex_digest, OF e])
  from interleaved_run [OF interleaved.start blob_calls.stream_call]
  obtain tr where i: "interleaved (blob_calls ex_digest) (\<lambda>_ _. False) ex_disk tr [Done ()] (snd (run (forget ?t) ex_disk))"
    by fastforce
  have s: "snd (run (forget ?t) ex_disk) = s'" using r(1) by simp
  have "content_ok ex_digest ex_disk" by (simp add: content_ok_def ex_disk_def)
  from content_addressed [OF i this _ r(2) [folded s]] have "ex_digest [7] = ex_digest [7]" by blast
  with i r(2) s show ?thesis by metis
qed

end
