(* ===== verification/Blob_Gc.thy ===== *)
theory Blob_Gc
  imports Blob_Store Signing
begin

text \<open>
  Mark and sweep of the blob store, \<^verbatim>\<open>blobGc.ts\<close>: which documents are on disk, the walk from the root
  documents to the hashes their recordings name, and the removal of what is neither reached nor young
  nor a statement an owner still has. A document is the JSON value of its current state; resolving one
  is a parameter (\<open>None\<close>: it did not resolve in time), the same for the length of a walk.
\<close>

section \<open>Definitions\<close>

definition DEFAULT_GRACE_MS :: int where
  "DEFAULT_GRACE_MS = 24 * 60 * 60 * 1000"

datatype gc_abort = Unresolved_root jstr | No_roots | Unresolved_recording jstr

record gc_result =
  gc_scanned :: nat
  gc_live :: nat
  gc_swept :: "jstr list"
  gc_skippedYoung :: nat
  gc_reclaimedBytes :: nat
  gc_stillHardlinked :: nat
  gc_roots :: "jstr list"
  gc_abortedReason :: "gc_abort option"

type_synonym resolver = "jstr \<Rightarrow> jsval option"

text \<open>A directory that cannot be read is \<open>None\<close>.\<close>

type_synonym dir_listing = "(jstr \<times> jstr list option) list option"

definition storedDocumentUrls :: "dir_listing \<Rightarrow> jstr list" where
  "storedDocumentUrls listing =
     (case listing of
        None \<Rightarrow> []
      | Some prefixes \<Rightarrow> concat (map (\<lambda>(prefix, rests).
          if take 1 prefix = js ''.'' then []
          else case rests of None \<Rightarrow> [] | Some rs \<Rightarrow> map (\<lambda>rest. js ''automerge:'' @ prefix @ rest) rs) prefixes))"

text \<open>A \<open>Set\<close> built from a list: the first occurrences, in order.\<close>

definition js_set :: "'a list \<Rightarrow> 'a list" where
  "js_set xs = fold (\<lambda>x acc. if x \<in> set acc then acc else acc @ [x]) xs []"

definition root_recordings :: "jsval \<Rightarrow> jsval list option" where
  "root_recordings doc = as_array (field doc ''recordings'')"

fun mark_roots :: "resolver \<Rightarrow> jstr list \<Rightarrow> jstr list \<Rightarrow> gc_abort + jstr list \<times> jstr list" where
  "mark_roots resolve seeds [] = Inr ([], [])"
| "mark_roots resolve seeds (url # urls) =
     (case resolve url of
        None \<Rightarrow> if url \<in> set seeds then Inl (Unresolved_root url) else mark_roots resolve seeds urls
      | Some doc \<Rightarrow>
          (case root_recordings doc of
             None \<Rightarrow> mark_roots resolve seeds urls
           | Some recordings \<Rightarrow> map_sum id (\<lambda>(roots, recs).
               (url # roots, List.map_filter as_string recordings @ recs)) (mark_roots resolve seeds urls)))"

definition named_hashes :: "jsval \<Rightarrow> jstr list" where
  "named_hashes doc =
     (case as_string (field (field doc ''blob'') ''hash'') of None \<Rightarrow> [] | Some h \<Rightarrow> [h])
     @ (case as_array (field doc ''statements'') of None \<Rightarrow> [] | Some hs \<Rightarrow> List.map_filter as_string hs)"

fun mark_live :: "resolver \<Rightarrow> jstr list \<Rightarrow> gc_abort + jstr list" where
  "mark_live resolve [] = Inr []"
| "mark_live resolve (url # urls) =
     (case resolve url of
        None \<Rightarrow> Inl (Unresolved_recording url)
      | Some doc \<Rightarrow> map_sum id (append (named_hashes doc)) (mark_live resolve urls))"

definition isOwnedStatement :: "blob_disk \<Rightarrow> jstr \<Rightarrow> jstr list \<Rightarrow> bool" where
  "isOwnedStatement s h ownerUrls =
     (case statBlob s h of
        None \<Rightarrow> False
      | Some m \<Rightarrow> bm_mimeType m = STATEMENT_MIME_TYPE \<and> (\<exists>ref \<in> set (readRefs s h). ref \<in> set ownerUrls))"

definition recordReclaimed :: "stored_object \<Rightarrow> gc_result \<Rightarrow> gc_result" where
  "recordReclaimed ob r =
     (if 1 < so_nlink ob then r\<lparr>gc_stillHardlinked := gc_stillHardlinked r + 1\<rparr>
      else r\<lparr>gc_reclaimedBytes := gc_reclaimedBytes r + so_size ob\<rparr>)"

primrec sweep_objects ::
  "jstr list \<Rightarrow> int \<Rightarrow> int \<Rightarrow> jstr list \<Rightarrow> stored_object list \<Rightarrow> gc_result \<Rightarrow> gc_result blob_call" where
  "sweep_objects live graceMs now owners [] r = give r"
| "sweep_objects live graceMs now owners (ob # obs) r =
     (if so_hash ob \<in> set live then sweep_objects live graceMs now owners obs r
      else if now - so_ctimeMs ob < graceMs
      then sweep_objects live graceMs now owners obs (r\<lparr>gc_skippedYoung := gc_skippedYoung r + 1\<rparr>)
      else chain (perform Look (reads (\<lambda>s. isOwnedStatement s (so_hash ob) owners))) (\<lambda>owned.
        if owned then sweep_objects live graceMs now owners obs r
        else chain (perform Own (remove_blob (so_hash ob))) (\<lambda>removed.
          sweep_objects live graceMs now owners obs
            (if removed then recordReclaimed ob (r\<lparr>gc_swept := gc_swept r @ [so_hash ob]\<rparr>) else r))))"

definition gc_start :: "nat \<Rightarrow> gc_result" where
  "gc_start scanned = \<lparr>gc_scanned = scanned, gc_live = 0, gc_swept = [], gc_skippedYoung = 0, gc_reclaimedBytes = 0,
     gc_stillHardlinked = 0, gc_roots = [], gc_abortedReason = None\<rparr>"

definition gc_candidates :: "jstr list \<Rightarrow> dir_listing \<Rightarrow> jstr list" where
  "gc_candidates seeds listing = js_set (seeds @ storedDocumentUrls listing)"

definition collectOrphanedBlobs ::
  "resolver \<Rightarrow> dir_listing \<Rightarrow> jstr list \<Rightarrow> int \<Rightarrow> int \<Rightarrow> gc_result blob_call" where
  "collectOrphanedBlobs resolve listing seeds graceMs now =
     chain (perform Look (reads listObjects)) (\<lambda>objects.
       let start = gc_start (length objects); aborted = (\<lambda>why. give (start\<lparr>gc_abortedReason := Some why\<rparr>))
       in case mark_roots resolve seeds (gc_candidates seeds listing) of
            Inl why \<Rightarrow> aborted why
          | Inr (roots, recs) \<Rightarrow>
              let recordingUrls = js_set recs
              in if roots = [] \<and> objects \<noteq> [] then aborted No_roots
                 else case mark_live resolve recordingUrls of
                     Inl why \<Rightarrow> aborted why
                   | Inr hashes \<Rightarrow>
                       sweep_objects hashes graceMs now (recordingUrls @ roots) objects
                         (start\<lparr>gc_live := length (js_set hashes), gc_roots := roots\<rparr>))"

section \<open>Marking\<close>

lemma set_js_set [simp]: "set (js_set xs) = set xs"
proof -
  have "set (fold (\<lambda>x acc. if x \<in> set acc then acc else acc @ [x]) xs acc) = set acc \<union> set xs" for acc
    by (induction xs arbitrary: acc) auto
  then show ?thesis by (simp add: js_set_def)
qed

text \<open>\<open>recording\<close> is listed by a root document of the host.\<close>

definition listed :: "resolver \<Rightarrow> jstr list \<Rightarrow> dir_listing \<Rightarrow> jstr \<Rightarrow> bool" where
  "listed resolve seeds listing recording =
     (\<exists>url \<in> set (seeds @ storedDocumentUrls listing). \<exists>doc recordings. resolve url = Some doc
       \<and> root_recordings doc = Some recordings \<and> JString recording \<in> set recordings)"

definition is_root :: "resolver \<Rightarrow> jstr list \<Rightarrow> dir_listing \<Rightarrow> jstr \<Rightarrow> bool" where
  "is_root resolve seeds listing url =
     (url \<in> set (seeds @ storedDocumentUrls listing) \<and> (\<exists>doc. resolve url = Some doc \<and> root_recordings doc \<noteq> None))"

definition reachable :: "resolver \<Rightarrow> jstr list \<Rightarrow> dir_listing \<Rightarrow> jstr \<Rightarrow> bool" where
  "reachable resolve seeds listing h =
     (\<exists>recording doc. listed resolve seeds listing recording \<and> resolve recording = Some doc \<and> h \<in> set (named_hashes doc))"

lemma mark_roots_facts:
  "mark_roots resolve seeds urls = Inr (roots, recs) \<Longrightarrow>
     set roots = {url \<in> set urls. \<exists>doc. resolve url = Some doc \<and> root_recordings doc \<noteq> None}
     \<and> set recs = {r. \<exists>url \<in> set urls. \<exists>doc rs. resolve url = Some doc \<and> root_recordings doc = Some rs \<and> JString r \<in> set rs}"
proof (induction urls arbitrary: roots recs)
  case (Cons url urls)
  show ?case
  proof (cases "mark_roots resolve seeds urls")
    case (Inl e)
    with Cons.prems show ?thesis by (auto split: option.splits if_splits)
  next
    case (Inr rr)
    obtain ro re where rr: "rr = (ro, re)" by (cases rr)
    note ih = Cons.IH [OF Inr [unfolded rr]]
    show ?thesis
      using Cons.prems Inr rr ih
      by (cases "resolve url"; cases "root_recordings (the (resolve url))")
        (auto simp: set_map_filter split: if_splits)
  qed
qed simp

lemma mark_live_facts:
  "mark_live resolve urls = Inr hs \<Longrightarrow>
     set hs = (\<Union>url \<in> set urls. case resolve url of None \<Rightarrow> {} | Some doc \<Rightarrow> set (named_hashes doc))"
proof (induction urls arbitrary: hs)
  case (Cons url urls)
  then show ?case by (cases "mark_live resolve urls") (auto split: option.splits)
qed simp

section \<open>Sweeping\<close>

text \<open>What the disk holds about one hash.\<close>

definition held_at :: "blob_disk \<Rightarrow> jstr \<Rightarrow> stored_file option \<times> blob_meta option \<times> jstr list" where
  "held_at s h = (map_of (bd_objects s) h, map_of (bd_metas s) h, readRefs s h)"

definition spared :: "jstr list \<Rightarrow> int \<Rightarrow> int \<Rightarrow> jstr list \<Rightarrow> blob_disk \<Rightarrow> stored_object \<Rightarrow> bool" where
  "spared live graceMs now owners s ob =
     (so_hash ob \<in> set live \<or> now - so_ctimeMs ob < graceMs \<or> isOwnedStatement s (so_hash ob) owners)"

lemma isOwnedStatement_cong:
  assumes "held_at s h = held_at s' h"
  shows "isOwnedStatement s h owners = isOwnedStatement s' h owners"
proof -
  from assms have same: "map_of (bd_objects s) h = map_of (bd_objects s') h"
      "map_of (bd_metas s) h = map_of (bd_metas s') h" "readRefs s h = readRefs s' h"
    by (simp_all add: held_at_def)
  show ?thesis unfolding isOwnedStatement_def statBlob_def same ..
qed

lemma remove_held:
  assumes "bd_writable s" "isValidBlobHash h"
  obtains s' where "remove_blob h s = (Inr (has_blob s h), s')" "map_of (bd_objects s') h = None" "bd_writable s'"
    "\<And>k. k \<noteq> h \<Longrightarrow> held_at s' k = held_at s k"
  using assms that
  by (auto simp: remove_blob_def unlinkAll_def disk_write_def and_then_def Let_def held_at_def readRefs_def)

lemma sweep_objects_run:
  assumes "bd_writable s" "distinct (map so_hash obs)" "\<forall>ob \<in> set obs. isValidBlobHash (so_hash ob)"
  shows "\<exists>r' s'. run (sweep_objects live graceMs now owners obs r) s = (Inr r', s')
    \<and> gc_abortedReason r' = gc_abortedReason r
    \<and> (\<forall>h. if \<exists>ob \<in> set obs. so_hash ob = h \<and> \<not> spared live graceMs now owners s ob
           then map_of (bd_objects s') h = None else held_at s' h = held_at s h)"
  using assms
proof (induction obs arbitrary: s r)
  case (Cons ob obs)
  have rest: "distinct (map so_hash obs)" "\<forall>ob \<in> set obs. isValidBlobHash (so_hash ob)" using Cons.prems by simp_all
  show ?case
  proof (cases "spared live graceMs now owners s ob")
    case True
    obtain r0 where r0: "run (sweep_objects live graceMs now owners (ob # obs) r) s =
        run (sweep_objects live graceMs now owners obs r0) s" "gc_abortedReason r0 = gc_abortedReason r"
    proof (cases "so_hash ob \<in> set live")
      case True
      then show ?thesis using that [of r] by simp
    next
      case live: False
      show ?thesis
      proof (cases "now - so_ctimeMs ob < graceMs")
        case True
        with live show ?thesis using that [of "r\<lparr>gc_skippedYoung := gc_skippedYoung r + 1\<rparr>"] by simp
      next
        case False
        with live True show ?thesis using that [of r] by (simp add: spared_def run_chain)
      qed
    qed
    with Cons.IH [OF Cons.prems(1) rest, of r0] True show ?thesis by simp
  next
    case False
    then have keep: "so_hash ob \<notin> set live" "\<not> now - so_ctimeMs ob < graceMs" "\<not> isOwnedStatement s (so_hash ob) owners"
      by (simp_all add: spared_def)
    have "isValidBlobHash (so_hash ob)" using Cons.prems(3) by simp
    then obtain s1 where s1: "remove_blob (so_hash ob) s = (Inr (has_blob s (so_hash ob)), s1)"
        "map_of (bd_objects s1) (so_hash ob) = None" "bd_writable s1" "\<And>k. k \<noteq> so_hash ob \<Longrightarrow> held_at s1 k = held_at s k"
      using remove_held [OF Cons.prems(1)] by blast
    let ?r = "if has_blob s (so_hash ob) then recordReclaimed ob (r\<lparr>gc_swept := gc_swept r @ [so_hash ob]\<rparr>) else r"
    have run: "run (sweep_objects live graceMs now owners (ob # obs) r) s
        = run (sweep_objects live graceMs now owners obs ?r) s1"
      using keep s1(1) by (simp add: run_chain)
    have same: "spared live graceMs now owners s1 x = spared live graceMs now owners s x" if "x \<in> set obs" for x
    proof -
      have "so_hash x \<in> so_hash ` set obs" using that by (rule imageI)
      then have "so_hash x \<noteq> so_hash ob" using Cons.prems(2) by auto
      from isOwnedStatement_cong [OF s1(4) [OF this]] show ?thesis by (simp add: spared_def)
    qed
    obtain r' s' where ih: "run (sweep_objects live graceMs now owners obs ?r) s1 = (Inr r', s')"
        "gc_abortedReason r' = gc_abortedReason ?r"
        "\<And>h. if \<exists>x \<in> set obs. so_hash x = h \<and> \<not> spared live graceMs now owners s1 x
           then map_of (bd_objects s') h = None else held_at s' h = held_at s1 h"
      using Cons.IH [OF s1(3) rest, of ?r] by blast
    have "if \<exists>x \<in> set (ob # obs). so_hash x = h \<and> \<not> spared live graceMs now owners s x
        then map_of (bd_objects s') h = None else held_at s' h = held_at s h" for h
    proof (cases "h = so_hash ob")
      case True
      moreover have "so_hash x \<noteq> so_hash ob" if "x \<in> set obs" for x
        using imageI [OF that, of so_hash] Cons.prems(2) by auto
      ultimately have "\<not> (\<exists>x \<in> set obs. so_hash x = h \<and> \<not> spared live graceMs now owners s1 x)"
        by blast
      then have "held_at s' h = held_at s1 h" using ih(3) [of h] by simp
      with s1(2) True False show ?thesis by (simp add: held_at_def)
    next
      case other: False
      then show ?thesis using ih(3) [of h] s1(4) [OF other] same by (auto split: if_splits)
    qed
    moreover have "gc_abortedReason ?r = gc_abortedReason r" by (simp add: recordReclaimed_def)
    ultimately show ?thesis using run ih(1,2) by auto
  qed
qed simp

section \<open>The sweep as a whole\<close>

definition young :: "int \<Rightarrow> int \<Rightarrow> blob_disk \<Rightarrow> jstr \<Rightarrow> bool" where
  "young graceMs now s h = (\<exists>f. map_of (bd_objects s) h = Some f \<and> now - sf_ctimeMs f < graceMs)"

definition owned_statement :: "resolver \<Rightarrow> jstr list \<Rightarrow> dir_listing \<Rightarrow> blob_disk \<Rightarrow> jstr \<Rightarrow> bool" where
  "owned_statement resolve seeds listing s h =
     (\<exists>m. statBlob s h = Some m \<and> bm_mimeType m = STATEMENT_MIME_TYPE
       \<and> (\<exists>ref \<in> set (readRefs s h). listed resolve seeds listing ref \<or> is_root resolve seeds listing ref))"

lemma mark_roots_seeds:
  "mark_roots resolve seeds urls = Inr x \<Longrightarrow> url \<in> set urls \<Longrightarrow> url \<in> set seeds \<Longrightarrow> resolve url \<noteq> None"
proof (induction urls arbitrary: x)
  case (Cons u urls)
  then show ?case by (cases "mark_roots resolve seeds urls") (auto split: option.splits if_splits)
qed simp

lemma mark_live_resolves: "mark_live resolve urls = Inr hs \<Longrightarrow> url \<in> set urls \<Longrightarrow> resolve url \<noteq> None"
proof (induction urls arbitrary: hs)
  case (Cons u urls)
  then show ?case by (cases "mark_live resolve urls") (auto split: option.splits)
qed simp

lemma listObjects_facts:
  assumes "distinct (map fst (bd_objects s))"
  shows "distinct (map so_hash (listObjects s))"
    "ob \<in> set (listObjects s) \<longleftrightarrow> isValidBlobHash (so_hash ob) \<and> (\<exists>f. map_of (bd_objects s) (so_hash ob) = Some f
       \<and> ob = \<lparr>so_hash = so_hash ob, so_size = length (sf_bytes f), so_nlink = sf_nlink f, so_ctimeMs = sf_ctimeMs f\<rparr>)"
proof -
  have hashes: "map so_hash (List.map_filter (\<lambda>(h, f).
     if isValidBlobHash h
     then Some \<lparr>so_hash = h, so_size = length (sf_bytes f), so_nlink = sf_nlink f, so_ctimeMs = sf_ctimeMs f\<rparr>
     else None) obs) = filter isValidBlobHash (map fst obs)" for obs
    by (induction obs) (auto simp: map_filter_simps)
  show "distinct (map so_hash (listObjects s))"
    using assms by (simp add: listObjects_def hashes)
  have m: "(h, f) \<in> set (bd_objects s) \<longleftrightarrow> map_of (bd_objects s) h = Some f" for h f
    using assms by simp
  show "ob \<in> set (listObjects s) \<longleftrightarrow> isValidBlobHash (so_hash ob) \<and> (\<exists>f. map_of (bd_objects s) (so_hash ob) = Some f
       \<and> ob = \<lparr>so_hash = so_hash ob, so_size = length (sf_bytes f), so_nlink = sf_nlink f, so_ctimeMs = sf_ctimeMs f\<rparr>)"
    unfolding listObjects_def set_map_filter m [symmetric] by (force split: if_splits)
qed

text \<open>What a completed mark phase says.\<close>

lemma marks_exact:
  assumes "mark_roots resolve seeds (gc_candidates seeds listing) = Inr (roots, recs)"
    "mark_live resolve (js_set recs) = Inr hs"
  shows "listed resolve seeds listing x \<longleftrightarrow> x \<in> set recs" "is_root resolve seeds listing x \<longleftrightarrow> x \<in> set roots"
    "reachable resolve seeds listing h \<longleftrightarrow> h \<in> set hs"
    "owned_statement resolve seeds listing s h \<longleftrightarrow> isOwnedStatement s h (js_set recs @ roots)"
    "url \<in> set seeds \<or> listed resolve seeds listing url \<Longrightarrow> resolve url \<noteq> None"
proof -
  note roots = mark_roots_facts [OF assms(1)]
  show listed: "listed resolve seeds listing x \<longleftrightarrow> x \<in> set recs"
    and root: "is_root resolve seeds listing x \<longleftrightarrow> x \<in> set roots" for x
    using roots by (auto simp: listed_def is_root_def gc_candidates_def)
  show "reachable resolve seeds listing h \<longleftrightarrow> h \<in> set hs"
    using mark_live_facts [OF assms(2)] by (auto simp: reachable_def listed split: option.splits)
  show "owned_statement resolve seeds listing s h \<longleftrightarrow> isOwnedStatement s h (js_set recs @ roots)"
    by (auto simp: isOwnedStatement_def owned_statement_def listed root split: option.split)
  show "resolve url \<noteq> None" if "url \<in> set seeds \<or> listed resolve seeds listing url"
    using that mark_roots_seeds [OF assms(1), of url] mark_live_resolves [OF assms(2), of url] listed
    by (auto simp: gc_candidates_def)
qed

lemma gc_run_cases:
  assumes "run (collectOrphanedBlobs resolve listing seeds graceMs now) s = (Inr r, s')"
  obtains (aborted) "gc_abortedReason r \<noteq> None" "s' = s"
  | (swept) roots recs hs r0 where "mark_roots resolve seeds (gc_candidates seeds listing) = Inr (roots, recs)"
      "mark_live resolve (js_set recs) = Inr hs" "gc_abortedReason r0 = None"
      "run (sweep_objects hs graceMs now (js_set recs @ roots) (listObjects s) r0) s = (Inr r, s')"
proof (cases "mark_roots resolve seeds (gc_candidates seeds listing)")
  case (Inl why)
  then show ?thesis using aborted assms by (auto simp: collectOrphanedBlobs_def run_chain Let_def)
next
  case marks: (Inr rr)
  obtain roots recs where rr: "rr = (roots, recs)" by (cases rr)
  show ?thesis
  proof (cases "roots = [] \<and> listObjects s \<noteq> []")
    case True
    then show ?thesis using aborted assms marks rr by (auto simp: collectOrphanedBlobs_def run_chain Let_def)
  next
    case roots: False
    show ?thesis
    proof (cases "mark_live resolve (js_set recs)")
      case (Inl why)
      then show ?thesis using aborted assms roots marks rr
        by (auto simp: collectOrphanedBlobs_def run_chain Let_def split: if_splits)
    next
      case (Inr hs)
      let ?r = "(gc_start (length (listObjects s)))\<lparr>gc_live := length (js_set hs), gc_roots := roots\<rparr>"
      have "run (sweep_objects hs graceMs now (js_set recs @ roots) (listObjects s) ?r) s = (Inr r, s')"
        using assms roots rr marks Inr
        by (auto simp: collectOrphanedBlobs_def run_chain Let_def split: if_splits)
      moreover have "gc_abortedReason ?r = None" by (simp add: gc_start_def)
      ultimately show ?thesis by (rule swept [OF marks [unfolded rr] Inr, rotated])
    qed
  qed
qed

lemma sweep_keeps_spared:
  assumes "bd_writable s" "distinct (map fst (bd_objects s))"
    "run (sweep_objects live graceMs now owners (listObjects s) r0) s = (Inr r, s')"
  shows "gc_abortedReason r = gc_abortedReason r0"
    "has_blob s' h \<longleftrightarrow> has_blob s h \<and> (h \<in> set live \<or> young graceMs now s h \<or> isOwnedStatement s h owners)"
proof -
  note objects = listObjects_facts [OF assms(2)]
  have "\<forall>ob \<in> set (listObjects s). isValidBlobHash (so_hash ob)" using objects(2) by blast
  from sweep_objects_run [OF assms(1) objects(1) this, of live graceMs now owners r0] assms(3)
  show "gc_abortedReason r = gc_abortedReason r0" by simp
  from sweep_objects_run [OF assms(1) objects(1) \<open>\<forall>ob \<in> _. _\<close>, of live graceMs now owners r0] assms(3)
  have at: "if \<exists>ob \<in> set (listObjects s). so_hash ob = h \<and> \<not> spared live graceMs now owners s ob
      then map_of (bd_objects s') h = None else held_at s' h = held_at s h" by simp
  show "has_blob s' h \<longleftrightarrow> has_blob s h \<and> (h \<in> set live \<or> young graceMs now s h \<or> isOwnedStatement s h owners)"
  proof (cases "has_blob s h")
    case True
    then obtain f where f: "isValidBlobHash h" "map_of (bd_objects s) h = Some f" by (auto simp: has_blob_def)
    let ?ob = "\<lparr>so_hash = h, so_size = length (sf_bytes f), so_nlink = sf_nlink f, so_ctimeMs = sf_ctimeMs f\<rparr>"
    have only: "ob \<in> set (listObjects s) \<and> so_hash ob = h \<longleftrightarrow> ob = ?ob" for ob
      using f objects(2) [of ob] by auto
    have "spared live graceMs now owners s ?ob \<longleftrightarrow> h \<in> set live \<or> young graceMs now s h \<or> isOwnedStatement s h owners"
      using f by (simp add: spared_def young_def)
    moreover have "(\<exists>ob \<in> set (listObjects s). so_hash ob = h \<and> \<not> spared live graceMs now owners s ob)
        \<longleftrightarrow> \<not> spared live graceMs now owners s ?ob"
      unfolding Bex_def conj_assoc [symmetric] only by simp
    ultimately have "if \<not> (h \<in> set live \<or> young graceMs now s h \<or> isOwnedStatement s h owners)
        then map_of (bd_objects s') h = None else held_at s' h = held_at s h"
      using at by argo
    then have "has_blob s' h \<longleftrightarrow> h \<in> set live \<or> young graceMs now s h \<or> isOwnedStatement s h owners"
      using f by (simp add: has_blob_def held_at_def split: if_splits)
    with True show ?thesis by blast
  next
    case False
    then have "\<not> (\<exists>ob \<in> set (listObjects s). so_hash ob = h \<and> \<not> spared live graceMs now owners s ob)"
      using objects(2) by (auto simp: has_blob_def)
    then have "held_at s' h = held_at s h" using at by simp
    then have "has_blob s' h = has_blob s h" by (simp add: has_blob_def held_at_def)
    with False show ?thesis by simp
  qed
qed

text \<open>
  C29. A sweep that is not abandoned keeps exactly what is reached from a root document through a
  recording, what is young, and the statements of live documents; it was abandoned, with nothing
  touched, unless every announced root and every recording listed by a root could be resolved.
\<close>

theorem gc_removes_exactly_orphans:
  assumes "bd_writable s" "distinct (map fst (bd_objects s))"
    "run (collectOrphanedBlobs resolve listing seeds graceMs now) s = (Inr r, s')"
  shows "if gc_abortedReason r \<noteq> None then s' = s
    else (\<forall>url. url \<in> set seeds \<or> listed resolve seeds listing url \<longrightarrow> resolve url \<noteq> None)
      \<and> (\<forall>h. has_blob s' h \<longleftrightarrow> has_blob s h
           \<and> (reachable resolve seeds listing h \<or> young graceMs now s h \<or> owned_statement resolve seeds listing s h))"
  using assms(3)
proof (cases rule: gc_run_cases)
  case aborted
  then show ?thesis by simp
next
  case (swept roots recs hs r0)
  note marks = marks_exact [OF swept(1,2)] and kept = sweep_keeps_spared [OF assms(1,2) swept(4)]
  show ?thesis using kept(1) swept(3) marks(5) by (simp add: kept(2) marks(3,4))
qed

text \<open>A host with one orphan, and one recording it must keep.\<close>

definition ex_graph :: resolver where
  "ex_graph url =
     (if url = js ''root'' then Some (JObject [(js ''recordings'', JArray [JString (js ''tape'')])])
      else if url = js ''tape'' then Some (JObject [(js ''blob'', JObject [(js ''hash'', JString (replicate 64 0x31))])])
      else None)"

definition ex_blobs :: blob_disk where
  "ex_blobs = ex_disk\<lparr>bd_objects :=
     [(replicate 64 0x30, \<lparr>sf_bytes = [], sf_nlink = 1, sf_ctimeMs = 0\<rparr>),
      (replicate 64 0x31, \<lparr>sf_bytes = [7], sf_nlink = 1, sf_ctimeMs = 0\<rparr>)]\<rparr>"

lemma gc_removes_exactly_orphans_witness:
  "\<exists>r s'. run (collectOrphanedBlobs ex_graph None [js ''root''] 10 100) ex_blobs = (Inr r, s')
     \<and> \<not> has_blob s' (replicate 64 0x30) \<and> has_blob s' (replicate 64 0x31)"
proof -
  have valid: "isValidBlobHash (replicate 64 0x30)" "isValidBlobHash (replicate 64 0x31)"
    by (simp_all add: isValidBlobHash_def list_all_iff)
  have diff: "replicate 64 (0x30 :: u16) \<noteq> replicate 64 0x31" by simp
  have w: "bd_writable ex_blobs" "distinct (map fst (bd_objects ex_blobs))"
    using diff by (simp_all add: ex_blobs_def ex_disk_def)
  have marks: "mark_roots ex_graph [js ''root''] (gc_candidates [js ''root''] None) = Inr ([js ''root''], [js ''tape''])"
    "mark_live ex_graph (js_set [js ''tape'']) = Inr [replicate 64 0x31]"
    by (simp_all add: gc_candidates_def js_set_def storedDocumentUrls_def ex_graph_def root_recordings_def
        List.map_filter_def named_hashes_def)
  have "\<forall>ob \<in> set (listObjects ex_blobs). isValidBlobHash (so_hash ob)"
    using listObjects_facts(2) [OF w(2)] by blast
  from sweep_objects_run [OF w(1) listObjects_facts(1) [OF w(2)] this]
  obtain r s' where run: "run (collectOrphanedBlobs ex_graph None [js ''root''] 10 100) ex_blobs = (Inr r, s')"
      "gc_abortedReason r = None"
    using marks by (fastforce simp: collectOrphanedBlobs_def run_chain Let_def gc_start_def)
  note exact = gc_removes_exactly_orphans [OF w run(1)]
  have "has_blob ex_blobs (replicate 64 0x30)" "has_blob ex_blobs (replicate 64 0x31)"
    "\<not> young 10 100 ex_blobs (replicate 64 0x30)"
    using valid diff by (simp_all add: has_blob_def ex_blobs_def young_def)
  moreover have "\<not> owned_statement ex_graph [js ''root''] None ex_blobs (replicate 64 0x30)"
    by (simp add: owned_statement_def statBlob_def ex_blobs_def ex_disk_def)
  moreover have "\<not> reachable ex_graph [js ''root''] None (replicate 64 0x30)"
    "reachable ex_graph [js ''root''] None (replicate 64 0x31)"
    using diff by (auto simp: reachable_def listed_def storedDocumentUrls_def ex_graph_def root_recordings_def
        named_hashes_def split: if_splits)
  ultimately show ?thesis using run exact by auto
qed

end
