(* ===== verification/Session_Recorder.thy ===== *)
theory Session_Recorder
  imports Blob_Store Recording_Provenance
begin

text \<open>
  Sessions of the host: the registry of open sync connections (\<^verbatim>\<open>syncConnections.ts\<close>) and the recorder
  that follows one session and signs its record after it closes (\<^verbatim>\<open>sessionRecorder.ts\<close>). A socket is a
  number. A span is an object shared between a device and the map of open spans; here that map holds
  the place of the span, its device and its index there. A closed session stays in \<open>sh_closing\<close>, where
  claims still reach it, until its thread has signed it; ending a grace period early is resuming that
  thread. The record is stored by an upload to the blob store, which shares the host's clock.
\<close>

section \<open>Connections\<close>

record sync_connection =
  cn_id :: jstr
  cn_label :: "jstr option"
  cn_address :: "jstr option"
  cn_connectedAt :: int
  cn_self :: bool
  cn_deviceKey :: "jstr option"

record connection_details =
  cd_label :: "jstr option"
  cd_address :: "jstr option"
  cd_self :: bool
  cd_deviceKey :: "jstr option"

record open_session =
  os_sessionId :: jstr
  os_openedAt :: int

record live_span =
  ls_joinedAt :: int
  ls_leftAt :: "int option"

record tracked_device =
  td_label :: "jstr option"
  td_spans :: "live_span list"

type_synonym span_ref = "jstr \<times> nat"

record tracked =
  tr_session :: open_session
  tr_docUrl :: jstr
  tr_devices :: "(jstr \<times> tracked_device) list"
  tr_live :: "(jstr \<times> span_ref) list"
  tr_claims :: "jstr list"

text \<open>\<open>sh_signed\<close> has what \<open>onSigned\<close> was called with.\<close>

record session_host =
  sh_entries :: "(nat \<times> sync_connection \<times> bool) list"
  sh_nextId :: nat
  sh_open :: "tracked option"
  sh_closing :: "(jstr \<times> tracked) list"
  sh_disk :: blob_disk
  sh_store_up :: bool
  sh_signed :: "(jstr \<times> jstr \<times> jstr list) list"

abbreviation sh_now :: "session_host \<Rightarrow> int" where
  "sh_now s \<equiv> bd_clock (sh_disk s)"

datatype session_error = Already_open jstr | Still_closing jstr | Store_unavailable | Key_unavailable
  | Not_serializable json_error | Not_stored blob_error

datatype session_stretch = Connections | Claims | Open | Close | Grace | Snapshot | Key | Store blob_stretch | Deliver | Settle

type_synonym 'a session_eff = "(session_host, session_error, 'a) eff"
type_synonym 'a session_call = "(session_stretch, session_host, session_error, 'a) call"

section \<open>Following connections\<close>

definition DEFAULT_SESSION_GRACE_MS :: int where
  "DEFAULT_SESSION_GRACE_MS = 60000"

text \<open>The key a connection proved; the empty text counts as none.\<close>

definition proven_key :: "sync_connection \<Rightarrow> jstr option" where
  "proven_key c = (case cn_deviceKey c of Some (u # us) \<Rightarrow> Some (u # us) | _ \<Rightarrow> None)"

definition join_connection :: "sync_connection \<Rightarrow> tracked \<Rightarrow> tracked" where
  "join_connection c t =
     (case proven_key c of
        None \<Rightarrow> t
      | Some key \<Rightarrow>
          let held = (case map_of (tr_devices t) key of None \<Rightarrow> \<lparr>td_label = None, td_spans = []\<rparr> | Some d \<Rightarrow> d);
              device = held\<lparr>td_label := (case cn_label c of Some l \<Rightarrow> Some l | None \<Rightarrow> td_label held)\<rparr>
          in if map_of (tr_live t) (cn_id c) \<noteq> None
             then t\<lparr>tr_devices := AList.update key device (tr_devices t)\<rparr>
             else t\<lparr>tr_devices := AList.update key (device\<lparr>td_spans := td_spans device @
                      [\<lparr>ls_joinedAt = max (cn_connectedAt c) (os_openedAt (tr_session t)), ls_leftAt = None\<rparr>]\<rparr>)
                      (tr_devices t),
                    tr_live := AList.update (cn_id c) (key, length (td_spans device)) (tr_live t)\<rparr>)"

definition end_span :: "int \<Rightarrow> span_ref \<Rightarrow> (jstr \<times> tracked_device) list \<Rightarrow> (jstr \<times> tracked_device) list" where
  "end_span at ref devices =
     (case map_of devices (fst ref) of
        None \<Rightarrow> devices
      | Some d \<Rightarrow> AList.update (fst ref)
          (d\<lparr>td_spans := (td_spans d)[snd ref := (td_spans d ! snd ref)\<lparr>ls_leftAt := Some at\<rparr>]\<rparr>) devices)"

definition leave_absent :: "int \<Rightarrow> jstr list \<Rightarrow> tracked \<Rightarrow> tracked" where
  "leave_absent at present t =
     t\<lparr>tr_devices := fold (\<lambda>(i, ref). if i \<in> set present then id else end_span at ref) (tr_live t) (tr_devices t),
       tr_live := filter (\<lambda>(i, ref). i \<in> set present) (tr_live t)\<rparr>"

definition present_ids :: "sync_connection list \<Rightarrow> jstr list" where
  "present_ids connections = map cn_id (filter (\<lambda>c. proven_key c \<noteq> None) connections)"

definition track :: "int \<Rightarrow> sync_connection list \<Rightarrow> tracked \<Rightarrow> tracked" where
  "track at connections t = leave_absent at (present_ids connections) (fold join_connection connections t)"

definition connectionsChanged :: "sync_connection list \<Rightarrow> session_host \<Rightarrow> session_host" where
  "connectionsChanged connections s = s\<lparr>sh_open := map_option (track (sh_now s) connections) (sh_open s)\<rparr>"

section \<open>The registry\<close>

definition connection_list :: "session_host \<Rightarrow> sync_connection list" where
  "connection_list s = map (\<lambda>(socket, c, alive). c) (sh_entries s)"

definition emit :: "session_host \<Rightarrow> session_host" where
  "emit s = connectionsChanged (connection_list s) s"

definition add_connection :: "nat \<Rightarrow> connection_details \<Rightarrow> sync_connection session_eff" where
  "add_connection socket details = (\<lambda>s.
     let c = \<lparr>cn_id = js ''sync-connection-'' @ digits_text (decimal (sh_nextId s)), cn_label = cd_label details,
           cn_address = cd_address details, cn_connectedAt = sh_now s, cn_self = cd_self details,
           cn_deviceKey = cd_deviceKey details\<rparr>
     in (Inr c, emit (s\<lparr>sh_nextId := sh_nextId s + 1, sh_entries := AList.update socket (c, True) (sh_entries s)\<rparr>)))"

definition remove_connection :: "nat \<Rightarrow> session_host \<Rightarrow> session_host" where
  "remove_connection socket s =
     (if map_of (sh_entries s) socket = None then s
      else emit (s\<lparr>sh_entries := AList.delete socket (sh_entries s)\<rparr>))"

definition mark_alive :: "bool \<Rightarrow> nat \<Rightarrow> session_host \<Rightarrow> session_host" where
  "mark_alive alive socket s =
     (case map_of (sh_entries s) socket of
        None \<Rightarrow> s | Some (c, _) \<Rightarrow> s\<lparr>sh_entries := AList.update socket (c, alive) (sh_entries s)\<rparr>)"

definition pong :: "nat \<Rightarrow> session_host \<Rightarrow> session_host" where
  "pong = mark_alive True"

definition heartbeat :: "session_host \<Rightarrow> session_host" where
  "heartbeat s = fold (\<lambda>(socket, c, alive). if alive then mark_alive False socket else remove_connection socket)
     (sh_entries s) s"

definition close_registry :: "session_host \<Rightarrow> session_host" where
  "close_registry s = connectionsChanged [] (s\<lparr>sh_entries := []\<rparr>)"

section \<open>Recording a session\<close>

definition open_session_on :: "jstr \<Rightarrow> jstr \<Rightarrow> open_session session_eff" where
  "open_session_on sessionId docUrl = (\<lambda>s.
     case sh_open s of
       Some t \<Rightarrow> (Inl (Already_open (os_sessionId (tr_session t))), s)
     | None \<Rightarrow>
         if map_of (sh_closing s) sessionId \<noteq> None then (Inl (Still_closing sessionId), s)
         else let session = \<lparr>os_sessionId = sessionId, os_openedAt = sh_now s\<rparr>;
                  t = \<lparr>tr_session = session, tr_docUrl = docUrl, tr_devices = [], tr_live = [], tr_claims = []\<rparr>
              in (Inr session, s\<lparr>sh_open := Some (track (sh_now s) (connection_list s) t)\<rparr>))"

definition current_session :: "session_host \<Rightarrow> open_session option" where
  "current_session s = map_option tr_session (sh_open s)"

definition add_claim :: "jstr \<Rightarrow> tracked \<Rightarrow> tracked" where
  "add_claim address t = t\<lparr>tr_claims := (if address \<in> set (tr_claims t) then tr_claims t else tr_claims t @ [address])\<rparr>"

definition claimVerified :: "recording_claim \<Rightarrow> jstr \<Rightarrow> session_host \<Rightarrow> session_host" where
  "claimVerified claim address s =
     (if \<exists>t. sh_open s = Some t \<and> os_sessionId (tr_session t) = rc_sessionId claim
      then s\<lparr>sh_open := map_option (add_claim address) (sh_open s)\<rparr>
      else case map_of (sh_closing s) (rc_sessionId claim) of
          None \<Rightarrow> s
        | Some t \<Rightarrow> s\<lparr>sh_closing := AList.update (rc_sessionId claim) (add_claim address t) (sh_closing s)\<rparr>)"

text \<open>The part of \<open>close\<close> before its first wait.\<close>

definition begin_close :: "(tracked \<times> int) option session_eff" where
  "begin_close = (\<lambda>s.
     case sh_open s of
       None \<Rightarrow> (Inr None, s)
     | Some t \<Rightarrow>
         let closed = leave_absent (sh_now s) [] t
         in (Inr (Some (closed, sh_now s)), s\<lparr>sh_open := None,
               sh_closing := AList.update (os_sessionId (tr_session t)) closed (sh_closing s)\<rparr>))"

text \<open>The claims of a closed session as they are now; the rest of it no longer changes.\<close>

definition claims_now :: "tracked \<Rightarrow> session_host \<Rightarrow> jstr list" where
  "claims_now t s = (case map_of (sh_closing s) (os_sessionId (tr_session t)) of
     None \<Rightarrow> tr_claims t | Some u \<Rightarrow> tr_claims u)"

definition session_devices :: "int \<Rightarrow> tracked \<Rightarrow> session_device list" where
  "session_devices closedAt t = map (\<lambda>(key, d). \<lparr>sd_deviceKey = key, sd_label = td_label d,
     sd_spans = map (\<lambda>span. \<lparr>sp_joinedAt = toISOString (ls_joinedAt span),
       sp_leftAt = toISOString (case ls_leftAt span of None \<Rightarrow> closedAt | Some at \<Rightarrow> at)\<rparr>) (td_spans d)\<rparr>) (tr_devices t)"

text \<open>What the recorder is given: the platform, the signing key or none, and the name of a scratch file.\<close>

record session_env =
  se_platform :: platform
  se_key :: "u8 list option"
  se_scratch :: jstr

abbreviation se_digest :: "session_env \<Rightarrow> u8 list \<Rightarrow> jstr" where
  "se_digest env \<equiv> sha256Hex (sha256 (se_platform env))"

definition store_record :: "session_env \<Rightarrow> jstr \<Rightarrow> u8 list \<Rightarrow> jstr session_call" where
  "store_record env docUrl bytes =
     chain (within sh_disk (\<lambda>d s. s\<lparr>sh_disk := d\<rparr>) Store Not_stored
       (ingestStream (se_digest env) (se_scratch env) \<lparr>src_chunks = [bytes], src_fails = False\<rparr>
          STATEMENT_MIME_TYPE (Some (js ''.json'')) docUrl None))
       (\<lambda>(m, deduped). give (bm_hash m))"

definition snapshot :: "tracked \<Rightarrow> jstr list session_eff" where
  "snapshot t = (\<lambda>s. if sh_store_up s then (Inr (claims_now t s), s) else (Inl Store_unavailable, s))"

definition sign_claims :: "session_env \<Rightarrow> tracked \<Rightarrow> int \<Rightarrow> jstr list \<Rightarrow> jstr session_call" where
  "sign_claims env t closedAt claims =
     chain (perform Key (lift_sum (case se_key env of None \<Rightarrow> Inl Key_unavailable | Some k \<Rightarrow> Inr k))) (\<lambda>key.
       case createSessionRecord (se_platform env) (os_sessionId (tr_session t)) (os_openedAt (tr_session t)) closedAt
              (session_devices closedAt t) claims key of
         Inl e \<Rightarrow> perform Key (fail (Not_serializable e))
       | Inr st \<Rightarrow>
           (case statementBytes st of
              Inl e \<Rightarrow> perform Key (fail (Not_serializable e))
            | Inr bytes \<Rightarrow> store_record env (tr_docUrl t) bytes))"

definition sign_session :: "session_env \<Rightarrow> tracked \<Rightarrow> int \<Rightarrow> jstr session_call" where
  "sign_session env t closedAt = chain (perform Snapshot (snapshot t)) (sign_claims env t closedAt)"

definition deliver_record :: "tracked \<Rightarrow> jstr \<Rightarrow> unit session_eff" where
  "deliver_record t hash = writes (\<lambda>s. s\<lparr>sh_signed := sh_signed s @ [(tr_docUrl t, hash, claims_now t s)]\<rparr>)"

definition settle_session :: "tracked \<Rightarrow> unit session_eff" where
  "settle_session t = writes (\<lambda>s. s\<lparr>sh_closing := AList.delete (os_sessionId (tr_session t)) (sh_closing s)\<rparr>)"

text \<open>Whether the listing of the record succeeds makes no difference here. Without a grace period the
  snapshot belongs to the stretch of the close.\<close>

definition close_session :: "session_env \<Rightarrow> int \<Rightarrow> jstr option session_call" where
  "close_session env graceMs =
     chain (perform Close begin_close) (\<lambda>closed.
       case closed of
         None \<Rightarrow> give None
       | Some (t, closedAt) \<Rightarrow>
           chain (if 0 < graceMs then perform Grace (ret ()) else give ()) (\<lambda>_.
           chain (attempt (sign_session env t closedAt)) (\<lambda>signed.
             case signed of
               Inl e \<Rightarrow> chain (perform Settle (settle_session t)) (\<lambda>_. give None)
             | Inr hash \<Rightarrow>
                 chain (perform Deliver (deliver_record t hash)) (\<lambda>_.
                 chain (perform Settle (settle_session t)) (\<lambda>_. give (Some hash))))))"

text \<open>\<open>flush\<close> closes the open session without a grace period; that it also ends every other grace period
  means that their threads go on, and it waits until all of them have settled.\<close>

definition flush_sessions :: "session_env \<Rightarrow> jstr option session_call" where
  "flush_sessions env = close_session env 0"

end
