(* ===== verification/Host_Session.thy ===== *)
theory Host_Session
  imports Session_Recorder Aggregates
begin

text \<open>
  The host's session as the renderer starts and stops it (\<^verbatim>\<open>hostSession.ts\<close>): it drives the recorder and
  publishes the open session in a root document; and the listing of a signed record on the recordings
  it covers (\<^verbatim>\<open>sessionDelivery.ts\<close>). Finding a document may fail, which comes with the call; of a root
  document only the \<open>session\<close> field is kept here, which nobody else writes. The \<open>n\<close>-th session id is
  \<open>uuid n\<close>. What the recorder does after the first stretch of a close is other calls' work here.
\<close>

section \<open>The published session\<close>

record published_session =
  ps_sessionId :: jstr
  ps_startedAt :: jstr

record closed_session =
  cs_sessionId :: jstr
  cs_signsAt :: jstr

record session_settled =
  ss_sessionId :: jstr
  ss_signedAt :: "jstr option"

record stage =
  sg_host :: session_host
  sg_published :: "(jstr \<times> jstr) option"
  sg_fields :: "(jstr \<times> published_session) list"
  sg_repo_up :: bool
  sg_fresh :: nat
  sg_listeners :: "nat list"
  sg_heard :: "(nat \<times> session_settled) list"

datatype stage_error = Session_open jstr | No_repo | Document_not_found | Recorder_refuses session_error | Not_iterable

datatype stage_stretch = Ask | Publish | Clear | Tell

type_synonym 'a stage_eff = "(stage, stage_error, 'a) eff"
type_synonym 'a stage_call = "(stage_stretch, stage, stage_error, 'a) call"

definition published_of :: "open_session \<Rightarrow> published_session" where
  "published_of o' = \<lparr>ps_sessionId = os_sessionId o', ps_startedAt = toISOString (os_openedAt o')\<rparr>"

abbreviation sg_current :: "stage \<Rightarrow> open_session option" where
  "sg_current s \<equiv> current_session (sg_host s)"

text \<open>\<open>findRoot\<close> up to its wait, and the answer of \<open>find\<close>.\<close>

definition ask_repo :: "unit stage_eff" where
  "ask_repo = (\<lambda>s. if sg_repo_up s then (Inr (), s) else (Inl No_repo, s))"

definition publish_session :: "(nat \<Rightarrow> jstr) \<Rightarrow> bool \<Rightarrow> jstr \<Rightarrow> published_session stage_eff" where
  "publish_session uuid found docUrl = (\<lambda>s.
     if \<not> found then (Inl Document_not_found, s)
     else case open_session_on (uuid (sg_fresh s)) docUrl (sg_host s) of
         (Inl e, h) \<Rightarrow> (Inl (Recorder_refuses e), s\<lparr>sg_host := h, sg_fresh := sg_fresh s + 1\<rparr>)
       | (Inr o', h) \<Rightarrow> (Inr (published_of o'), s\<lparr>sg_host := h, sg_fresh := sg_fresh s + 1,
            sg_published := Some (os_sessionId o', docUrl),
            sg_fields := AList.update docUrl (published_of o') (sg_fields s)\<rparr>))"

definition start_session :: "(nat \<Rightarrow> jstr) \<Rightarrow> bool \<Rightarrow> jstr \<Rightarrow> published_session stage_call" where
  "start_session uuid found docUrl =
     chain (perform Ask (\<lambda>s. case sg_current s of
         Some o' \<Rightarrow> (Inl (Session_open (os_sessionId o')), s) | None \<Rightarrow> ask_repo s)) (\<lambda>_.
     perform Publish (publish_session uuid found docUrl))"

text \<open>\<open>stop\<close> up to its first wait: the recorder's close begins in it.\<close>

definition stop_begins :: "int \<Rightarrow> (closed_session \<times> (jstr \<times> jstr) option) option stage_eff" where
  "stop_begins graceMs = (\<lambda>s.
     case sg_current s of
       None \<Rightarrow> (Inr None, s)
     | Some o' \<Rightarrow>
         let target = (case sg_published s of
               Some (sid, url) \<Rightarrow> if sid = os_sessionId o' then Some (sid, url) else None | None \<Rightarrow> None)
         in (Inr (Some (\<lparr>cs_sessionId = os_sessionId o', cs_signsAt = toISOString (sh_now (sg_host s) + graceMs)\<rparr>, target)),
             s\<lparr>sg_published := None, sg_host := snd (begin_close (sg_host s))\<rparr>))"

definition clear_field :: "(published_session \<Rightarrow> bool) \<Rightarrow> jstr \<Rightarrow> stage \<Rightarrow> stage" where
  "clear_field stale url s =
     (case map_of (sg_fields s) url of
        None \<Rightarrow> s
      | Some p \<Rightarrow> if stale p then s\<lparr>sg_fields := AList.delete url (sg_fields s)\<rparr> else s)"

definition clear_stopped :: "bool \<Rightarrow> jstr \<Rightarrow> jstr \<Rightarrow> unit stage_eff" where
  "clear_stopped found sid url = (\<lambda>s.
     if found then (Inr (), clear_field (\<lambda>p. ps_sessionId p = sid) url s) else (Inl Document_not_found, s))"

definition stop_session :: "int \<Rightarrow> bool \<Rightarrow> closed_session option stage_call" where
  "stop_session graceMs found =
     chain (perform Ask (stop_begins graceMs)) (\<lambda>r.
       case r of
         None \<Rightarrow> give None
       | Some (closed, None) \<Rightarrow> give (Some closed)
       | Some (closed, Some (sid, url)) \<Rightarrow>
           chain (attempt (chain (perform Ask ask_repo) (\<lambda>_. perform Clear (clear_stopped found sid url))))
             (\<lambda>_. give (Some closed)))"

definition current_published :: "stage \<Rightarrow> published_session option" where
  "current_published s = map_option published_of (sg_current s)"

definition clearStale :: "bool \<Rightarrow> jstr \<Rightarrow> unit stage_call" where
  "clearStale found docUrl =
     chain (perform Ask ask_repo) (\<lambda>_. perform Clear (\<lambda>s.
       if found
       then (Inr (), clear_field (\<lambda>p. Some (ps_sessionId p) \<noteq> map_option os_sessionId (sg_current s)) docUrl s)
       else (Inl Document_not_found, s)))"

definition add_listener :: "nat \<Rightarrow> stage \<Rightarrow> stage" where
  "add_listener l s = s\<lparr>sg_listeners := (if l \<in> set (sg_listeners s) then sg_listeners s else sg_listeners s @ [l])\<rparr>"

definition remove_listener :: "nat \<Rightarrow> stage \<Rightarrow> stage" where
  "remove_listener l s = s\<lparr>sg_listeners := filter (\<lambda>k. k \<noteq> l) (sg_listeners s)\<rparr>"

text \<open>What follows the promise of a close: its record's hash, or none.\<close>

definition tell_settled :: "jstr \<Rightarrow> jstr option \<Rightarrow> stage \<Rightarrow> stage" where
  "tell_settled sid recordHash s =
     (let event = \<lparr>ss_sessionId = sid, ss_signedAt = (case recordHash of
            Some (u # us) \<Rightarrow> Some (toISOString (sh_now (sg_host s))) | _ \<Rightarrow> None)\<rparr>
      in s\<lparr>sg_heard := sg_heard s @ map (\<lambda>l. (l, event)) (sg_listeners s)\<rparr>)"

section \<open>Listing a record\<close>

text \<open>The documents by URL; \<open>lost\<close> are the ones that are not found in time.\<close>

type_synonym documents = "(jstr \<times> jsval) list"

definition covers :: "jstr list \<Rightarrow> jsval \<Rightarrow> bool" where
  "covers claims doc = (case as_array (field doc ''statements'') of
     None \<Rightarrow> False | Some hs \<Rightarrow> list_ex (\<lambda>h. list_ex (\<lambda>c. h = JString c) claims) hs)"

definition lists_hash :: "jstr \<Rightarrow> jsval \<Rightarrow> bool" where
  "lists_hash h doc = (case as_array (field doc ''statements'') of None \<Rightarrow> False | Some hs \<Rightarrow> JString h \<in> set hs)"

fun push_statement :: "jstr \<Rightarrow> jsval \<Rightarrow> jsval" where
  "push_statement h (JObject ps) =
     (case as_array (field (JObject ps) ''statements'') of
        None \<Rightarrow> JObject ps
      | Some hs \<Rightarrow> JObject (AList.update (js ''statements'') (JArray (hs @ [JString h])) ps))"
| "push_statement h v = v"

definition list_on :: "(jstr \<Rightarrow> bool) \<Rightarrow> jstr \<Rightarrow> jstr list \<Rightarrow> jstr \<Rightarrow> jstr list \<times> documents \<Rightarrow> jstr list \<times> documents" where
  "list_on lost recordHash claims url = (\<lambda>(listed, docs).
     if lost url then (listed, docs)
     else case map_of docs url of
         None \<Rightarrow> (listed, docs)
       | Some doc \<Rightarrow>
           if \<not> covers claims doc then (listed, docs)
           else (listed @ [url],
                 if lists_hash recordHash doc then docs
                 else AList.update url (push_statement recordHash doc) docs))"

definition listSessionRecord ::
  "(jstr \<Rightarrow> bool) \<Rightarrow> jstr \<Rightarrow> jstr \<Rightarrow> jstr list \<Rightarrow> documents \<Rightarrow> stage_error + jstr list \<times> documents" where
  "listSessionRecord lost docUrl recordHash claims docs =
     (if claims = [] then Inr ([], docs)
      else if lost docUrl then Inl Document_not_found
      else case iterate (field (case map_of docs docUrl of None \<Rightarrow> JUndefined | Some d \<Rightarrow> d) ''recordings'') of
          None \<Rightarrow> Inl Not_iterable
        | Some recordings \<Rightarrow>
            Inr (fold (list_on lost recordHash claims) (List.map_filter as_string recordings) ([], docs)))"

lemma push_lists: "covers claims doc \<Longrightarrow> lists_hash h (push_statement h doc) \<and> covers claims (push_statement h doc)"
  by (cases "(h, doc)" rule: push_statement.cases)
    (auto simp: covers_def lists_hash_def map_of_AList_update split: option.splits)

lemma list_on_known:
  "list_on lost h claims url (l, docs) = (l', docs') \<Longrightarrow>
     map_of docs' u = (if u = url \<and> \<not> lost u \<and> (\<exists>d. map_of docs u = Some d \<and> covers claims d \<and> \<not> lists_hash h d)
       then map_option (push_statement h) (map_of docs u) else map_of docs u)
     \<and> l' = l @ (if \<not> lost url \<and> (\<exists>d. map_of docs url = Some d \<and> covers claims d) then [url] else [])"
  by (auto simp: list_on_def map_of_AList_update split: if_splits option.splits)

lemma fold_list_on:
  "fold (list_on lost h claims) urls (l, docs) = (l', docs') \<Longrightarrow>
     map_of docs' u = (if u \<in> set urls \<and> \<not> lost u \<and> (\<exists>d. map_of docs u = Some d \<and> covers claims d \<and> \<not> lists_hash h d)
       then map_option (push_statement h) (map_of docs u) else map_of docs u)
     \<and> l' = l @ filter (\<lambda>url. \<not> lost url \<and> (\<exists>d. map_of docs url = Some d \<and> covers claims d)) urls"
proof (induction urls arbitrary: l docs)
  case (Cons url urls)
  obtain l1 docs1 where one: "list_on lost h claims url (l, docs) = (l1, docs1)" by force
  note step = list_on_known [OF one]
  from Cons.prems one have "fold (list_on lost h claims) urls (l1, docs1) = (l', docs')" by simp
  note rest = Cons.IH [OF this]
  have same: "(\<exists>d. map_of docs1 v = Some d \<and> covers claims d) \<longleftrightarrow> (\<exists>d. map_of docs v = Some d \<and> covers claims d)" for v
    using step [of v] push_lists [of claims _ h] by (auto split: if_splits)
  have "map_of docs' u = (if u \<in> set (url # urls) \<and> \<not> lost u \<and> (\<exists>d. map_of docs u = Some d \<and> covers claims d \<and> \<not> lists_hash h d)
       then map_option (push_statement h) (map_of docs u) else map_of docs u)"
    using rest step [of u] push_lists [of claims _ h] by (auto split: if_splits)
  moreover have "l' = l @ filter (\<lambda>url. \<not> lost url \<and> (\<exists>d. map_of docs url = Some d \<and> covers claims d)) (url # urls)"
    using rest step [of url] unfolding same by simp
  ultimately show ?case by blast
qed simp

text \<open>
  Listing a record touches exactly the recordings of the root document that are found and list one
  of its claims: each of them lists the record afterwards, once, every other document stays as it was,
  and listing it again changes nothing.
\<close>

lemma record_listed_where_covered:
  assumes "listSessionRecord lost docUrl h claims docs = Inr (urls, docs')" "claims \<noteq> []"
    "map_of docs docUrl = Some root" "iterate (field root ''recordings'') = Some recordings"
  shows "map_of docs' url =
      (if JString url \<in> set recordings \<and> \<not> lost url \<and> (\<exists>d. map_of docs url = Some d \<and> covers claims d \<and> \<not> lists_hash h d)
       then map_option (push_statement h) (map_of docs url) else map_of docs url)
    \<and> (url \<in> set urls \<longleftrightarrow> JString url \<in> set recordings \<and> \<not> lost url \<and> (\<exists>d. map_of docs url = Some d \<and> covers claims d))
    \<and> (url \<in> set urls \<longrightarrow> (\<exists>d. map_of docs' url = Some d \<and> lists_hash h d))"
proof -
  have run: "fold (list_on lost h claims) (List.map_filter as_string recordings) ([], docs) = (urls, docs')"
    using assms by (simp add: listSessionRecord_def split: if_splits)
  have listed: "u \<in> set (List.map_filter as_string recordings) \<longleftrightarrow> JString u \<in> set recordings" for u
    by (auto simp: set_map_filter as_string_eq_Some)
  note all = fold_list_on [OF run, of url, unfolded listed]
  from all have urls: "url \<in> set urls \<longleftrightarrow> JString url \<in> set recordings \<and> \<not> lost url
      \<and> (\<exists>d. map_of docs url = Some d \<and> covers claims d)" by (auto simp: listed)
  then have "url \<in> set urls \<Longrightarrow> \<exists>d. map_of docs' url = Some d \<and> lists_hash h d"
    using all push_lists [of claims _ h] by (auto split: if_splits)
  with all urls show ?thesis by blast
qed

definition ex_documents :: documents where
  "ex_documents = [(js ''root'', JObject [(js ''recordings'', JArray [JString (js ''a''), JNumber (Zero False), JString (js ''b'')])]),
     (js ''a'', JObject [(js ''statements'', JArray [JString (js ''claim'')])]),
     (js ''b'', JObject [(js ''statements'', JArray [JString (js ''other'')])])]"

lemma record_listed_where_covered_witness:
  "\<exists>docs'. listSessionRecord (\<lambda>_. False) (js ''root'') (js ''record'') [js ''claim''] ex_documents = Inr ([js ''a''], docs')
     \<and> (\<exists>d. map_of docs' (js ''a'') = Some d \<and> lists_hash (js ''record'') d)
     \<and> map_of docs' (js ''b'') = map_of ex_documents (js ''b'')"
proof -
  obtain docs' where run: "listSessionRecord (\<lambda>_. False) (js ''root'') (js ''record'') [js ''claim''] ex_documents = Inr ([js ''a''], docs')"
    by (simp add: listSessionRecord_def ex_documents_def iterate_def js_def List.map_filter_def list_on_def covers_def)
  have root: "map_of ex_documents (js ''root'') = Some (snd (hd ex_documents))"
      "iterate (field (snd (hd ex_documents)) ''recordings'') = Some [JString (js ''a''), JNumber (Zero False), JString (js ''b'')]"
    by (simp_all add: ex_documents_def iterate_def)
  note exact = record_listed_where_covered [OF run _ root]
  have "\<not> covers [js ''claim''] d" if "map_of ex_documents (js ''b'') = Some d" for d
    using that by (auto simp: ex_documents_def js_def covers_def)
  with exact [of "js ''a''"] exact [of "js ''b''"] run show ?thesis by auto
qed

section \<open>The field names the open session\<close>

definition staged :: "(nat \<Rightarrow> jstr) \<Rightarrow> stage \<Rightarrow> bool" where
  "staged uuid s = (case sg_current s of
     None \<Rightarrow> sg_published s = None
   | Some o' \<Rightarrow> \<exists>url n. sg_published s = Some (os_sessionId o', url) \<and> map_of (sg_fields s) url = Some (published_of o')
       \<and> n < sg_fresh s \<and> os_sessionId o' = uuid n)"

text \<open>The ids of sessions that are over.\<close>

definition retired :: "(nat \<Rightarrow> jstr) \<Rightarrow> stage \<Rightarrow> jstr set" where
  "retired uuid s = {uuid n | n. n < sg_fresh s} - {sid. \<exists>o'. sg_current s = Some o' \<and> sid = os_sessionId o'}"

abbreviation keeps_stage :: "(nat \<Rightarrow> jstr) \<Rightarrow> (stage_stretch, stage, 'r) thread \<Rightarrow> jstr set \<Rightarrow> bool" where
  "keeps_stage uuid \<equiv> knows (staged uuid) (retired uuid)"

lemma track_session [simp]: "tr_session (track at cs t) = tr_session t"
proof -
  have "tr_session (fold join_connection cs t) = tr_session t" for t
    by (induction cs arbitrary: t) (simp_all add: join_connection_def Let_def split: option.split)
  then show ?thesis by (simp add: track_def leave_absent_def)
qed

lemma open_session_current:
  "open_session_on sid url h = (Inr o', h') \<Longrightarrow> current_session h = None \<and> current_session h' = Some o' \<and> os_sessionId o' = sid"
  "open_session_on sid url h = (Inl e, h') \<Longrightarrow> h' = h"
  by (auto simp: open_session_on_def current_session_def Let_def split: option.splits if_splits)

lemma begin_close_current: "current_session (snd (begin_close h)) = None"
  by (auto simp: begin_close_def current_session_def Let_def split: option.split)

lemma publish_keeps:
  assumes "inj uuid"
  shows "keeps_stage uuid (perform Publish (publish_session uuid found url)) X"
proof (rule knows_perform)
  fix s r s' assume s: "staged uuid s" "publish_session uuid found url s = (r, s')"
  show "staged uuid s' \<and> retired uuid s \<subseteq> retired uuid s'"
  proof (cases "found \<and> (\<exists>o' h. open_session_on (uuid (sg_fresh s)) url (sg_host s) = (Inr o', h))")
    case True
    then obtain o' h where o: "open_session_on (uuid (sg_fresh s)) url (sg_host s) = (Inr o', h)" by blast
    note cur = open_session_current(1) [OF o]
    have "s' = s\<lparr>sg_host := h, sg_fresh := sg_fresh s + 1, sg_published := Some (os_sessionId o', url),
        sg_fields := AList.update url (published_of o') (sg_fields s)\<rparr>"
      using s(2) o True by (simp add: publish_session_def)
    with cur assms show ?thesis
      by (auto simp: staged_def retired_def map_of_AList_update less_Suc_eq dest: injD)
  next
    case False
    then have "s' = s \<or> s' = s\<lparr>sg_fresh := sg_fresh s + 1\<rparr>"
      using s(2) open_session_current(2) [of "uuid (sg_fresh s)" url "sg_host s"]
      by (auto simp: publish_session_def split: prod.splits sum.splits if_splits)
    with s(1) show ?thesis by (auto simp: staged_def retired_def less_Suc_eq split: option.splits)
  qed
qed

lemma clear_keeps:
  assumes "staged uuid s" "\<And>p. stale p \<Longrightarrow> sg_current s \<noteq> None \<Longrightarrow> p \<noteq> published_of (the (sg_current s))"
  shows "staged uuid (clear_field stale url s)" "retired uuid (clear_field stale url s) = retired uuid s"
proof -
  have same: "sg_current (clear_field stale url s) = sg_current s" "sg_published (clear_field stale url s) = sg_published s"
      "sg_fresh (clear_field stale url s) = sg_fresh s"
    by (simp_all add: clear_field_def split: option.split)
  show "retired uuid (clear_field stale url s) = retired uuid s" by (simp add: retired_def same)
  have "map_of (sg_fields (clear_field stale url s)) u = Some (published_of o')"
    if "sg_current s = Some o'" "map_of (sg_fields s) u = Some (published_of o')" for u o'
    using that assms(2) [of "published_of o'"] by (auto simp: clear_field_def map_of_AList_delete split: option.split)
  with assms(1) show "staged uuid (clear_field stale url s)"
    unfolding staged_def same by (fastforce split: option.splits)
qed

lemma ask_keeps: "keeps_stage uuid (perform Ask ask_repo) X"
  by (rule knows_perform) (auto simp: ask_repo_def split: if_splits)

lemma start_keeps: "inj uuid \<Longrightarrow> keeps_stage uuid (start_session uuid found url) X"
  unfolding start_session_def
  by (rule knows_chain, rule knows_perform)
    (auto simp: ask_repo_def publish_keeps split: option.splits if_splits)

lemma stop_keeps: "keeps_stage uuid (stop_session graceMs found) X"
  unfolding stop_session_def
proof (rule knows_perform_chain, goal_cases)
  case (1 s r s')
  then show ?case
    by (auto simp: stop_begins_def staged_def retired_def Let_def begin_close_current split: option.splits)
next
  case (2 s x s')
  show ?case
  proof (cases "\<exists>closed sid url. x = Some (closed, Some (sid, url))")
    case True
    then obtain closed sid url where x: "x = Some (closed, Some (sid, url))" by blast
    with 2(3) obtain o' where o: "sg_current s = Some o'" "sid = os_sessionId o'"
        "s' = s\<lparr>sg_published := None, sg_host := snd (begin_close (sg_host s))\<rparr>"
      by (auto simp: stop_begins_def Let_def split: option.splits if_splits)
    with 2(1) obtain n where "n < sg_fresh s" "sid = uuid n" by (auto simp: staged_def)
    with o(3) have sid: "sid \<in> retired uuid s'" by (auto simp: retired_def begin_close_current)
    have "keeps_stage uuid (perform Clear (clear_stopped found sid url)) Y" if "retired uuid s' \<subseteq> Y" for Y
    proof (rule knows_perform)
      fix u r u' assume u: "staged uuid u" "Y \<subseteq> retired uuid u" "clear_stopped found sid url u = (r, u')"
      then have "sid \<in> retired uuid u" using sid that by blast
      then have "ps_sessionId p = sid \<Longrightarrow> sg_current u \<noteq> None \<Longrightarrow> p \<noteq> published_of (the (sg_current u))" for p
        by (auto simp: retired_def published_of_def)
      note kept = clear_keeps [OF u(1) this]
      have "u' = u \<or> u' = clear_field (\<lambda>p. ps_sessionId p = sid) url u"
        using u(3) by (auto simp: clear_stopped_def split: if_splits)
      with kept u(1) show "staged uuid u' \<and> retired uuid u \<subseteq> retired uuid u'" by auto
    qed
    then show ?thesis unfolding x
      by (auto intro!: knows_chain knows_attempt ask_keeps)
  next
    case False
    then show ?thesis by (auto split: option.split prod.split)
  qed
qed

lemma stale_keeps: "keeps_stage uuid (clearStale found url) X"
  unfolding clearStale_def
proof (rule knows_chain [OF ask_keeps], rule knows_perform)
  fix u r u' assume u: "staged uuid u"
    "(if found then (Inr (), clear_field (\<lambda>p. Some (ps_sessionId p) \<noteq> map_option os_sessionId (sg_current u)) url u)
      else (Inl Document_not_found, u)) = (r :: stage_error + unit, u')"
  have "Some (ps_sessionId p) \<noteq> map_option os_sessionId (sg_current u) \<Longrightarrow> sg_current u \<noteq> None \<Longrightarrow> p \<noteq> published_of (the (sg_current u))" for p
    by (auto simp: published_of_def)
  note kept = clear_keeps [OF u(1) this]
  have "u' = u \<or> u' = clear_field (\<lambda>p. Some (ps_sessionId p) \<noteq> map_option os_sessionId (sg_current u)) url u"
    using u(2) by (auto split: if_splits)
  with kept u(1) show "staged uuid u' \<and> retired uuid u \<subseteq> retired uuid u'" by auto
qed

inductive_set stage_calls :: "(nat \<Rightarrow> jstr) \<Rightarrow> (stage_stretch, stage, unit) thread set" for uuid where
  starts: "forget (start_session uuid found url) \<in> stage_calls uuid"
| stops: "forget (stop_session graceMs found) \<in> stage_calls uuid"
| clears: "forget (clearStale found url) \<in> stage_calls uuid"

text \<open>Whatever else the host does: connections, claims and records; listeners; the repository coming and going.\<close>

definition elsewhere :: "stage \<Rightarrow> stage \<Rightarrow> bool" where
  "elsewhere s s' = (sg_current s' = sg_current s \<and> sg_published s' = sg_published s
     \<and> sg_fields s' = sg_fields s \<and> sg_fresh s' = sg_fresh s)"

text \<open>
  C32. However starts, stops and clearings of stale fields interleave, the document in which the open
  session was published names it, with its id and the time it opened.
\<close>

theorem open_session_published:
  assumes "interleaved (stage_calls uuid) elsewhere s0 tr ts s" "inj uuid" "sg_current s0 = None" "sg_published s0 = None"
    "sg_current s = Some o'"
  shows "\<exists>url. sg_published s = Some (os_sessionId o', url) \<and> map_of (sg_fields s) url = Some (published_of o')"
proof -
  have "keeps_stage uuid t {}" if "t \<in> stage_calls uuid" for t
    using that by cases (simp_all add: start_keeps [OF assms(2)] stop_keeps stale_keeps)
  moreover have "staged uuid s' \<and> retired uuid s \<subseteq> retired uuid s'" if "elsewhere s s'" "staged uuid s" for s s'
    using that by (auto simp: elsewhere_def staged_def retired_def split: option.splits)
  moreover have "staged uuid s0" using assms(3,4) by (simp add: staged_def)
  ultimately have "staged uuid s"
    using interleaved_knowledge [where I = "staged uuid" and K = "retired uuid", OF assms(1)] by blast
  with assms(5) show ?thesis by (auto simp: staged_def)
qed

definition ex_uuid :: "nat \<Rightarrow> jstr" where
  "ex_uuid n = replicate n 0x61"

definition ex_stage :: stage where
  "ex_stage = \<lparr>sg_host = \<lparr>sh_entries = [], sh_nextId = 1, sh_open = None, sh_closing = [], sh_disk = ex_disk, sh_store_up = True,
       sh_signed = []\<rparr>, sg_published = None, sg_fields = [], sg_repo_up = True, sg_fresh = 0, sg_listeners = [], sg_heard = []\<rparr>"

lemma open_session_published_witness:
  "\<exists>tr ts s o' url. interleaved (stage_calls ex_uuid) elsewhere ex_stage tr ts s \<and> sg_current s = Some o'
     \<and> map_of (sg_fields s) url = Some (published_of o')"
proof -
  let ?s = "snd (run (start_session ex_uuid True (js ''root'')) ex_stage)"
  have "sg_current ?s = Some \<lparr>os_sessionId = ex_uuid 0, os_openedAt = 0\<rparr>"
    by (simp add: start_session_def run_chain ask_repo_def publish_session_def open_session_on_def Let_def current_session_def
        ex_stage_def ex_disk_def connection_list_def)
  moreover obtain tr ts where i: "interleaved (stage_calls ex_uuid) elsewhere ex_stage tr ts ?s"
    using interleaved_run [OF interleaved.start stage_calls.starts [of ex_uuid True "js ''root''"], of elsewhere ex_stage] by auto
  moreover have "inj ex_uuid" by (rule injI) (metis ex_uuid_def length_replicate)
  moreover have "sg_current ex_stage = None" "sg_published ex_stage = None"
    by (simp_all add: ex_stage_def current_session_def)
  ultimately show ?thesis using open_session_published [OF i] by blast
qed

end
