(* ===== verification/Statement_Store.thy ===== *)
theory Statement_Store
  imports Session_Recorder Json_Copy
begin

text \<open>
  Signed statements in the blob store (\<^verbatim>\<open>statementUpload.ts\<close>): reading one back, and the check of an
  uploaded one, which besides its signature must bind to what the host already holds. Each look at the
  store is a stretch of its own.
\<close>

section \<open>Definitions\<close>

definition MAX_STATEMENT_BYTES :: nat where
  "MAX_STATEMENT_BYTES = 64 * 1024"

datatype upload_problem = Refused problem | Not_canonical | Unknown_type | Audio_missing | Claim_missing
  | Certificate_mismatch | Certificate_missing | Revocation_not_permitted

abbreviation look :: "(blob_disk \<Rightarrow> 'a) \<Rightarrow> 'a blob_call" where
  "look f \<equiv> perform Look (reads f)"

abbreviation address_of :: "platform \<Rightarrow> u8 list \<Rightarrow> jstr" where
  "address_of p \<equiv> sha256Hex (sha256 p)"

definition readStatementBody :: "nat \<Rightarrow> byte_source \<Rightarrow> blob_error + u8 list" where
  "readStatementBody maxBytes src =
     (case receive (Some maxBytes) 0 (src_chunks src) of
        Inl e \<Rightarrow> Inl e | Inr bytes \<Rightarrow> if src_fails src then Inl Source_failed else Inr bytes)"

definition readStoredStatement :: "platform \<Rightarrow> jstr \<Rightarrow> signed option blob_call" where
  "readStoredStatement p h =
     chain (look (\<lambda>s. has_blob s h)) (\<lambda>held.
       if \<not> held then give None
       else chain (look (\<lambda>s. readBlob s h)) (\<lambda>bytes. give (Option.bind bytes (parseSignedStatement p))))"

definition is_statement :: "blob_meta option \<Rightarrow> bool" where
  "is_statement m = (map_option bm_mimeType m = Some STATEMENT_MIME_TYPE)"

definition storedClaim :: "platform \<Rightarrow> jstr \<Rightarrow> signed option blob_call" where
  "storedClaim p address =
     chain (look (\<lambda>s. statBlob s address)) (\<lambda>m.
     chain (if is_statement m then readStoredStatement p address else give None) (\<lambda>claim.
       give (case claim of
         None \<Rightarrow> None
       | Some st \<Rightarrow> if statementType st = JString RECORDING_CLAIM_TYPE then Some st else None)))"

definition holdsClaim :: "platform \<Rightarrow> jstr \<Rightarrow> bool blob_call" where
  "holdsClaim p address = chain (storedClaim p address) (\<lambda>c. give (c \<noteq> None))"

definition storedLink :: "platform \<Rightarrow> jstr \<Rightarrow> device_link option blob_call" where
  "storedLink p address =
     chain (look (\<lambda>s. statBlob s address)) (\<lambda>m.
       if \<not> is_statement m then give None
       else chain (readStoredStatement p address) (\<lambda>stored.
         give (case stored of
           None \<Rightarrow> None
         | Some st \<Rightarrow> (case checkDeviceLink p st of Inl e \<Rightarrow> None | Inr (_, link) \<Rightarrow> Some link))))"

text \<open>The answer of a check: the problem, or none.\<close>

definition checkClaim :: "platform \<Rightarrow> signed \<Rightarrow> upload_problem option blob_call" where
  "checkClaim p st =
     chain (case as_string (field (field (payload st) ''blob'') ''hash'') of
         None \<Rightarrow> give None | Some h \<Rightarrow> look (\<lambda>s. statBlob s h)) (\<lambda>audio.
       give (case audio of
         None \<Rightarrow> Some Audio_missing
       | Some m \<Rightarrow> (case checkRecordingClaim p st (bm_hash m) (num_of_int (int (bm_size m))) of
             Inl e \<Rightarrow> Some (Refused e) | Inr _ \<Rightarrow> None)))"

definition checkReceipt :: "platform \<Rightarrow> signed \<Rightarrow> upload_problem option blob_call" where
  "checkReceipt p st =
     (case checkHostReceipt p st of
        Inl e \<Rightarrow> give (Some (Refused e))
      | Inr (_, receipt) \<Rightarrow> chain (holdsClaim p (hr_claim receipt)) (\<lambda>held.
          give (if held then None else Some Claim_missing)))"

fun holdsAnyClaim :: "platform \<Rightarrow> jstr list \<Rightarrow> bool blob_call" where
  "holdsAnyClaim p [] = give False"
| "holdsAnyClaim p (address # addresses) =
     chain (holdsClaim p address) (\<lambda>held. if held then give True else holdsAnyClaim p addresses)"

definition checkSession :: "platform \<Rightarrow> signed \<Rightarrow> upload_problem option blob_call" where
  "checkSession p st =
     (case checkSessionRecord p st of
        Inl e \<Rightarrow> give (Some (Refused e))
      | Inr (_, rec) \<Rightarrow> chain (holdsAnyClaim p (sr_claims rec)) (\<lambda>held.
          give (if held then None else Some Claim_missing)))"

text \<open>Whether a claim names a link as its own, for its device key.\<close>

definition claim_names :: "platform \<Rightarrow> signed \<Rightarrow> signed \<Rightarrow> device_link \<Rightarrow> bool" where
  "claim_names p claim st link =
     ((\<exists>address. statementAddress p st = Inr address \<and> field (payload claim) ''deviceCert'' = JString address)
      \<and> field (payload claim) ''deviceKey'' = JString (link_deviceKey link))"

definition checkDeviceLinkUpload :: "platform \<Rightarrow> signed \<Rightarrow> jstr option \<Rightarrow> upload_problem option blob_call" where
  "checkDeviceLinkUpload p st forClaim =
     (case checkDeviceLink p st of
        Inl e \<Rightarrow> give (Some (Refused e))
      | Inr (_, link) \<Rightarrow>
          chain (case forClaim of Some (u # us) \<Rightarrow> storedClaim p (u # us) | _ \<Rightarrow> give None) (\<lambda>claim.
            give (case claim of
              None \<Rightarrow> Some Claim_missing
            | Some c \<Rightarrow> if claim_names p c st link then None else Some Certificate_mismatch)))"

definition checkRevocationUpload :: "platform \<Rightarrow> signed \<Rightarrow> upload_problem option blob_call" where
  "checkRevocationUpload p st =
     (case checkDeviceRevocation p st of
        Inl e \<Rightarrow> give (Some (Refused e))
      | Inr (_, revocation) \<Rightarrow>
          chain (storedLink p (dr_deviceLink revocation)) (\<lambda>link.
            give (case link of
              None \<Rightarrow> Some Certificate_missing
            | Some l \<Rightarrow> if revocationCovers revocation l (dr_deviceLink revocation) then None
                else Some Revocation_not_permitted)))"

definition checkUploadedStatement :: "platform \<Rightarrow> u8 list \<Rightarrow> jstr option \<Rightarrow> upload_problem option blob_call" where
  "checkUploadedStatement p bytes forClaim =
     (case parseSignedStatement p bytes of
        None \<Rightarrow> give (Some (Refused Malformed))
      | Some st \<Rightarrow>
          (case statementBytes st of
             Inl e \<Rightarrow> give (Some (Refused Malformed))
           | Inr canonical \<Rightarrow>
               let type = statementType st
               in if canonical \<noteq> bytes then give (Some Not_canonical)
                  else if type = JString RECORDING_CLAIM_TYPE then checkClaim p st
                  else if type = JString HOST_RECEIPT_TYPE then checkReceipt p st
                  else if type = JString SESSION_RECORD_TYPE then checkSession p st
                  else if type = JString DEVICE_CERTIFICATE_TYPE \<or> type = JString DEVICE_VOUCH_TYPE
                  then checkDeviceLinkUpload p st forClaim
                  else if type = JString DEVICE_REVOCATION_TYPE then checkRevocationUpload p st
                  else give (Some Unknown_type)))"

section \<open>What the store holds\<close>

definition held_statement :: "platform \<Rightarrow> blob_disk \<Rightarrow> jstr \<Rightarrow> signed option" where
  "held_statement p s h =
     (if is_statement (statBlob s h) then Option.bind (readBlob s h) (parseSignedStatement p) else None)"

definition held_claim :: "platform \<Rightarrow> blob_disk \<Rightarrow> jstr \<Rightarrow> signed option" where
  "held_claim p s h = (case held_statement p s h of
     None \<Rightarrow> None | Some st \<Rightarrow> if statementType st = JString RECORDING_CLAIM_TYPE then Some st else None)"

definition held_link :: "platform \<Rightarrow> blob_disk \<Rightarrow> jstr \<Rightarrow> device_link option" where
  "held_link p s h = (case held_statement p s h of
     None \<Rightarrow> None | Some st \<Rightarrow> (case checkDeviceLink p st of Inl e \<Rightarrow> None | Inr (_, link) \<Rightarrow> Some link))"

lemma statement_is_held: "is_statement (statBlob s h) \<Longrightarrow> has_blob s h"
  by (auto simp: is_statement_def statBlob_def has_blob_def split: if_splits option.splits)

lemma run_readStored [simp]:
  "run (readStoredStatement p h) s = (Inr (if has_blob s h then Option.bind (readBlob s h) (parseSignedStatement p) else None), s)"
  by (simp add: readStoredStatement_def run_chain)

lemma run_storedClaim [simp]: "run (storedClaim p h) s = (Inr (held_claim p s h), s)"
  using statement_is_held [of s h] by (auto simp: storedClaim_def run_chain held_claim_def held_statement_def)

lemma run_holdsClaim [simp]: "run (holdsClaim p h) s = (Inr (held_claim p s h \<noteq> None), s)"
  by (simp add: holdsClaim_def run_chain)

lemma run_storedLink [simp]: "run (storedLink p h) s = (Inr (held_link p s h), s)"
  using statement_is_held [of s h] by (auto simp: storedLink_def run_chain held_link_def held_statement_def)

lemma run_holdsAny [simp]: "run (holdsAnyClaim p hs) s = (Inr (\<exists>h \<in> set hs. held_claim p s h \<noteq> None), s)"
  by (induction hs) (auto simp: run_chain)

text \<open>What each kind of statement must bind to.\<close>

inductive binds :: "platform \<Rightarrow> blob_disk \<Rightarrow> jstr option \<Rightarrow> signed \<Rightarrow> bool" for p s forClaim st where
  audio: "checkRecordingClaim p st (bm_hash m) (num_of_int (int (bm_size m))) = Inr (st, c) \<Longrightarrow>
    statBlob s (rc_hash c) = Some m \<Longrightarrow> binds p s forClaim st"
| claim: "checkHostReceipt p st = Inr (st, r) \<Longrightarrow> held_claim p s (hr_claim r) \<noteq> None \<Longrightarrow> binds p s forClaim st"
| session: "checkSessionRecord p st = Inr (st, rec) \<Longrightarrow> a \<in> set (sr_claims rec) \<Longrightarrow> held_claim p s a \<noteq> None \<Longrightarrow> binds p s forClaim st"
| link: "checkDeviceLink p st = Inr (st, l) \<Longrightarrow> forClaim = Some a \<Longrightarrow> a \<noteq> [] \<Longrightarrow> held_claim p s a = Some c \<Longrightarrow>
    claim_names p c st l \<Longrightarrow> binds p s forClaim st"
| withdraws: "checkDeviceRevocation p st = Inr (st, v) \<Longrightarrow> held_link p s (dr_deviceLink v) = Some l \<Longrightarrow>
    revocationCovers v l (dr_deviceLink v) \<Longrightarrow> binds p s forClaim st"

lemma claim_hash: "isRecordingClaim v = Some c \<Longrightarrow> as_string (field (field v ''blob'') ''hash'') = Some (rc_hash c)"
  by (auto simp: isRecordingClaim_def typed_Some bind_eq_Some_conv Let_def split: if_splits)

lemma claim_check_type: "checkRecordingClaim p st h n = Inr x \<Longrightarrow> statementType st = JString RECORDING_CLAIM_TYPE"
  using tag_claim by (cases x) (auto simp: checkRecordingClaim_ok_iff statementType_def)

lemma run_checkClaim:
  "run (checkClaim p st) s = (Inr None, s) \<longleftrightarrow> (\<exists>m c. statBlob s (rc_hash c) = Some m
     \<and> checkRecordingClaim p st (bm_hash m) (num_of_int (int (bm_size m))) = Inr (st, c))" (is "?run \<longleftrightarrow> ?ok")
proof
  assume ?run
  then obtain h m x where h: "as_string (field (field (payload st) ''blob'') ''hash'') = Some h" "statBlob s h = Some m"
      "checkRecordingClaim p st (bm_hash m) (num_of_int (int (bm_size m))) = Inr x"
    by (auto simp: checkClaim_def run_chain split: option.splits sum.splits)
  obtain c where "x = (st, c)" using h(3) by (cases x) (auto simp: checkRecordingClaim_ok_iff)
  with h show ?ok using claim_hash [of "payload st" c] by (auto simp: checkRecordingClaim_ok_iff)
next
  assume ?ok
  then obtain m c where c: "statBlob s (rc_hash c) = Some m"
      "checkRecordingClaim p st (bm_hash m) (num_of_int (int (bm_size m))) = Inr (st, c)" by blast
  then have "as_string (field (field (payload st) ''blob'') ''hash'') = Some (rc_hash c)"
    using claim_hash by (auto simp: checkRecordingClaim_ok_iff)
  with c show ?run by (simp add: checkClaim_def run_chain)
qed

lemma run_checkReceipt:
  "run (checkReceipt p st) s = (Inr None, s) \<longleftrightarrow> (\<exists>r. checkHostReceipt p st = Inr (st, r) \<and> held_claim p s (hr_claim r) \<noteq> None)"
  using receipt_kind.check_ok(1) [of p st] by (cases "checkHostReceipt p st") (auto simp: checkReceipt_def run_chain split: sum.splits if_splits)

lemma run_checkSession:
  "run (checkSession p st) s = (Inr None, s) \<longleftrightarrow>
     (\<exists>r. checkSessionRecord p st = Inr (st, r) \<and> (\<exists>a \<in> set (sr_claims r). held_claim p s a \<noteq> None))"
  using session_kind.check_ok(1) [of p st] by (cases "checkSessionRecord p st") (auto simp: checkSession_def run_chain split: sum.splits if_splits, blast+)

lemma run_checkDeviceLinkUpload:
  "run (checkDeviceLinkUpload p st forClaim) s = (Inr None, s) \<longleftrightarrow>
     (\<exists>l a c. checkDeviceLink p st = Inr (st, l) \<and> forClaim = Some a \<and> a \<noteq> [] \<and> held_claim p s a = Some c
       \<and> claim_names p c st l)"
  using checkDeviceLink_signed [of p st]
  by (auto simp: checkDeviceLinkUpload_def run_chain split: sum.splits option.splits list.splits if_splits)

lemma run_checkRevocationUpload:
  "run (checkRevocationUpload p st) s = (Inr None, s) \<longleftrightarrow>
     (\<exists>v l. checkDeviceRevocation p st = Inr (st, v) \<and> held_link p s (dr_deviceLink v) = Some l
       \<and> revocationCovers v l (dr_deviceLink v))"
  using revocation_kind.check_ok(1) [of p st] by (cases "checkDeviceRevocation p st") (auto simp: checkRevocationUpload_def run_chain split: sum.splits option.splits if_splits)

lemma link_check_type:
  "checkDeviceLink p st = Inr x \<Longrightarrow> statementType st = JString DEVICE_CERTIFICATE_TYPE \<or> statementType st = JString DEVICE_VOUCH_TYPE"
  by (auto simp: checkDeviceLink_def Let_def split: if_splits)

lemmas bound_checks = run_checkClaim run_checkReceipt run_checkSession run_checkDeviceLinkUpload run_checkRevocationUpload

text \<open>
  An uploaded statement is accepted exactly when its bytes are the canonical form of a statement
  that passes the check of its kind and binds to what the host holds: a claim to its audio, a receipt
  and a session record to a claim, a certificate or vouch to the claim that names it for its device, a
  revocation to a link its signer may withdraw. Checking changes nothing.
\<close>

lemma upload_accepted_iff_bound:
  "run (checkUploadedStatement p bytes forClaim) s = (Inr None, s) \<longleftrightarrow>
     (\<exists>st. parseSignedStatement p bytes = Some st \<and> statementBytes st = Inr bytes \<and> binds p s forClaim st)" (is "?run \<longleftrightarrow> ?bound")
proof
  assume r: ?run
  then obtain st where st: "parseSignedStatement p bytes = Some st" "statementBytes st = Inr bytes"
    by (auto simp: checkUploadedStatement_def Let_def split: option.splits sum.splits if_splits)
  with r consider "run (checkClaim p st) s = (Inr None, s)" | "run (checkReceipt p st) s = (Inr None, s)"
    | "run (checkSession p st) s = (Inr None, s)" | "run (checkDeviceLinkUpload p st forClaim) s = (Inr None, s)"
    | "run (checkRevocationUpload p st) s = (Inr None, s)"
    by (auto simp: checkUploadedStatement_def Let_def split: if_splits)
  then have "binds p s forClaim st"
    unfolding bound_checks by cases (blast intro: binds.intros)+
  with st show ?bound by blast
next
  assume ?bound
  then obtain st where st: "parseSignedStatement p bytes = Some st" "statementBytes st = Inr bytes" "binds p s forClaim st" by blast
  from st(3) show ?run
  proof cases
    case (audio m c)
    then have "run (checkClaim p st) s = (Inr None, s)" unfolding run_checkClaim by blast
    with claim_check_type [OF audio(1)] st show ?thesis by (simp add: checkUploadedStatement_def)
  next
    case (claim r)
    then have "run (checkReceipt p st) s = (Inr None, s)" unfolding run_checkReceipt by blast
    with receipt_kind.check_tag [OF claim(1)] st show ?thesis by (simp add: checkUploadedStatement_def statement_types)
  next
    case (session rec a)
    then have "run (checkSession p st) s = (Inr None, s)" unfolding run_checkSession by blast
    with session_kind.check_tag [OF session(1)] st show ?thesis by (simp add: checkUploadedStatement_def statement_types)
  next
    case (link l a c)
    then have "run (checkDeviceLinkUpload p st forClaim) s = (Inr None, s)" unfolding run_checkDeviceLinkUpload by blast
    with link_check_type [OF link(1)] st show ?thesis by (auto simp: checkUploadedStatement_def statement_types)
  next
    case (withdraws v l)
    then have "run (checkRevocationUpload p st) s = (Inr None, s)" unfolding run_checkRevocationUpload by blast
    with revocation_kind.check_tag [OF withdraws(1)] st show ?thesis by (simp add: checkUploadedStatement_def statement_types)
  qed
qed

end
