(* ===== verification/Claim_Ingest.thy ===== *)
theory Claim_Ingest
  imports Statement_Store
begin

text \<open>
  The claim that comes with an upload (\<^verbatim>\<open>claimIngest.ts\<close>): checked against the received bytes,
  countersigned with a receipt, and stored with it and the certificate it names. The queue per claim only
  orders calls that here may interleave. Fresh scratch names are \<open>ie_scratch\<close> of a counter.
\<close>

section \<open>Definitions\<close>

datatype host_key = No_key | Key_fails | Key "u8 list"

record ingest_env =
  ie_platform :: platform
  ie_key :: host_key
  ie_scratch :: "nat \<Rightarrow> jstr"

datatype claim_verification = Unsigned | Unverified problem | Verified "jstr option"

text \<open>\<open>ir_noted\<close> is the call of \<open>onVerifiedClaim\<close>.\<close>

record ingest_outcome =
  io_claim :: claim_verification
  io_statements :: "jstr list"
  io_noted :: "(recording_claim \<times> jstr) option"

abbreviation store_digest :: "ingest_env \<Rightarrow> u8 list \<Rightarrow> jstr" where
  "store_digest env \<equiv> address_of (ie_platform env)"

definition store_bytes :: "ingest_env \<Rightarrow> nat \<Rightarrow> u8 list \<Rightarrow> jstr \<Rightarrow> (blob_meta \<times> bool) blob_call" where
  "store_bytes env n bytes docUrl =
     ingestStream (store_digest env) (ie_scratch env n) \<lparr>src_chunks = [bytes], src_fails = False\<rparr>
       STATEMENT_MIME_TYPE (Some (js ''.json'')) docUrl None"

primrec storeStatements :: "ingest_env \<Rightarrow> nat \<Rightarrow> signed list \<Rightarrow> jstr \<Rightarrow> jstr list blob_call" where
  "storeStatements env n [] docUrl = give []"
| "storeStatements env n (st # sts) docUrl =
     chain (case statementBytes st of
         Inl e \<Rightarrow> give None
       | Inr bytes \<Rightarrow> chain (attempt (store_bytes env n bytes docUrl)) (\<lambda>r.
           give (case r of Inl e \<Rightarrow> None | Inr (m, deduped) \<Rightarrow> Some (bm_hash m)))) (\<lambda>h.
     chain (storeStatements env (n + 1) sts docUrl) (\<lambda>hs.
       give (case h of None \<Rightarrow> hs | Some h' \<Rightarrow> h' # hs)))"

definition certificateFor :: "platform \<Rightarrow> recording_claim \<Rightarrow> jstr option \<Rightarrow> signed list" where
  "certificateFor p claim encoded =
     (case (encoded, rc_deviceCert claim) of
        (Some text, Some deviceCert) \<Rightarrow>
          (case decodeSignedStatement p text of
             None \<Rightarrow> []
           | Some st \<Rightarrow>
               (case checkDeviceLink p st of
                  Inl e \<Rightarrow> []
                | Inr (s, link) \<Rightarrow>
                    if statementAddress p st = Inr deviceCert \<and> link_deviceKey link = rc_deviceKey claim then [st] else []))
      | _ \<Rightarrow> [])"

definition own_receipt :: "platform \<Rightarrow> u8 list \<Rightarrow> jstr \<Rightarrow> signed \<Rightarrow> bool" where
  "own_receipt p key claimHash st =
     (field (payload st) ''type'' = JString HOST_RECEIPT_TYPE \<and> field (payload st) ''claim'' = JString claimHash
      \<and> verifyStatement p st (CryptoKey (ed_public p key)))"

definition readOwnReceipt :: "platform \<Rightarrow> u8 list \<Rightarrow> jstr \<Rightarrow> signed option blob_call" where
  "readOwnReceipt p key claimHash =
     chain (look (\<lambda>s. findReceipt s claimHash)) (\<lambda>h.
     chain (case h of Some (u # us) \<Rightarrow> readStoredStatement p (u # us) | _ \<Rightarrow> give None) (\<lambda>stored.
       give (case stored of None \<Rightarrow> None | Some st \<Rightarrow> if own_receipt p key claimHash st then Some st else None)))"

definition receiptFor :: "ingest_env \<Rightarrow> signed \<Rightarrow> jstr \<Rightarrow> int \<Rightarrow> (signed \<times> bool) option blob_call" where
  "receiptFor env claim claimHash receivedAt =
     (case ie_key env of
        No_key \<Rightarrow> give None
      | Key_fails \<Rightarrow> give None
      | Key key \<Rightarrow>
          chain (readOwnReceipt (ie_platform env) key claimHash) (\<lambda>existing.
            give (case existing of
              Some st \<Rightarrow> Some (st, False)
            | None \<Rightarrow> (case createHostReceipt (ie_platform env) claim key receivedAt of
                 Inl e \<Rightarrow> None | Inr st \<Rightarrow> Some (st, True)))))"

definition indexReceipt :: "platform \<Rightarrow> jstr \<Rightarrow> signed \<Rightarrow> jstr list \<Rightarrow> unit blob_call" where
  "indexReceipt p claimHash receipt stored =
     (case statementAddress p receipt of
        Inl e \<Rightarrow> give ()
      | Inr h \<Rightarrow> if h \<notin> set stored then give ()
          else chain (attempt (perform Own (recordReceipt claimHash h))) (\<lambda>_. give ()))"

definition receiptAndStore ::
  "ingest_env \<Rightarrow> signed \<Rightarrow> recording_claim \<Rightarrow> jstr \<Rightarrow> int \<Rightarrow> jstr \<Rightarrow> jstr option \<Rightarrow> (claim_verification \<times> jstr list) blob_call" where
  "receiptAndStore env st claim claimHash receivedAt docUrl certificate =
     chain (receiptFor env st claimHash receivedAt) (\<lambda>receipt.
       let link = certificateFor (ie_platform env) claim certificate
       in case receipt of
            None \<Rightarrow> chain (storeStatements env 0 (st # link) docUrl) (\<lambda>hs. give (Verified None, hs))
          | Some (r, isNew) \<Rightarrow>
              chain (storeStatements env 0 (st # r # link) docUrl) (\<lambda>hs.
              chain (if isNew then indexReceipt (ie_platform env) claimHash r hs else give ()) (\<lambda>_.
                give (Verified (case encodeSignedStatement r of Inl e \<Rightarrow> None | Inr text \<Rightarrow> Some text), hs))))"

definition verifyClaimOnIngest ::
  "ingest_env \<Rightarrow> jstr option \<Rightarrow> jstr \<times> nat \<Rightarrow> jstr \<Rightarrow> jstr option \<Rightarrow> ingest_outcome blob_call" where
  "verifyClaimOnIngest env encodedClaim received docUrl certificate =
     chain (look bd_clock) (\<lambda>receivedAt.
       let p = ie_platform env;
           refused = (\<lambda>e. give \<lparr>io_claim = Unverified e, io_statements = [], io_noted = None\<rparr>)
       in case encodedClaim of
            None \<Rightarrow> give \<lparr>io_claim = Unsigned, io_statements = [], io_noted = None\<rparr>
          | Some text \<Rightarrow>
              (case decodeSignedStatement p text of
                 None \<Rightarrow> refused Malformed
               | Some st \<Rightarrow>
                   (case checkRecordingClaim p st (fst received) (num_of_int (int (snd received))) of
                      Inl e \<Rightarrow> refused e
                    | Inr (s, claim) \<Rightarrow>
                        (case statementAddress p st of
                           Inl e \<Rightarrow> Done (Inl Source_failed)
                         | Inr claimHash \<Rightarrow>
                             chain (receiptAndStore env st claim claimHash receivedAt docUrl certificate) (\<lambda>(verification, hs).
                               give \<lparr>io_claim = verification, io_statements = hs,
                                     io_noted = (if claimHash \<in> set hs then Some (claim, claimHash) else None)\<rparr>)))))"

section \<open>What is stored as a statement\<close>

inductive genuine :: "platform \<Rightarrow> host_key \<Rightarrow> signed \<Rightarrow> bool" for p host st where
  claim: "checkRecordingClaim p st h n = Inr (st, c) \<Longrightarrow> genuine p host st"
| receipt: "checkHostReceipt p st = Inr (st, r) \<Longrightarrow> genuine p host st"
| own: "host = Key key \<Longrightarrow> own_receipt p key claimHash st \<Longrightarrow> genuine p host st"
| session: "checkSessionRecord p st = Inr (st, rec) \<Longrightarrow> genuine p host st"
| link: "checkDeviceLink p st = Inr (st, l) \<Longrightarrow> genuine p host st"
| revocation: "checkDeviceRevocation p st = Inr (st, v) \<Longrightarrow> genuine p host st"

definition attested :: "ingest_env \<Rightarrow> jstr \<Rightarrow> bool" where
  "attested env h = (\<exists>st bytes. statementBytes st = Inr bytes \<and> h = store_digest env bytes
     \<and> genuine (ie_platform env) (ie_key env) st)"

definition statements_attested :: "ingest_env \<Rightarrow> blob_disk \<Rightarrow> bool" where
  "statements_attested env s = (\<forall>h m. map_of (bd_metas s) h = Some m \<longrightarrow> bm_mimeType m = STATEMENT_MIME_TYPE \<longrightarrow> attested env h)"

lemma binds_genuine: "binds p s forClaim st \<Longrightarrow> genuine p host st"
  by (erule binds.cases) (auto intro: genuine.intros)

lemma fewer_metas:
  assumes "statements_attested env s" "\<And>h m. map_of (bd_metas s') h = Some m \<Longrightarrow> map_of (bd_metas s) h = Some m"
  shows "statements_attested env s'"
  using assms unfolding statements_attested_def by blast

lemma metas_frame:
  "addRef h d s = (ra, s') \<Longrightarrow> bd_metas s' = bd_metas s"
  "recordReceipt h c s = (rr, s') \<Longrightarrow> bd_metas s' = bd_metas s"
  "sweepTmp age s = (rs, s') \<Longrightarrow> bd_metas s' = bd_metas s"
  "drop_scratch t s = (rd, s') \<Longrightarrow> bd_metas s' = bd_metas s"
  "receive_scratch t mx src s = (rc, s') \<Longrightarrow> bd_metas s' = bd_metas s"
  "place_scratch t h bs s = (rp, s') \<Longrightarrow> bd_metas s' = bd_metas s"
  "hashFile digest path s = (rh, s') \<Longrightarrow> bd_metas s' = bd_metas s"
  "link_file l path h s = (rl, s') \<Longrightarrow> bd_metas s' = bd_metas s"
  by (auto simp: blob_defs receive_scratch_def hashFile_def place_scratch_def link_file_def
      split: if_splits sum.splits option.splits link_outcome.splits)

lemma metas_deleted:
  "releaseRef h d s = (ra, s') \<Longrightarrow> bd_metas s' = bd_metas s \<or> bd_metas s' = AList.delete h (bd_metas s)"
  "remove_blob h s = (rb, s') \<Longrightarrow> bd_metas s' = bd_metas s \<or> bd_metas s' = AList.delete h (bd_metas s)"
  by (auto simp: blob_defs split: if_splits)

abbreviation keeps_attested :: "ingest_env \<Rightarrow> (blob_stretch, blob_disk, 'r) thread \<Rightarrow> bool" where
  "keeps_attested env \<equiv> safe (statements_attested env)"

lemma frame_safe:
  assumes "\<And>s r s'. m s = (r, s') \<Longrightarrow> bd_metas s' = bd_metas s \<or> bd_metas s' = AList.delete h (bd_metas s)"
  shows "keeps_attested env (perform l m)"
proof (rule safe_perform, unfold keeps_def, intro allI impI)
  fix s assume "statements_attested env s"
  then show "statements_attested env (snd (m s))"
    using assms [of s "fst (m s)" "snd (m s)"] by (elim fewer_metas) (auto simp: map_of_AList_delete split: if_splits)
qed

lemma stretches_attested [simp]:
  "keeps_attested env (perform l (addRef h d))" "keeps_attested env (perform l (recordReceipt h c))"
  "keeps_attested env (perform l (sweepTmp age))" "keeps_attested env (perform l (drop_scratch t))"
  "keeps_attested env (perform l (receive_scratch t mx src))" "keeps_attested env (perform l (place_scratch t h bs))"
  "keeps_attested env (perform l (hashFile digest path))" "keeps_attested env (perform l (link_file lo path h))"
  "keeps_attested env (perform l (releaseRef h d))" "keeps_attested env (perform l (remove_blob h))"
  "keeps_attested env (perform l (reads f))"
  by (rule frame_safe, erule metas_frame [THEN disjI1])+
    ((rule frame_safe, erule metas_deleted)+, rule frame_safe, simp)

lemma describe_attested:
  assumes "mt = STATEMENT_MIME_TYPE \<Longrightarrow> attested env h"
  shows "keeps_attested env (perform l (finalizeMeta h n mt e))" "keeps_attested env (describe_held h n mt e)"
proof -
  show final: "keeps_attested env (perform l (finalizeMeta h n mt e))" for l
    by (rule safe_perform) (use assms in \<open>auto simp: keeps_def finalizeMeta_def disk_write_def and_then_def Let_def
        statements_attested_def map_of_AList_update\<close>)
  show "keeps_attested env (describe_held h n mt e)"
    unfolding describe_held_def by (rule safe_chain) (auto simp: final split: option.split)
qed

lemma upload_attested:
  assumes "\<And>bytes. mt = STATEMENT_MIME_TYPE \<Longrightarrow> receive mx 0 (src_chunks src) = Inr bytes \<Longrightarrow> attested env (store_digest env bytes)"
  shows "keeps_attested env (ingestStream (store_digest env) scratch src mt e doc mx)"
  unfolding ingestStream_def Let_def
proof (rule yields_safe, rule yields_chain)
  show "yields (statements_attested env) (\<lambda>bytes. receive mx 0 (src_chunks src) = Inr bytes)
      (perform Receive (receive_scratch scratch mx src))"
  proof (rule yields_perform)
    fix s r s' assume s: "statements_attested env s" "receive_scratch scratch mx src s = (r, s')"
    then have "statements_attested env s'" using metas_frame(5) by (metis fewer_metas)
    with s(2) show "statements_attested env s' \<and> (\<forall>x. r = Inr x \<longrightarrow> receive mx 0 (src_chunks src) = Inr x)"
      by (auto simp: receive_scratch_def split: if_splits sum.splits)
  qed
next
  fix bytes assume "receive mx 0 (src_chunks src) = Inr bytes"
  note d = describe_attested [where env = env, OF assms [OF _ this]]
  have "keeps_attested env (chain (perform Look (reads (\<lambda>s. has_blob s (store_digest env bytes)))) (\<lambda>held.
       if held then chain (perform Place (drop_scratch scratch)) (\<lambda>_.
         chain (perform Own (addRef (store_digest env bytes) doc)) (\<lambda>_.
         chain (describe_held (store_digest env bytes) (length bytes) mt (resolveExt mt e)) (\<lambda>m. give (m, True))))
       else chain (perform Place (place_scratch scratch (store_digest env bytes) bytes)) (\<lambda>_.
         chain (perform Describe (finalizeMeta (store_digest env bytes) (length bytes) mt (resolveExt mt e))) (\<lambda>m.
         chain (perform Own (addRef (store_digest env bytes) doc)) (\<lambda>_. give (m, False))))))"
    by (intro safe_chain) (auto intro!: safe_chain d)
  then show "yields (statements_attested env) (\<lambda>_. True) (chain (perform Look (reads (\<lambda>s. has_blob s (store_digest env bytes)))) (\<lambda>held.
       if held then chain (perform Place (drop_scratch scratch)) (\<lambda>_.
         chain (perform Own (addRef (store_digest env bytes) doc)) (\<lambda>_.
         chain (describe_held (store_digest env bytes) (length bytes) mt (resolveExt mt e)) (\<lambda>m. give (m, True))))
       else chain (perform Place (place_scratch scratch (store_digest env bytes) bytes)) (\<lambda>_.
         chain (perform Describe (finalizeMeta (store_digest env bytes) (length bytes) mt (resolveExt mt e))) (\<lambda>m.
         chain (perform Own (addRef (store_digest env bytes) doc)) (\<lambda>_. give (m, False))))))"
    by (rule safe_yields)
qed

lemma store_bytes_attested:
  assumes "statementBytes st = Inr bytes" "genuine (ie_platform env) (ie_key env) st"
  shows "keeps_attested env (store_bytes env n bytes docUrl)"
  unfolding store_bytes_def by (rule upload_attested) (use assms in \<open>auto simp: attested_def\<close>)

lemma storeStatements_attested:
  "\<forall>st \<in> set sts. genuine (ie_platform env) (ie_key env) st \<Longrightarrow> keeps_attested env (storeStatements env n sts docUrl)"
proof (induction sts arbitrary: n)
  case (Cons st sts)
  have "keeps_attested env (case statementBytes st of Inl e \<Rightarrow> give None
     | Inr bytes \<Rightarrow> chain (attempt (store_bytes env n bytes docUrl)) (\<lambda>r.
         give (case r of Inl e \<Rightarrow> None | Inr (m, deduped) \<Rightarrow> Some (bm_hash m))))"
    using store_bytes_attested [of st _ env n docUrl] Cons.prems by (auto intro!: safe_chain split: sum.split)
  with Cons show ?case by (auto intro!: safe_chain)
qed simp

lemma reading_attested [simp]:
  "keeps_attested env (readStoredStatement p h)" "keeps_attested env (storedClaim p h)"
  "keeps_attested env (storedLink p h)" "keeps_attested env (holdsClaim p h)"
proof -
  show r: "keeps_attested env (readStoredStatement p h)"
    unfolding readStoredStatement_def by (auto intro!: safe_chain)
  show c: "keeps_attested env (storedClaim p h)" unfolding storedClaim_def by (auto intro!: safe_chain r)
  show "keeps_attested env (storedLink p h)" unfolding storedLink_def by (auto intro!: safe_chain r)
  show "keeps_attested env (holdsClaim p h)" unfolding holdsClaim_def by (auto intro!: safe_chain c)
qed

lemma certificate_genuine: "st \<in> set (certificateFor p claim encoded) \<Longrightarrow> genuine p host st"
proof -
  assume "st \<in> set (certificateFor p claim encoded)"
  then obtain s l where "checkDeviceLink p st = Inr (s, l)"
    by (auto simp: certificateFor_def dest: sym [of "Inr _"] split: option.splits sum.splits if_splits)
  with checkDeviceLink_signed [OF this] show ?thesis by (auto intro: genuine.link)
qed

lemma receiptFor_genuine:
  assumes "platform_ok (ie_platform env)"
  shows "yields (statements_attested env) (\<lambda>r. \<forall>st new. r = Some (st, new) \<longrightarrow> genuine (ie_platform env) (ie_key env) st)
     (receiptFor env claim claimHash receivedAt)"
proof (cases "ie_key env")
  case (Key key)
  let ?p = "ie_platform env"
  have "yields (statements_attested env) (\<lambda>r. \<forall>st. r = Some st \<longrightarrow> own_receipt ?p key claimHash st) (readOwnReceipt ?p key claimHash)"
    unfolding readOwnReceipt_def
    by (rule yields_chain [OF safe_yields], simp, rule yields_chain [OF safe_yields]) (auto split: option.split list.split)
  moreover have "genuine ?p (ie_key env) st" if "createHostReceipt ?p claim key receivedAt = Inr st" for st
  proof -
    from that obtain a where "signStatement ?p (receipt_value \<lparr>hr_claim = a, hr_receivedAt = toISOString receivedAt,
        hr_hostKey = keyText ?p key\<rparr>) key = Inr st"
      by (auto simp: createHostReceipt_def split: sum.splits)
    from receipt_kind.created_passes [OF assms _ this] show ?thesis by (auto intro: genuine.receipt)
  qed
  moreover have "genuine ?p (ie_key env) st" if "own_receipt ?p key claimHash st" for st
    using genuine.own [OF Key that] .
  ultimately show ?thesis unfolding receiptFor_def Key host_key.case
    by (elim yields_chain) (auto simp: Key split: option.split sum.split)
qed (simp_all add: receiptFor_def)

lemma receiptAndStore_attested:
  assumes "platform_ok (ie_platform env)" "genuine (ie_platform env) (ie_key env) st"
  shows "keeps_attested env (receiptAndStore env st claim claimHash receivedAt docUrl certificate)"
  unfolding receiptAndStore_def
proof (rule yields_safe, rule yields_chain [OF receiptFor_genuine [OF assms(1)]], rule safe_yields)
  fix receipt :: "(signed \<times> bool) option"
  assume r: "\<forall>st new. receipt = Some (st, new) \<longrightarrow> genuine (ie_platform env) (ie_key env) st"
  note store = storeStatements_attested [of _ env 0 docUrl]
  have "keeps_attested env (indexReceipt p h rec hs)" for p h rec hs
    unfolding indexReceipt_def by (auto intro!: safe_chain split: sum.split)
  then show "keeps_attested env (let link = certificateFor (ie_platform env) claim certificate
     in case receipt of None \<Rightarrow> chain (storeStatements env 0 (st # link) docUrl) (\<lambda>hs. give (Verified None, hs))
      | Some (r, isNew) \<Rightarrow> chain (storeStatements env 0 (st # r # link) docUrl) (\<lambda>hs.
          chain (if isNew then indexReceipt (ie_platform env) claimHash r hs else give ()) (\<lambda>_.
            give (Verified (case encodeSignedStatement r of Inl e \<Rightarrow> None | Inr text \<Rightarrow> Some text), hs))))"
    using r assms(2) by (auto simp: Let_def certificate_genuine simp del: storeStatements.simps
        intro!: safe_chain store split: option.split)
qed

lemma claim_ingest_attested:
  assumes "platform_ok (ie_platform env)"
  shows "keeps_attested env (verifyClaimOnIngest env encoded received docUrl certificate)"
proof -
  have "keeps_attested env (receiptAndStore env st claim claimHash receivedAt docUrl certificate)"
    if "checkRecordingClaim (ie_platform env) st h n = Inr (s, claim)" for st h n s claim claimHash receivedAt
    using that by (intro receiptAndStore_attested [OF assms]) (auto simp: checkRecordingClaim_ok_iff intro: genuine.claim)
  then show ?thesis
    unfolding verifyClaimOnIngest_def Let_def
    by (auto intro!: safe_chain split: option.split sum.split prod.split)
qed

text \<open>A claim is noted for the session only when it holds for the received bytes and has been stored.\<close>

lemma noted_claim_holds:
  "yields (\<lambda>_. True) (\<lambda>o'. \<forall>claim address. io_noted o' = Some (claim, address) \<longrightarrow> address \<in> set (io_statements o')
      \<and> (\<exists>text st. encoded = Some text \<and> decodeSignedStatement (ie_platform env) text = Some st
         \<and> checkRecordingClaim (ie_platform env) st (fst received) (num_of_int (int (snd received))) = Inr (st, claim)
         \<and> statementAddress (ie_platform env) st = Inr address))
     (verifyClaimOnIngest env encoded received docUrl certificate)"
proof -
  have any: "yields (\<lambda>_. True) (\<lambda>_. True) t" for t :: "'a blob_call" by (induction t) (auto split: sum.split)
  have "checkRecordingClaim p st h n = Inr (s, claim) \<Longrightarrow> s = st" for p st h n s claim
    by (simp add: checkRecordingClaim_ok_iff)
  then show ?thesis
    unfolding verifyClaimOnIngest_def Let_def
    by (intro yields_chain [OF any]) (auto intro!: yields_chain [OF any] split: option.split sum.split prod.split)
qed

end
