(* ===== verification/Blob_Http.thy ===== *)
theory Blob_Http
  imports Claim_Ingest Event_Http
begin

text \<open>
  The \<open>/blobs\<close> routes of the host (\<^verbatim>\<open>blobHttp.ts\<close>): uploads of audio and of statements, downloads with
  ranges, and releases, each a thread over the blob store. An answer is its status, the headers that
  carry meaning, what its body says, and the claim handed to \<open>onVerifiedClaim\<close>; the CORS headers and the
  wording of errors are left out. Sizes are below \<open>2 ^ 53\<close>, so that comparing them with the \<open>Number\<close> of a
  digit text is comparing with its exact value: rounding is monotone.
\<close>

section \<open>Definitions\<close>

definition BLOB_PATH_PREFIX :: jstr where "BLOB_PATH_PREFIX = js ''/blobs''"

definition DEFAULT_MAX_BLOB_BYTES :: nat where "DEFAULT_MAX_BLOB_BYTES = 512 * 1024 * 1024"

definition DEFAULT_MAX_STORE_BYTES :: nat where "DEFAULT_MAX_STORE_BYTES = 32 * 1024 * 1024 * 1024"

text \<open>The platform and the signing key are those of \<open>bo_ingest\<close>; so are the scratch names of its statements.\<close>

record blob_options =
  bo_token :: "jstr option"
  bo_maxBlobBytes :: nat
  bo_maxStoreBytes :: nat
  bo_ingest :: ingest_env

record blob_request = http_request +
  br_contentType :: "jstr option"
  br_recordingUrl :: "jstr option"
  br_claim :: "jstr option"
  br_certificate :: "jstr option"
  br_range :: "jstr option"
  br_source :: byte_source

text \<open>\<open>Torn\<close>: the connection is destroyed after the headers.\<close>

datatype blob_body = No_body | Failure | Not_bound upload_problem
  | Taken blob_meta bool "(claim_verification \<times> jstr list) option" | Content "u8 list" | Torn

record blob_answer =
  ba_status :: nat
  ba_headers :: "(jstr \<times> jstr) list"
  ba_body :: blob_body
  ba_noted :: "(recording_claim \<times> jstr) option"

abbreviation blob_answered :: "nat \<Rightarrow> blob_body \<Rightarrow> blob_answer" where
  "blob_answered status body \<equiv> \<lparr>ba_status = status, ba_headers = [], ba_body = body, ba_noted = None\<rparr>"

subsection \<open>Ranges\<close>

datatype parsed_range = No_range | Unsatisfiable | Bytes int int

definition digits_number :: "jstr \<Rightarrow> int" where
  "digits_number ds = int (nat_of_digits (map digit_value ds))"

text \<open>\<open>/^bytes=(\d*)-(\d*)$/\<close>.\<close>

definition range_match :: "jstr \<Rightarrow> (jstr \<times> jstr) option" where
  "range_match t =
     (let rest = drop (length ''bytes='') t; rawStart = takeWhile is_digit rest
      in if \<not> startsWith t (js ''bytes='') then None
         else case dropWhile is_digit rest of
             [] \<Rightarrow> None
           | c # rawEnd \<Rightarrow> if c = 0x2d \<and> list_all is_digit rawEnd then Some (rawStart, rawEnd) else None)"

definition parseRange :: "jstr option \<Rightarrow> nat \<Rightarrow> parsed_range" where
  "parseRange header len =
     (case header of
        None \<Rightarrow> No_range
      | Some text \<Rightarrow>
          if text = [] then No_range
          else case range_match (trim text) of
              None \<Rightarrow> No_range
            | Some (rawStart, rawEnd) \<Rightarrow>
                if rawStart = [] \<and> rawEnd = [] then Unsatisfiable
                else if rawStart = [] then
                  (let suffix = digits_number rawEnd
                   in if suffix = 0 then Unsatisfiable else Bytes (max 0 (int len - suffix)) (int len - 1))
                else
                  (let start = digits_number rawStart;
                       end' = (if rawEnd = [] then int len - 1 else min (digits_number rawEnd) (int len - 1))
                   in if int len \<le> start then Unsatisfiable
                      else if end' < start then Unsatisfiable
                      else Bytes start end'))"

subsection \<open>Uploads\<close>

text \<open>Header values are Latin-1; \<open>toLowerCase\<close> moves both of its alphabets.\<close>

definition lower_latin1 :: "u16 \<Rightarrow> u16" where
  "lower_latin1 u = (if 0x41 \<le> u \<and> u \<le> 0x5a \<or> 0xc0 \<le> u \<and> u \<le> 0xde \<and> u \<noteq> 0xd7 then u + 0x20 else u)"

definition contentType_of :: "jstr option \<Rightarrow> jstr" where
  "contentType_of header = map lower_latin1 (trim (takeWhile (\<lambda>u. u \<noteq> 0x3b) (case header of None \<Rightarrow> [] | Some t \<Rightarrow> t)))"

definition owner_of :: "blob_request \<Rightarrow> jstr option" where
  "owner_of rq =
     (case (case map_of (rq_params rq) (js ''doc'') of Some d \<Rightarrow> Some d | None \<Rightarrow> br_recordingUrl rq) of
        Some (u # us) \<Rightarrow> Some (u # us) | _ \<Rightarrow> None)"

text \<open>The \<open>catch\<close> of an upload: a body over its limit is answered, any other error goes on.\<close>

definition answering_too_large :: "blob_answer blob_call \<Rightarrow> blob_answer blob_call" where
  "answering_too_large t = chain (attempt t) (\<lambda>r.
     case r of
       Inl (BlobTooLarge m) \<Rightarrow> give (blob_answered 413 Failure)
     | Inl e \<Rightarrow> Done (Inl e)
     | Inr a \<Rightarrow> give a)"

definition taken :: "blob_meta \<Rightarrow> bool \<Rightarrow> ingest_outcome option \<Rightarrow> blob_answer" where
  "taken meta deduped outcome =
     \<lparr>ba_status = (if deduped then 200 else 201), ba_headers = [],
      ba_body = Taken meta deduped (map_option (\<lambda>o'. (io_claim o', io_statements o')) outcome),
      ba_noted = Option.bind outcome io_noted\<rparr>"

definition store_statement :: "blob_options \<Rightarrow> jstr \<Rightarrow> u8 list \<Rightarrow> jstr \<Rightarrow> jstr option \<Rightarrow> blob_answer blob_call" where
  "store_statement opts scratch bytes docUrl forClaim =
     chain (checkUploadedStatement (ie_platform (bo_ingest opts)) bytes forClaim) (\<lambda>problem.
       case problem of
         Some why \<Rightarrow> give (blob_answered 422 (Not_bound why))
       | None \<Rightarrow>
           chain (ingestStream (store_digest (bo_ingest opts)) scratch \<lparr>src_chunks = [bytes], src_fails = False\<rparr>
               STATEMENT_MIME_TYPE (Some (js ''.json'')) docUrl None) (\<lambda>(meta, deduped).
             give (taken meta deduped None)))"

definition handleStatementUpload :: "blob_options \<Rightarrow> jstr \<Rightarrow> byte_source \<Rightarrow> jstr \<Rightarrow> jstr option \<Rightarrow> blob_answer blob_call" where
  "handleStatementUpload opts scratch src docUrl forClaim =
     chain (attempt (perform Receive (lift_sum (readStatementBody MAX_STATEMENT_BYTES src)))) (\<lambda>body.
       case body of
         Inl (BlobTooLarge m) \<Rightarrow> give (blob_answered 413 Failure)
       | Inl e \<Rightarrow> Done (Inl e)
       | Inr bytes \<Rightarrow> store_statement opts scratch bytes docUrl forClaim)"

definition handleAudioUpload :: "blob_options \<Rightarrow> jstr \<Rightarrow> blob_request \<Rightarrow> jstr \<Rightarrow> jstr \<Rightarrow> blob_answer blob_call" where
  "handleAudioUpload opts scratch rq contentType docUrl =
     answering_too_large (
       chain (ingestStream (store_digest (bo_ingest opts)) scratch (br_source rq) contentType None docUrl
           (Some (bo_maxBlobBytes opts))) (\<lambda>(meta, deduped).
       chain (verifyClaimOnIngest (bo_ingest opts) (br_claim rq) (bm_hash meta, bm_size meta) docUrl (br_certificate rq)) (\<lambda>o'.
         give (taken meta deduped (Some o')))))"

definition handleUpload :: "blob_options \<Rightarrow> jstr \<Rightarrow> blob_request \<Rightarrow> blob_answer blob_call" where
  "handleUpload opts scratch rq =
     (let contentType = contentType_of (br_contentType rq); isStatement = (contentType = STATEMENT_MIME_TYPE)
      in if \<not> isStatement \<and> \<not> startsWith contentType (js ''audio/'') then give (blob_answered 415 Failure)
         else case owner_of rq of
             None \<Rightarrow> give (blob_answered 400 Failure)
           | Some docUrl \<Rightarrow>
               chain (look totalBytes) (\<lambda>total.
                 if bo_maxStoreBytes opts \<le> total then give (blob_answered 507 Failure)
                 else if isStatement
                 then handleStatementUpload opts scratch (br_source rq) docUrl (map_of (rq_params rq) (js ''for''))
                 else handleAudioUpload opts scratch rq contentType docUrl))"

subsection \<open>Downloads and releases\<close>

abbreviation nat_text :: "nat \<Rightarrow> jstr" where
  "nat_text n \<equiv> digits_text (decimal n)"

definition int_text :: "int \<Rightarrow> jstr" where
  "int_text i = (if i < 0 then js ''-'' @ nat_text (nat (- i)) else nat_text (nat i))"

definition content_headers :: "blob_meta \<Rightarrow> (jstr \<times> jstr) list" where
  "content_headers m =
     [(js ''Content-Type'', bm_mimeType m), (js ''Accept-Ranges'', js ''bytes''),
      (js ''ETag'', [0x22] @ bm_hash m @ [0x22]),
      (js ''Cache-Control'', js ''private, max-age=31536000, immutable''),
      (js ''Content-Disposition'', js ''inline; filename='' @ [0x22] @ bm_hash m @ bm_ext m @ [0x22])]"

definition slice :: "int \<Rightarrow> int \<Rightarrow> 'a list \<Rightarrow> 'a list" where
  "slice a b xs = take (nat (b - a + 1)) (drop (nat a) xs)"

text \<open>
  \<open>store.read\<close> into the response: a file that is gone by then breaks the connection, and so does a range
  that ends before the first byte, which \<open>createReadStream\<close> refuses.
\<close>

definition send_content :: "blob_answer \<Rightarrow> jstr \<Rightarrow> (int \<times> int) option \<Rightarrow> blob_answer blob_call" where
  "send_content a h part =
     (if \<exists>start end'. part = Some (start, end') \<and> end' < 0 then give (a\<lparr>ba_body := Torn\<rparr>)
      else chain (look (\<lambda>s. readBlob s h)) (\<lambda>file.
        give (a\<lparr>ba_body := (case file of
          None \<Rightarrow> Torn
        | Some bytes \<Rightarrow> Content (case part of None \<Rightarrow> bytes | Some (start, end') \<Rightarrow> slice start end' bytes))\<rparr>)))"

definition handleDownload :: "jstr option \<Rightarrow> jstr \<Rightarrow> bool \<Rightarrow> blob_answer blob_call" where
  "handleDownload header h isHead =
     chain (look (\<lambda>s. statBlob s h)) (\<lambda>meta.
       case meta of
         None \<Rightarrow> give (blob_answered 404 Failure)
       | Some m \<Rightarrow>
           (case parseRange header (bm_size m) of
              Unsatisfiable \<Rightarrow>
                give ((blob_answered 416 No_body)\<lparr>ba_headers := [(js ''Content-Range'', js ''bytes */'' @ nat_text (bm_size m))]\<rparr>)
            | No_range \<Rightarrow>
                let a = (blob_answered 200 No_body)\<lparr>ba_headers :=
                      content_headers m @ [(js ''Content-Length'', nat_text (bm_size m))]\<rparr>
                in if isHead then give a else send_content a h None
            | Bytes start end' \<Rightarrow>
                let a = (blob_answered 206 No_body)\<lparr>ba_headers := content_headers m
                      @ [(js ''Content-Length'', int_text (end' - start + 1)),
                         (js ''Content-Range'', js ''bytes '' @ int_text start @ js ''-'' @ int_text end' @ js ''/'' @ nat_text (bm_size m))]\<rparr>
                in if isHead then give a else send_content a h (Some (start, end'))))"

definition handleDelete :: "blob_request \<Rightarrow> jstr \<Rightarrow> blob_answer blob_call" where
  "handleDelete rq h =
     (case map_of (rq_params rq) (js ''doc'') of
        Some (u # us) \<Rightarrow>
          chain (look (\<lambda>s. has_blob s h)) (\<lambda>held.
            if \<not> held then give (blob_answered 404 Failure)
            else chain (perform Own (releaseRef h (u # us))) (\<lambda>_. give (blob_answered 204 No_body)))
      | _ \<Rightarrow> give (blob_answered 400 Failure))"

subsection \<open>The gate\<close>

text \<open>Escapes stand for the bytes of UTF-8 sequences, which must be complete; \<open>bytes\<close> are the ones read so far.\<close>

fun decode_escapes :: "u8 list \<Rightarrow> jstr \<Rightarrow> jstr option" where
  "decode_escapes bytes [] = utf8_units bytes"
| "decode_escapes bytes (u # us) =
     (if u = 0x25
      then case us of
          a # b # rest \<Rightarrow>
            (case (hex_value a, hex_value b) of
               (Some p, Some q) \<Rightarrow> decode_escapes (bytes @ [word_of_nat (16 * p + q)]) rest
             | _ \<Rightarrow> None)
        | _ \<Rightarrow> None
      else case utf8_units bytes of
          None \<Rightarrow> None
        | Some before \<Rightarrow> map_option (\<lambda>after. before @ u # after) (decode_escapes [] us))"

definition decodeURIComponent :: "jstr \<Rightarrow> jstr option" where
  "decodeURIComponent t = decode_escapes [] t"

definition plain_blob_request :: "blob_request \<Rightarrow> http_request" where
  "plain_blob_request rq = http_request.truncate rq"

definition route_blob :: "blob_options \<Rightarrow> jstr \<Rightarrow> blob_request \<Rightarrow> blob_answer blob_call" where
  "route_blob opts scratch rq =
     (let m = method_of (plain_blob_request rq)
      in if rq_path rq = BLOB_PATH_PREFIX
         then if m = js ''POST'' then handleUpload opts scratch rq else give (blob_answered 405 Failure)
         else case decodeURIComponent (drop (length ''/blobs/'') (rq_path rq)) of
             None \<Rightarrow> give (blob_answered 500 Failure)
           | Some h \<Rightarrow>
               if \<not> isValidBlobHash h then give (blob_answered 400 Failure)
               else if m = js ''GET'' \<or> m = js ''HEAD'' then handleDownload (br_range rq) h (m = js ''HEAD'')
               else if m = js ''DELETE'' then handleDelete rq h
               else give (blob_answered 405 Failure))"

definition handleBlobRequest :: "blob_options \<Rightarrow> jstr \<Rightarrow> blob_request \<Rightarrow> blob_answer option blob_call" where
  "handleBlobRequest opts scratch rq =
     (if rq_path rq \<noteq> BLOB_PATH_PREFIX \<and> \<not> startsWith (rq_path rq) (BLOB_PATH_PREFIX @ js ''/'') then give None
      else if method_of (plain_blob_request rq) = js ''OPTIONS'' then give (Some (blob_answered 204 No_body))
      else if \<not> isAuthorized (plain_blob_request rq) (bo_token opts) then give (Some (blob_answered 401 Failure))
      else chain (attempt (route_blob opts scratch rq)) (\<lambda>r.
        give (Some (case r of Inl e \<Rightarrow> blob_answered 500 Failure | Inr a \<Rightarrow> a))))"

section \<open>Ranges\<close>

lemma range_within:
  "parseRange header n = Bytes a b \<Longrightarrow> 0 \<le> a \<and> b < int n \<and> (a \<le> b \<or> n = 0)"
  by (auto simp: parseRange_def digits_number_def Let_def split: option.splits if_splits)

lemma slice_parts:
  assumes "0 \<le> a" "a \<le> b" "b < int (length xs)"
  obtains pre post where "xs = pre @ slice a b xs @ post" "int (length pre) = a" "int (length (slice a b xs)) = b - a + 1"
proof -
  have "xs = take (nat a) xs @ slice a b xs @ drop (nat (b - a + 1)) (drop (nat a) xs)"
    unfolding slice_def by (simp del: drop_drop)
  moreover have "int (length (slice a b xs)) = b - a + 1" "int (length (take (nat a) xs)) = a"
    using assms by (auto simp: slice_def)
  ultimately show ?thesis using that by blast
qed

lemma trim_same: "s \<noteq> [] \<Longrightarrow> \<not> space_unit (hd s) \<Longrightarrow> \<not> space_unit (last s) \<Longrightarrow> trim s = s"
proof -
  assume "s \<noteq> []" "\<not> space_unit (hd s)" "\<not> space_unit (last s)"
  then have "dropWhile space_unit s = s" "dropWhile space_unit (rev s) = rev s"
    by (cases s, simp_all) (cases s rule: rev_cases, simp_all)
  then show ?thesis by (simp add: trim_def trim_end_def)
qed

declare decimal_ne [simp]

lemma nat_text_digits [simp]: "list_all is_digit (nat_text n)" "digits_number (nat_text n) = int n"
  using decimal_digits [of n] digits_text_props [of "decimal n"] nat_of_digits_decimal [of n]
  by (auto simp: digits_number_def)

lemma digit_not_space: "is_digit u \<Longrightarrow> \<not> space_unit u"
  by (auto simp: is_digit_def space_unit_def is_space_def word_le_nat_alt)

lemma last_digit: "list_all is_digit ds \<Longrightarrow> ds \<noteq> [] \<Longrightarrow> is_digit (last ds)"
  by (induction ds) auto

lemma range_match_text:
  "range_match (js ''bytes='' @ nat_text i @ js ''-'' @ nat_text j) = Some (nat_text i, nat_text j)"
proof -
  have "\<not> is_digit (hd (js ''-''))" by (simp add: js_def is_digit_def)
  then have "takeWhile is_digit (nat_text i @ js ''-'' @ nat_text j) = nat_text i"
      "dropWhile is_digit (nat_text i @ js ''-'' @ nat_text j) = js ''-'' @ nat_text j"
    using takeWhile_digits [OF decimal_digits, of "js ''-'' @ nat_text j" i] by (simp_all add: js_def)
  moreover have "js ''-'' = [0x2d]" by (simp add: js_def)
  ultimately show ?thesis by (simp add: range_match_def startsWith_def js_def)
qed

lemma range_text:
  "parseRange (Some (js ''bytes='' @ nat_text i @ js ''-'' @ nat_text j)) n =
     (if i \<le> j \<and> i < n then Bytes (int i) (min (int j) (int n - 1)) else Unsatisfiable)"
proof -
  let ?t = "js ''bytes='' @ nat_text i @ js ''-'' @ nat_text j"
  have "\<not> space_unit (hd ?t)" "?t \<noteq> []" by (simp_all add: js_def space_unit_def is_space_def)
  moreover have "\<not> space_unit (last ?t)" using last_digit [of "nat_text j"] digit_not_space by simp
  ultimately have "trim ?t = ?t" by (intro trim_same)
  with \<open>?t \<noteq> []\<close> show ?thesis by (simp add: parseRange_def range_match_text Let_def min_def)
qed

lemma int_text_nat: "int_text (int n) = nat_text n"
  by (simp add: int_text_def)

lemma slice_text: "i \<le> j \<Longrightarrow> slice (int i) (min (int j) (int (length xs) - 1)) xs = take (j + 1 - i) (drop i xs)"
proof -
  assume "i \<le> j"
  then have "nat (min (int j) (int (length xs) - 1) - int i + 1) = min (j + 1 - i) (length xs - i)" by linarith
  then show ?thesis unfolding slice_def nat_int by (simp add: min_def)
qed

lemma stat_size: "statBlob s h = Some m \<Longrightarrow> readBlob s h = Some file \<Longrightarrow> bm_size m = length file"
  by (auto simp: statBlob_def readBlob_def split: if_splits option.splits)

text \<open>A download that nothing comes between.\<close>

lemma run_download:
  assumes "statBlob s h = Some m" "readBlob s h = Some file"
  shows "run (handleDownload header h False) s = (Inr (case parseRange header (length file) of
      Unsatisfiable \<Rightarrow> (blob_answered 416 No_body)\<lparr>ba_headers := [(js ''Content-Range'', js ''bytes */'' @ nat_text (length file))]\<rparr>
    | No_range \<Rightarrow> (blob_answered 200 (Content file))\<lparr>ba_headers :=
        content_headers m @ [(js ''Content-Length'', nat_text (length file))]\<rparr>
    | Bytes i j \<Rightarrow> (blob_answered 206 (if j < 0 then Torn else Content (slice i j file)))\<lparr>ba_headers := content_headers m
        @ [(js ''Content-Length'', int_text (j - i + 1)),
           (js ''Content-Range'', js ''bytes '' @ int_text i @ js ''-'' @ int_text j @ js ''/'' @ nat_text (length file))]\<rparr>), s)"
  using assms stat_size [OF assms]
  by (auto simp: handleDownload_def run_chain send_content_def Let_def split: parsed_range.split)

lemma header_names [simp]:
  "map_of (content_headers m @ hs) (js ''Content-Length'') = map_of hs (js ''Content-Length'')"
  "map_of (content_headers m @ hs) (js ''Content-Range'') = map_of hs (js ''Content-Range'')"
  "js ''Content-Range'' \<noteq> js ''Content-Length''"
  by (simp_all add: content_headers_def js_def)

text \<open>The two other forms of a range: from a place to the end, and the last bytes.\<close>

lemma single_range:
  assumes "range_match t = Some (rawStart, rawEnd)" "t \<noteq> []" "\<not> space_unit (hd t)" "\<not> space_unit (last t)"
  shows "range_match (trim t) = Some (rawStart, rawEnd)"
  using assms trim_same [of t] by simp

lemma last_bytes_text:
  "parseRange (Some (js ''bytes=-'' @ nat_text j)) n = (if j = 0 then Unsatisfiable else Bytes (max 0 (int n - int j)) (int n - 1))"
proof -
  let ?t = "js ''bytes=-'' @ nat_text j"
  have "\<not> space_unit (hd ?t)" "?t \<noteq> []" by (simp_all add: js_def space_unit_def is_space_def)
  moreover have "\<not> space_unit (last ?t)" using last_digit [of "nat_text j"] digit_not_space by simp
  moreover have "range_match ?t = Some ([], nat_text j)"
    by (simp add: range_match_def startsWith_def js_def is_digit_def)
  ultimately show ?thesis using single_range [of ?t] by (simp add: parseRange_def Let_def)
qed

lemma open_range_text:
  "parseRange (Some (js ''bytes='' @ nat_text i @ js ''-'')) n = (if i < n then Bytes (int i) (int n - 1) else Unsatisfiable)"
proof -
  let ?t = "js ''bytes='' @ nat_text i @ js ''-''"
  have "\<not> space_unit (hd ?t)" "?t \<noteq> []" by (simp_all add: js_def space_unit_def is_space_def)
  moreover have "last ?t = 0x2d" by (simp add: js_def)
  moreover have "js ''-'' = [0x2d]" by (simp add: js_def)
  then have "takeWhile is_digit (nat_text i @ js ''-'') = nat_text i" "dropWhile is_digit (nat_text i @ js ''-'') = [0x2d]"
    using takeWhile_digits [OF decimal_digits, of "js ''-''" i] by (simp_all add: is_digit_def)
  then have "range_match ?t = Some (nat_text i, [])"
    by (simp add: range_match_def startsWith_def js_def)
  ultimately show ?thesis
    using single_range [of ?t] by (simp add: parseRange_def Let_def space_unit_def is_space_def)
qed

lemma range_of_empty: "parseRange header 0 = Bytes i j \<Longrightarrow> i = 0 \<and> j = - 1"
  by (auto simp: parseRange_def digits_number_def Let_def split: option.splits if_splits)

lemma empty_range: "js ''bytes '' @ int_text 0 @ js ''-'' @ int_text (- 1) @ js ''/'' @ nat_text 0 = js ''bytes 0--1/0''"
proof -
  have "decimal 0 = [0]" "decimal 1 = [1]" by (subst decimal.simps, simp)+
  then show ?thesis by (simp add: int_text_def js_def digit_unit_def)
qed

text \<open>
  C35. A download of a held file is answered with all of it; with a part of it that is not empty and
  whose place and length the headers state; with 416; or, for a range of an empty file, with a 206
  that states the range \<open>0--1/0\<close> and is torn after the headers. Of the three forms of a range,
  \<open>bytes=i-j\<close> gets the bytes from \<open>i\<close> to \<open>j\<close> as far as there are any, \<open>bytes=i-\<close> all from \<open>i\<close> on, and
  \<open>bytes=-n\<close> the last \<open>n\<close>, except that it is this form that tears the answer when the file is empty.
\<close>

theorem partial_content:
  assumes "statBlob s h = Some m" "readBlob s h = Some file" "run (handleDownload header h False) s = (Inr a, s')"
  shows "s' = s \<and> (ba_status a = 200 \<and> ba_body a = Content file \<or> ba_status a = 416 \<and> ba_body a = No_body
      \<or> ba_status a = 206 \<and> (\<exists>before part after. file = before @ part @ after \<and> part \<noteq> [] \<and> ba_body a = Content part
         \<and> map_of (ba_headers a) (js ''Content-Length'') = Some (nat_text (length part))
         \<and> map_of (ba_headers a) (js ''Content-Range'') = Some (js ''bytes '' @ nat_text (length before) @ js ''-''
             @ nat_text (length before + length part - 1) @ js ''/'' @ nat_text (length file)))
      \<or> ba_status a = 206 \<and> file = [] \<and> ba_body a = Torn
         \<and> map_of (ba_headers a) (js ''Content-Range'') = Some (js ''bytes 0--1/0''))
    \<and> (\<forall>i j. header = Some (js ''bytes='' @ nat_text i @ js ''-'' @ nat_text j) \<longrightarrow>
         ba_body a = (if i \<le> j \<and> i < length file then Content (take (j + 1 - i) (drop i file)) else No_body))
    \<and> (\<forall>i. header = Some (js ''bytes='' @ nat_text i @ js ''-'') \<longrightarrow>
         ba_body a = (if i < length file then Content (drop i file) else No_body))
    \<and> (\<forall>n. header = Some (js ''bytes=-'' @ nat_text n) \<longrightarrow>
         ba_body a = (if n = 0 then No_body else if file = [] then Torn
           else Content (drop (length file - n) file)))"
proof -
  note run = assms(3) [unfolded run_download [OF assms(1,2)]]
  have state: "s' = s" using run by simp
  have answer: "ba_status a = 200 \<and> ba_body a = Content file \<or> ba_status a = 416 \<and> ba_body a = No_body
      \<or> ba_status a = 206 \<and> (\<exists>before part after. file = before @ part @ after \<and> part \<noteq> [] \<and> ba_body a = Content part
         \<and> map_of (ba_headers a) (js ''Content-Length'') = Some (nat_text (length part))
         \<and> map_of (ba_headers a) (js ''Content-Range'') = Some (js ''bytes '' @ nat_text (length before) @ js ''-''
             @ nat_text (length before + length part - 1) @ js ''/'' @ nat_text (length file)))
      \<or> ba_status a = 206 \<and> file = [] \<and> ba_body a = Torn
         \<and> map_of (ba_headers a) (js ''Content-Range'') = Some (js ''bytes 0--1/0'')"
  proof (cases "parseRange header (length file)")
    case (Bytes i j)
    show ?thesis
    proof (cases "file = []")
      case True
      with Bytes range_of_empty [of header i j] have "i = 0" "j = - 1" by simp_all
      with True Bytes run empty_range show ?thesis by (auto simp del: map_of_append)
    next
      case False
      with range_within [OF Bytes] have "0 \<le> i" "i \<le> j" "j < int (length file)" by auto
      from slice_parts [OF this] obtain before after where parts: "file = before @ slice i j file @ after"
          "int (length before) = i" "int (length (slice i j file)) = j - i + 1" .
      let ?part = "slice i j file"
      have ends: "?part \<noteq> []" "j - i + 1 = int (length ?part)" "j = int (length before + length ?part - 1)" "i = int (length before)"
        using parts(2,3) \<open>i \<le> j\<close> by auto
      have a: "ba_status a = 206" "ba_body a = Content ?part"
          "map_of (ba_headers a) (js ''Content-Length'') = Some (int_text (j - i + 1))"
          "map_of (ba_headers a) (js ''Content-Range'') =
             Some (js ''bytes '' @ int_text i @ js ''-'' @ int_text j @ js ''/'' @ nat_text (length file))"
        using run Bytes \<open>0 \<le> i\<close> \<open>i \<le> j\<close> by (auto simp del: map_of_append)
      show ?thesis
        using parts(1) ends(1) a(1,2) a(3,4) [unfolded ends(2-4) [THEN arg_cong [where f = int_text], unfolded int_text_nat]]
        by blast
    qed
  qed (use run in auto)
  have "ba_body a = (if i \<le> j \<and> i < length file then Content (take (j + 1 - i) (drop i file)) else No_body)"
    if "header = Some (js ''bytes='' @ nat_text i @ js ''-'' @ nat_text j)" for i j
    using run that by (auto simp: range_text slice_text)
  moreover have "ba_body a = (if i < length file then Content (drop i file) else No_body)"
    if "header = Some (js ''bytes='' @ nat_text i @ js ''-'')" for i
    using run that slice_text [of i "length file" "file"] by (auto simp: open_range_text)
  moreover have "ba_body a = (if n = 0 then No_body else if file = [] then Torn else Content (drop (length file - n) file))"
    if "header = Some (js ''bytes=-'' @ nat_text n)" for n
  proof -
    have "slice (max 0 (int (length file) - int n)) (int (length file) - 1) file = drop (length file - n) file"
      by (simp add: slice_def nat_diff_distrib' max_def)
    then show ?thesis using run that by (auto simp: last_bytes_text)
  qed
  ultimately show ?thesis using state answer by (intro conjI allI impI) blast+
qed

text \<open>An empty file has no last bytes: a range that asks for them is answered 206 and then torn.\<close>

lemma last_bytes_of_empty:
  assumes "statBlob s h = Some m" "readBlob s h = Some []" "0 < n"
  shows "\<exists>a. run (handleDownload (Some (js ''bytes=-'' @ nat_text n)) h False) s = (Inr a, s) \<and> ba_status a = 206 \<and> ba_body a = Torn
    \<and> map_of (ba_headers a) (js ''Content-Range'') = Some (js ''bytes 0--1/0'')"
proof -
  note empty_range
  moreover have "bm_size m = 0" using stat_size [OF assms(1,2)] by simp
  ultimately show ?thesis
    using assms by (simp add: handleDownload_def run_chain send_content_def last_bytes_text Let_def del: map_of_append)
qed

section \<open>What is served as a statement\<close>

lemma passed_genuine:
  "checkHostReceipt p st = Inr x \<Longrightarrow> genuine p host st" "checkSessionRecord p st = Inr y \<Longrightarrow> genuine p host st"
  "checkDeviceLink p st = Inr z \<Longrightarrow> genuine p host st" "checkDeviceRevocation p st = Inr v \<Longrightarrow> genuine p host st"
  "checkRecordingClaim p st h n = Inr w \<Longrightarrow> genuine p host st"
proof -
  show "genuine p host st" if "checkHostReceipt p st = Inr x"
    using that receipt_kind.check_ok(1) [of p st "fst x" "snd x"] genuine.receipt [of p st "snd x" host] by (cases x) simp
  show "genuine p host st" if "checkSessionRecord p st = Inr y"
    using that session_kind.check_ok(1) [of p st "fst y" "snd y"] genuine.session [of p st "snd y" host] by (cases y) simp
  show "genuine p host st" if "checkDeviceLink p st = Inr z"
    using that checkDeviceLink_signed [of p st "fst z" "snd z"] genuine.link [of p st "snd z" host] by (cases z) simp
  show "genuine p host st" if "checkDeviceRevocation p st = Inr v"
    using that revocation_kind.check_ok(1) [of p st "fst v" "snd v"] genuine.revocation [of p st "snd v" host] by (cases v) simp
  show "genuine p host st" if "checkRecordingClaim p st h n = Inr w"
    using that checkRecordingClaim_ok_iff [of p st h n "fst w" "snd w"] genuine.claim [of p st h n "snd w" host] by (cases w) simp
qed

lemma holdsAny_attested [simp]: "keeps_attested env (holdsAnyClaim p hs)"
  by (induction hs) (auto intro!: safe_chain)

lemma checked_upload_genuine:
  "yields (statements_attested env) (\<lambda>r. r = None \<longrightarrow> (\<exists>st. statementBytes st = Inr bytes \<and> genuine p host st)) (checkUploadedStatement p bytes forClaim)"
proof (cases "parseSignedStatement p bytes")
  case (Some st)
  let ?ok = "\<lambda>r. r = None \<longrightarrow> genuine p host st"
  have "yields (statements_attested env) ?ok (checkClaim p st)" "yields (statements_attested env) ?ok (checkReceipt p st)"
    "yields (statements_attested env) ?ok (checkSession p st)" "yields (statements_attested env) ?ok (checkDeviceLinkUpload p st forClaim)"
    "yields (statements_attested env) ?ok (checkRevocationUpload p st)"
    unfolding checkClaim_def checkReceipt_def checkSession_def checkDeviceLinkUpload_def checkRevocationUpload_def
    by (auto intro!: yields_chain [OF safe_yields] intro: passed_genuine split: sum.split option.split list.split)
  note kinds = this
  show ?thesis
  proof (cases "statementBytes st = Inr bytes")
    case True
    then have "yields (statements_attested env) (\<lambda>r. r = None \<longrightarrow> (\<exists>st. statementBytes st = Inr bytes \<and> genuine p host st)) t"
      if "yields (statements_attested env) ?ok t" for t :: "upload_problem option blob_call"
      by (intro yields_mono [OF that]) blast
    with True Some kinds show ?thesis
      by (simp add: checkUploadedStatement_def Let_def)
  qed (use Some in \<open>auto simp: checkUploadedStatement_def Let_def split: sum.split\<close>)
qed (simp add: checkUploadedStatement_def)

lemma store_statement_attested: "keeps_attested (bo_ingest opts) (store_statement opts scratch bytes docUrl forClaim)"
proof -
  let ?env = "bo_ingest opts"
  let ?known = "\<lambda>r. r = None \<longrightarrow> (\<exists>st. statementBytes st = Inr bytes \<and> genuine (ie_platform ?env) (ie_key ?env) st)"
  have "yields (statements_attested ?env) (\<lambda>_. True) (store_statement opts scratch bytes docUrl forClaim)"
    unfolding store_statement_def
  proof (rule yields_chain [OF checked_upload_genuine])
    fix problem :: "upload_problem option" assume known: "?known problem"
    have "keeps_attested ?env (ingestStream (store_digest ?env) scratch \<lparr>src_chunks = [bytes], src_fails = False\<rparr>
        STATEMENT_MIME_TYPE (Some (js ''.json'')) docUrl None)" if "problem = None"
      by (rule upload_attested) (use known that in \<open>auto simp: attested_def\<close>)
    then show "yields (statements_attested ?env) (\<lambda>_. True) (case problem of
         Some why \<Rightarrow> give (blob_answered 422 (Not_bound why))
       | None \<Rightarrow> chain (ingestStream (store_digest ?env) scratch \<lparr>src_chunks = [bytes], src_fails = False\<rparr>
               STATEMENT_MIME_TYPE (Some (js ''.json'')) docUrl None) (\<lambda>(meta, deduped). give (taken meta deduped None)))"
      by (auto intro!: safe_yields safe_chain split: option.split)
  qed
  then show ?thesis by (rule yields_safe)
qed

lemma audio_type: "startsWith t (js ''audio/'') \<Longrightarrow> t \<noteq> STATEMENT_MIME_TYPE"
  by (auto simp: startsWith_def STATEMENT_MIME_TYPE_def js_def)

lemma request_attested:
  assumes "platform_ok (ie_platform (bo_ingest opts))"
  shows "keeps_attested (bo_ingest opts) (handleBlobRequest opts scratch rq)"
proof -
  let ?env = "bo_ingest opts"
  have statement: "keeps_attested ?env (handleStatementUpload opts scratch src docUrl forClaim)" for src docUrl forClaim
    unfolding handleStatementUpload_def
    by (auto intro!: safe_chain store_statement_attested safe_perform split: sum.split blob_error.split)
  have audio: "keeps_attested ?env (handleAudioUpload opts scratch rq type docUrl)" if "type \<noteq> STATEMENT_MIME_TYPE" for type docUrl
    unfolding handleAudioUpload_def answering_too_large_def
    by (auto intro!: safe_chain upload_attested claim_ingest_attested [OF assms] simp: that split: sum.split blob_error.split)
  have "keeps_attested ?env (handleUpload opts scratch rq)"
    unfolding handleUpload_def Let_def by (auto intro!: safe_chain statement audio dest: audio_type split: option.split)
  moreover have "keeps_attested ?env (handleDownload header h isHead)" for header h isHead
    unfolding handleDownload_def send_content_def Let_def by (auto intro!: safe_chain split: option.split parsed_range.split)
  moreover have "keeps_attested ?env (handleDelete rq h)" for h
    unfolding handleDelete_def by (auto intro!: safe_chain split: option.split list.split)
  ultimately show ?thesis
    unfolding handleBlobRequest_def route_blob_def Let_def by (auto intro!: safe_chain split: option.split)
qed

lemma content_looks [simp]:
  "keeps_content digest (readStoredStatement p h) X" "keeps_content digest (storedClaim p h) X" "keeps_content digest (storedLink p h) X"
  "keeps_content digest (holdsClaim p h) X" "keeps_content digest (holdsAnyClaim p hs) X"
proof -
  show r: "keeps_content digest (readStoredStatement p h) X" for h X
    unfolding readStoredStatement_def by (auto intro!: knows_chain)
  show c: "keeps_content digest (storedClaim p h) X" for h X unfolding storedClaim_def by (auto intro!: knows_chain r)
  show "keeps_content digest (storedLink p h) X" unfolding storedLink_def by (auto intro!: knows_chain r)
  show h: "keeps_content digest (holdsClaim p h) X" for h X unfolding holdsClaim_def by (auto intro!: knows_chain c)
  show "keeps_content digest (holdsAnyClaim p hs) X" by (induction hs arbitrary: X) (auto intro!: knows_chain h)
qed

lemma check_content: "keeps_content digest (checkUploadedStatement p bytes forClaim) X"
proof -
  have "keeps_content digest (checkClaim p st) X" "keeps_content digest (checkReceipt p st) X"
    "keeps_content digest (checkSession p st) X" "keeps_content digest (checkDeviceLinkUpload p st forClaim) X"
    "keeps_content digest (checkRevocationUpload p st) X" for st
    unfolding checkClaim_def checkReceipt_def checkSession_def checkDeviceLinkUpload_def checkRevocationUpload_def
    by (auto intro!: knows_chain split: sum.split option.split list.split)
  then show ?thesis by (simp add: checkUploadedStatement_def Let_def split: option.split sum.split)
qed

lemma storeStatements_content: "keeps_content (store_digest env) (storeStatements env n sts docUrl) X"
proof (induction sts arbitrary: n X)
  case (Cons st sts)
  have "keeps_content (store_digest env) (attempt (store_bytes env n bytes docUrl)) X" for bytes X
    unfolding store_bytes_def by (intro knows_attempt keeps_content_stream)
  then have "keeps_content (store_digest env) (case statementBytes st of Inl e \<Rightarrow> give None
     | Inr bytes \<Rightarrow> chain (attempt (store_bytes env n bytes docUrl)) (\<lambda>r.
         give (case r of Inl e \<Rightarrow> None | Inr (m, deduped) \<Rightarrow> Some (bm_hash m)))) X" for X
    by (auto intro!: knows_chain split: sum.split)
  then show ?case unfolding storeStatements.simps by (intro knows_chain Cons knows_give)
qed simp

lemma claim_ingest_content: "keeps_content (store_digest env) (verifyClaimOnIngest env encoded received docUrl certificate) X"
proof -
  have "keeps_content (store_digest env) (receiptFor env st claimHash at) X" for st claimHash at X
    unfolding receiptFor_def readOwnReceipt_def by (auto intro!: knows_chain split: host_key.split option.split list.split)
  moreover have "keeps_content (store_digest env) (indexReceipt p claimHash st hs) X" for p claimHash st hs X
    unfolding indexReceipt_def by (auto intro!: knows_chain knows_attempt keeps_content_simple split: sum.split)
  ultimately have "keeps_content (store_digest env) (receiptAndStore env st claim claimHash at docUrl certificate) X"
    for st claim claimHash at X
    unfolding receiptAndStore_def Let_def
    by (auto intro!: knows_chain storeStatements_content simp del: storeStatements.simps split: option.split)
  then show ?thesis
    unfolding verifyClaimOnIngest_def Let_def by (auto intro!: knows_chain split: option.split sum.split prod.split)
qed

lemma request_content: "keeps_content (store_digest (bo_ingest opts)) (handleBlobRequest opts scratch rq) X"
proof -
  let ?d = "store_digest (bo_ingest opts)"
  have lift: "keeps_content ?d (perform l (lift_sum r)) X" for l X and r :: "blob_error + u8 list"
    by (rule keeps_content_same) simp
  have store: "keeps_content ?d (store_statement opts scratch bytes docUrl forClaim) X" for bytes docUrl forClaim X
    unfolding store_statement_def by (auto intro!: knows_chain check_content keeps_content_stream split: option.split)
  then have statement: "keeps_content ?d (handleStatementUpload opts scratch src docUrl forClaim) X" for src docUrl forClaim X
    unfolding handleStatementUpload_def by (auto intro!: knows_chain knows_attempt lift split: sum.split blob_error.split)
  have audio: "keeps_content ?d (handleAudioUpload opts scratch rq type docUrl) X" for type docUrl X
    unfolding handleAudioUpload_def answering_too_large_def
    by (auto intro!: knows_chain knows_attempt keeps_content_stream claim_ingest_content split: sum.split blob_error.split)
  have "keeps_content ?d (handleUpload opts scratch rq) X" for X
    unfolding handleUpload_def Let_def by (auto intro!: knows_chain statement audio split: option.split)
  moreover have "keeps_content ?d (handleDownload header h isHead) X" for header h isHead X
    unfolding handleDownload_def send_content_def Let_def by (auto intro!: knows_chain split: option.split parsed_range.split)
  moreover have "keeps_content ?d (handleDelete rq h) X" for h X
    unfolding handleDelete_def by (auto intro!: knows_chain keeps_content_simple split: option.split list.split)
  ultimately show ?thesis
    unfolding handleBlobRequest_def route_blob_def Let_def by (auto intro!: knows_chain knows_attempt split: option.split)
qed

end
