(* ===== verification/Session_Safety.thy ===== *)
theory Session_Safety
  imports Session_Recorder
begin

text \<open>
  What the recorder keeps while connections come and go: its open spans are the connections that proved a
  key, every span lies inside its session, and the record that is signed tells only what was so.
\<close>

section \<open>Spans by their place\<close>

definition span_at :: "(jstr \<times> tracked_device) list \<Rightarrow> span_ref \<Rightarrow> live_span option" where
  "span_at devices ref = (case map_of devices (fst ref) of
     None \<Rightarrow> None
   | Some d \<Rightarrow> if snd ref < length (td_spans d) then Some (td_spans d ! snd ref) else None)"

lemma span_at_push:
  assumes "d = (case map_of ds k of None \<Rightarrow> \<lparr>td_label = None, td_spans = []\<rparr> | Some d \<Rightarrow> d)"
  shows "span_at (AList.update k (d\<lparr>td_label := l, td_spans := td_spans d @ [sp]\<rparr>) ds)
      = (span_at ds)((k, length (td_spans d)) \<mapsto> sp)"
    "span_at ds (k, length (td_spans d)) = None"
    "span_at (AList.update k (d\<lparr>td_label := l\<rparr>) ds) = span_at ds"
  using assms by (auto simp: span_at_def fun_eq_iff nth_append split: option.splits if_splits)

lemma span_at_end:
  "span_at ds ref = Some sp \<Longrightarrow> span_at (end_span at ref ds) = (span_at ds)(ref \<mapsto> sp\<lparr>ls_leftAt := Some at\<rparr>)"
  by (cases ref) (auto simp: span_at_def end_span_def fun_eq_iff nth_list_update split: option.splits if_splits)

lemma map_of_key: "map_of xs k = Some v \<Longrightarrow> k \<in> fst ` set xs"
  by (metis domI dom_map_of_conv_image_fst)

lemma keys_end_span [simp]: "fst ` set (end_span at ref ds) = fst ` set ds"
  by (auto simp: end_span_def dom_update insert_absorb map_of_key split: option.split)

lemma distinct_end_span [simp]: "distinct (map fst ds) \<Longrightarrow> distinct (map fst (end_span at ref ds))"
  by (simp add: end_span_def distinct_update split: option.split)

lemma span_at_leave:
  "distinct (map snd live) \<Longrightarrow> \<forall>r \<in> snd ` set live. span_at ds r \<noteq> None \<Longrightarrow>
     span_at (fold (\<lambda>(i, ref). if i \<in> set present then id else end_span at ref) live ds) r =
       (if \<exists>i. (i, r) \<in> set live \<and> i \<notin> set present
        then map_option (\<lambda>sp. sp\<lparr>ls_leftAt := Some at\<rparr>) (span_at ds r) else span_at ds r)"
proof (induction live arbitrary: ds)
  case (Cons p live)
  obtain i ref where p: "p = (i, ref)" by (cases p)
  show ?case
  proof (cases "i \<in> set present")
    case True
    with Cons show ?thesis by (auto simp: p)
  next
    case False
    obtain sp where sp: "span_at ds ref = Some sp" using Cons.prems(2) p by auto
    have ref: "ref \<notin> snd ` set live" using Cons.prems(1) p by simp
    then have "\<forall>r \<in> snd ` set live. span_at (end_span at ref ds) r \<noteq> None"
      using Cons.prems(2) sp by (simp add: span_at_end)
    with Cons.IH [of "end_span at ref ds"] Cons.prems(1) False p sp ref show ?thesis
      by (auto simp: span_at_end image_iff)
  qed
qed simp

section \<open>A session that is followed\<close>

definition tracked_ok :: "(jstr \<Rightarrow> bool) \<Rightarrow> int \<Rightarrow> tracked \<Rightarrow> bool" where
  "tracked_ok proven now t =
     (os_openedAt (tr_session t) \<le> now \<and> distinct (map fst (tr_live t)) \<and> distinct (map snd (tr_live t))
      \<and> distinct (map fst (tr_devices t)) \<and> (\<forall>k \<in> fst ` set (tr_devices t). proven k)
      \<and> (\<forall>r. (\<exists>sp. span_at (tr_devices t) r = Some sp \<and> ls_leftAt sp = None) \<longleftrightarrow> r \<in> snd ` set (tr_live t))
      \<and> (\<forall>r sp. span_at (tr_devices t) r = Some sp \<longrightarrow> os_openedAt (tr_session t) \<le> ls_joinedAt sp
           \<and> ls_joinedAt sp \<le> now \<and> (\<forall>l. ls_leftAt sp = Some l \<longrightarrow> ls_joinedAt sp \<le> l \<and> l \<le> now)))"

lemma tracked_okD:
  assumes "tracked_ok proven now t"
  shows "os_openedAt (tr_session t) \<le> now" "distinct (map fst (tr_live t))" "distinct (map snd (tr_live t))"
    "distinct (map fst (tr_devices t))" "k \<in> fst ` set (tr_devices t) \<Longrightarrow> proven k"
    "(\<exists>sp. span_at (tr_devices t) r = Some sp \<and> ls_leftAt sp = None) \<longleftrightarrow> r \<in> snd ` set (tr_live t)"
    "span_at (tr_devices t) r = Some sp \<Longrightarrow> os_openedAt (tr_session t) \<le> ls_joinedAt sp \<and> ls_joinedAt sp \<le> now
       \<and> (\<forall>l. ls_leftAt sp = Some l \<longrightarrow> ls_joinedAt sp \<le> l \<and> l \<le> now)"
  using assms unfolding tracked_ok_def by blast+

lemma tracked_okI:
  assumes "os_openedAt (tr_session t) \<le> now" "distinct (map fst (tr_live t))" "distinct (map snd (tr_live t))"
    "distinct (map fst (tr_devices t))" "\<And>k. k \<in> fst ` set (tr_devices t) \<Longrightarrow> proven k"
    "\<And>r. (\<exists>sp. span_at (tr_devices t) r = Some sp \<and> ls_leftAt sp = None) \<longleftrightarrow> r \<in> snd ` set (tr_live t)"
    "\<And>r sp. span_at (tr_devices t) r = Some sp \<Longrightarrow> os_openedAt (tr_session t) \<le> ls_joinedAt sp \<and> ls_joinedAt sp \<le> now
       \<and> (\<forall>l. ls_leftAt sp = Some l \<longrightarrow> ls_joinedAt sp \<le> l \<and> l \<le> now)"
  shows "tracked_ok proven now t"
  using assms unfolding tracked_ok_def by blast

lemma tracked_ok_later: "tracked_ok proven now t \<Longrightarrow> now \<le> now' \<Longrightarrow> tracked_ok proven now' t"
  unfolding tracked_ok_def by fastforce

lemma map_of_live_None: "map_of live i = None \<Longrightarrow> i \<notin> fst ` set live"
  by (simp add: map_of_eq_None_iff)

lemma join_ok:
  assumes "tracked_ok proven now t" "cn_connectedAt c \<le> now" "\<And>k. proven_key c = Some k \<Longrightarrow> proven k"
  shows "tracked_ok proven now (join_connection c t)"
    "tr_session (join_connection c t) = tr_session t" "tr_claims (join_connection c t) = tr_claims t"
    "fst ` set (tr_live (join_connection c t)) = fst ` set (tr_live t) \<union> (if proven_key c = None then {} else {cn_id c})"
proof -
  show "tr_session (join_connection c t) = tr_session t" "tr_claims (join_connection c t) = tr_claims t"
    by (simp_all add: join_connection_def Let_def split: option.split)
  show "fst ` set (tr_live (join_connection c t)) = fst ` set (tr_live t) \<union> (if proven_key c = None then {} else {cn_id c})"
    by (auto simp: join_connection_def Let_def dom_update insert_absorb map_of_key split: option.split)
  show "tracked_ok proven now (join_connection c t)"
  proof (cases "proven_key c")
    case None
    with assms(1) show ?thesis by (simp add: join_connection_def)
  next
    case (Some k)
    define d where "d = (case map_of (tr_devices t) k of None \<Rightarrow> \<lparr>td_label = None, td_spans = []\<rparr> | Some d \<Rightarrow> d)"
    define l where "l = (case cn_label c of Some l \<Rightarrow> Some l | None \<Rightarrow> td_label d)"
    note push = span_at_push [OF d_def]
    have k: "proven k" using assms(3) Some by simp
    have keys: "fst ` set (AList.update k e (tr_devices t)) = insert k (fst ` set (tr_devices t))" for e
      by (simp add: dom_update)
    show ?thesis
    proof (cases "map_of (tr_live t) (cn_id c)")
      case None
      let ?sp = "\<lparr>ls_joinedAt = max (cn_connectedAt c) (os_openedAt (tr_session t)), ls_leftAt = None\<rparr>"
      let ?r = "(k, length (td_spans d))"
      have j: "join_connection c t = t\<lparr>tr_devices := AList.update k (d\<lparr>td_label := l, td_spans := td_spans d @ [?sp]\<rparr>) (tr_devices t),
          tr_live := AList.update (cn_id c) ?r (tr_live t)\<rparr>"
        using Some None by (simp add: join_connection_def Let_def flip: d_def l_def)
      note ok = tracked_okD [OF assms(1)]
      have fresh: "?r \<notin> snd ` set (tr_live t)" using ok(6) [of ?r] push(2) by simp
      have live: "AList.update (cn_id c) ?r (tr_live t) = tr_live t @ [(cn_id c, ?r)]"
        using None by (simp add: AList_update_new map_of_live_None)
      have parts: "tr_session (join_connection c t) = tr_session t"
          "span_at (tr_devices (join_connection c t)) = (span_at (tr_devices t))(?r \<mapsto> ?sp)"
          "tr_live (join_connection c t) = tr_live t @ [(cn_id c, ?r)]"
          "fst ` set (tr_devices (join_connection c t)) = insert k (fst ` set (tr_devices t))"
          "distinct (map fst (tr_devices (join_connection c t)))"
        using ok(4) by (simp_all add: j live push(1) keys distinct_update)
      show ?thesis
      proof (rule tracked_okI, unfold parts, goal_cases)
        case (6 r)
        show ?case using ok(6) [of r] by (cases "r = ?r") simp_all
      next
        case (7 r sp)
        then show ?case using ok(1) ok(7) [of r sp] assms(2) by (cases "r = ?r") auto
      qed (use ok k fresh map_of_live_None [OF None] parts(5) in \<open>simp_all, blast\<close>)
    next
      case (Some r)
      then have j: "join_connection c t = t\<lparr>tr_devices := AList.update k (d\<lparr>td_label := l\<rparr>) (tr_devices t)\<rparr>"
        using \<open>proven_key c = Some k\<close> by (simp add: join_connection_def Let_def flip: d_def l_def)
      from assms(1) k show ?thesis
        unfolding tracked_ok_def j by (simp add: push(3) keys distinct_update)
    qed
  qed
qed

lemma joins_ok:
  assumes "tracked_ok proven now t" "\<forall>c \<in> set cs. cn_connectedAt c \<le> now \<and> (\<forall>k. proven_key c = Some k \<longrightarrow> proven k)"
  shows "tracked_ok proven now (fold join_connection cs t)
    \<and> tr_session (fold join_connection cs t) = tr_session t \<and> tr_claims (fold join_connection cs t) = tr_claims t
    \<and> fst ` set (tr_live (fold join_connection cs t)) = fst ` set (tr_live t) \<union> set (present_ids cs)"
  using assms
proof (induction cs arbitrary: t)
  case (Cons c cs)
  then have c: "cn_connectedAt c \<le> now" "\<And>k. proven_key c = Some k \<Longrightarrow> proven k" by auto
  note j = join_ok [OF Cons.prems(1) c]
  from Cons.IH [OF j(1)] Cons.prems(2) j show ?case by (auto simp: present_ids_def)
qed (simp add: present_ids_def)

lemma leave_ok:
  assumes "tracked_ok proven now t"
  shows "tracked_ok proven now (leave_absent now present t)"
    "tr_session (leave_absent now present t) = tr_session t" "tr_claims (leave_absent now present t) = tr_claims t"
    "fst ` set (tr_live (leave_absent now present t)) = fst ` set (tr_live t) \<inter> set present"
proof -
  show "tr_session (leave_absent now present t) = tr_session t" "tr_claims (leave_absent now present t) = tr_claims t"
    by (simp_all add: leave_absent_def)
  show "fst ` set (tr_live (leave_absent now present t)) = fst ` set (tr_live t) \<inter> set present"
    by (auto simp: leave_absent_def)
  let ?ds = "fold (\<lambda>(i, ref). if i \<in> set present then id else end_span now ref) (tr_live t) (tr_devices t)"
  have keys: "fst ` set (fold (\<lambda>(i, ref). if i \<in> set present then id else end_span now ref) live ds) = fst ` set ds
      \<and> (distinct (map fst ds) \<longrightarrow> distinct (map fst (fold (\<lambda>(i, ref). if i \<in> set present then id else end_span now ref) live ds)))"
    for live ds by (induction live arbitrary: ds) (simp_all add: split_beta)
  have live: "distinct (map snd (tr_live t))" "\<forall>r \<in> snd ` set (tr_live t). span_at (tr_devices t) r \<noteq> None"
    using tracked_okD(3,6) [OF assms] by (simp, blast)
  note at = span_at_leave [OF live, of present now]
  have one: "(i, r) \<in> set (tr_live t) \<Longrightarrow> (j, r) \<in> set (tr_live t) \<Longrightarrow> i = j" for i j r
    using live(1) by (metis (no_types) distinct_map inj_on_def fst_conv snd_conv)
  have fil: "distinct (map fst (filter P (tr_live t)))" "distinct (map snd (filter P (tr_live t)))" for P
    using assms unfolding tracked_ok_def by (simp_all add: distinct_map_filter)
  have open_: "(\<exists>sp. span_at ?ds r = Some sp \<and> ls_leftAt sp = None) \<longleftrightarrow> r \<in> snd ` set (filter (\<lambda>(i, ref). i \<in> set present) (tr_live t))" for r
  proof (cases "\<exists>i. (i, r) \<in> set (tr_live t)")
    case True
    then obtain i where i: "(i, r) \<in> set (tr_live t)" by blast
    have in_: "r \<in> snd ` set (filter (\<lambda>(i, ref). i \<in> set present) (tr_live t)) \<longleftrightarrow> i \<in> set present"
    proof
      assume "r \<in> snd ` set (filter (\<lambda>(i, ref). i \<in> set present) (tr_live t))"
      then obtain j where "(j, r) \<in> set (tr_live t)" "j \<in> set present" by auto
      with one [OF i] show "i \<in> set present" by blast
    next
      assume "i \<in> set present"
      with i show "r \<in> snd ` set (filter (\<lambda>(i, ref). i \<in> set present) (tr_live t))" by force
    qed
    from i have "r \<in> snd ` set (tr_live t)" by force
    then obtain sp where sp: "span_at (tr_devices t) r = Some sp" "ls_leftAt sp = None"
      using tracked_okD(6) [OF assms] by blast
    have "(\<exists>i. (i, r) \<in> set (tr_live t) \<and> i \<notin> set present) \<longleftrightarrow> i \<notin> set present" using i one [OF i] by blast
    with sp in_ show ?thesis unfolding at by simp
  next
    case False
    then have "r \<notin> snd ` set (tr_live t)" by auto
    with False tracked_okD(6) [OF assms, of r] show ?thesis unfolding at by auto
  qed
  have "os_openedAt (tr_session t) \<le> ls_joinedAt sp \<and> ls_joinedAt sp \<le> now
      \<and> (\<forall>l. ls_leftAt sp = Some l \<longrightarrow> ls_joinedAt sp \<le> l \<and> l \<le> now)" if "span_at ?ds r = Some sp" for r sp
    using that tracked_okD(7) [OF assms, of r] unfolding at by (auto split: if_splits)
  with open_ keys [of "tr_live t" "tr_devices t"] tracked_okD [OF assms] fil show "tracked_ok proven now (leave_absent now present t)"
    by (intro tracked_okI) (simp_all add: leave_absent_def)
qed

lemma track_ok:
  assumes "tracked_ok proven now t" "\<forall>c \<in> set cs. cn_connectedAt c \<le> now \<and> (\<forall>k. proven_key c = Some k \<longrightarrow> proven k)"
  shows "tracked_ok proven now (track now cs t)" "tr_session (track now cs t) = tr_session t"
    "tr_claims (track now cs t) = tr_claims t" "fst ` set (tr_live (track now cs t)) = set (present_ids cs)"
  using joins_ok [OF assms] leave_ok [of proven now "fold join_connection cs t" "present_ids cs"]
  unfolding track_def by auto

section \<open>Storing a record\<close>

definition meta_ok :: "blob_disk \<Rightarrow> bool" where
  "meta_ok d = (\<forall>h m. map_of (bd_metas d) h = Some m \<longrightarrow> bm_hash m = h)"

lemma upload_frame:
  "addRef h d s = (ra, s') \<Longrightarrow> bd_clock s' = bd_clock s \<and> (meta_ok s \<longrightarrow> meta_ok s')"
  "drop_scratch t s = (rd, s') \<Longrightarrow> bd_clock s' = bd_clock s \<and> (meta_ok s \<longrightarrow> meta_ok s')"
  "receive_scratch t mx src s = (rc, s') \<Longrightarrow> bd_clock s' = bd_clock s \<and> (meta_ok s \<longrightarrow> meta_ok s')"
  "place_scratch t h bs s = (rp, s') \<Longrightarrow> bd_clock s' = bd_clock s \<and> (meta_ok s \<longrightarrow> meta_ok s')"
  "finalizeMeta h n mt e s = (rm, s') \<Longrightarrow> bd_clock s' = bd_clock s \<and> (meta_ok s \<longrightarrow> meta_ok s')
     \<and> (\<forall>m. rm = Inr m \<longrightarrow> bm_hash m = h)"
  by (auto simp: blob_defs receive_scratch_def place_scratch_def meta_ok_def split: if_splits sum.splits)

lemma statBlob_hash: "meta_ok d \<Longrightarrow> statBlob d h = Some m \<Longrightarrow> bm_hash m = h"
  by (auto simp: statBlob_def meta_ok_def split: option.splits if_splits)

lemma upload_clock: "abides (\<lambda>d d'. bd_clock d' = bd_clock d) (ingestStream digest scratch src m e doc mx)"
  unfolding ingestStream_def describe_held_def Let_def
  by (auto intro!: abides_chain abides_perform dest!: upload_frame split: option.split)

lemma describe_yields: "yields meta_ok (\<lambda>m. bm_hash m = h) (describe_held h n mt e)"
  unfolding describe_held_def
proof (rule yields_chain)
  show "yields meta_ok (\<lambda>x. \<forall>m. x = Some m \<longrightarrow> bm_hash m = h) (perform Describe (reads (\<lambda>s. statBlob s h)))"
    by (rule yields_perform) (auto dest: statBlob_hash)
qed (auto intro!: yields_perform dest!: upload_frame(5) split: option.split)

lemma yields_frame:
  "(\<And>s r s'. m s = (r, s') \<Longrightarrow> meta_ok s \<longrightarrow> meta_ok s') \<Longrightarrow> yields meta_ok (\<lambda>_. True) (perform l m)"
  by (rule yields_perform) blast

lemma yields_simple:
  "yields meta_ok (\<lambda>_. True) (perform l (addRef h doc))"
  "yields meta_ok (\<lambda>_. True) (perform l (drop_scratch scratch))"
  "yields meta_ok (\<lambda>_. True) (perform l (place_scratch scratch h bytes))"
  by (rule yields_frame, blast dest: upload_frame)+

lemma upload_yields:
  "yields meta_ok (\<lambda>(m, deduped). bm_hash m = digest bytes)
     (ingestStream digest scratch \<lparr>src_chunks = [bytes], src_fails = False\<rparr> mt e doc None)"
  unfolding ingestStream_def Let_def
proof (rule yields_chain)
  show "yields meta_ok (\<lambda>x. x = bytes) (perform Receive (receive_scratch scratch None \<lparr>src_chunks = [bytes], src_fails = False\<rparr>))"
    by (rule yields_perform) (auto simp: receive_scratch_def meta_ok_def split: if_splits)
next
  fix x assume "x = bytes"
  have final: "yields meta_ok (\<lambda>m. bm_hash m = digest bytes) (perform Describe (finalizeMeta (digest bytes) n mt' e'))" for n mt' e'
    by (rule yields_perform) (blast dest: upload_frame(5))
  have look: "yields meta_ok (\<lambda>_. True) (perform Look (reads (\<lambda>s. has_blob s (digest bytes))))"
    by (rule yields_perform) simp
  show "yields meta_ok (\<lambda>(m, deduped). bm_hash m = digest bytes)
     (chain (perform Look (reads (\<lambda>s. has_blob s (digest x)))) (\<lambda>held.
       if held then chain (perform Place (drop_scratch scratch)) (\<lambda>_.
         chain (perform Own (addRef (digest x) doc)) (\<lambda>_.
         chain (describe_held (digest x) (length x) mt (resolveExt mt e)) (\<lambda>m. give (m, True))))
       else chain (perform Place (place_scratch scratch (digest x) x)) (\<lambda>_.
         chain (perform Describe (finalizeMeta (digest x) (length x) mt (resolveExt mt e))) (\<lambda>m.
         chain (perform Own (addRef (digest x) doc)) (\<lambda>_. give (m, False))))))"
    unfolding \<open>x = bytes\<close>
    by (rule yields_chain [OF look])
      (auto intro!: yields_chain [OF yields_simple(1)] yields_chain [OF yields_simple(2)] yields_chain [OF yields_simple(3)]
        yields_chain [OF describe_yields] yields_chain [OF final])
qed

section \<open>The host\<close>

text \<open>
  \<open>proven\<close> are the keys that connections have proved, \<open>accepted\<close> the claims the host has verified,
  with their addresses.
\<close>

definition claims_ok :: "(recording_claim \<Rightarrow> jstr \<Rightarrow> bool) \<Rightarrow> jstr \<Rightarrow> jstr list \<Rightarrow> bool" where
  "claims_ok accepted sid claims = (\<forall>a \<in> set claims. \<exists>c. accepted c a \<and> rc_sessionId c = sid)"

abbreviation own_claims_ok :: "(recording_claim \<Rightarrow> jstr \<Rightarrow> bool) \<Rightarrow> tracked \<Rightarrow> bool" where
  "own_claims_ok accepted t \<equiv> claims_ok accepted (os_sessionId (tr_session t)) (tr_claims t)"

definition truthful :: "(jstr \<Rightarrow> bool) \<Rightarrow> (recording_claim \<Rightarrow> jstr \<Rightarrow> bool) \<Rightarrow> session_record \<Rightarrow> bool" where
  "truthful proven accepted r = (\<exists>openedAt closedAt. sr_openedAt r = toISOString openedAt \<and> sr_closedAt r = toISOString closedAt
     \<and> openedAt \<le> closedAt \<and> claims_ok accepted (sr_sessionId r) (sr_claims r)
     \<and> (\<forall>d \<in> set (sr_devices r). proven (sd_deviceKey d) \<and> (\<forall>sp \<in> set (sd_spans d). \<exists>joinedAt leftAt.
          sp = \<lparr>sp_joinedAt = toISOString joinedAt, sp_leftAt = toISOString leftAt\<rparr>
          \<and> openedAt \<le> joinedAt \<and> joinedAt \<le> leftAt \<and> leftAt \<le> closedAt)))"

definition backed_record :: "session_env \<Rightarrow> (session_record \<Rightarrow> bool) \<Rightarrow> jstr \<Rightarrow> bool" where
  "backed_record env good h = (\<exists>st r bytes key. statementBytes st = Inr bytes \<and> h = se_digest env bytes
     \<and> checkSessionRecord (se_platform env) st = Inr (st, r) \<and> se_key env = Some key
     \<and> sr_hostKey r = keyText (se_platform env) key \<and> good r)"

definition entries_ok :: "(jstr \<Rightarrow> bool) \<Rightarrow> session_host \<Rightarrow> bool" where
  "entries_ok proven s = (\<forall>c \<in> set (connection_list s). cn_connectedAt c \<le> sh_now s
     \<and> (\<forall>k. proven_key c = Some k \<longrightarrow> proven k))"

definition closing_ok :: "(recording_claim \<Rightarrow> jstr \<Rightarrow> bool) \<Rightarrow> (jstr \<times> tracked) list \<Rightarrow> bool" where
  "closing_ok accepted cl = (\<forall>sid t. map_of cl sid = Some t \<longrightarrow> claims_ok accepted sid (tr_claims t))"

definition attending :: "session_host \<Rightarrow> bool" where
  "attending s = (\<forall>t. sh_open s = Some t \<longrightarrow> fst ` set (tr_live t) = set (present_ids (connection_list s)))"

definition sessions_ok ::
  "session_env \<Rightarrow> (jstr \<Rightarrow> bool) \<Rightarrow> (recording_claim \<Rightarrow> jstr \<Rightarrow> bool) \<Rightarrow> session_host \<Rightarrow> bool" where
  "sessions_ok env proven accepted s = (entries_ok proven s
     \<and> (\<forall>t. sh_open s = Some t \<longrightarrow> tracked_ok proven (sh_now s) t \<and> own_claims_ok accepted t)
     \<and> closing_ok accepted (sh_closing s) \<and> meta_ok (sh_disk s)
     \<and> (\<forall>(doc, h, claims) \<in> set (sh_signed s). backed_record env (truthful proven accepted) h))"

abbreviation host_ok ::
  "session_env \<Rightarrow> (jstr \<Rightarrow> bool) \<Rightarrow> (recording_claim \<Rightarrow> jstr \<Rightarrow> bool) \<Rightarrow> session_host \<Rightarrow> bool" where
  "host_ok env proven accepted s \<equiv> sessions_ok env proven accepted s \<and> attending s"

lemma emit_ok:
  assumes "sessions_ok env proven accepted s"
  shows "host_ok env proven accepted (emit s)"
proof (cases "sh_open s")
  case None
  then have "emit s = s" by (simp add: emit_def connectionsChanged_def)
  with assms None show ?thesis by (simp add: attending_def)
next
  case (Some t)
  let ?t = "track (sh_now s) (connection_list s) t"
  have e: "emit s = s\<lparr>sh_open := Some ?t\<rparr>" using Some by (simp add: emit_def connectionsChanged_def)
  have t: "tracked_ok proven (sh_now s) t" "own_claims_ok accepted t"
    using assms Some by (auto simp: sessions_ok_def)
  have "\<forall>c \<in> set (connection_list s). cn_connectedAt c \<le> sh_now s \<and> (\<forall>k. proven_key c = Some k \<longrightarrow> proven k)"
    using assms by (simp add: sessions_ok_def entries_ok_def)
  note tr = track_ok [OF t(1) this]
  have c: "connection_list (s\<lparr>sh_open := x\<rparr>) = connection_list s" for x by (simp add: connection_list_def)
  show ?thesis
    using assms tr t(2) unfolding e by (auto simp: sessions_ok_def attending_def entries_ok_def c)
qed

lemma set_update_entries:
  "set (map (\<lambda>(k, c, a). c) (AList.update k (c, a) xs)) \<subseteq> insert c (set (map (\<lambda>(k, c, a). c) xs))"
proof -
  have "p \<in> set (AList.update k (c, a) xs) \<Longrightarrow> p = (k, c, a) \<or> p \<in> set xs" for p
    by (induction xs) (auto split: if_splits)
  then show ?thesis by force
qed

lemma set_delete_entries: "set (map (\<lambda>(k, c, a). c) (AList.delete k xs)) \<subseteq> set (map (\<lambda>(k, c, a). c) xs)"
  by (force simp: AList.delete_eq)

lemma add_connection_ok:
  assumes "host_ok env proven accepted s" "\<And>k. cd_deviceKey details = Some k \<Longrightarrow> k \<noteq> [] \<Longrightarrow> proven k"
    "add_connection socket details s = (r, s')"
  shows "host_ok env proven accepted s'"
proof -
  let ?c = "\<lparr>cn_id = js ''sync-connection-'' @ digits_text (decimal (sh_nextId s)), cn_label = cd_label details,
     cn_address = cd_address details, cn_connectedAt = sh_now s, cn_self = cd_self details, cn_deviceKey = cd_deviceKey details\<rparr>"
  let ?s = "s\<lparr>sh_nextId := sh_nextId s + 1, sh_entries := AList.update socket (?c, True) (sh_entries s)\<rparr>"
  have s': "s' = emit ?s" using assms(3) by (simp add: add_connection_def Let_def)
  have "proven_key ?c = Some k \<Longrightarrow> proven k" for k
    using assms(2) by (auto simp: proven_key_def split: option.splits list.splits)
  then have "entries_ok proven ?s"
    using assms(1) set_update_entries [of socket ?c True "sh_entries s"]
    by (fastforce simp: sessions_ok_def entries_ok_def connection_list_def)
  then have "sessions_ok env proven accepted ?s" using assms(1) by (simp add: sessions_ok_def)
  from emit_ok [OF this] show ?thesis unfolding s' .
qed

lemma remove_connection_ok: "host_ok env proven accepted s \<Longrightarrow> host_ok env proven accepted (remove_connection socket s)"
proof -
  assume ok: "host_ok env proven accepted s"
  let ?s = "s\<lparr>sh_entries := AList.delete socket (sh_entries s)\<rparr>"
  have "entries_ok proven ?s"
    using ok set_delete_entries [of socket "sh_entries s"] by (fastforce simp: sessions_ok_def entries_ok_def connection_list_def)
  then have "sessions_ok env proven accepted ?s" using ok by (simp add: sessions_ok_def)
  from emit_ok [OF this] ok show ?thesis by (simp add: remove_connection_def)
qed

lemma map_entries_update:
  "map_of xs k = Some (c, b) \<Longrightarrow> map (\<lambda>(k, c, a). c) (AList.update k (c, a) xs) = map (\<lambda>(k, c, a). c) xs"
  by (induction xs) auto

lemma mark_alive_ok: "host_ok env proven accepted s \<Longrightarrow> host_ok env proven accepted (mark_alive alive socket s)"
proof (cases "map_of (sh_entries s) socket")
  case (Some p)
  assume ok: "host_ok env proven accepted s"
  obtain c b where p: "p = (c, b)" by (cases p)
  let ?s = "mark_alive alive socket s"
  have "connection_list ?s = connection_list s" "sh_open ?s = sh_open s" "sh_closing ?s = sh_closing s"
      "sh_disk ?s = sh_disk s" "sh_signed ?s = sh_signed s"
    using Some map_entries_update [of "sh_entries s" socket c b alive]
    by (simp_all add: p mark_alive_def connection_list_def)
  with ok show ?thesis by (simp add: sessions_ok_def attending_def entries_ok_def)
qed (simp add: mark_alive_def)

lemma heartbeat_ok:
  assumes "host_ok env proven accepted s"
  shows "host_ok env proven accepted (heartbeat s)"
proof -
  have "host_ok env proven accepted
      (fold (\<lambda>(socket, c, alive). if alive then mark_alive False socket else remove_connection socket) xs s)" for xs
    using assms by (induction xs arbitrary: s) (auto simp: mark_alive_ok remove_connection_ok)
  then show ?thesis by (simp add: heartbeat_def)
qed

lemma close_registry_ok:
  assumes "host_ok env proven accepted s"
  shows "host_ok env proven accepted (close_registry s)"
proof -
  let ?s = "s\<lparr>sh_entries := []\<rparr>"
  have "sessions_ok env proven accepted ?s" using assms by (simp add: sessions_ok_def entries_ok_def connection_list_def)
  from emit_ok [OF this] show ?thesis by (simp add: close_registry_def emit_def connection_list_def)
qed

section \<open>The record\<close>

lemma open_session_ok:
  assumes "host_ok env proven accepted s" "open_session_on sid url s = (r, s')"
  shows "host_ok env proven accepted s'"
proof (cases "sh_open s = None \<and> map_of (sh_closing s) sid = None")
  case True
  let ?t = "\<lparr>tr_session = \<lparr>os_sessionId = sid, os_openedAt = sh_now s\<rparr>, tr_docUrl = url, tr_devices = [], tr_live = [], tr_claims = []\<rparr>"
  have s': "s' = s\<lparr>sh_open := Some (track (sh_now s) (connection_list s) ?t)\<rparr>"
    using assms(2) True by (simp add: open_session_on_def Let_def)
  have t: "tracked_ok proven (sh_now s) ?t" by (simp add: tracked_ok_def span_at_def)
  have "\<forall>c \<in> set (connection_list s). cn_connectedAt c \<le> sh_now s \<and> (\<forall>k. proven_key c = Some k \<longrightarrow> proven k)"
    using assms(1) by (simp add: sessions_ok_def entries_ok_def)
  note tr = track_ok [OF t this]
  have c: "connection_list (s\<lparr>sh_open := x\<rparr>) = connection_list s" for x by (simp add: connection_list_def)
  show ?thesis
    using assms(1) tr unfolding s' by (auto simp: sessions_ok_def attending_def entries_ok_def c claims_ok_def)
next
  case False
  then have "s' = s" using assms(2) by (auto simp: open_session_on_def split: option.splits if_splits)
  with assms(1) show ?thesis by simp
qed

lemma add_claim_simps [simp]:
  "tr_session (add_claim a t) = tr_session t" "tr_live (add_claim a t) = tr_live t"
  "tr_devices (add_claim a t) = tr_devices t" "set (tr_claims (add_claim a t)) = insert a (set (tr_claims t))"
  by (auto simp: add_claim_def)

lemma tracked_ok_claim [simp]: "tracked_ok proven now (add_claim a t) = tracked_ok proven now t"
  by (simp add: tracked_ok_def)

lemma claimVerified_ok:
  assumes "host_ok env proven accepted s" "accepted claim address"
  shows "host_ok env proven accepted (claimVerified claim address s)"
proof (cases "\<exists>t. sh_open s = Some t \<and> os_sessionId (tr_session t) = rc_sessionId claim")
  case True
  then obtain t where t: "sh_open s = Some t" "os_sessionId (tr_session t) = rc_sessionId claim" by blast
  have c: "connection_list (s\<lparr>sh_open := x\<rparr>) = connection_list s" for x by (simp add: connection_list_def)
  have "claims_ok accepted (rc_sessionId claim) (tr_claims (add_claim address t))"
    using assms t by (auto simp: sessions_ok_def claims_ok_def)
  with assms(1) t show ?thesis
    by (auto simp: claimVerified_def sessions_ok_def attending_def entries_ok_def c)
next
  case other: False
  show ?thesis
  proof (cases "map_of (sh_closing s) (rc_sessionId claim)")
    case None
    with assms(1) other show ?thesis by (simp only: claimVerified_def if_False option.case)
  next
    case (Some t)
    let ?cl = "AList.update (rc_sessionId claim) (add_claim address t) (sh_closing s)"
    have "closing_ok accepted ?cl"
      using assms Some by (auto simp: sessions_ok_def closing_ok_def claims_ok_def map_of_AList_update)
    moreover have "claimVerified claim address s = s\<lparr>sh_closing := ?cl\<rparr>"
      using Some by (simp only: claimVerified_def other if_False option.case)
    ultimately show ?thesis
      using assms(1) by (simp add: sessions_ok_def attending_def entries_ok_def connection_list_def)
  qed
qed

definition closed_ok :: "(jstr \<Rightarrow> bool) \<Rightarrow> (recording_claim \<Rightarrow> jstr \<Rightarrow> bool) \<Rightarrow> int \<Rightarrow> tracked \<Rightarrow> bool" where
  "closed_ok proven accepted closedAt t = (tracked_ok proven closedAt t \<and> tr_live t = [] \<and> own_claims_ok accepted t)"

lemma begin_close_ok:
  assumes "host_ok env proven accepted s" "begin_close s = (r, s')"
  shows "host_ok env proven accepted s'" "\<forall>t at. r = Inr (Some (t, at)) \<longrightarrow> closed_ok proven accepted at t" "r \<noteq> Inl e"
proof -
  show "r \<noteq> Inl e" using assms(2) by (auto simp: begin_close_def Let_def split: option.splits)
  have "host_ok env proven accepted s' \<and> (\<forall>t at. r = Inr (Some (t, at)) \<longrightarrow> closed_ok proven accepted at t)"
  proof (cases "sh_open s")
    case None
    with assms show ?thesis by (auto simp: begin_close_def)
  next
    case (Some t)
    let ?t = "leave_absent (sh_now s) [] t"
    let ?cl = "AList.update (os_sessionId (tr_session t)) ?t (sh_closing s)"
    have t: "tracked_ok proven (sh_now s) t" "own_claims_ok accepted t"
      using assms(1) Some by (auto simp: sessions_ok_def)
    note left = leave_ok [OF t(1), of "[]"]
    have "closed_ok proven accepted (sh_now s) ?t"
      using left t(2) by (simp add: closed_ok_def)
    moreover have "closing_ok accepted ?cl"
      using assms(1) left(3) t(2) by (auto simp: sessions_ok_def closing_ok_def map_of_AList_update)
    moreover have "r = Inr (Some (?t, sh_now s))" "s' = s\<lparr>sh_open := None, sh_closing := ?cl\<rparr>"
      using assms(2) Some by (simp_all add: begin_close_def Let_def)
    ultimately show ?thesis
      using assms(1) by (simp add: sessions_ok_def attending_def entries_ok_def connection_list_def)
  qed
  then show "host_ok env proven accepted s'" "\<forall>t at. r = Inr (Some (t, at)) \<longrightarrow> closed_ok proven accepted at t" by blast+
qed

lemma truthful_record:
  assumes "closed_ok proven accepted closedAt t" "claims_ok accepted (os_sessionId (tr_session t)) claims"
  shows "truthful proven accepted (session_record_of p (os_sessionId (tr_session t)) (os_openedAt (tr_session t)) closedAt
     (session_devices closedAt t) claims key)"
proof -
  have ok: "tracked_ok proven closedAt t" "tr_live t = []" using assms(1) by (simp_all add: closed_ok_def)
  have inside: "\<exists>l. ls_leftAt sp = Some l \<and> os_openedAt (tr_session t) \<le> ls_joinedAt sp \<and> ls_joinedAt sp \<le> l \<and> l \<le> closedAt"
    if kd: "(k, d) \<in> set (tr_devices t)" and sp: "sp \<in> set (td_spans d)" for k d sp
  proof -
    obtain i where "i < length (td_spans d)" "td_spans d ! i = sp" using sp by (auto simp: in_set_conv_nth)
    then have at: "span_at (tr_devices t) (k, i) = Some sp"
      using kd tracked_okD(4) [OF ok(1)] by (simp add: span_at_def)
    moreover have "ls_leftAt sp \<noteq> None"
      using tracked_okD(6) [OF ok(1), of "(k, i)"] at ok(2) by auto
    ultimately show ?thesis using tracked_okD(7) [OF ok(1) at] by auto
  qed
  have keys: "proven k" if "(k, d) \<in> set (tr_devices t)" for k d
    using tracked_okD(5) [OF ok(1)] that by force
  have dev: "proven (sd_deviceKey d) \<and> (\<forall>sp \<in> set (sd_spans d). \<exists>joinedAt leftAt.
          sp = \<lparr>sp_joinedAt = toISOString joinedAt, sp_leftAt = toISOString leftAt\<rparr>
          \<and> os_openedAt (tr_session t) \<le> joinedAt \<and> joinedAt \<le> leftAt \<and> leftAt \<le> closedAt)"
    if d: "d \<in> (\<lambda>device. device\<lparr>sd_spans := sortSpans (sd_spans device)\<rparr>) ` set (session_devices closedAt t)" for d
  proof -
    from d obtain k td where kd: "(k, td) \<in> set (tr_devices t)" "sd_deviceKey d = k"
        "set (sd_spans d) = (\<lambda>span. \<lparr>sp_joinedAt = toISOString (ls_joinedAt span),
          sp_leftAt = toISOString (case ls_leftAt span of None \<Rightarrow> closedAt | Some at \<Rightarrow> at)\<rparr>) ` set (td_spans td)"
      by (auto simp: session_devices_def sortSpans_def)
    then show ?thesis using keys inside [OF kd(1)] by fastforce
  qed
  show ?thesis
    unfolding truthful_def session_record_of_def
    by (intro exI [of _ "os_openedAt (tr_session t)"] exI [of _ closedAt])
      (use assms(2) dev tracked_okD(1) [OF ok(1)] in \<open>simp add: claims_ok_def\<close>)
qed

lemma claims_now_ok:
  "sessions_ok env proven accepted s \<Longrightarrow> own_claims_ok accepted t
     \<Longrightarrow> claims_ok accepted (os_sessionId (tr_session t)) (claims_now t s)"
  by (auto simp: sessions_ok_def closing_ok_def claims_now_def split: option.split)

section \<open>Every interleaving\<close>

abbreviation change :: "session_stretch \<Rightarrow> (session_host \<Rightarrow> session_host) \<Rightarrow> unit session_call" where
  "change l f \<equiv> perform l (writes f)"

inductive_set session_calls ::
  "session_env \<Rightarrow> (jstr \<Rightarrow> bool) \<Rightarrow> (recording_claim \<Rightarrow> jstr \<Rightarrow> bool) \<Rightarrow> (session_stretch, session_host, unit) thread set"
  for env proven accepted where
  connects: "(\<And>k. cd_deviceKey details = Some k \<Longrightarrow> k \<noteq> [] \<Longrightarrow> proven k) \<Longrightarrow>
    forget (perform Connections (add_connection socket details)) \<in> session_calls env proven accepted"
| disconnects: "forget (change Connections (remove_connection socket)) \<in> session_calls env proven accepted"
| answers: "forget (change Connections (pong socket)) \<in> session_calls env proven accepted"
| beats: "forget (change Connections heartbeat) \<in> session_calls env proven accepted"
| registry_closes: "forget (change Connections close_registry) \<in> session_calls env proven accepted"
| opens: "forget (perform Open (open_session_on sid url)) \<in> session_calls env proven accepted"
| verifies: "accepted claim address \<Longrightarrow>
    forget (change Claims (claimVerified claim address)) \<in> session_calls env proven accepted"
| closes: "forget (close_session env graceMs) \<in> session_calls env proven accepted"
| flushes: "forget (flush_sessions env) \<in> session_calls env proven accepted"

text \<open>Everything else on the host: time passes, the store changes and goes up and down.\<close>

definition host_moves :: "session_host \<Rightarrow> session_host \<Rightarrow> bool" where
  "host_moves s s' = (\<exists>d up. s' = s\<lparr>sh_disk := d, sh_store_up := up\<rparr> \<and> bd_clock (sh_disk s) \<le> bd_clock d
     \<and> (meta_ok (sh_disk s) \<longrightarrow> meta_ok d))"

lemma host_ok_moves:
  assumes "host_ok env proven accepted s" "bd_clock (sh_disk s) \<le> bd_clock d" "meta_ok d"
  shows "host_ok env proven accepted (s\<lparr>sh_disk := d, sh_store_up := up\<rparr>)"
  using assms by (auto simp: sessions_ok_def attending_def entries_ok_def connection_list_def
      intro: tracked_ok_later order_trans)

lemma host_ok_disk:
  assumes "host_ok env proven accepted s" "bd_clock d = bd_clock (sh_disk s)" "meta_ok d"
  shows "host_ok env proven accepted (s\<lparr>sh_disk := d\<rparr>)"
  using host_ok_moves [OF assms(1), of d "sh_store_up s"] assms(2,3) by simp

lemma keeps_stretch: "(\<And>s r s'. I s \<Longrightarrow> m s = (r, s') \<Longrightarrow> I s') \<Longrightarrow> safe I (perform l m)"
  by (rule safe_perform) (auto simp: keeps_def prod_eq_iff)

lemma store_record_yields:
  "yields (host_ok env proven accepted) (\<lambda>h. h = se_digest env bytes) (store_record env url bytes)"
  unfolding store_record_def
proof (rule yields_chain)
  show "yields (host_ok env proven accepted) (\<lambda>(m, deduped). bm_hash m = se_digest env bytes)
      (within sh_disk (\<lambda>d s. s\<lparr>sh_disk := d\<rparr>) Store Not_stored (ingestStream (se_digest env) (se_scratch env)
         \<lparr>src_chunks = [bytes], src_fails = False\<rparr> STATEMENT_MIME_TYPE (Some (js ''.json'')) url None))"
    by (rule yields_within_part [OF upload_yields upload_clock]) (simp add: sessions_ok_def, rule host_ok_disk)
qed auto

lemma sign_session_yields:
  assumes "closed_ok proven accepted closedAt t" "platform_ok (se_platform env)"
  shows "yields (host_ok env proven accepted) (backed_record env (truthful proven accepted)) (sign_session env t closedAt)"
  unfolding sign_session_def
proof (rule yields_chain)
  show "yields (host_ok env proven accepted) (claims_ok accepted (os_sessionId (tr_session t))) (perform Snapshot (snapshot t))"
    using assms(1) by (intro yields_perform) (auto simp: snapshot_def closed_ok_def intro: claims_now_ok split: if_splits)
next
  fix claims assume claims: "claims_ok accepted (os_sessionId (tr_session t)) claims"
  let ?p = "se_platform env"
  let ?create = "createSessionRecord ?p (os_sessionId (tr_session t)) (os_openedAt (tr_session t)) closedAt (session_devices closedAt t) claims"
  let ?rest = "\<lambda>key. case ?create key of Inl e \<Rightarrow> perform Key (fail (Not_serializable e))
     | Inr st \<Rightarrow> (case statementBytes st of Inl e \<Rightarrow> perform Key (fail (Not_serializable e))
        | Inr bytes \<Rightarrow> store_record env (tr_docUrl t) bytes)"
  have failing: "yields (host_ok env proven accepted) P (perform Key (fail e))" for P :: "jstr \<Rightarrow> bool" and e
    by (rule yields_perform) auto
  show "yields (host_ok env proven accepted) (backed_record env (truthful proven accepted))
     (sign_claims env t closedAt claims)"
    unfolding sign_claims_def
  proof (rule yields_chain)
    show "yields (host_ok env proven accepted) (\<lambda>key. se_key env = Some key)
        (perform Key (lift_sum (case se_key env of None \<Rightarrow> Inl Key_unavailable | Some k \<Rightarrow> Inr k)))"
      by (rule yields_perform) (auto split: option.splits)
  next
    fix key assume key: "se_key env = Some key"
    show "yields (host_ok env proven accepted) (backed_record env (truthful proven accepted)) (?rest key)"
    proof (cases "?create key")
      case (Inl e)
      then show ?thesis by (simp add: failing)
    next
      case st: (Inr st)
      let ?r = "session_record_of ?p (os_sessionId (tr_session t)) (os_openedAt (tr_session t)) closedAt
        (session_devices closedAt t) claims key"
      have ver: "payload st = record_value ?r" "verifyStatement ?p st (KeyText (keyText ?p key))"
        using verifyStatement_sign [OF assms(2) st [unfolded createSessionRecord_def]] by simp_all
      have hk: "sr_hostKey ?r = keyText ?p key" by (simp add: session_record_of_def)
      have check: "checkSessionRecord ?p st = Inr (st, ?r)"
        using ver hk by (simp add: checkSessionRecord_def view_rec)
      show ?thesis
      proof (cases "statementBytes st")
        case (Inl e)
        with st show ?thesis by (simp add: failing)
      next
        case bytes: (Inr bytes)
        have "backed_record env (truthful proven accepted) (se_digest env bytes)"
          unfolding backed_record_def using bytes check key hk truthful_record [OF assms(1) claims] by blast
        then have "yields (host_ok env proven accepted) (backed_record env (truthful proven accepted))
            (store_record env (tr_docUrl t) bytes)"
          by (intro yields_mono [OF store_record_yields]) simp
        with st bytes show ?thesis by simp
      qed
    qed
  qed
qed

lemma deliver_ok:
  assumes "host_ok env proven accepted s" "backed_record env (truthful proven accepted) h"
    "deliver_record t h s = (r, s')"
  shows "host_ok env proven accepted s'"
proof -
  have "s' = s\<lparr>sh_signed := sh_signed s @ [(tr_docUrl t, h, claims_now t s)]\<rparr>"
    using assms(3) by (simp add: deliver_record_def)
  with assms(1,2) show ?thesis by (simp add: sessions_ok_def attending_def entries_ok_def connection_list_def)
qed

lemma settle_ok:
  assumes "host_ok env proven accepted s" "settle_session t s = (r, s')"
  shows "host_ok env proven accepted s'"
proof -
  have "s' = s\<lparr>sh_closing := AList.delete (os_sessionId (tr_session t)) (sh_closing s)\<rparr>"
    using assms(2) by (simp add: settle_session_def)
  moreover have "closing_ok accepted (AList.delete (os_sessionId (tr_session t)) (sh_closing s))"
    using assms(1) by (auto simp: sessions_ok_def closing_ok_def map_of_AList_delete split: if_splits)
  ultimately show ?thesis using assms(1) by (simp add: sessions_ok_def attending_def entries_ok_def connection_list_def)
qed

lemma close_session_safe:
  assumes "platform_ok (se_platform env)"
  shows "safe (host_ok env proven accepted) (close_session env graceMs)"
  unfolding close_session_def
proof (rule yields_safe, rule yields_chain)
  show "yields (host_ok env proven accepted) (\<lambda>r. \<forall>t at. r = Some (t, at) \<longrightarrow> closed_ok proven accepted at t) (perform Close begin_close)"
    by (rule yields_perform) (use begin_close_ok in blast)
next
  let ?I = "host_ok env proven accepted"
  fix closed :: "(tracked \<times> int) option" assume c: "\<forall>t at. closed = Some (t, at) \<longrightarrow> closed_ok proven accepted at t"
  have pause: "yields ?I (\<lambda>_. True) (if 0 < graceMs then perform Grace (ret ()) else give ())"
    by (auto intro: yields_perform)
  have settle: "yields ?I (\<lambda>_. True) (chain (perform Settle (settle_session t)) (\<lambda>_. give x))" for t and x :: "jstr option"
    by (rule yields_chain [of _ "\<lambda>_. True"], rule yields_perform) (use settle_ok in blast, simp)
  have deliver: "yields ?I (\<lambda>_. True) (perform Deliver (deliver_record t h))"
    if "backed_record env (truthful proven accepted) h" for t h
    by (rule yields_perform) (use deliver_ok that in blast)
  have sign: "yields ?I (\<lambda>r. \<forall>h. r = Inr h \<longrightarrow> backed_record env (truthful proven accepted) h) (attempt (sign_session env t at))"
    if "closed_ok proven accepted at t" for t at
    by (rule yields_attempt [OF sign_session_yields [OF that assms]]) auto
  show "yields ?I (\<lambda>_. True) (case closed of None \<Rightarrow> give None
     | Some (t, closedAt) \<Rightarrow>
         chain (if 0 < graceMs then perform Grace (ret ()) else give ()) (\<lambda>_.
         chain (attempt (sign_session env t closedAt)) (\<lambda>signed. case signed of
             Inl e \<Rightarrow> chain (perform Settle (settle_session t)) (\<lambda>_. give None)
           | Inr hash \<Rightarrow> chain (perform Deliver (deliver_record t hash)) (\<lambda>_.
                chain (perform Settle (settle_session t)) (\<lambda>_. give (Some hash))))))"
  proof (cases closed)
    case (Some p)
    obtain t at where p: "p = (t, at)" by (cases p)
    have ok: "closed_ok proven accepted at t" using c Some p by simp
    show ?thesis unfolding Some p option.case prod.case
      by (rule yields_chain [OF pause], rule yields_chain [OF sign [OF ok]])
        (auto intro!: settle yields_chain [OF deliver] split: sum.split)
  qed simp
qed

lemma change_safe: "(\<And>s. I s \<Longrightarrow> I (f s)) \<Longrightarrow> safe I (change l f)"
  by (rule safe_perform) (simp add: keeps_def)

lemma stretches_safe:
  "(\<And>k. cd_deviceKey details = Some k \<Longrightarrow> k \<noteq> [] \<Longrightarrow> proven k) \<Longrightarrow>
     safe (host_ok env proven accepted) (perform Connections (add_connection socket details))"
  "accepted claim address \<Longrightarrow> safe (host_ok env proven accepted) (change Claims (claimVerified claim address))"
  "safe (host_ok env proven accepted) (perform Open (open_session_on sid url))"
  "safe (host_ok env proven accepted) (change Connections (remove_connection socket))"
  "safe (host_ok env proven accepted) (change Connections (pong socket))"
  "safe (host_ok env proven accepted) (change Connections heartbeat)"
  "safe (host_ok env proven accepted) (change Connections close_registry)"
  unfolding pong_def
proof goal_cases
  case 1
  then show ?case by (intro keeps_stretch) (rule add_connection_ok)
next
  case 2
  then show ?case by (intro change_safe claimVerified_ok)
next
  case 3
  then show ?case by (intro keeps_stretch) (rule open_session_ok)
qed (rule change_safe, erule remove_connection_ok mark_alive_ok heartbeat_ok close_registry_ok)+

lemma session_calls_safe:
  assumes "platform_ok (se_platform env)" "t \<in> session_calls env proven accepted"
  shows "safe (host_ok env proven accepted) t"
  using assms(2)
proof cases
  case (connects details socket)
  then show ?thesis unfolding connects safe_forget by (intro stretches_safe(1)) blast
qed (simp_all only: safe_forget flush_sessions_def stretches_safe close_session_safe [OF assms(1)])

text \<open>
  C30. However connections, sessions and claims interleave with the signing of closed sessions: the open
  spans of the session are exactly the connections there are with a proven key, and every record
  handed on for listing verifies under the host's key, is addressed by its bytes, lists only keys that
  were proven, with spans inside the session, and only claims the host verified for this session.
\<close>

theorem session_records_truthful:
  assumes "interleaved (session_calls env proven accepted) host_moves s0 tr ts s" "platform_ok (se_platform env)"
    "sh_entries s0 = []" "sh_open s0 = None" "sh_closing s0 = []" "sh_signed s0 = []" "meta_ok (sh_disk s0)"
  shows "attending s \<and> (\<forall>(doc, h, claims) \<in> set (sh_signed s). backed_record env (truthful proven accepted) h)"
proof -
  have "host_ok env proven accepted s0"
    using assms(3-7) by (simp add: sessions_ok_def attending_def entries_ok_def connection_list_def closing_ok_def)
  moreover have "host_ok env proven accepted s'" if "host_moves s s'" "host_ok env proven accepted s" for s s'
    using that(1) host_ok_moves [OF that(2)] that(2) unfolding host_moves_def sessions_ok_def by blast
  ultimately have "host_ok env proven accepted s"
    using interleaved_invariant [OF assms(1), of "host_ok env proven accepted"] session_calls_safe [OF assms(2)] by blast
  then show ?thesis by (simp add: sessions_ok_def)
qed

end
