(* ===== verification/Session_Outcomes.thy ===== *)
theory Session_Outcomes
  imports Session_Safety Example_Platform
begin

text \<open>
  What becomes of a session that closes: its record is stored and handed on, and what happens to a claim
  that the host verifies while the record is being signed.
\<close>

section \<open>Closing alone\<close>

lemma sha256Hex_valid: "platform_ok p \<Longrightarrow> isValidBlobHash (sha256Hex (sha256 p) bytes)"
proof -
  assume p: "platform_ok p"
  let ?hex = "\<lambda>u :: u16. 0x30 \<le> u \<and> u \<le> 0x39 \<or> 0x61 \<le> u \<and> u \<le> 0x66"
  have "list_all ?hex HEX_DIGITS" by (simp add: HEX_DIGITS_def js_def)
  then have hex: "list_all ?hex (toHex bs)" for bs
    using toHex_alphabet [of bs] unfolding list_all_iff by blast
  have "length (toHex bs) = 2 * length bs" for bs
    by (induction bs) (simp_all add: toHex_def hexByte_def)
  with p hex show ?thesis by (simp add: isValidBlobHash_def sha256Hex_def platform_ok_def)
qed

lemma run_sign_claims:
  assumes "se_key env = Some key" "platform_ok (se_platform env)" "bd_writable (sh_disk s)"
    "createSessionRecord (se_platform env) (os_sessionId (tr_session t)) (os_openedAt (tr_session t)) closedAt
       (session_devices closedAt t) claims key = Inr st" "statementBytes st = Inr bytes"
    "map_of (bd_objects (sh_disk s)) (se_digest env bytes) = None"
  obtains d where "run (sign_claims env t closedAt claims) s = (Inr (se_digest env bytes), s\<lparr>sh_disk := d\<rparr>)"
    "readBlob d (se_digest env bytes) = Some bytes" "tr_docUrl t \<in> set (readRefs d (se_digest env bytes))"
proof -
  have rcv: "receive None 0 (src_chunks \<lparr>src_chunks = [bytes], src_fails = False\<rparr>) = Inr bytes" by simp
  obtain m d where d: "run (ingestStream (se_digest env) (se_scratch env) \<lparr>src_chunks = [bytes], src_fails = False\<rparr>
       STATEMENT_MIME_TYPE (Some (js ''.json'')) (tr_docUrl t) None) (sh_disk s) = (Inr (m, False), d)"
      "bm_hash m = se_digest env bytes" "readBlob d (se_digest env bytes) = Some bytes"
      "tr_docUrl t \<in> set (readRefs d (se_digest env bytes))"
    by (rule upload_stores [where digest = "se_digest env", OF assms(3) rcv _ sha256Hex_valid [OF assms(2)] assms(6)]) simp_all
  have "run (within sh_disk (\<lambda>d s. s\<lparr>sh_disk := d\<rparr>) Store Not_stored (ingestStream (se_digest env) (se_scratch env)
       \<lparr>src_chunks = [bytes], src_fails = False\<rparr> STATEMENT_MIME_TYPE (Some (js ''.json'')) (tr_docUrl t) None)) s
      = (Inr (m, False), s\<lparr>sh_disk := d\<rparr>)"
    by (subst run_within) (simp_all add: d(1))
  then have "run (sign_claims env t closedAt claims) s = (Inr (se_digest env bytes), s\<lparr>sh_disk := d\<rparr>)"
    using assms(1,4,5) d(2) by (simp add: sign_claims_def store_record_def run_chain)
  with d(3,4) show ?thesis using that by blast
qed

text \<open>The end of the thread, once the record is stored.\<close>

abbreviation hand_on :: "tracked \<Rightarrow> (session_error + jstr) \<Rightarrow> jstr option session_call" where
  "hand_on t result \<equiv> (case result of
     Inl e \<Rightarrow> chain (perform Settle (settle_session t)) (\<lambda>_. give None)
   | Inr hash \<Rightarrow> chain (perform Deliver (deliver_record t hash)) (\<lambda>_.
        chain (perform Settle (settle_session t)) (\<lambda>_. give (Some hash))))"

lemma run_hand_on:
  "run (hand_on t (Inr h)) s = (Inr (Some h), s\<lparr>sh_signed := sh_signed s @ [(tr_docUrl t, h, claims_now t s)],
     sh_closing := AList.delete (os_sessionId (tr_session t)) (sh_closing s)\<rparr>)"
  by (simp add: run_chain deliver_record_def settle_session_def)

lemma run_tail:
  assumes "run sign s = (Inr h, s\<lparr>sh_disk := d\<rparr>)"
  shows "run (chain (attempt sign) (hand_on t)) s = (Inr (Some h), s\<lparr>sh_disk := d,
     sh_signed := sh_signed s @ [(tr_docUrl t, h, claims_now t s)],
     sh_closing := AList.delete (os_sessionId (tr_session t)) (sh_closing s)\<rparr>)"
  using run_hand_on [of t h "s\<lparr>sh_disk := d\<rparr>"] assms
  by (simp add: run_chain run_attempt claims_now_def)

definition closed_now :: "session_host \<Rightarrow> tracked \<Rightarrow> tracked" where
  "closed_now s t = leave_absent (sh_now s) [] t"

lemma closed_now_simps [simp]:
  "tr_session (closed_now s t) = tr_session t" "tr_docUrl (closed_now s t) = tr_docUrl t" "tr_claims (closed_now s t) = tr_claims t"
  by (simp_all add: closed_now_def leave_absent_def)

lemma close_run:
  assumes "sh_open s = Some t" "sh_store_up s" "se_key env = Some key" "platform_ok (se_platform env)" "bd_writable (sh_disk s)"
    "createSessionRecord (se_platform env) (os_sessionId (tr_session t)) (os_openedAt (tr_session t)) (sh_now s)
       (session_devices (sh_now s) (closed_now s t)) (tr_claims t) key = Inr st" "statementBytes st = Inr bytes"
    "map_of (bd_objects (sh_disk s)) (se_digest env bytes) = None"
  shows "\<exists>s'. run (close_session env graceMs) s = (Inr (Some (se_digest env bytes)), s')
     \<and> readBlob (sh_disk s') (se_digest env bytes) = Some bytes
     \<and> tr_docUrl t \<in> set (readRefs (sh_disk s') (se_digest env bytes))
     \<and> sh_signed s' = sh_signed s @ [(tr_docUrl t, se_digest env bytes, tr_claims t)]
     \<and> current_session s' = None \<and> map_of (sh_closing s') (os_sessionId (tr_session t)) = None"
proof -
  let ?t = "closed_now s t"
  define s1 where "s1 = s\<lparr>sh_open := None, sh_closing := AList.update (os_sessionId (tr_session t)) ?t (sh_closing s)\<rparr>"
  have closing: "begin_close s = (Inr (Some (?t, sh_now s)), s1)"
    using assms(1) by (simp add: begin_close_def Let_def closed_now_def s1_def)
  have claims: "claims_now ?t s1 = tr_claims t" by (simp add: claims_now_def s1_def map_of_AList_update)
  obtain d where d: "run (sign_claims env ?t (sh_now s) (tr_claims t)) s1 = (Inr (se_digest env bytes), s1\<lparr>sh_disk := d\<rparr>)"
      "readBlob d (se_digest env bytes) = Some bytes" "tr_docUrl t \<in> set (readRefs d (se_digest env bytes))"
    using run_sign_claims [of env key s1 ?t "sh_now s" "tr_claims t" st bytes] assms by (auto simp: s1_def)
  have "run (sign_session env ?t (sh_now s)) s1 = (Inr (se_digest env bytes), s1\<lparr>sh_disk := d\<rparr>)"
    using d(1) assms(2) claims by (simp add: sign_session_def run_chain snapshot_def) (simp add: s1_def)
  note tail = run_tail [OF this, of ?t]
  have "run (close_session env graceMs) s = run (chain (attempt (sign_session env ?t (sh_now s))) (hand_on ?t)) s1"
    by (simp add: close_session_def run_chain closing)
  with tail d claims show ?thesis
    by (simp add: current_session_def map_of_AList_delete) (simp add: s1_def)
qed

text \<open>
  C31. A session that is closed with the store up, a key and a writable disk gets its record: the call
  returns its hash, the store holds its bytes for the session's document, it is handed on with the
  session's claims, and the session is over.
\<close>

theorem close_signs:
  assumes "sh_open s = Some t" "sh_store_up s" "se_key env = Some key" "platform_ok (se_platform env)" "bd_writable (sh_disk s)"
    "createSessionRecord (se_platform env) (os_sessionId (tr_session t)) (os_openedAt (tr_session t)) (sh_now s)
       (session_devices (sh_now s) (closed_now s t)) (tr_claims t) key = Inr st" "statementBytes st = Inr bytes"
    "map_of (bd_objects (sh_disk s)) (se_digest env bytes) = None"
  shows "\<exists>s'. run (close_session env graceMs) s = (Inr (Some (se_digest env bytes)), s')
     \<and> readBlob (sh_disk s') (se_digest env bytes) = Some bytes
     \<and> tr_docUrl t \<in> set (readRefs (sh_disk s') (se_digest env bytes))
     \<and> sh_signed s' = sh_signed s @ [(tr_docUrl t, se_digest env bytes, tr_claims t)]
     \<and> current_session s' = None \<and> map_of (sh_closing s') (os_sessionId (tr_session t)) = None"
  using close_run [OF assms] .

section \<open>A claim that comes while the record is signed\<close>

lemma interrupt_attempt_chain:
  "m s = (Inr x, s') \<Longrightarrow> interrupt (Suc n) other (chain (attempt (chain (perform l m) k)) k') s
     = interrupt n other (chain (attempt (k x)) k') s'"
  by (simp add: perform_def)

text \<open>
  Between the snapshot of the claims and the listing of the record a claim of the session is still
  taken in. It is not in the record, but the record is handed on for it, and a recording that lists
  its claim and this record fails.
\<close>

lemma late_claim_fails_recording:
  assumes "sh_open s = Some t" "sh_store_up s" "se_key env = Some key" "platform_ok (se_platform env)" "bd_writable (sh_disk s)"
    "createSessionRecord (se_platform env) (os_sessionId (tr_session t)) (os_openedAt (tr_session t)) (sh_now s)
       (session_devices (sh_now s) (closed_now s t)) (tr_claims t) key = Inr st" "statementBytes st = Inr bytes"
    "map_of (bd_objects (sh_disk s)) (se_digest env bytes) = None"
    "rc_sessionId claim = os_sessionId (tr_session t)" "address \<notin> set (tr_claims t)"
  obtains s' r where "interrupt 2 (claimVerified claim address) (close_session env 0) s = (Inr (Some (se_digest env bytes)), s')"
    "last (sh_signed s') = (tr_docUrl t, se_digest env bytes, tr_claims t @ [address])"
    "checkSessionRecord (se_platform env) st = Inr (st, r)"
    "sessionProblem r [(address, claim)] = Some ClaimNotInSession"
proof -
  let ?t = "closed_now s t" and ?sid = "os_sessionId (tr_session t)"
  define s1 where "s1 = s\<lparr>sh_open := None, sh_closing := AList.update ?sid ?t (sh_closing s)\<rparr>"
  define s2 where "s2 = claimVerified claim address s1"
  have closing: "begin_close s = (Inr (Some (?t, sh_now s)), s1)"
    using assms(1) by (simp add: begin_close_def Let_def closed_now_def s1_def)
  have s2: "s2 = s1\<lparr>sh_closing := AList.update ?sid (add_claim address ?t) (sh_closing s1)\<rparr>"
    using assms(9) by (simp add: s2_def claimVerified_def s1_def map_of_AList_update)
  have late: "claims_now ?t s2 = tr_claims t @ [address]"
    using assms(10) by (simp add: s2 claims_now_def map_of_AList_update add_claim_def)
  obtain d where d: "run (sign_claims env ?t (sh_now s) (tr_claims t)) s2 = (Inr (se_digest env bytes), s2\<lparr>sh_disk := d\<rparr>)"
    using run_sign_claims [of env key s2 ?t "sh_now s" "tr_claims t" st bytes] assms by (auto simp: s1_def s2)
  have snap: "snapshot ?t s1 = (Inr (tr_claims t), s1)"
    using assms(2) by (simp add: snapshot_def claims_now_def s1_def map_of_AList_update)
  note tail = run_tail [OF d(1), of ?t, unfolded late]
  have run: "interrupt 2 (claimVerified claim address) (close_session env 0) s
      = run (chain (attempt (sign_claims env ?t (sh_now s) (tr_claims t))) (hand_on ?t)) s2"
    by (simp add: close_session_def numeral_2_eq_2 sign_session_def interrupt_perform_chain [of begin_close, OF closing]
        interrupt_attempt_chain [of "snapshot ?t", OF snap] flip: s2_def)
  let ?r = "session_record_of (se_platform env) ?sid (os_openedAt (tr_session t)) (sh_now s)
    (session_devices (sh_now s) ?t) (tr_claims t) key"
  note ver = verifyStatement_sign [OF assms(4) assms(6) [unfolded createSessionRecord_def]]
  have "sr_hostKey ?r = keyText (se_platform env) key" by (simp add: session_record_of_def)
  with ver have check: "checkSessionRecord (se_platform env) st = Inr (st, ?r)"
    by (simp add: checkSessionRecord_def view_rec)
  have "sessionProblem ?r [(address, claim)] = Some ClaimNotInSession"
    using assms(9,10) by (simp add: sessionProblem_def session_record_of_def)
  from that [OF _ _ check this] run tail show ?thesis by simp
qed

section \<open>A session from its opening to its record\<close>

lemma serializable_record:
  assumes "wellFormed (sr_sessionId r)" "wellFormed (sr_openedAt r)" "wellFormed (sr_closedAt r)" "wellFormed (sr_hostKey r)"
    "list_all wellFormed (sr_claims r)" "\<forall>d \<in> set (sr_devices r). wellFormed (sd_deviceKey d) \<and> (\<forall>l. sd_label d = Some l \<longrightarrow> wellFormed l)
       \<and> (\<forall>sp \<in> set (sd_spans d). wellFormed (sp_joinedAt sp) \<and> wellFormed (sp_leftAt sp))"
  shows "serializable (record_value r)"
proof -
  have spans: "serializable (span_value sp) \<and> span_value sp \<noteq> JUndefined" if "wellFormed (sp_joinedAt sp)" "wellFormed (sp_leftAt sp)" for sp
    using that by (simp add: span_value_def obj_def wellFormed_js plain_unit_def)
  have "serializable (device_value d) \<and> device_value d \<noteq> JUndefined" if "d \<in> set (sr_devices r)" for d
    using that assms(6) spans by (fastforce simp: device_value_def obj_def wellFormed_js plain_unit_def list_all_iff split: option.split)
  with assms show ?thesis
    by (simp add: record_value_def obj_def statement_types wellFormed_js plain_unit_def list_all_iff)
qed

definition ex_session_env :: session_env where
  "ex_session_env = \<lparr>se_platform = toy, se_key = Some [3], se_scratch = []\<rparr>"

definition ex_session_claim :: recording_claim where
  "ex_session_claim = \<lparr>rc_hash = [], rc_size = Zero False, rc_mimeType = [], rc_startedAt = [], rc_endedAt = [],
     rc_sessionId = js ''s'', rc_deviceKey = [], rc_deviceCert = None\<rparr>"

definition ex_idle :: session_host where
  "ex_idle = \<lparr>sh_entries = [], sh_nextId = 1, sh_open = None, sh_closing = [], sh_disk = ex_disk, sh_store_up = True, sh_signed = []\<rparr>"

definition ex_tracked :: tracked where
  "ex_tracked = \<lparr>tr_session = \<lparr>os_sessionId = js ''s'', os_openedAt = 0\<rparr>, tr_docUrl = js ''root'',
     tr_devices = [(js ''key'', \<lparr>td_label = None, td_spans = [\<lparr>ls_joinedAt = 0, ls_leftAt = None\<rparr>]\<rparr>)],
     tr_live = [(js ''sync-connection-'' @ digits_text (decimal 1), (js ''key'', 0))], tr_claims = [js ''claim'']\<rparr>"

definition ex_in_session :: session_host where
  "ex_in_session = ex_idle\<lparr>sh_nextId := 2, sh_open := Some ex_tracked, sh_entries := [(0, \<lparr>
     cn_id = js ''sync-connection-'' @ digits_text (decimal 1), cn_label = None, cn_address = None, cn_connectedAt = 0,
     cn_self = False, cn_deviceKey = Some (js ''key'')\<rparr>, True)]\<rparr>"

definition ex_details :: connection_details where
  "ex_details = \<lparr>cd_label = None, cd_address = None, cd_self = False, cd_deviceKey = Some (js ''key'')\<rparr>"

lemma ex_session_so_far:
  "claimVerified ex_session_claim (js ''claim'') (snd (open_session_on (js ''s'') (js ''root'')
     (snd (add_connection 0 ex_details ex_idle)))) = ex_in_session"
  by (simp add: add_connection_def Let_def emit_def connectionsChanged_def ex_idle_def ex_details_def open_session_on_def
      connection_list_def track_def join_connection_def proven_key_def js_def leave_absent_def present_ids_def
      claimVerified_def ex_session_claim_def add_claim_def ex_in_session_def ex_tracked_def ex_disk_def del: decimal.simps)

lemma ex_record_signed:
  obtains st bytes where "createSessionRecord toy (js ''s'') 0 0 (session_devices 0 (closed_now ex_in_session ex_tracked))
      [js ''claim''] [3] = Inr st" "statementBytes st = Inr bytes"
proof -
  have "serializable (record_value (session_record_of toy (js ''s'') 0 0
      (session_devices 0 (closed_now ex_in_session ex_tracked)) [js ''claim''] [3]))"
    by (rule serializable_record)
      (simp_all add: session_record_of_def session_devices_def closed_now_def leave_absent_def end_span_def ex_tracked_def
        sortSpans_def wellFormed_js plain_unit_def exportPublicKey_def)
  from sign_total [OF this] show ?thesis using that unfolding createSessionRecord_def by metis
qed

lemma ex_closing:
  "sh_open ex_in_session = Some ex_tracked" "sh_store_up ex_in_session" "se_key ex_session_env = Some [3]"
  "platform_ok (se_platform ex_session_env)" "bd_writable (sh_disk ex_in_session)"
  "map_of (bd_objects (sh_disk ex_in_session)) h = None"
  "sh_now ex_in_session = 0" "sh_signed ex_in_session = []" "se_platform ex_session_env = toy"
  "tr_session ex_tracked = \<lparr>os_sessionId = js ''s'', os_openedAt = 0\<rparr>" "tr_claims ex_tracked = [js ''claim'']"
  "tr_docUrl ex_tracked = js ''root''"
  by (simp_all add: ex_in_session_def ex_idle_def ex_session_env_def ex_disk_def toy_ok ex_tracked_def)

lemma ex_close:
  obtains h s' where "run (close_session ex_session_env 60000) ex_in_session = (Inr (Some h), s')"
    "sh_signed s' = [(js ''root'', h, [js ''claim''])]"
proof -
  obtain st bytes where st: "createSessionRecord toy (js ''s'') 0 0 (session_devices 0 (closed_now ex_in_session ex_tracked))
      [js ''claim''] [3] = Inr st" "statementBytes st = Inr bytes" by (rule ex_record_signed)
  show ?thesis
    using close_run [OF ex_closing(1-5) _ st(2) ex_closing(6), of 60000] st(1) that by (auto simp: ex_closing)
qed

lemma close_signs_witness:
  "\<exists>h s'. run (close_session ex_session_env 60000) ex_in_session = (Inr (Some h), s')
     \<and> sh_signed s' = [(js ''root'', h, [js ''claim''])] \<and> current_session s' = None"
proof -
  obtain st bytes where st: "createSessionRecord toy (js ''s'') 0 0 (session_devices 0 (closed_now ex_in_session ex_tracked))
      [js ''claim''] [3] = Inr st" "statementBytes st = Inr bytes" by (rule ex_record_signed)
  show ?thesis
    using close_signs [OF ex_closing(1-5) _ st(2) ex_closing(6), of 60000] st(1) by (auto simp: ex_closing)
qed

lemma session_records_truthful_witness:
  "\<exists>tr ts s h. interleaved (session_calls ex_session_env (\<lambda>k. k = js ''key'') (\<lambda>c a. c = ex_session_claim)) host_moves ex_idle tr ts s
     \<and> sh_signed s = [(js ''root'', h, [js ''claim''])]
     \<and> backed_record ex_session_env (truthful (\<lambda>k. k = js ''key'') (\<lambda>c a. c = ex_session_claim)) h"
proof -
  let ?calls = "session_calls ex_session_env (\<lambda>k. k = js ''key'') (\<lambda>c a. c = ex_session_claim)"
  let ?s1 = "snd (add_connection 0 ex_details ex_idle)"
  let ?s2 = "snd (open_session_on (js ''s'') (js ''root'') ?s1)"
  have c: "forget (perform Connections (add_connection 0 ex_details)) \<in> ?calls"
    by (rule session_calls.connects) (simp add: ex_details_def)
  obtain tr1 ts1 where 1: "interleaved ?calls host_moves ex_idle tr1 ts1 ?s1"
    using interleaved_run [OF interleaved.start c, of host_moves ex_idle] by auto
  obtain tr2 ts2 where 2: "interleaved ?calls host_moves ex_idle tr2 ts2 ?s2"
    using interleaved_run [OF 1 session_calls.opens [of "js ''s''" "js ''root''"]] by auto
  obtain tr3 ts3 where 3: "interleaved ?calls host_moves ex_idle tr3 ts3 ex_in_session"
    using interleaved_run [OF 2 session_calls.verifies [of _ ex_session_claim "js ''claim''"]] by (auto simp: ex_session_so_far)
  obtain h s' where h: "run (close_session ex_session_env 60000) ex_in_session = (Inr (Some h), s')"
      "sh_signed s' = [(js ''root'', h, [js ''claim''])]"
    by (rule ex_close)
  obtain tr ts where i: "interleaved ?calls host_moves ex_idle tr ts s'"
    using interleaved_run [OF 3 session_calls.closes [of _ 60000]] h(1) by auto
  have "platform_ok (se_platform ex_session_env)" by (simp add: ex_session_env_def toy_ok)
  from session_records_truthful [OF i this] h(2) i show ?thesis
    by (auto simp: ex_idle_def ex_disk_def meta_ok_def)
qed

end
