(* ===== verification/Blob_Serving.thy ===== *)
theory Blob_Serving
  imports Blob_Http Session_Outcomes
begin

text \<open>
  What the \<open>/blobs\<close> routes promise end to end: what was uploaded is served as it was, and what is served
  as a signed statement is one, whatever requests and other users of the store take turns.
\<close>

section \<open>An upload and its download\<close>

lemma hex_digits: "list_all (\<lambda>u. 0x30 \<le> u \<and> u \<le> 0x39 \<or> 0x61 \<le> u \<and> u \<le> 0x66) HEX_DIGITS" "length HEX_DIGITS = 16"
  by (simp_all add: HEX_DIGITS_def js_def)

lemma hex_valid: "length bs = 32 \<Longrightarrow> isValidBlobHash (toHex bs)"
proof -
  have b: "length (hexByte b) = 2 \<and> list_all (\<lambda>u. 0x30 \<le> u \<and> u \<le> 0x39 \<or> 0x61 \<le> u \<and> u \<le> 0x66) (hexByte b)" for b
  proof -
    have "unat b < 256" using unsigned_less [of b] by simp
    then have "unat (drop_bit 4 b) < 16" unfolding unat_drop_bit_eq by (simp add: drop_bit_eq_div)
    moreover have "unat (b AND 0xf) < 16" using unat_and_mask(3) [of b] by simp
    moreover have "0x30 \<le> HEX_DIGITS ! n \<and> HEX_DIGITS ! n \<le> 0x39 \<or> 0x61 \<le> HEX_DIGITS ! n \<and> HEX_DIGITS ! n \<le> 0x66"
      if "n < 16" for n using hex_digits that by (simp add: list_all_length)
    ultimately show ?thesis by (simp add: hexByte_def)
  qed
  have "length (toHex bs) = 2 * length bs \<and> list_all (\<lambda>u. 0x30 \<le> u \<and> u \<le> 0x39 \<or> 0x61 \<le> u \<and> u \<le> 0x66) (toHex bs)" for bs
    by (induction bs) (use b in \<open>auto simp: toHex_def\<close>)
  then show "length bs = 32 \<Longrightarrow> isValidBlobHash (toHex bs)" by (simp add: isValidBlobHash_def)
qed

lemma digest_valid: "platform_ok p \<Longrightarrow> isValidBlobHash (address_of p bytes)"
  by (simp add: sha256Hex_def hex_valid platform_ok_def)

lemma receive_concat: "receive mx got cs = Inr bytes \<Longrightarrow> bytes = concat cs"
proof (induction mx got cs arbitrary: bytes rule: receive.induct)
  case (2 mx got c cs)
  then show ?case by (cases "receive mx (got + length c) cs") (auto simp: Let_def split: if_splits option.splits)
qed simp

text \<open>What a call that runs on its own keeps.\<close>

definition lasting :: "(blob_disk \<Rightarrow> bool) \<Rightarrow> ('l, blob_disk, 'r) thread \<Rightarrow> bool" where
  "lasting I t = (\<forall>s. I s \<longrightarrow> I (snd (run t s)))"

lemma lasting_give [simp]: "lasting I (give x)" "lasting I (Done r)"
  by (simp_all add: lasting_def)

lemma lasting_chain: "lasting I t \<Longrightarrow> (\<And>x. lasting I (k x)) \<Longrightarrow> lasting I (chain t k)"
  unfolding lasting_def run_chain by (fastforce split: sum.split prod.split)

lemma lasting_look: "(\<And>s. I s \<Longrightarrow> lasting I (k (f s))) \<Longrightarrow> lasting I (chain (perform l (reads f)) k)"
  by (simp add: lasting_def run_chain)

lemma lasting_attempt: "lasting I t \<Longrightarrow> lasting I (attempt t)"
  by (simp add: lasting_def run_attempt)

definition holds_file :: "jstr \<Rightarrow> u8 list \<Rightarrow> blob_meta \<Rightarrow> blob_disk \<Rightarrow> bool" where
  "holds_file h bytes m s = (readBlob s h = Some bytes \<and> statBlob s h = Some m)"

lemma holds_file_same:
  "holds_file h bytes m s \<Longrightarrow> map_of (bd_objects s') h = map_of (bd_objects s) h \<Longrightarrow> map_of (bd_metas s') h = map_of (bd_metas s) h
    \<Longrightarrow> holds_file h bytes m s'"
proof -
  assume "map_of (bd_objects s') h = map_of (bd_objects s) h" "map_of (bd_metas s') h = map_of (bd_metas s) h"
  then have "readBlob s' h = readBlob s h" "statBlob s' h = statBlob s h"
    by (simp_all add: readBlob_def statBlob_def split: option.split)
  then show "holds_file h bytes m s \<Longrightarrow> holds_file h bytes m s'" by (simp add: holds_file_def)
qed

lemma holds_has: "holds_file h bytes m s \<Longrightarrow> has_blob s h"
  by (auto simp: holds_file_def has_blob_def statBlob_def split: if_splits option.splits)

lemma lasting_frame:
  assumes "\<And>s r s'. m s = (r, s') \<Longrightarrow> map_of (bd_objects s') h = map_of (bd_objects s) h \<and> map_of (bd_metas s') h = map_of (bd_metas s) h"
  shows "lasting (holds_file h bytes meta) (perform l m)"
  using assms unfolding lasting_def run_perform by (metis holds_file_same prod.collapse)

lemma lasting_simple [simp]:
  "lasting (holds_file h bytes m) (perform l (reads f))" "lasting (holds_file h bytes m) (perform l (lift_sum e))"
  "lasting (holds_file h bytes m) (perform l (addRef a d))" "lasting (holds_file h bytes m) (perform l (recordReceipt a c))"
  "lasting (holds_file h bytes m) (perform l (drop_scratch t))"
  "lasting (holds_file h bytes m) (perform l (receive_scratch t mx src))"
  by (rule lasting_frame, simp add: reads_def lift_sum_def)+
    (rule lasting_frame, metis stretch_frame metas_frame)+

lemma lasting_elsewhere:
  assumes "a \<noteq> h"
  shows "lasting (holds_file h bytes m) (perform l (place_scratch t a bs))" "lasting (holds_file h bytes m) (perform l (finalizeMeta a n mt e))"
  using assms by (auto intro!: lasting_frame simp: place_scratch_def blob_defs map_of_AList_update split: if_splits)

lemma describe_lasting: "lasting (holds_file h bytes m) (describe_held a n mt e)"
  unfolding describe_held_def
proof (rule lasting_look)
  fix s assume "holds_file h bytes m s"
  then show "lasting (holds_file h bytes m)
      (case statBlob s a of None \<Rightarrow> perform Describe (finalizeMeta a n mt e) | Some x \<Rightarrow> give x)"
    using lasting_elsewhere(2) [of a h bytes m Describe n mt e]
    by (cases "a = h") (auto simp: holds_file_def split: option.split)
qed

lemma ingest_lasting: "lasting (holds_file h bytes m) (ingestStream digest scratch src mt e doc mx)"
  unfolding ingestStream_def Let_def
proof (rule lasting_chain, simp, rule lasting_look)
  fix x s assume "holds_file h bytes m s"
  then have "\<not> has_blob s (digest x) \<Longrightarrow> digest x \<noteq> h" using holds_has by blast
  then show "lasting (holds_file h bytes m) (if has_blob s (digest x)
       then chain (perform Place (drop_scratch scratch)) (\<lambda>_. chain (perform Own (addRef (digest x) doc)) (\<lambda>_.
         chain (describe_held (digest x) (length x) mt (resolveExt mt e)) (\<lambda>m. give (m, True))))
       else chain (perform Place (place_scratch scratch (digest x) x)) (\<lambda>_.
         chain (perform Describe (finalizeMeta (digest x) (length x) mt (resolveExt mt e))) (\<lambda>m.
         chain (perform Own (addRef (digest x) doc)) (\<lambda>_. give (m, False)))))"
    by (auto intro!: lasting_chain lasting_elsewhere describe_lasting)
qed

lemma storing_lasting: "lasting (holds_file h bytes m) (storeStatements env n sts docUrl)"
proof (induction sts arbitrary: n)
  case (Cons st sts)
  have "lasting (holds_file h bytes m) (case statementBytes st of Inl e \<Rightarrow> give None
     | Inr bs \<Rightarrow> chain (attempt (store_bytes env n bs docUrl)) (\<lambda>r.
         give (case r of Inl e \<Rightarrow> None | Inr (m, deduped) \<Rightarrow> Some (bm_hash m))))"
    by (auto intro!: lasting_chain lasting_attempt ingest_lasting simp: store_bytes_def split: sum.split)
  then show ?case unfolding storeStatements.simps by (intro lasting_chain Cons lasting_give)
qed simp

lemma claim_lasting: "lasting (holds_file h bytes m) (verifyClaimOnIngest env encoded received docUrl certificate)"
proof -
  let ?I = "holds_file h bytes m"
  have "lasting ?I (readStoredStatement p a)" for p a
    unfolding readStoredStatement_def by (auto intro!: lasting_chain)
  then have "lasting ?I (receiptFor env st claimHash at)" for st claimHash at
    unfolding receiptFor_def readOwnReceipt_def by (auto intro!: lasting_chain split: host_key.split option.split list.split)
  moreover have "lasting ?I (indexReceipt p claimHash st hs)" for p claimHash st hs
    unfolding indexReceipt_def by (auto intro!: lasting_chain lasting_attempt split: sum.split)
  ultimately have "lasting ?I (receiptAndStore env st claim claimHash at docUrl certificate)" for st claim claimHash at
    unfolding receiptAndStore_def Let_def
    by (auto intro!: lasting_chain storing_lasting simp del: storeStatements.simps split: option.split)
  then show ?thesis
    unfolding verifyClaimOnIngest_def Let_def by (auto intro!: lasting_chain split: option.split sum.split prod.split)
qed

lemma run_chainE:
  assumes "run (chain t k) s = (Inr y, s')"
  obtains x s1 where "run t s = (Inr x, s1)" "run (k x) s1 = (Inr y, s')"
  using assms that by (auto simp: run_chain split: prod.splits sum.splits)

lemma run_ingest:
  assumes "run (ingestStream digest scratch src mt e doc mx) s = (Inr (m, deduped), s')" "meta_ok s"
    "isValidBlobHash (digest (concat (src_chunks src)))"
    "\<And>file. readBlob s (digest (concat (src_chunks src))) = Some file \<Longrightarrow> file = concat (src_chunks src)"
  shows "bm_hash m = digest (concat (src_chunks src)) \<and> holds_file (digest (concat (src_chunks src))) (concat (src_chunks src)) m s'"
proof -
  define bytes where "bytes = concat (src_chunks src)"
  let ?h = "digest bytes"
  note assms = assms [folded bytes_def]
  obtain x s1 where r: "run (perform Receive (receive_scratch scratch mx src)) s = (Inr x, s1)"
    and rest: "run (chain (perform Look (reads (\<lambda>s. has_blob s (digest x)))) (\<lambda>held.
       if held then chain (perform Place (drop_scratch scratch)) (\<lambda>_. chain (perform Own (addRef (digest x) doc)) (\<lambda>_.
         chain (describe_held (digest x) (length x) mt (resolveExt mt e)) (\<lambda>m. give (m, True))))
       else chain (perform Place (place_scratch scratch (digest x) x)) (\<lambda>_.
         chain (perform Describe (finalizeMeta (digest x) (length x) mt (resolveExt mt e))) (\<lambda>m.
         chain (perform Own (addRef (digest x) doc)) (\<lambda>_. give (m, False)))))) s1 = (Inr (m, deduped), s')"
    by (rule run_chainE [OF assms(1) [unfolded ingestStream_def Let_def]])
  from r have rcv: "receive_scratch scratch mx src s = (Inr x, s1)" by simp
  have x: "x = bytes" using rcv receive_concat [of mx 0 "src_chunks src"]
    by (auto simp: receive_scratch_def bytes_def split: if_splits sum.splits)
  have s1: "readBlob s1 ?h = readBlob s ?h" "meta_ok s1"
    using stretch_frame(6) [OF rcv] upload_frame(3) [OF rcv] assms(2) by (simp_all add: readBlob_def)
  show ?thesis
  proof (cases "has_blob s1 ?h")
    case True
    then obtain f where "readBlob s1 ?h = Some f" by (auto simp: has_blob_def readBlob_def)
    with s1(1) assms(4) [of f] have held: "readBlob s1 ?h = Some bytes" by simp
    from rest True obtain s2 refs s3 where 2: "drop_scratch scratch s1 = (Inr (), s2)" "addRef ?h doc s2 = (Inr refs, s3)"
        "run (describe_held ?h (length bytes) mt (resolveExt mt e)) s3 = (Inr m, s')"
      unfolding x by (auto elim!: run_chainE)
    have s3: "readBlob s3 ?h = Some bytes" "meta_ok s3"
      using stretch_frame(5) [OF 2(1)] stretch_frame(1) [OF 2(2)] upload_frame(2) [OF 2(1)] upload_frame(1) [OF 2(2)] held s1(2)
      by (simp_all add: readBlob_def)
    show ?thesis
    proof (cases "statBlob s3 ?h")
      case None
      with 2(3) have "finalizeMeta ?h (length bytes) mt (resolveExt mt e) s3 = (Inr m, s')"
        by (simp add: describe_held_def run_chain)
      with s3 assms(3) show ?thesis unfolding bytes_def [symmetric]
        by (auto simp: finalizeMeta_def disk_write_def and_then_def Let_def holds_file_def readBlob_def statBlob_def split: if_splits)
    next
      case (Some m')
      with 2(3) s3 statBlob_hash [OF s3(2) Some] show ?thesis unfolding bytes_def [symmetric]
        by (auto simp: describe_held_def run_chain holds_file_def)
    qed
  next
    case False
    with rest obtain s2 s3 refs where 2: "place_scratch scratch ?h bytes s1 = (Inr (), s2)"
        "finalizeMeta ?h (length bytes) mt (resolveExt mt e) s2 = (Inr m, s3)" "addRef ?h doc s3 = (Inr refs, s')"
      unfolding x by (auto elim!: run_chainE)
    have "readBlob s2 ?h = Some bytes"
      using 2(1) by (auto simp: place_scratch_def disk_write_def readBlob_def split: if_splits)
    with 2(2) assms(3) have "bm_hash m = ?h \<and> holds_file ?h bytes m s3"
      by (auto simp: finalizeMeta_def disk_write_def and_then_def Let_def holds_file_def readBlob_def statBlob_def split: if_splits)
    with stretch_frame(1) [OF 2(3)] metas_frame(1) [OF 2(3)] holds_file_same [of ?h bytes m s3 s'] show ?thesis
      unfolding bytes_def [symmetric] by simp
  qed
qed

text \<open>
  The type of an address is that of its first upload: the bytes of a statement that came first as audio
  stay audio, however they are uploaded later.
\<close>

lemma first_type_stays:
  assumes "run (ingestStream digest scratch \<lparr>src_chunks = [bytes], src_fails = False\<rparr> STATEMENT_MIME_TYPE e doc None) s
      = (Inr (m', deduped), s')" "meta_ok s" "isValidBlobHash (digest bytes)" "holds_file (digest bytes) bytes m s"
  shows "m' = m"
proof -
  have "holds_file (digest bytes) bytes m' s'"
    using run_ingest [OF assms(1,2)] assms(3,4) by (simp add: holds_file_def)
  moreover have "holds_file (digest bytes) bytes m s'"
    using ingest_lasting [of "digest bytes" bytes m digest scratch "\<lparr>src_chunks = [bytes], src_fails = False\<rparr>"
      STATEMENT_MIME_TYPE e doc None] assms(1,4) unfolding lasting_def by fastforce
  ultimately show ?thesis by (simp add: holds_file_def)
qed

lemma lasting_reads [simp]: "lasting I (perform l (reads f))"
  by (simp add: lasting_def)

lemma check_lasting: "lasting I (checkUploadedStatement p bytes forClaim)"
proof -
  have r: "lasting I (readStoredStatement p h)" for h
    unfolding readStoredStatement_def by (auto intro!: lasting_chain)
  have c: "lasting I (storedClaim p h)" for h unfolding storedClaim_def by (auto intro!: lasting_chain r)
  have l: "lasting I (storedLink p h)" for h unfolding storedLink_def by (auto intro!: lasting_chain r)
  have h: "lasting I (holdsClaim p h)" for h unfolding holdsClaim_def by (auto intro!: lasting_chain c)
  have a: "lasting I (holdsAnyClaim p hs)" for hs by (induction hs) (auto intro!: lasting_chain h)
  have "lasting I (checkClaim p st)" "lasting I (checkReceipt p st)" "lasting I (checkSession p st)"
    "lasting I (checkDeviceLinkUpload p st forClaim)" "lasting I (checkRevocationUpload p st)" for st
    unfolding checkClaim_def checkReceipt_def checkSession_def checkDeviceLinkUpload_def checkRevocationUpload_def
    by (auto intro!: lasting_chain c l h a split: sum.split option.split list.split)
  then show ?thesis by (simp add: checkUploadedStatement_def Let_def split: option.split sum.split)
qed

lemma run_store_statement:
  assumes "platform_ok (ie_platform (bo_ingest opts))" "meta_ok s" "ba_body a = Taken m deduped c"
    "run (store_statement opts scratch bytes docUrl forClaim) s = (Inr a, s')"
    "\<And>f. readBlob s (store_digest (bo_ingest opts) bytes) = Some f \<Longrightarrow> f = bytes"
  shows "bm_hash m = store_digest (bo_ingest opts) bytes \<and> holds_file (bm_hash m) bytes m s'"
proof -
  let ?env = "bo_ingest opts"
  obtain problem s1 where check: "run (checkUploadedStatement (ie_platform ?env) bytes forClaim) s = (Inr problem, s1)"
    and rest: "run (case problem of Some why \<Rightarrow> give (blob_answered 422 (Not_bound why))
       | None \<Rightarrow> chain (ingestStream (store_digest ?env) scratch \<lparr>src_chunks = [bytes], src_fails = False\<rparr>
               STATEMENT_MIME_TYPE (Some (js ''.json'')) docUrl None) (\<lambda>(meta, deduped). give (taken meta deduped None))) s1 = (Inr a, s')"
    by (rule run_chainE [OF assms(4) [unfolded store_statement_def]])
  have "s1 = s"
    using check_lasting [of "\<lambda>x. x = s" "ie_platform ?env" bytes forClaim] check by (simp add: lasting_def)
  moreover have "problem = None" using rest assms(3) by (auto split: option.splits)
  ultimately have ingest: "run (chain (ingestStream (store_digest ?env) scratch \<lparr>src_chunks = [bytes], src_fails = False\<rparr>
      STATEMENT_MIME_TYPE (Some (js ''.json'')) docUrl None) (\<lambda>(meta, deduped). give (taken meta deduped None))) s = (Inr a, s')"
    using rest by simp
  obtain x s2 where x: "run (ingestStream (store_digest ?env) scratch \<lparr>src_chunks = [bytes], src_fails = False\<rparr>
      STATEMENT_MIME_TYPE (Some (js ''.json'')) docUrl None) s = (Inr x, s2)"
      "run (case x of (meta, deduped) \<Rightarrow> (give (taken meta deduped None) :: blob_answer blob_call)) s2 = (Inr a, s')"
    by (rule run_chainE [OF ingest])
  then have "run (ingestStream (store_digest ?env) scratch \<lparr>src_chunks = [bytes], src_fails = False\<rparr>
      STATEMENT_MIME_TYPE (Some (js ''.json'')) docUrl None) s = (Inr (m, snd x), s')"
    using assms(3) by (cases x) (auto simp: taken_def)
  from run_ingest [OF this assms(2)] assms(5) digest_valid [OF assms(1)] show ?thesis by simp
qed

lemma run_audio:
  assumes "platform_ok (ie_platform (bo_ingest opts))" "meta_ok s" "ba_body a = Taken m deduped c"
    "run (handleAudioUpload opts scratch rq type docUrl) s = (Inr a, s')" "bytes = concat (src_chunks (br_source rq))"
    "\<And>f. readBlob s (store_digest (bo_ingest opts) bytes) = Some f \<Longrightarrow> f = bytes"
  shows "bm_hash m = store_digest (bo_ingest opts) bytes \<and> holds_file (bm_hash m) bytes m s'"
proof -
  let ?env = "bo_ingest opts"
  let ?work = "chain (ingestStream (store_digest ?env) scratch (br_source rq) type None docUrl (Some (bo_maxBlobBytes opts)))
     (\<lambda>(meta, deduped). chain (verifyClaimOnIngest ?env (br_claim rq) (bm_hash meta, bm_size meta) docUrl (br_certificate rq))
       (\<lambda>o'. give (taken meta deduped (Some o'))))"
  have "run ?work s = (Inr a, s')"
    using assms(3,4) by (auto simp: handleAudioUpload_def answering_too_large_def run_chain run_attempt
        split: sum.splits blob_error.splits prod.splits)
  note work = this
  obtain x s1 where x: "run (ingestStream (store_digest ?env) scratch (br_source rq) type None docUrl
      (Some (bo_maxBlobBytes opts))) s = (Inr x, s1)"
      "run (case x of (meta, deduped) \<Rightarrow> chain (verifyClaimOnIngest ?env (br_claim rq) (bm_hash meta, bm_size meta) docUrl
         (br_certificate rq)) (\<lambda>o'. give (taken meta deduped (Some o')))) s1 = (Inr a, s')"
    by (rule run_chainE [OF work])
  obtain meta d where "x = (meta, d)" by (cases x)
  with x have 1: "run (ingestStream (store_digest ?env) scratch (br_source rq) type None docUrl
      (Some (bo_maxBlobBytes opts))) s = (Inr (meta, d), s1)"
    and claim: "run (chain (verifyClaimOnIngest ?env (br_claim rq) (bm_hash meta, bm_size meta) docUrl
         (br_certificate rq)) (\<lambda>o'. give (taken meta d (Some o')))) s1 = (Inr a, s')" by simp_all
  obtain o' s2 where o': "run (verifyClaimOnIngest ?env (br_claim rq) (bm_hash meta, bm_size meta) docUrl
         (br_certificate rq)) s1 = (Inr o', s2)" "run (give (taken meta d (Some o')) :: blob_answer blob_call) s2 = (Inr a, s')"
    by (rule run_chainE [OF claim])
  then have m: "meta = m" using assms(3) by (auto simp: taken_def)
  from run_ingest [OF 1 assms(2)] assms(5,6) digest_valid [OF assms(1)] m
  have "bm_hash m = store_digest ?env bytes \<and> holds_file (bm_hash m) bytes m s1" by auto
  with claim_lasting [of "bm_hash m" bytes m ?env "br_claim rq" "(bm_hash meta, bm_size meta)" docUrl "br_certificate rq"] o'
  show ?thesis unfolding lasting_def by fastforce
qed

lemma run_upload:
  assumes "platform_ok (ie_platform (bo_ingest opts))" "meta_ok s" "ba_body a = Taken m deduped c"
    "run (handleUpload opts scratch rq) s = (Inr a, s')" "bytes = concat (src_chunks (br_source rq))"
    "\<And>f. readBlob s (store_digest (bo_ingest opts) bytes) = Some f \<Longrightarrow> f = bytes"
  shows "bm_hash m = store_digest (bo_ingest opts) bytes \<and> holds_file (bm_hash m) bytes m s'"
proof -
  obtain docUrl where "run (if contentType_of (br_contentType rq) = STATEMENT_MIME_TYPE
      then handleStatementUpload opts scratch (br_source rq) docUrl (map_of (rq_params rq) (js ''for''))
      else handleAudioUpload opts scratch rq (contentType_of (br_contentType rq)) docUrl) s = (Inr a, s')"
    using assms(3,4) by (auto simp: handleUpload_def Let_def run_chain split: if_splits option.splits)
  then consider "run (handleAudioUpload opts scratch rq (contentType_of (br_contentType rq)) docUrl) s = (Inr a, s')"
    | "run (handleStatementUpload opts scratch (br_source rq) docUrl (map_of (rq_params rq) (js ''for''))) s = (Inr a, s')"
    by (auto split: if_splits)
  then show ?thesis
  proof cases
    case 1
    from run_audio [OF assms(1-3) this assms(5,6)] show ?thesis .
  next
    case 2
    then have "run (store_statement opts scratch bytes docUrl (map_of (rq_params rq) (js ''for''))) s = (Inr a, s')"
      using assms(3,5) receive_concat [of "Some MAX_STATEMENT_BYTES" 0 "src_chunks (br_source rq)"]
      by (auto simp: handleStatementUpload_def readStatementBody_def run_chain run_attempt split: sum.splits blob_error.splits if_splits)
    from run_store_statement [OF assms(1-3) this assms(6)] show ?thesis .
  qed
qed

lemma decode_plain: "\<forall>u \<in> set t. u \<noteq> 0x25 \<Longrightarrow> decodeURIComponent t = Some t"
proof -
  have "decode_escapes [] t = Some t" if "\<forall>u \<in> set t. u \<noteq> 0x25" for t
    using that by (induction t) auto
  then show "\<forall>u \<in> set t. u \<noteq> 0x25 \<Longrightarrow> decodeURIComponent t = Some t" by (simp add: decodeURIComponent_def)
qed


lemma run_get:
  assumes "rq_path rq = js ''/blobs/'' @ h" "rq_method rq = Some (js ''GET'')" "isAuthorized (plain_blob_request rq) (bo_token opts)"
    "isValidBlobHash h" "run (handleDownload (br_range rq) h False) s = (Inr a, s')"
  shows "run (handleBlobRequest opts scratch rq) s = (Inr (Some a), s')"
proof -
  have "\<forall>u \<in> set h. u \<noteq> 0x25" using assms(4) by (auto simp: isValidBlobHash_def list_all_iff)
  then have "decodeURIComponent (drop (length ''/blobs/'') (rq_path rq)) = Some h" "rq_path rq \<noteq> BLOB_PATH_PREFIX"
      "startsWith (rq_path rq) (BLOB_PATH_PREFIX @ js ''/'')"
    using decode_plain by (simp_all add: assms(1) BLOB_PATH_PREFIX_def startsWith_def js_def)
  moreover have m: "method_of (plain_blob_request rq) = js ''GET''"
    using assms(2) by (simp add: method_of_def plain_blob_request_def http_request.truncate_def)
  moreover have "js ''GET'' \<noteq> js ''OPTIONS''" "js ''GET'' \<noteq> js ''HEAD''" by (simp_all add: js_def)
  ultimately show ?thesis
    using assms(3-5) by (simp add: handleBlobRequest_def route_blob_def run_chain run_attempt)
qed

lemma download_body:
  "run (handleDownload header h isHead) s = (Inr a, s') \<Longrightarrow> ba_body a \<noteq> Taken m d c"
  "run (handleDelete rq h) s = (Inr a, s') \<Longrightarrow> ba_body a \<noteq> Taken m d c \<and> ba_body a \<noteq> Content bytes"
  by (auto simp: handleDownload_def send_content_def handleDelete_def run_chain Let_def
      split: option.splits parsed_range.splits if_splits list.splits sum.splits prod.splits)

lemma request_routed:
  assumes "run (handleBlobRequest opts scratch rq) s = (Inr (Some a), s')" "ba_body a \<noteq> Failure" "ba_body a \<noteq> No_body"
  shows "run (handleUpload opts scratch rq) s = (Inr a, s') \<or> (\<exists>h isHead. isValidBlobHash h
    \<and> run (handleDownload (br_range rq) h isHead) s = (Inr a, s')) \<or> (\<exists>h. run (handleDelete rq h) s = (Inr a, s'))"
proof -
  have "run (route_blob opts scratch rq) s = (Inr a, s')"
    using assms by (cases "run (route_blob opts scratch rq) s")
      (auto simp: handleBlobRequest_def run_chain run_attempt split: if_splits sum.splits)
  with assms(2,3) show ?thesis
    by (auto simp: route_blob_def Let_def split: if_splits option.splits)
qed

text \<open>
  C34. What an answered upload has taken in is served as it was: its address is the digest of the bytes
  sent, and a download of that address right afterwards answers exactly them, under the type the
  upload was answered with. This holds for audio, with or without a claim, and for statements, unless
  other bytes with the same digest are there already.
\<close>

theorem uploaded_is_served:
  assumes "run (handleBlobRequest opts scratch rq) s = (Inr (Some a), s')" "ba_body a = Taken m deduped c"
    "platform_ok (ie_platform (bo_ingest opts))" "meta_ok s" "bytes = concat (src_chunks (br_source rq))"
    "\<forall>f. readBlob s (store_digest (bo_ingest opts) bytes) = Some f \<longrightarrow> f = bytes"
    "rq_path get = js ''/blobs/'' @ bm_hash m" "rq_method get = Some (js ''GET'')"
    "isAuthorized (plain_blob_request get) (bo_token opts)" "br_range get = None"
  shows "bm_hash m = store_digest (bo_ingest opts) bytes
    \<and> (\<exists>a'. run (handleBlobRequest opts scratch' get) s' = (Inr (Some a'), s') \<and> ba_status a' = 200
         \<and> ba_body a' = Content bytes \<and> map_of (ba_headers a') (js ''Content-Type'') = Some (bm_mimeType m))"
proof -
  have "run (handleUpload opts scratch rq) s = (Inr a, s')"
    using request_routed [OF assms(1)] assms(2) download_body by auto
  from run_upload [OF assms(3,4,2) this assms(5)] assms(6)
  have taken: "bm_hash m = store_digest (bo_ingest opts) bytes" "holds_file (bm_hash m) bytes m s'" by auto
  have valid: "isValidBlobHash (bm_hash m)" unfolding taken(1) by (rule digest_valid [OF assms(3)])
  obtain a' where "run (handleDownload (br_range get) (bm_hash m) False) s' = (Inr a', s')" "ba_status a' = 200"
      "ba_body a' = Content bytes" "map_of (ba_headers a') (js ''Content-Type'') = Some (bm_mimeType m)"
    using taken(2) assms(10)
    by (auto simp: holds_file_def handleDownload_def run_chain parseRange_def send_content_def Let_def content_headers_def)
  with run_get [OF assms(7-9) valid, of s' _ s' scratch'] taken(1) show ?thesis by blast
qed

section \<open>What is served as a statement\<close>

text \<open>
  The host's users of the store: requests, files taken in by the host itself, session records it signs,
  releases, removals and sweeps.
\<close>

inductive_set store_calls :: "ingest_env \<Rightarrow> (blob_stretch, blob_disk, unit) thread set" for env where
  request: "ie_platform (bo_ingest opts) = ie_platform env \<Longrightarrow> ie_key (bo_ingest opts) = ie_key env \<Longrightarrow>
    forget (handleBlobRequest opts scratch rq) \<in> store_calls env"
| own_file: "mime \<noteq> Some STATEMENT_MIME_TYPE \<Longrightarrow> forget (ingestFile (store_digest env) outcome path ext mime docUrl) \<in> store_calls env"
| own_record: "ie_key env = Key key \<Longrightarrow> createSessionRecord (ie_platform env) sid openedAt closedAt devices claims key = Inr st \<Longrightarrow>
    statementBytes st = Inr bytes \<Longrightarrow> forget (ingestStream (store_digest env) scratch
      \<lparr>src_chunks = [bytes], src_fails = False\<rparr> STATEMENT_MIME_TYPE (Some (js ''.json'')) docUrl None) \<in> store_calls env"
| released: "forget (perform Own (releaseRef h docUrl)) \<in> store_calls env"
| removed: "forget (perform Own (remove_blob h)) \<in> store_calls env"
| swept: "forget (perform Own (sweepTmp age)) \<in> store_calls env"

definition store_moves :: "blob_disk \<Rightarrow> blob_disk \<Rightarrow> bool" where
  "store_moves s s' = (bd_objects s' = bd_objects s \<and> bd_metas s' = bd_metas s \<and> bd_user s' = bd_user s)"

lemma statements_attested_cong:
  "ie_platform e = ie_platform env \<Longrightarrow> ie_key e = ie_key env \<Longrightarrow> statements_attested e = statements_attested env"
  by (simp add: fun_eq_iff statements_attested_def attested_def)

lemma file_type: "mime \<noteq> Some STATEMENT_MIME_TYPE \<Longrightarrow> (case mime of None \<Rightarrow> mimeTypeOfFile ext | Some m \<Rightarrow> m) \<noteq> STATEMENT_MIME_TYPE"
proof -
  have "m \<noteq> STATEMENT_MIME_TYPE" if "map_of MIME_TYPE_BY_EXTENSION ext = Some m" for m
    using map_of_SomeD [OF that] by (auto simp: MIME_TYPE_BY_EXTENSION_def STATEMENT_MIME_TYPE_def js_def)
  moreover have "js ''application/octet-stream'' \<noteq> STATEMENT_MIME_TYPE" by (simp add: STATEMENT_MIME_TYPE_def js_def)
  ultimately show "mime \<noteq> Some STATEMENT_MIME_TYPE \<Longrightarrow> ?thesis"
    by (auto simp: mimeTypeOfFile_def split: option.split)
qed

lemma file_attested:
  "mime \<noteq> Some STATEMENT_MIME_TYPE \<Longrightarrow> keeps_attested env (ingestFile (store_digest env) outcome path ext mime docUrl)"
  using file_type [of mime ext] unfolding ingestFile_def Let_def
  by (auto intro!: safe_chain describe_attested split: prod.split)

lemma record_attested:
  assumes "platform_ok (ie_platform env)" "createSessionRecord (ie_platform env) sid openedAt closedAt devices claims key = Inr st"
    "statementBytes st = Inr bytes"
  shows "keeps_attested env (ingestStream (store_digest env) scratch \<lparr>src_chunks = [bytes], src_fails = False\<rparr>
    STATEMENT_MIME_TYPE e docUrl None)"
proof (rule upload_attested)
  fix bs assume "receive None 0 (src_chunks \<lparr>src_chunks = [bytes], src_fails = False\<rparr>) = Inr bs"
  then have "bs = bytes" by simp
  moreover have "genuine (ie_platform env) (ie_key env) st"
    using session_kind.created_passes [OF assms(1) _ assms(2) [unfolded createSessionRecord_def]]
    by (auto simp: session_record_of_def intro: genuine.session)
  ultimately show "attested env (store_digest env bs)" using assms(3) by (auto simp: attested_def)
qed

lemma store_calls_safe:
  assumes "t \<in> store_calls env" "platform_ok (ie_platform env)"
  shows "keeps_attested env t" "keeps_content (store_digest env) t X"
proof -
  show "keeps_attested env t"
    using assms(1)
  proof cases
    case (request opts scratch rq)
    with request_attested [of opts scratch rq] assms(2) statements_attested_cong [OF request(2,3)] show ?thesis by simp
  qed (simp_all add: file_attested record_attested [OF assms(2)])
  show "keeps_content (store_digest env) t X"
    using assms(1)
  proof cases
    case (request opts scratch rq)
    with request_content [of opts scratch rq X] show ?thesis by simp
  qed (simp_all add: keeps_content_file keeps_content_stream keeps_content_simple)
qed

lemma yields_any: "yields (\<lambda>_. True) (\<lambda>_. True) t"
  by (rule safe_yields) (induction t, auto)

lemma yields_result: "yields (\<lambda>_. True) P t \<Longrightarrow> run t s = (Inr x, s') \<Longrightarrow> P x"
  by (induction t arbitrary: s) auto

lemma upload_body:
  assumes "run (handleUpload opts scratch rq) s = (Inr a, s')"
  shows "ba_body a \<noteq> Content bytes"
proof -
  let ?P = "\<lambda>a. ba_body a \<noteq> Content bytes"
  have "yields (\<lambda>_. True) ?P (store_statement opts scratch bs docUrl forClaim)" for bs docUrl forClaim
    unfolding store_statement_def taken_def by (auto intro!: yields_chain [OF yields_any] split: option.split)
  then have "yields (\<lambda>_. True) ?P (handleStatementUpload opts scratch src docUrl forClaim)" for src docUrl forClaim
    unfolding handleStatementUpload_def by (auto intro!: yields_chain [OF yields_any] split: sum.split blob_error.split)
  note statement = this
  have caught: "yields (\<lambda>_. True) ?P (answering_too_large t)" if t: "yields (\<lambda>_. True) ?P t" for t
  proof -
    have "yields (\<lambda>_. True) (\<lambda>r. \<forall>a. r = Inr a \<longrightarrow> ba_body a \<noteq> Content bytes) (attempt t :: (blob_error + blob_answer) blob_call)"
      by (rule yields_attempt [OF t]) auto
    then show ?thesis unfolding answering_too_large_def
      by (rule yields_chain) (auto split: sum.split blob_error.split)
  qed
  have "yields (\<lambda>_. True) ?P (handleAudioUpload opts scratch rq type docUrl)" for type docUrl
    unfolding handleAudioUpload_def taken_def
    by (intro caught, rule yields_chain [OF yields_any]) (auto intro!: yields_chain [OF yields_any])
  with statement have "yields (\<lambda>_. True) ?P (handleUpload opts scratch rq)"
    unfolding handleUpload_def Let_def by (auto intro!: yields_chain [OF yields_any] split: option.split)
  from yields_result [OF this assms] show ?thesis .
qed

lemma served_file:
  assumes "run (handleBlobRequest opts scratch rq) s = (Inr (Some a), s')" "ba_body a = Content bytes" "ba_status a = 200"
    "map_of (ba_headers a) (js ''Content-Type'') = Some type"
  obtains h m where "statBlob s h = Some m" "readBlob s h = Some bytes" "bm_mimeType m = type"
proof -
  obtain h isHead where "run (handleDownload (br_range rq) h isHead) s = (Inr a, s')"
    using request_routed [OF assms(1)] upload_body [of opts scratch rq s a s' bytes] download_body(2) [of rq _ s a s' _ _ _ bytes] assms(2)
    by auto
  then have "\<exists>m. statBlob s h = Some m \<and> readBlob s h = Some bytes \<and> bm_mimeType m = type"
    using assms(2-4) by (auto simp: handleDownload_def send_content_def run_chain Let_def content_headers_def
        split: option.splits parsed_range.splits if_splits)
  with that show ?thesis by blast
qed

text \<open>
  C33. However requests, the host's own files and session records, releases, removals and sweeps take
  turns on a store that began empty: what a download answers in full as a statement hashes to the
  address of a statement that is genuine, one that passed the check of its kind or is a receipt under
  the host's own key.
\<close>

theorem served_statement_genuine:
  assumes "interleaved (store_calls env) store_moves s0 tr ts s" "platform_ok (ie_platform env)" "bd_objects s0 = []" "bd_metas s0 = []"
    "run (handleBlobRequest opts scratch rq) s = (Inr (Some a), s')" "ba_body a = Content bytes" "ba_status a = 200"
    "map_of (ba_headers a) (js ''Content-Type'') = Some STATEMENT_MIME_TYPE"
  shows "\<exists>st canonical. statementBytes st = Inr canonical \<and> genuine (ie_platform env) (ie_key env) st
    \<and> store_digest env bytes = store_digest env canonical"
proof -
  have "statements_attested env s"
    using interleaved_invariant [OF assms(1), of "statements_attested env"] store_calls_safe(1) [OF _ assms(2)] assms(4)
    by (auto simp: statements_attested_def store_moves_def)
  moreover have "content_ok (store_digest env) s"
    using interleaved_knowledge [where I = "content_ok (store_digest env)" and K = user_files, OF assms(1)]
      store_calls_safe(2) [OF _ assms(2)] assms(3) by (auto simp: content_ok_def store_moves_def user_files_def)
  moreover obtain h m f where "map_of (bd_metas s) h = Some m" "map_of (bd_objects s) h = Some f" "bytes = sf_bytes f"
      "bm_mimeType m = STATEMENT_MIME_TYPE"
    by (rule served_file [OF assms(5-8)]) (auto simp: statBlob_def readBlob_def split: if_splits option.splits)
  ultimately show ?thesis
    unfolding statements_attested_def content_ok_def attested_def by metis
qed

section \<open>Examples\<close>

definition ex_ingest :: ingest_env where
  "ex_ingest = \<lparr>ie_platform = toy, ie_key = Key [3], ie_scratch = (\<lambda>n. replicate n 0x61)\<rparr>"

definition ex_blob_options :: blob_options where
  "ex_blob_options = \<lparr>bo_token = None, bo_maxBlobBytes = 100, bo_maxStoreBytes = 100, bo_ingest = ex_ingest\<rparr>"

definition ex_blob_request :: "string \<Rightarrow> jstr \<Rightarrow> blob_request" where
  "ex_blob_request method path = \<lparr>rq_method = Some (js method), rq_path = path, rq_authorization = None,
     rq_params = [(js ''doc'', js ''recording'')], br_contentType = Some (js ''audio/wav''), br_recordingUrl = None,
     br_claim = None, br_certificate = None, br_range = None, br_source = \<lparr>src_chunks = [[1], [2, 3]], src_fails = False\<rparr>\<rparr>"

lemma partial_content_witness:
  "\<exists>a. run (handleDownload (Some (js ''bytes='' @ nat_text 1 @ js ''-'' @ nat_text 1)) (replicate 64 0x30) False)
       (ex_disk\<lparr>bd_objects := [(replicate 64 0x30, \<lparr>sf_bytes = [1, 2, 3], sf_nlink = 1, sf_ctimeMs = 0\<rparr>)],
          bd_metas := [(replicate 64 0x30, \<lparr>bm_hash = replicate 64 0x30, bm_size = 3, bm_mimeType = js ''audio/wav'',
             bm_ext = js ''.wav'', bm_createdAt = 0\<rparr>)]\<rparr>) = (Inr a, ex_disk\<lparr>bd_objects := [(replicate 64 0x30,
          \<lparr>sf_bytes = [1, 2, 3], sf_nlink = 1, sf_ctimeMs = 0\<rparr>)],
          bd_metas := [(replicate 64 0x30, \<lparr>bm_hash = replicate 64 0x30, bm_size = 3, bm_mimeType = js ''audio/wav'',
             bm_ext = js ''.wav'', bm_createdAt = 0\<rparr>)]\<rparr>) \<and> ba_body a = Content [2]"
  (is "\<exists>a. run (handleDownload ?header ?h False) ?s = _ \<and> _")
proof -
  have "isValidBlobHash ?h" by (simp add: isValidBlobHash_def list_all_iff)
  then have held: "statBlob ?s ?h = Some \<lparr>bm_hash = ?h, bm_size = 3, bm_mimeType = js ''audio/wav'', bm_ext = js ''.wav'', bm_createdAt = 0\<rparr>"
      "readBlob ?s ?h = Some [1, 2, 3]"
    by (simp_all add: statBlob_def readBlob_def)
  from run_download [OF this, of ?header] obtain a where a: "run (handleDownload ?header ?h False) ?s = (Inr a, ?s)" by blast
  from partial_content [OF held a] have "\<forall>i j. ?header = Some (js ''bytes='' @ nat_text i @ js ''-'' @ nat_text j) \<longrightarrow>
       ba_body a = (if i \<le> j \<and> i < 3 then Content (take (j + 1 - i) (drop i [1, 2, 3])) else No_body)" by simp
  from this [rule_format, of 1 1] a show ?thesis by simp
qed

text \<open>A fresh store takes the bytes in under their type.\<close>

lemma fresh_upload:
  assumes "isValidBlobHash (digest bytes)" "receive mx 0 (src_chunks src) = Inr bytes" "\<not> src_fails src"
  obtains m s' where "run (ingestStream digest scratch src mt e doc mx) ex_disk = (Inr (m, False), s')"
    "holds_file (digest bytes) bytes m s'" "bm_mimeType m = mt" "bm_hash m = digest bytes"
  using assms that by (simp add: ingestStream_def run_chain Let_def receive_scratch_def ex_disk_def has_blob_def place_scratch_def
      blob_defs readRefs_def holds_file_def readBlob_def statBlob_def)

lemma ex_blob_upload:
  obtains m s' where "run (handleBlobRequest ex_blob_options [] (ex_blob_request ''POST'' BLOB_PATH_PREFIX)) ex_disk
     = (Inr (Some (taken m False (Some \<lparr>io_claim = Unsigned, io_statements = [], io_noted = None\<rparr>))), s')"
proof -
  let ?rq = "ex_blob_request ''POST'' BLOB_PATH_PREFIX"
  have valid: "isValidBlobHash (address_of toy [1, 2, 3])" by (rule digest_valid [OF toy_ok])
  have src: "receive (Some 100) 0 (src_chunks (br_source ?rq)) = Inr [1, 2, 3]" "\<not> src_fails (br_source ?rq)"
    by (simp_all add: ex_blob_request_def)
  obtain m s' where "run (ingestStream (address_of toy) [] (br_source ?rq) (js ''audio/wav'') None (js ''recording'') (Some 100)) ex_disk
      = (Inr (m, False), s')" by (rule fresh_upload [where digest = "address_of toy", OF valid src])
  then have "run (handleAudioUpload ex_blob_options [] ?rq (js ''audio/wav'') (js ''recording'')) ex_disk
      = (Inr (taken m False (Some \<lparr>io_claim = Unsigned, io_statements = [], io_noted = None\<rparr>)), s')"
    by (simp add: handleAudioUpload_def answering_too_large_def run_chain run_attempt ex_blob_options_def ex_ingest_def
        verifyClaimOnIngest_def Let_def ex_blob_request_def)
  moreover have "contentType_of (br_contentType ?rq) = js ''audio/wav''"
    by (simp add: ex_blob_request_def contentType_of_def js_def trim_def trim_end_def space_unit_def is_space_def lower_latin1_def)
  moreover have "js ''audio/wav'' \<noteq> STATEMENT_MIME_TYPE" "startsWith (js ''audio/wav'') (js ''audio/'')"
    by (simp_all add: STATEMENT_MIME_TYPE_def js_def startsWith_def)
  moreover have "owner_of ?rq = Some (js ''recording'')" by (simp add: owner_of_def ex_blob_request_def js_def)
  ultimately have "run (handleUpload ex_blob_options [] ?rq) ex_disk
      = (Inr (taken m False (Some \<lparr>io_claim = Unsigned, io_statements = [], io_noted = None\<rparr>)), s')"
    by (simp add: handleUpload_def Let_def run_chain) (simp add: ex_blob_options_def ex_disk_def totalBytes_def)
  moreover have "method_of (plain_blob_request ?rq) = js ''POST''" "rq_path ?rq = BLOB_PATH_PREFIX" "js ''POST'' \<noteq> js ''OPTIONS''"
      "isAuthorized (plain_blob_request ?rq) (bo_token ex_blob_options)"
    by (simp_all add: method_of_def plain_blob_request_def http_request.truncate_def ex_blob_request_def isAuthorized_def
        ex_blob_options_def)
  ultimately have "run (handleBlobRequest ex_blob_options [] ?rq) ex_disk
     = (Inr (Some (taken m False (Some \<lparr>io_claim = Unsigned, io_statements = [], io_noted = None\<rparr>))), s')"
    by (simp add: handleBlobRequest_def route_blob_def run_chain run_attempt)
  then show ?thesis by (rule that)
qed

lemma ex_get:
  "rq_path (ex_blob_request ''GET'' p) = p" "rq_method (ex_blob_request ''GET'' p) = Some (js ''GET'')"
  "isAuthorized (plain_blob_request (ex_blob_request ''GET'' p)) (bo_token ex_blob_options)" "br_range (ex_blob_request ''GET'' p) = None"
  by (simp_all add: ex_blob_request_def isAuthorized_def ex_blob_options_def)

lemma uploaded_is_served_witness:
  "\<exists>a s' (m :: blob_meta) a'. run (handleBlobRequest ex_blob_options [] (ex_blob_request ''POST'' BLOB_PATH_PREFIX)) ex_disk = (Inr (Some a), s')
     \<and> run (handleBlobRequest ex_blob_options [] (ex_blob_request ''GET'' (js ''/blobs/'' @ bm_hash m))) s' = (Inr (Some a'), s')
     \<and> ba_body a' = Content [1, 2, 3]"
proof -
  obtain m s' where a: "run (handleBlobRequest ex_blob_options [] (ex_blob_request ''POST'' BLOB_PATH_PREFIX)) ex_disk
     = (Inr (Some (taken m False (Some \<lparr>io_claim = Unsigned, io_statements = [], io_noted = None\<rparr>))), s')"
    by (rule ex_blob_upload)
  have b: "ba_body (taken m False (Some \<lparr>io_claim = Unsigned, io_statements = [], io_noted = None\<rparr>)) = Taken m False (Some (Unsigned, []))"
    by (simp add: taken_def)
  have "platform_ok (ie_platform (bo_ingest ex_blob_options))" "meta_ok ex_disk"
      "[1, 2, 3] = concat (src_chunks (br_source (ex_blob_request ''POST'' BLOB_PATH_PREFIX)))"
      "\<forall>f. readBlob ex_disk (store_digest (bo_ingest ex_blob_options) [1, 2, 3]) = Some f \<longrightarrow> f = [1, 2, 3]"
    by (simp_all add: ex_blob_options_def ex_ingest_def toy_ok meta_ok_def ex_disk_def ex_blob_request_def readBlob_def)
  from uploaded_is_served [OF a b this ex_get, of "[]"] obtain a' where
    "run (handleBlobRequest ex_blob_options [] (ex_blob_request ''GET'' (js ''/blobs/'' @ bm_hash m))) s' = (Inr (Some a'), s')"
    "ba_body a' = Content [1, 2, 3]" by blast
  with a show ?thesis by (intro exI conjI)
qed

lemma served_statement_genuine_witness:
  "\<exists>tr ts s h a. interleaved (store_calls ex_ingest) store_moves ex_disk tr ts s
     \<and> run (handleBlobRequest ex_blob_options [] (ex_blob_request ''GET'' (js ''/blobs/'' @ h))) s = (Inr (Some a), s)
     \<and> (\<exists>bytes st canonical. ba_body a = Content bytes \<and> statementBytes st = Inr canonical \<and> genuine toy (Key [3]) st
        \<and> address_of toy bytes = address_of toy canonical)"
proof -
  obtain st bytes where st: "createSessionRecord toy (js ''s'') 0 0 (session_devices 0 (closed_now ex_in_session ex_tracked))
      [js ''claim''] [3] = Inr st" "statementBytes st = Inr bytes" by (rule ex_record_signed)
  have env: "ie_platform ex_ingest = toy" "ie_key ex_ingest = Key [3]" by (simp_all add: ex_ingest_def)
  let ?src = "\<lparr>src_chunks = [bytes], src_fails = False\<rparr>"
  let ?t = "ingestStream (store_digest ex_ingest) [] ?src STATEMENT_MIME_TYPE (Some (js ''.json'')) (js ''root'') None"
  have valid: "isValidBlobHash (store_digest ex_ingest bytes)" using digest_valid [OF toy_ok] env by simp
  have src: "receive None 0 (src_chunks ?src) = Inr bytes" "\<not> src_fails ?src" by simp_all
  obtain m s where m: "run ?t ex_disk = (Inr (m, False), s)" "holds_file (store_digest ex_ingest bytes) bytes m s"
      "bm_mimeType m = STATEMENT_MIME_TYPE"
    by (rule fresh_upload [where digest = "store_digest ex_ingest", OF valid src])
  have "forget ?t \<in> store_calls ex_ingest"
    by (rule store_calls.own_record [OF env(2)]) (use st env in simp_all)
  from interleaved_run [OF interleaved.start this, of store_moves ex_disk] m(1) obtain tr where
    i: "interleaved (store_calls ex_ingest) store_moves ex_disk tr [Done ()] s" by auto
  let ?get = "ex_blob_request ''GET'' (js ''/blobs/'' @ store_digest ex_ingest bytes)"
  obtain a where a: "run (handleDownload (br_range ?get) (store_digest ex_ingest bytes) False) s = (Inr a, s)" "ba_status a = 200"
      "ba_body a = Content bytes" "map_of (ba_headers a) (js ''Content-Type'') = Some STATEMENT_MIME_TYPE"
    using m(2,3) by (auto simp: holds_file_def handleDownload_def run_chain ex_get parseRange_def send_content_def Let_def
        content_headers_def)
  have get: "run (handleBlobRequest ex_blob_options [] ?get) s = (Inr (Some a), s)"
    by (rule run_get [OF ex_get(1-3) valid a(1)])
  have "platform_ok (ie_platform ex_ingest)" "bd_objects ex_disk = []" "bd_metas ex_disk = []"
    by (simp_all add: env toy_ok ex_disk_def)
  from served_statement_genuine [OF i this get a(3,2,4)] i get a(3) show ?thesis unfolding env by blast
qed

end
