(* ===== verification/Key_Backup.thy ===== *)
theory Key_Backup
  imports Statement_Text Json_Copy Labels
begin

text \<open>
  The wrapped copy of a person key (\<^verbatim>\<open>personKeyBackup.ts\<close>): its binary layout, its text and file forms,
  and locking and unlocking it with a passphrase or a passkey. What WebCrypto, the passphrase KDF and
  Unicode supply are the fields of \<open>backup_crypto\<close>; \<open>crypto_ok\<close> in \<^theory_text>\<open>Key_Restore\<close> states what is
  documented of them. A private key is its 32-byte seed. Numbers are integers and become bytes as \<open>ToUint32\<close> makes them.
\<close>

section \<open>The record\<close>

definition BACKUP_FORMAT_VERSION :: int where "BACKUP_FORMAT_VERSION = 1"

definition BACKUP_TEXT_PREFIX :: jstr where "BACKUP_TEXT_PREFIX = js ''TPK1.''"

definition BACKUP_FILE_FORMAT :: jstr where "BACKUP_FILE_FORMAT = js ''tapes-person-key-backup''"

definition UNLOCK_PASSPHRASE :: int where "UNLOCK_PASSPHRASE = 1"
definition UNLOCK_PASSKEY :: int where "UNLOCK_PASSKEY = 2"

definition MAX_CREDENTIAL_ID_LENGTH :: nat where "MAX_CREDENTIAL_ID_LENGTH = 1023"

record argon_params =
  ap_memoryKiB :: int
  ap_iterations :: int
  ap_parallelism :: int

definition BACKUP_KDF :: argon_params where
  "BACKUP_KDF = \<lparr>ap_memoryKiB = 64 * 1024, ap_iterations = 3, ap_parallelism = 1\<rparr>"

text \<open>A passkey's record has the hash of the relying party id and the credential id.\<close>

datatype unlock_method = By_passphrase argon_params | By_passkey (rpIdHash: "u8 list") (credentialId: "u8 list")

definition method_byte :: "unlock_method \<Rightarrow> int" where
  "method_byte u = (case u of By_passphrase _ \<Rightarrow> UNLOCK_PASSPHRASE | By_passkey _ _ \<Rightarrow> UNLOCK_PASSKEY)"

definition RP_ID_HASH_LENGTH :: nat where "RP_ID_HASH_LENGTH = 32"
definition SALT_LENGTH :: nat where "SALT_LENGTH = 16"
definition NONCE_LENGTH :: nat where "NONCE_LENGTH = 12"
definition PUBLIC_KEY_LENGTH :: nat where "PUBLIC_KEY_LENGTH = 32"
definition CIPHERTEXT_LENGTH :: nat where "CIPHERTEXT_LENGTH = 48"

definition FIXED_LENGTH :: nat where
  "FIXED_LENGTH = SALT_LENGTH + NONCE_LENGTH + PUBLIC_KEY_LENGTH + CIPHERTEXT_LENGTH"

definition PASSPHRASE_RECORD_LENGTH :: nat where "PASSPHRASE_RECORD_LENGTH = 2 + 6 + FIXED_LENGTH"

definition passkeyRecordLength :: "nat \<Rightarrow> nat" where
  "passkeyRecordLength credentialIdLength = 2 + RP_ID_HASH_LENGTH + 2 + credentialIdLength + FIXED_LENGTH"

record backup_header =
  kb_version :: int
  kb_unlock :: unlock_method
  kb_salt :: "u8 list"
  kb_nonce :: "u8 list"
  kb_publicKey :: "u8 list"

record key_backup = backup_header +
  kb_ciphertext :: "u8 list"

datatype backup_problem = Not_a_backup | Newer_version | Damaged | Unsupported_method

section \<open>Bytes\<close>

definition u16_bytes :: "int \<Rightarrow> u8 list" where
  "u16_bytes value = (let v = word_of_int value :: u32 in [ucast (drop_bit 8 v), ucast v])"

definition u32_bytes :: "int \<Rightarrow> u8 list" where
  "u32_bytes value = (let v = word_of_int value :: u32
     in [ucast (drop_bit 24 v), ucast (drop_bit 16 v), ucast (drop_bit 8 v), ucast v])"

unbundle bit_operations_syntax

fun readU16 :: "u8 list \<Rightarrow> int" where
  "readU16 (a # b # _) = uint (push_bit 8 (ucast a) OR ucast b :: u32)"
| "readU16 _ = 0"

fun readU32 :: "u8 list \<Rightarrow> int" where
  "readU32 (a # b # c # d # _) =
     uint (push_bit 24 (ucast a) OR push_bit 16 (ucast b) OR push_bit 8 (ucast c) OR ucast d :: u32)"
| "readU32 _ = 0"

definition unlock_params :: "unlock_method \<Rightarrow> u8 list" where
  "unlock_params u =
     (case u of
        By_passphrase kdf \<Rightarrow> u32_bytes (ap_memoryKiB kdf) @ [word_of_int (ap_iterations kdf), word_of_int (ap_parallelism kdf)]
      | By_passkey rp cred \<Rightarrow> rp @ u16_bytes (int (length cred)) @ cred)"

definition encodeHeader :: "'a backup_header_scheme \<Rightarrow> u8 list" where
  "encodeHeader b = [word_of_int (kb_version b), word_of_int (method_byte (kb_unlock b))] @ unlock_params (kb_unlock b)
     @ kb_salt b @ kb_nonce b @ kb_publicKey b"

definition encodeBackup :: "key_backup \<Rightarrow> u8 list" where
  "encodeBackup b = encodeHeader b @ kb_ciphertext b"

text \<open>What follows the parameters of the method, from an offset on.\<close>

definition read_fixed :: "unlock_method \<Rightarrow> u8 list \<Rightarrow> key_backup" where
  "read_fixed u rest =
     \<lparr>kb_version = BACKUP_FORMAT_VERSION, kb_unlock = u, kb_salt = take SALT_LENGTH rest,
      kb_nonce = take NONCE_LENGTH (drop SALT_LENGTH rest),
      kb_publicKey = take PUBLIC_KEY_LENGTH (drop (SALT_LENGTH + NONCE_LENGTH) rest),
      kb_ciphertext = take CIPHERTEXT_LENGTH (drop (SALT_LENGTH + NONCE_LENGTH + PUBLIC_KEY_LENGTH) rest)\<rparr>"

definition kdf_supported :: "argon_params \<Rightarrow> bool" where
  "kdf_supported kdf = (8 * 1024 \<le> ap_memoryKiB kdf \<and> ap_memoryKiB kdf \<le> 1024 * 1024 \<and> 1 \<le> ap_iterations kdf
     \<and> 1 \<le> ap_parallelism kdf)"

definition decode_passphrase :: "u8 list \<Rightarrow> backup_problem + key_backup" where
  "decode_passphrase bytes =
     (if length bytes \<noteq> PASSPHRASE_RECORD_LENGTH then Inl Damaged
      else let kdf = \<lparr>ap_memoryKiB = readU32 (take 4 (drop 2 bytes)), ap_iterations = uint (bytes ! 6), ap_parallelism = uint (bytes ! 7)\<rparr>
        in if \<not> kdf_supported kdf then Inl Unsupported_method
           else Inr (read_fixed (By_passphrase kdf) (drop 8 bytes)))"

definition decode_passkey :: "u8 list \<Rightarrow> backup_problem + key_backup" where
  "decode_passkey bytes =
     (if length bytes < 2 + RP_ID_HASH_LENGTH + 2 then Inl Damaged
      else let rp = take RP_ID_HASH_LENGTH (drop 2 bytes);
               len = readU16 (take 2 (drop (2 + RP_ID_HASH_LENGTH) bytes));
               rest = drop (2 + RP_ID_HASH_LENGTH + 2) bytes
        in if len < 1 \<or> int MAX_CREDENTIAL_ID_LENGTH < len \<or> int (length bytes) \<noteq> int (passkeyRecordLength (nat len))
           then Inl Damaged
           else Inr (read_fixed (By_passkey rp (take (nat len) rest)) (drop (nat len) rest)))"

definition decodeBackup :: "u8 list \<Rightarrow> backup_problem + key_backup" where
  "decodeBackup bytes =
     (case bytes of
        version # method # _ \<Rightarrow>
          if uint version \<noteq> BACKUP_FORMAT_VERSION then Inl Newer_version
          else if uint method = UNLOCK_PASSPHRASE then decode_passphrase bytes
          else if uint method = UNLOCK_PASSKEY then decode_passkey bytes
          else Inl Unsupported_method
      | _ \<Rightarrow> Inl Damaged)"

section \<open>Text\<close>

definition backupToText :: "key_backup \<Rightarrow> jstr" where
  "backupToText b = BACKUP_TEXT_PREFIX @ toBase64Url (encodeBackup b)"

definition passkeyRecordKey :: "key_backup \<Rightarrow> jstr option" where
  "passkeyRecordKey b = (case kb_unlock b of By_passkey _ cred \<Rightarrow> Some (toBase64Url cred) | By_passphrase _ \<Rightarrow> None)"

text \<open>\<open>JSON.stringify\<close> of an object of texts and numbers, indented by two.\<close>

definition pretty_object :: "(string \<times> jstr) list \<Rightarrow> jstr" where
  "pretty_object members = js ''{'' @ [0x0a]
     @ join (js '','' @ [0x0a]) (map (\<lambda>(k, text). js ''  '' @ stringify_string (js k) @ js '': '' @ text) members)
     @ [0x0a] @ js ''}''"

definition help_text :: "unlock_method \<Rightarrow> jstr" where
  "help_text u = (case u of
     By_passkey _ _ \<Rightarrow> js ''Tapes person key record. To restore it, open Tapes and pick this file. You also need the passkey that made it.''
   | By_passphrase _ \<Rightarrow> js ''Tapes person key backup. To restore it, open Tapes and pick this file. You also need your passphrase.'')"

definition backupToFileText :: "key_backup \<Rightarrow> int \<Rightarrow> jstr" where
  "backupToFileText b createdAt = pretty_object
     [(''format'', stringify_string BACKUP_FILE_FORMAT), (''version'', number_text (num_of_int BACKUP_FORMAT_VERSION)),
      (''createdAt'', stringify_string (toISOString createdAt)), (''publicKey'', stringify_string (toBase64Url (kb_publicKey b))),
      (''backup'', stringify_string (backupToText b)), (''help'', stringify_string (help_text (kb_unlock b)))] @ [0x0a]"

definition starts :: "jstr \<Rightarrow> jstr \<Rightarrow> bool" where
  "starts t prefix = (take (length prefix) t = prefix)"

definition parseCompact :: "jstr \<Rightarrow> backup_problem + key_backup" where
  "parseCompact text =
     (if \<not> starts text (js ''TPK'') then Inl Not_a_backup
      else if \<not> starts text BACKUP_TEXT_PREFIX then Inl Newer_version
      else case fromBase64Url (drop (length BACKUP_TEXT_PREFIX) text) of
          None \<Rightarrow> Inl Damaged | Some bytes \<Rightarrow> decodeBackup bytes)"

definition parseBackupText :: "platform \<Rightarrow> jstr \<Rightarrow> backup_problem + key_backup" where
  "parseBackupText p text =
     (let trimmed = trim text
      in if \<not> starts trimmed (js ''{'') then parseCompact trimmed
         else case JSON_parse (nearest p) trimmed of
             None \<Rightarrow> Inl Not_a_backup
           | Some json \<Rightarrow>
               if field json ''format'' \<noteq> JString BACKUP_FILE_FORMAT then Inl Not_a_backup
               else case as_string (field json ''backup'') of
                   None \<Rightarrow> Inl Damaged | Some inner \<Rightarrow> parseCompact (trim inner))"

section \<open>Locking and unlocking\<close>

text \<open>
  \<open>bc_fold\<close> is \<open>normalize('NFKC').toLowerCase()\<close>; \<open>bc_hkdf\<close> is HKDF-SHA-256 of a secret, a salt and an info
  string to 32 bytes; AES-GCM takes key, nonce, additional data and text.
\<close>

record backup_crypto =
  bc_platform :: platform
  bc_fold :: "jstr \<Rightarrow> jstr"
  bc_derive :: "jstr \<Rightarrow> u8 list \<Rightarrow> argon_params \<Rightarrow> u8 list"
  bc_hkdf :: "u8 list \<Rightarrow> u8 list \<Rightarrow> jstr \<Rightarrow> u8 list"
  bc_encrypt :: "u8 list \<Rightarrow> u8 list \<Rightarrow> u8 list \<Rightarrow> u8 list \<Rightarrow> u8 list"
  bc_decrypt :: "u8 list \<Rightarrow> u8 list \<Rightarrow> u8 list \<Rightarrow> u8 list \<Rightarrow> u8 list option"

definition separator :: "u16 \<Rightarrow> bool" where
  "separator u = (space_unit u \<or> u \<in> set (js ''.,_''))"

text \<open>\<open>replace(/[\s.,_]+/g, ' ')\<close>: a run of separators becomes one blank.\<close>

function single_blanks :: "jstr \<Rightarrow> jstr" where
  "single_blanks [] = []"
| "single_blanks (u # us) =
     (if separator u then 0x20 # single_blanks (dropWhile separator us) else u # single_blanks us)"
  by pat_completeness auto
termination by (relation "measure length") (auto simp: length_dropWhile_le less_Suc_eq_le)

definition normalizePassphrase :: "backup_crypto \<Rightarrow> jstr \<Rightarrow> jstr" where
  "normalizePassphrase c text = trim (single_blanks (bc_fold c text))"

definition WRAP_INFO :: jstr where "WRAP_INFO = js ''tapes/person-key/v1/wrap''"
definition SERVICE_AUTH_INFO :: jstr where "SERVICE_AUTH_INFO = js ''tapes/person-key/v1/service-auth''"

definition PKCS8_PREFIX :: "u8 list" where
  "PKCS8_PREFIX = [0x30, 0x2e, 0x02, 0x01, 0x00, 0x30, 0x05, 0x06, 0x03, 0x2b, 0x65, 0x70, 0x04, 0x22, 0x04, 0x20]"

text \<open>The PKCS 8 form of a private key is the prefix and its seed.\<close>

definition exportSeed :: "u8 list \<Rightarrow> u8 list" where
  "exportSeed privateKey = (let pkcs8 = PKCS8_PREFIX @ privateKey in drop (length pkcs8 - 32) pkcs8)"

text \<open>A longer seed does not fit, a shorter one is followed by zeros.\<close>

definition importSeed :: "u8 list \<Rightarrow> u8 list option" where
  "importSeed seed = (if 32 < length seed then None else Some (seed @ replicate (32 - length seed) 0))"

definition passphraseKey :: "backup_crypto \<Rightarrow> jstr \<Rightarrow> u8 list \<Rightarrow> argon_params \<Rightarrow> u8 list" where
  "passphraseKey c passphrase salt kdf = bc_derive c (normalizePassphrase c passphrase) salt kdf"

definition passkeyKey :: "backup_crypto \<Rightarrow> u8 list \<Rightarrow> u8 list \<Rightarrow> u8 list" where
  "passkeyKey c prf salt = bc_hkdf c prf salt WRAP_INFO"

definition personKeyServiceToken :: "backup_crypto \<Rightarrow> u8 list \<Rightarrow> jstr" where
  "personKeyServiceToken c prf = toBase64Url (bc_hkdf c prf [] SERVICE_AUTH_INFO)"

text \<open>The pair is the private key and the public one; salt and nonce are random.\<close>

definition wrapWith :: "backup_crypto \<Rightarrow> u8 list \<times> u8 list \<Rightarrow> unlock_method \<Rightarrow> (u8 list \<Rightarrow> u8 list) \<Rightarrow> u8 list \<Rightarrow> u8 list \<Rightarrow> key_backup" where
  "wrapWith c keyPair unlock wrappingKey salt nonce =
     (let header = \<lparr>kb_version = BACKUP_FORMAT_VERSION, kb_unlock = unlock, kb_salt = salt, kb_nonce = nonce,
            kb_publicKey = snd keyPair\<rparr>
      in \<lparr>kb_version = BACKUP_FORMAT_VERSION, kb_unlock = unlock, kb_salt = salt, kb_nonce = nonce, kb_publicKey = snd keyPair,
          kb_ciphertext = bc_encrypt c (wrappingKey salt) nonce (encodeHeader header) (exportSeed (fst keyPair))\<rparr>)"

definition wrapPersonKey :: "backup_crypto \<Rightarrow> u8 list \<times> u8 list \<Rightarrow> jstr \<Rightarrow> argon_params \<Rightarrow> u8 list \<Rightarrow> u8 list \<Rightarrow> key_backup" where
  "wrapPersonKey c keyPair passphrase kdf salt nonce =
     wrapWith c keyPair (By_passphrase kdf) (\<lambda>salt. passphraseKey c passphrase salt kdf) salt nonce"

definition wrapPersonKeyWithPasskey ::
  "backup_crypto \<Rightarrow> u8 list \<times> u8 list \<Rightarrow> u8 list \<Rightarrow> jstr \<Rightarrow> jstr \<Rightarrow> u8 list \<Rightarrow> u8 list \<Rightarrow> key_backup option" where
  "wrapPersonKeyWithPasskey c keyPair prf rpId credential salt nonce =
     (case fromBase64Url credential of
        None \<Rightarrow> None
      | Some cred \<Rightarrow>
          if length cred < 1 \<or> MAX_CREDENTIAL_ID_LENGTH < length cred then None
          else Some (wrapWith c keyPair (By_passkey (sha256 (bc_platform c) (utf8_encode rpId)) cred)
            (passkeyKey c prf) salt nonce))"

datatype unwrap_problem = Wrong_passphrase | Wrong_passkey | Key_mismatch | Wrong_method | Import_fails

definition open_backup :: "backup_crypto \<Rightarrow> key_backup \<Rightarrow> u8 list \<Rightarrow> unwrap_problem \<Rightarrow> unwrap_problem + (u8 list \<times> u8 list) \<times> jstr" where
  "open_backup c b aes failure =
     (case bc_decrypt c aes (kb_nonce b) (encodeHeader b) (kb_ciphertext b) of
        None \<Rightarrow> Inl failure
      | Some seed \<Rightarrow>
          (case importSeed seed of
             None \<Rightarrow> Inl Import_fails
           | Some privateKey \<Rightarrow>
               let publicKey = ed_public (bc_platform c) privateKey; publicKeyText = exportPublicKey publicKey
               in if publicKeyText \<noteq> toBase64Url (kb_publicKey b) then Inl Key_mismatch
                  else Inr ((privateKey, publicKey), publicKeyText)))"

definition unwrapPersonKey :: "backup_crypto \<Rightarrow> key_backup \<Rightarrow> jstr \<Rightarrow> unwrap_problem + (u8 list \<times> u8 list) \<times> jstr" where
  "unwrapPersonKey c b passphrase =
     (case kb_unlock b of
        By_passkey _ _ \<Rightarrow> Inl Wrong_method
      | By_passphrase kdf \<Rightarrow> open_backup c b (passphraseKey c passphrase (kb_salt b) kdf) Wrong_passphrase)"

definition unwrapPersonKeyWithPasskey :: "backup_crypto \<Rightarrow> key_backup \<Rightarrow> u8 list \<Rightarrow> unwrap_problem + (u8 list \<times> u8 list) \<times> jstr" where
  "unwrapPersonKeyWithPasskey c b prf =
     (case kb_unlock b of
        By_passphrase _ \<Rightarrow> Inl Wrong_method
      | By_passkey _ _ \<Rightarrow> open_backup c b (passkeyKey c prf (kb_salt b)) Wrong_passkey)"

section \<open>The layout\<close>

definition backup_ok :: "key_backup \<Rightarrow> bool" where
  "backup_ok b = (kb_version b = 1 \<and> length (kb_salt b) = 16 \<and> length (kb_nonce b) = 12 \<and> length (kb_publicKey b) = 32
     \<and> length (kb_ciphertext b) = 48
     \<and> (case kb_unlock b of
          By_passphrase kdf \<Rightarrow> kdf_supported kdf \<and> ap_iterations kdf < 256 \<and> ap_parallelism kdf < 256
        | By_passkey rp cred \<Rightarrow> length rp = 32 \<and> 1 \<le> length cred \<and> length cred \<le> 1023))"

lemmas backup_lengths = SALT_LENGTH_def NONCE_LENGTH_def PUBLIC_KEY_LENGTH_def CIPHERTEXT_LENGTH_def RP_ID_HASH_LENGTH_def
  FIXED_LENGTH_def PASSPHRASE_RECORD_LENGTH_def passkeyRecordLength_def MAX_CREDENTIAL_ID_LENGTH_def
  BACKUP_FORMAT_VERSION_def UNLOCK_PASSPHRASE_def UNLOCK_PASSKEY_def

lemma u32_codec:
  "0 \<le> n \<Longrightarrow> n < 2 ^ 32 \<Longrightarrow> readU32 (u32_bytes n @ rest) = n"
  "u32_bytes (readU32 [a, b, c, d]) = [a, b, c, d]"
proof -
  have "push_bit 24 (ucast (ucast (drop_bit 24 v) :: u8)) OR push_bit 16 (ucast (ucast (drop_bit 16 v) :: u8))
      OR push_bit 8 (ucast (ucast (drop_bit 8 v) :: u8)) OR ucast (ucast v :: u8) = v" for v :: u32
  proof (rule bit_word_eqI)
    fix n :: nat
    assume "n < LENGTH(32)"
    then consider "n < 8" | "8 \<le> n" "n < 16" | "16 \<le> n" "n < 24" | "24 \<le> n" "n < 32" by fastforce
    then show "bit (push_bit 24 (ucast (ucast (drop_bit 24 v) :: u8)) OR push_bit 16 (ucast (ucast (drop_bit 16 v) :: u8))
        OR push_bit 8 (ucast (ucast (drop_bit 8 v) :: u8)) OR ucast (ucast v :: u8) :: u32) n \<longleftrightarrow> bit v n"
      by cases (auto simp: bit_simps)
  qed
  then show "0 \<le> n \<Longrightarrow> n < 2 ^ 32 \<Longrightarrow> readU32 (u32_bytes n @ rest) = n"
    by (simp add: u32_bytes_def Let_def uint_word_of_int)
  let ?w = "push_bit 24 (ucast a) OR push_bit 16 (ucast b) OR push_bit 8 (ucast c) OR ucast d :: u32"
  have "ucast (drop_bit 24 ?w) = a" "ucast (drop_bit 16 ?w) = b" "ucast (drop_bit 8 ?w) = c" "ucast ?w = d"
    by (rule bit_word_eqI, auto simp: bit_simps dest: bit_imp_le_length)+
  then show "u32_bytes (readU32 [a, b, c, d]) = [a, b, c, d]" by (simp add: u32_bytes_def Let_def)
qed

lemma u16_codec:
  "n < 2 ^ 16 \<Longrightarrow> readU16 (u16_bytes (int n) @ rest) = int n"
  "u16_bytes (readU16 [a, b]) = [a, b]"
proof -
  have high: "push_bit 8 (ucast (ucast (drop_bit 8 v) :: u8)) OR ucast (ucast v :: u8) = take_bit 16 v" for v :: u32
  proof (rule bit_word_eqI)
    fix n :: nat
    assume "n < LENGTH(32)"
    consider "n < 8" | "8 \<le> n" "n < 16" | "16 \<le> n" by linarith
    then show "bit (push_bit 8 (ucast (ucast (drop_bit 8 v) :: u8)) OR ucast (ucast v :: u8) :: u32) n \<longleftrightarrow> bit (take_bit 16 v) n"
      by cases (auto simp: bit_simps)
  qed
  show "readU16 (u16_bytes (int n) @ rest) = int n" if "n < 2 ^ 16"
  proof -
    have "readU16 (u16_bytes (int n) @ rest) = uint (take_bit 16 (word_of_int (int n) :: u32))"
      unfolding u16_bytes_def Let_def append_Cons readU16.simps high ..
    also have "\<dots> = int n"
      using that by (simp add: unsigned_take_bit_eq unsigned_of_nat take_bit_nat_eq_self take_bit_int_eq_self_iff)
    finally show ?thesis .
  qed
  let ?w = "push_bit 8 (ucast a) OR ucast b :: u32"
  have "ucast (drop_bit 8 ?w) = a" "ucast ?w = b"
    by (rule bit_word_eqI, auto simp: bit_simps dest: bit_imp_le_length)+
  then show "u16_bytes (readU16 [a, b]) = [a, b]" by (simp add: u16_bytes_def Let_def)
qed

lemma u32_length [simp]: "length (u32_bytes n) = 4" "length (u16_bytes n) = 2"
  by (simp_all add: u32_bytes_def u16_bytes_def Let_def)

lemma header_length:
  "length (encodeHeader b) = 2 + length (unlock_params (kb_unlock b)) + length (kb_salt b) + length (kb_nonce b) + length (kb_publicKey b)"
  by (simp add: encodeHeader_def)

declare readU16.simps [simp del] readU32.simps [simp del]

lemma read_fixed_parts:
  assumes "length salt = 16" "length nonce = 12" "length key = 32" "length ct = 48"
  shows "read_fixed u (salt @ nonce @ key @ ct) = \<lparr>kb_version = 1, kb_unlock = u, kb_salt = salt, kb_nonce = nonce,
    kb_publicKey = key, kb_ciphertext = ct\<rparr>"
  using assms by (simp add: read_fixed_def backup_lengths)

lemma fixed_split:
  assumes "length rest = 108"
  obtains salt nonce key ct where "rest = salt @ nonce @ key @ ct" "length salt = 16" "length nonce = 12" "length key = 32"
    "length ct = 48"
proof -
  have "drop 28 rest = take 32 (drop 28 rest) @ drop 60 rest" using append_take_drop_id [of 32 "drop 28 rest"] by simp
  moreover have "drop 16 rest = take 12 (drop 16 rest) @ drop 28 rest" using append_take_drop_id [of 12 "drop 16 rest"] by simp
  ultimately have "rest = take 16 rest @ take 12 (drop 16 rest) @ take 32 (drop 28 rest) @ drop 60 rest"
    using append_take_drop_id [of 16 rest] by metis
  then show ?thesis by (rule that) (simp_all add: assms)
qed

lemma one_byte: "0 \<le> n \<Longrightarrow> n < 256 \<Longrightarrow> uint (word_of_int n :: u8) = n"
  by (simp add: uint_word_of_int)

lemma decode_passphrase_iff:
  assumes "length rest = 108"
  shows "decodeBackup ([1, 1, w0, w1, w2, w3, i, j] @ rest) =
    (let kdf = \<lparr>ap_memoryKiB = readU32 [w0, w1, w2, w3], ap_iterations = uint i, ap_parallelism = uint j\<rparr>
     in if kdf_supported kdf then Inr (read_fixed (By_passphrase kdf) rest) else Inl Unsupported_method)"
  using assms by (simp add: decodeBackup_def decode_passphrase_def backup_lengths Let_def)

lemma decode_passkey_parts:
  assumes "length rp = 32" "length rest = length cred + 108" "take (length cred) rest = cred" "1 \<le> length cred" "length cred \<le> 1023"
  shows "decodeBackup ([1, 2] @ rp @ u16_bytes (int (length cred)) @ rest) = Inr (read_fixed (By_passkey rp cred) (drop (length cred) rest))"
proof -
  have "readU16 (u16_bytes (int (length cred))) = int (length cred)" using u16_codec(1) [of "length cred" "[]"] assms(5) by simp
  with assms show ?thesis
    by (auto simp: decodeBackup_def decode_passkey_def backup_lengths Let_def)
qed

lemma decode_encode: "backup_ok b \<Longrightarrow> decodeBackup (encodeBackup b) = Inr b"
proof -
  assume ok: "backup_ok b"
  note l = ok [unfolded backup_ok_def]
  let ?rest = "kb_salt b @ kb_nonce b @ kb_publicKey b @ kb_ciphertext b"
  have fixed: "read_fixed (kb_unlock b) ?rest = b" "length ?rest = 108"
    using l read_fixed_parts [of "kb_salt b" "kb_nonce b" "kb_publicKey b" "kb_ciphertext b" "kb_unlock b"] by simp_all
  show ?thesis
  proof (cases "kb_unlock b")
    case (By_passphrase kdf)
    obtain w0 w1 w2 w3 where w: "u32_bytes (ap_memoryKiB kdf) = [w0, w1, w2, w3]" by (simp add: u32_bytes_def Let_def)
    have "readU32 [w0, w1, w2, w3] = ap_memoryKiB kdf"
      using l By_passphrase u32_codec(1) [of "ap_memoryKiB kdf" "[]"] by (simp add: kdf_supported_def w)
    then have kdf: "\<lparr>ap_memoryKiB = readU32 [w0, w1, w2, w3], ap_iterations = uint (word_of_int (ap_iterations kdf) :: u8),
        ap_parallelism = uint (word_of_int (ap_parallelism kdf) :: u8)\<rparr> = kdf"
      using l By_passphrase by (simp add: kdf_supported_def one_byte)
    have "encodeBackup b = [1, 1, w0, w1, w2, w3, word_of_int (ap_iterations kdf), word_of_int (ap_parallelism kdf)] @ ?rest"
      using l By_passphrase by (simp add: encodeBackup_def encodeHeader_def unlock_params_def method_byte_def UNLOCK_PASSPHRASE_def w)
    moreover have "kdf_supported kdf" using l By_passphrase by simp
    ultimately show ?thesis
      using decode_passphrase_iff [OF fixed(2), of w0 w1 w2 w3 "word_of_int (ap_iterations kdf)" "word_of_int (ap_parallelism kdf)"]
        fixed(1) By_passphrase unfolding kdf by (simp add: Let_def)
  next
    case (By_passkey rp cred)
    have "encodeBackup b = [1, 2] @ rp @ u16_bytes (int (length cred)) @ cred @ ?rest"
      using l By_passkey by (simp add: encodeBackup_def encodeHeader_def unlock_params_def method_byte_def UNLOCK_PASSKEY_def)
    then show ?thesis
      using l By_passkey fixed decode_passkey_parts [of rp "cred @ ?rest" cred] by simp
  qed
qed

lemma encode_decode: "decodeBackup bytes = Inr b \<Longrightarrow> backup_ok b \<and> encodeBackup b = bytes"
proof -
  assume d: "decodeBackup bytes = Inr b"
  then obtain v m more where bytes: "bytes = v # m # more" "uint v = 1" and m: "uint m = 1 \<or> uint m = 2"
    by (auto simp: decodeBackup_def BACKUP_FORMAT_VERSION_def UNLOCK_PASSPHRASE_def UNLOCK_PASSKEY_def split: list.splits if_splits)
  then have v: "v = 1" "m = 1 \<or> m = 2" by (auto simp: word_uint_eq_iff)
  show ?thesis
  proof (cases "m = 1")
    case True
    with d bytes v have len: "length more = 114"
      by (auto simp: decodeBackup_def decode_passphrase_def backup_lengths Let_def split: if_splits)
    then obtain w0 w1 w2 w3 i j rest where more: "more = w0 # w1 # w2 # w3 # i # j # rest"
      by (auto simp: numeral_eq_Suc length_Suc_conv)
    with len have "length rest = 108" by simp
    then obtain salt nonce key ct where rest: "rest = salt @ nonce @ key @ ct" and l: "length salt = 16" "length nonce = 12"
        "length key = 32" "length ct = 48" by (rule fixed_split)
    let ?kdf = "\<lparr>ap_memoryKiB = readU32 [w0, w1, w2, w3], ap_iterations = uint i, ap_parallelism = uint j\<rparr>"
    have b: "kdf_supported ?kdf" "b = \<lparr>kb_version = 1, kb_unlock = By_passphrase ?kdf, kb_salt = salt, kb_nonce = nonce,
        kb_publicKey = key, kb_ciphertext = ct\<rparr>"
      using d True v(1) bytes(1) decode_passphrase_iff [OF \<open>length rest = 108\<close>, of w0 w1 w2 w3 i j] read_fixed_parts [OF l]
      by (auto simp: more rest Let_def split: if_splits)
    then show ?thesis
      using l uint_lt2p [of i] uint_lt2p [of j] True v(1) bytes(1)
      by (simp add: backup_ok_def encodeBackup_def encodeHeader_def unlock_params_def method_byte_def UNLOCK_PASSPHRASE_def
          u32_codec(2) more rest)
  next
    case False
    with v have m2: "m = 2" by simp
    let ?len = "readU16 (take 2 (drop 32 more))"
    have l: "36 \<le> length bytes" "1 \<le> ?len" "?len \<le> 1023" "length more = 34 + nat ?len + 108"
      and b: "b = read_fixed (By_passkey (take 32 more) (take (nat ?len) (drop 34 more))) (drop (nat ?len) (drop 34 more))"
      using d bytes(1) v(1) m2 by (auto simp: decodeBackup_def decode_passkey_def backup_lengths Let_def split: if_splits)
    define rp n where "rp = take 32 more" and "n = nat ?len"
    have two: "\<exists>x y. zs = [x, y]" if "length zs = 2" for zs :: "u8 list"
      using that by (auto simp: numeral_2_eq_2 length_Suc_conv)
    have lm: "length more = n + 142" unfolding n_def using l(4) by linarith
    then have "34 \<le> length more" by linarith
    then have "length (take 2 (drop 32 more)) = 2" by simp
    from two [OF this] obtain a c where ac: "take 2 (drop 32 more) = [a, c]" by blast
    have "length (drop n (drop 34 more)) = 108" using lm by simp
    then obtain salt nonce key ct where rest: "drop n (drop 34 more) = salt @ nonce @ key @ ct"
      and f: "length salt = 16" "length nonce = 12" "length key = 32" "length ct = 48" by (rule fixed_split)
    define cred where "cred = take n (drop 34 more)"
    have cred: "length cred = n" using lm by (simp add: cred_def)
    have "drop 34 more = cred @ salt @ nonce @ key @ ct" using append_take_drop_id [of n "drop 34 more"] rest
      by (simp add: cred_def)
    moreover have "drop 32 more = [a, c] @ drop 34 more" using append_take_drop_id [of 2 "drop 32 more"] ac by simp
    ultimately have more: "more = rp @ [a, c] @ cred @ salt @ nonce @ key @ ct"
      using append_take_drop_id [of 32 more] by (simp add: rp_def)
    have len: "u16_bytes (int n) = [a, c]" using u16_codec(2) [of a c] l(2) by (simp add: n_def ac)
    have b: "b = \<lparr>kb_version = 1, kb_unlock = By_passkey rp cred, kb_salt = salt, kb_nonce = nonce, kb_publicKey = key,
        kb_ciphertext = ct\<rparr>"
      using b read_fixed_parts [OF f] rest by (simp add: rp_def n_def cred_def)
    have ok: "length rp = 32" using lm by (simp add: rp_def)
    have n: "1 \<le> n" "n \<le> 1023" using l(2,3) unfolding n_def by linarith+
    have "bytes = 1 # 2 # rp @ u16_bytes (int (length cred)) @ cred @ salt @ nonce @ key @ ct"
      unfolding cred len bytes(1) v(1) m2 by (simp add: more)
    moreover have "encodeBackup b = 1 # 2 # rp @ u16_bytes (int (length cred)) @ cred @ salt @ nonce @ key @ ct"
      unfolding b by (simp add: encodeBackup_def encodeHeader_def unlock_params_def method_byte_def UNLOCK_PASSKEY_def)
    moreover have "backup_ok b" unfolding b using f ok cred n by (simp add: backup_ok_def)
    ultimately show ?thesis by simp
  qed
qed

text \<open>The layout is a strict code: bytes read as a record exactly when they are what that record is written as.\<close>

interpretation backup_layout: strict_codec encodeBackup "\<lambda>bytes. case decodeBackup bytes of Inl e \<Rightarrow> None | Inr b \<Rightarrow> Some b" backup_ok
  by unfold_locales (auto simp: decode_encode encode_decode split: sum.splits)

end
