(* ===== verification/Key_Restore.thy ===== *)
theory Key_Restore
  imports Key_Backup Example_Platform
begin

text \<open>
  The text and file forms of a backup read back as it, and a wrapped key comes back with the secret that
  wrapped it.
\<close>

section \<open>Indented JSON\<close>

lemma lexes_blank: "is_ws c \<Longrightarrow> lexes n t ts \<Longrightarrow> lexes n (c # t) ts"
proof -
  assume "is_ws c"
  then have "lex n (c # cs) = lex n cs" for cs by (subst lex.simps) simp
  then show "lexes n t ts \<Longrightarrow> lexes n (c # t) ts" by (simp add: lexes_def)
qed

lemma lexes_join_lines:
  assumes "list_all2 (lexes n) texts tss" "texts \<noteq> []"
  shows "lexes n (join (js '','' @ [0x0a]) texts) (join [punct '',''] tss)"
  using assms
proof (induction rule: list_all2_induct)
  case (Cons t texts ts tss)
  show ?case
  proof (cases "texts = []")
    case True
    with Cons show ?thesis by simp
  next
    case False
    then obtain u us v vs where eq: "texts = u # us" "tss = v # vs"
      using Cons.hyps by (cases texts; cases tss) auto
    have "lexes n (0x2c # 0x0a # join (js '','' @ [0x0a]) texts) (Punct 0x2c # join [punct '',''] tss)"
      using Cons False by (intro lexes_punct_append is_punct_chars lexes_blank) (simp_all add: is_ws_def)
    from lexes_append [OF Cons.hyps(1) this] show ?thesis
      using not_number_char_punct [OF is_punct_chars(6)] by (simp add: eq js_def)
  qed
qed simp

lemma lexes_member:
  assumes "lexes n t [Atom v]"
  shows "lexes n (js ''  '' @ stringify_string k @ js '': '' @ t) [Atom (JString k), punct '':'', Atom v]"
proof -
  have "lexes n (0x3a # 0x20 # t) (Punct 0x3a # [Atom v])"
    using assms by (intro lexes_punct_append is_punct_chars lexes_blank) (simp_all add: is_ws_def)
  from lexes_append [OF lexes_string this] have "lexes n (stringify_string k @ 0x3a # 0x20 # t) ([Atom (JString k)] @ Punct 0x3a # [Atom v])"
    using not_number_char_punct [OF is_punct_chars(5)] by simp
  then have "lexes n (0x20 # 0x20 # stringify_string k @ 0x3a # 0x20 # t) ([Atom (JString k)] @ Punct 0x3a # [Atom v])"
    by (intro lexes_blank) (simp_all add: is_ws_def)
  then show ?thesis by (simp add: js_def)
qed

lemma JSON_of_tokens:
  assumes "lexes n t ts" "parses v ts"
  shows "JSON_parse n t = Some v"
proof -
  have "lex n [] = Some []" by (subst lex.simps) simp
  then have "lex n t = Some ts" using assms(1) unfolding lexes_def by (metis append_Nil2 option.simps(9))
  moreover have "parse_value (2 * length ts) ts = Some (v, [])"
    using assms(2) unfolding parses_def by (metis append_Nil2 order_refl)
  ultimately show ?thesis by (simp add: JSON_parse_def)
qed

lemma parse_pretty:
  assumes "list_all2 (\<lambda>(k, t) v. lexes n t [Atom v]) members vs" "members \<noteq> []" "distinct (map fst members)"
  shows "JSON_parse n (pretty_object members) = Some (JObject (zip (map (js \<circ> fst) members) vs))"
proof -
  let ?texts = "map (\<lambda>(k, text). js ''  '' @ stringify_string (js k) @ js '': '' @ text) members"
  let ?tss = "map (\<lambda>(k, v). [Atom (JString k), punct '':'', Atom v]) (zip (map (js \<circ> fst) members) vs)"
  have len: "length vs = length members" using assms(1) by (simp add: list_all2_lengthD)
  have "list_all2 (lexes n) ?texts ?tss"
    using assms(1) lexes_member by (auto simp: list_all2_conv_all_nth split: prod.splits)
  then have "lexes n (join (js '','' @ [0x0a]) ?texts) (join [punct '',''] ?tss)"
    using lexes_join_lines assms(2) by simp
  then have "lexes n (0x0a # join (js '','' @ [0x0a]) ?texts) (join [punct '',''] ?tss)"
    by (intro lexes_blank) (simp add: is_ws_def)
  moreover have "lexes n (0x0a # [0x7d]) [Punct 0x7d]"
    by (intro lexes_blank lexes_punct is_punct_chars) (simp add: is_ws_def)
  ultimately have "lexes n ((0x0a # join (js '','' @ [0x0a]) ?texts) @ 0x0a # [0x7d]) (join [punct '',''] ?tss @ [Punct 0x7d])"
    by (rule lexes_append) (simp_all add: is_number_char_def is_digit_def js_def)
  from lexes_punct_append [OF is_punct_chars(1) this]
  have lexes: "lexes n (pretty_object members) (Punct 0x7b # join [punct '',''] ?tss @ [Punct 0x7d])"
    by (simp add: pretty_object_def js_def)
  have "list_all2 (\<lambda>(k, v) ts. \<exists>ts'. ts = Atom (JString k) # punct '':'' # ts' \<and> parses v ts')
      (zip (map (js \<circ> fst) members) vs) ?tss"
    using parses_atom by (auto simp: list_all2_conv_all_nth split: prod.splits)
  moreover have "distinct (map fst (zip (map (js \<circ> fst) members) vs))"
    using assms(3) len by (simp add: distinct_map inj_on_def comp_def)
  ultimately have parses: "parses (JObject (zip (map (js \<circ> fst) members) vs)) (Punct 0x7b # join [punct '',''] ?tss @ [Punct 0x7d])"
    using parses_object [of "zip (map (js \<circ> fst) members) vs" ?tss] by (simp add: js_def)
  from JSON_of_tokens [OF lexes parses] show ?thesis .
qed

section \<open>The text and the file\<close>

lemma base64_no_space: "u \<in> set (toBase64Url bs) \<Longrightarrow> \<not> space_unit u"
proof -
  assume "u \<in> set (toBase64Url bs)"
  then have "u \<in> set BASE64URL" using toBase64Url_alphabet by blast
  then show ?thesis by (auto simp: BASE64URL_def js_def space_unit_def is_space_def)
qed

lemma trim_plain: "\<forall>u \<in> set t. \<not> space_unit u \<Longrightarrow> trim t = t"
proof -
  have "dropWhile space_unit t = t" if "\<forall>u \<in> set t. \<not> space_unit u" for t
    using that by (cases t) auto
  from this [of t] this [of "rev t"] show "\<forall>u \<in> set t. \<not> space_unit u \<Longrightarrow> trim t = t"
    by (simp add: trim_def trim_end_def)
qed

lemma trim_text: "trim (backupToText b) = backupToText b"
proof -
  have "\<forall>u \<in> set BACKUP_TEXT_PREFIX. \<not> space_unit u"
    by (simp add: BACKUP_TEXT_PREFIX_def js_def space_unit_def is_space_def)
  then show ?thesis using base64_no_space by (intro trim_plain) (auto simp: backupToText_def)
qed

lemma compact_text: "parseCompact (backupToText b) = decodeBackup (encodeBackup b)"
proof -
  have "starts (BACKUP_TEXT_PREFIX @ t) (js ''TPK'')" "starts (BACKUP_TEXT_PREFIX @ t) BACKUP_TEXT_PREFIX" for t
    by (simp_all add: starts_def BACKUP_TEXT_PREFIX_def js_def)
  then show ?thesis by (simp add: parseCompact_def backupToText_def base64url.dec_enc)
qed

lemma parse_text: "backup_ok b \<Longrightarrow> parseBackupText p (backupToText b) = Inr b"
proof -
  assume "backup_ok b"
  moreover have "\<not> starts (backupToText b) (js ''{'')" by (simp add: starts_def backupToText_def BACKUP_TEXT_PREFIX_def js_def)
  ultimately show ?thesis by (simp add: parseBackupText_def trim_text compact_text decode_encode)
qed

lemma trim_pretty: "trim (pretty_object members @ [0x0a]) = pretty_object members"
  by (simp add: pretty_object_def js_def trim_def trim_end_def space_unit_def is_space_def)

lemma parse_file:
  assumes "backup_ok b" "nearest p (num_of_int 1) = num_of_int 1"
  shows "parseBackupText p (backupToFileText b createdAt) = Inr b"
proof -
  let ?members = "[(''format'', stringify_string BACKUP_FILE_FORMAT), (''version'', number_text (num_of_int 1)),
      (''createdAt'', stringify_string (toISOString createdAt)), (''publicKey'', stringify_string (toBase64Url (kb_publicKey b))),
      (''backup'', stringify_string (backupToText b)), (''help'', stringify_string (help_text (kb_unlock b)))]"
  let ?parsed = "[JString BACKUP_FILE_FORMAT, JNumber (num_of_int 1), JString (toISOString createdAt),
      JString (toBase64Url (kb_publicKey b)), JString (backupToText b), JString (help_text (kb_unlock b))]"
  have "decimal 1 = [1]" by (subst decimal.simps) simp
  then have "wf_number (num_of_int 1)" by (simp add: num_of_int_def num_of_nat_def wf_number_def strip_zeros_def)
  then have "list_all2 (\<lambda>(k, t) v. lexes (nearest p) t [Atom v]) ?members ?parsed"
    using lexes_number [of "num_of_int 1" "nearest p"] assms(2) by (simp add: lexes_string)
  from parse_pretty [OF this] have json: "JSON_parse (nearest p) (pretty_object ?members) =
      Some (JObject (zip (map (js \<circ> fst) ?members) ?parsed))" by simp
  have "starts (pretty_object ?members) (js ''{'')" by (simp add: starts_def pretty_object_def js_def)
  then show ?thesis
    using json by (simp add: parseBackupText_def backupToFileText_def BACKUP_FORMAT_VERSION_def trim_pretty trim_text
        compact_text decode_encode [OF assms(1)])
qed

section \<open>Passphrases\<close>

text \<open>The words of a text: its runs without separators.\<close>

function word_list :: "jstr \<Rightarrow> jstr list" where
  "word_list t = (case dropWhile separator t of
     [] \<Rightarrow> []
   | u # us \<Rightarrow> (u # takeWhile (\<lambda>v. \<not> separator v) us) # word_list (dropWhile (\<lambda>v. \<not> separator v) us))"
  by pat_completeness auto
termination
proof (relation "measure length", simp)
  fix t u us assume "dropWhile separator t = u # us"
  then have "length (u # us) \<le> length t" by (metis length_dropWhile_le)
  then show "(dropWhile (\<lambda>v. \<not> separator v) us, t) \<in> measure length"
    using length_dropWhile_le [of "\<lambda>v. \<not> separator v" us] by simp
qed

declare word_list.simps [simp del]

lemma separator_blank [simp]: "separator 0x20"
  by (simp add: separator_def)

lemma space_separator: "space_unit u \<Longrightarrow> separator u"
  by (simp add: separator_def)

lemma word_list_unfold:
  "word_list [] = []" "separator u \<Longrightarrow> word_list (u # us) = word_list us"
  "\<not> separator u \<Longrightarrow> word_list (u # us) = (u # takeWhile (\<lambda>v. \<not> separator v) us) # word_list (dropWhile (\<lambda>v. \<not> separator v) us)"
  by (subst word_list.simps, simp)+

lemma word_list_drop [simp]: "word_list (dropWhile separator t) = word_list t"
  by (induction t) (simp_all add: word_list_unfold)

lemma single_blanks_word: "\<forall>u \<in> set w. \<not> separator u \<Longrightarrow> single_blanks (w @ t) = w @ single_blanks t"
  by (induction w) simp_all

lemma trim_end_append: "trim_end b \<noteq> [] \<Longrightarrow> trim_end (a @ b) = a @ trim_end b"
  by (simp add: trim_end_def dropWhile_append) (metis rev_is_Nil_conv dropWhile_eq_Nil_conv rev_append rev_rev_ident)

lemma trim_end_plain: "w \<noteq> [] \<Longrightarrow> \<not> space_unit (last w) \<Longrightarrow> trim_end w = w" "trim_end (w @ [0x20]) = trim_end w"
  by (cases w rule: rev_cases) (simp_all add: trim_end_def)

lemma trim_end_words: "t = [] \<or> \<not> separator (hd t) \<Longrightarrow> trim_end (single_blanks t) = join [0x20] (word_list t)"
proof (induction t rule: length_induct)
  case (1 t)
  show ?case
  proof (cases t)
    case Nil
    then show ?thesis by (simp add: word_list_unfold trim_end_def)
  next
    case (Cons u us)
    define w rest where "w = u # takeWhile (\<lambda>v. \<not> separator v) us" and "rest = dropWhile (\<lambda>v. \<not> separator v) us"
    have sep: "\<not> separator u" using 1(2) Cons by simp
    have t: "t = w @ rest" by (simp add: w_def rest_def Cons)
    have w: "\<forall>v \<in> set w. \<not> separator v" using sep set_takeWhileD by (fastforce simp: w_def)
    then have "\<not> space_unit (last w)" using space_separator by (metis last_in_set list.discI w_def)
    with trim_end_plain(1) [of w] have whole: "trim_end w = w" by (simp add: w_def)
    have words: "word_list t = w # word_list rest"
      using sep by (simp add: Cons word_list_unfold w_def rest_def)
    show ?thesis
    proof (cases rest)
      case Nil
      then show ?thesis using words whole single_blanks_word [OF w, of "[]"] t by (simp add: word_list_unfold)
    next
      case (Cons v vs)
      then have v: "separator v" using hd_dropWhile [of "\<lambda>v. \<not> separator v" us] by (simp add: rest_def)
      define more where "more = dropWhile separator vs"
      have blanks: "single_blanks t = w @ 0x20 # single_blanks more"
        using single_blanks_word [OF w, of rest] v by (simp add: t Cons more_def)
      have "length more < length t" using length_dropWhile_le [of separator vs] by (simp add: t Cons more_def w_def)
      moreover have "more = [] \<or> \<not> separator (hd more)" using hd_dropWhile [of separator vs] by (auto simp: more_def)
      ultimately have ih: "trim_end (single_blanks more) = join [0x20] (word_list more)" using 1(1) by blast
      have tail: "word_list rest = word_list more" using v by (simp add: Cons word_list_unfold more_def)
      show ?thesis
      proof (cases more)
        case Nil
        then show ?thesis using blanks words tail whole trim_end_plain(2) [of w] by (simp add: word_list_unfold)
      next
        case (Cons x xs)
        with \<open>more = [] \<or> \<not> separator (hd more)\<close> obtain y ys where y: "word_list more = (x # y) # ys"
          by (auto simp: word_list_unfold)
        then have ne: "join [0x20] (word_list more) \<noteq> []" by (cases ys) simp_all
        have "trim_end (single_blanks t) = (w @ [0x20]) @ join [0x20] (word_list more)"
          using trim_end_append [of "single_blanks more" "w @ [0x20]"] ih ne blanks by simp
        then show ?thesis using words tail y by simp
      qed
    qed
  qed
qed

lemma normalize_words: "normalizePassphrase c t = join [0x20] (word_list (bc_fold c t))"
proof -
  have "trim (single_blanks t) = join [0x20] (word_list t)" for t
  proof (cases "t \<noteq> [] \<and> separator (hd t)")
    case False
    moreover have "dropWhile space_unit (single_blanks t) = single_blanks t"
      using False space_separator by (cases t) auto
    ultimately show ?thesis using trim_end_words [of t] by (auto simp: trim_def)
  next
    case True
    then obtain u us where t: "t = u # us" "separator u" by (cases t) auto
    define more where "more = dropWhile separator us"
    have more: "more = [] \<or> \<not> separator (hd more)" using hd_dropWhile [of separator us] by (auto simp: more_def)
    then have "dropWhile space_unit (single_blanks more) = single_blanks more"
      using space_separator by (cases more) auto
    moreover have "space_unit 0x20" by (simp add: space_unit_def is_space_def)
    ultimately show ?thesis using trim_end_words [OF more] t
      by (simp add: trim_def word_list_unfold word_list_drop [of us, folded more_def] more_def [symmetric])
  qed
  then show ?thesis by (simp add: normalizePassphrase_def)
qed

section \<open>What is relied on\<close>

text \<open>
  AES-GCM gives back what was encrypted, adds a tag of 16 bytes, and accepts nothing but what encrypting
  under the same key, nonce and additional data makes.
\<close>

definition crypto_ok :: "backup_crypto \<Rightarrow> bool" where
  "crypto_ok c \<longleftrightarrow> platform_ok (bc_platform c) \<and> nearest (bc_platform c) (num_of_int 1) = num_of_int 1
     \<and> (\<forall>k n a t. bc_decrypt c k n a (bc_encrypt c k n a t) = Some t \<and> length (bc_encrypt c k n a t) = length t + 16)
     \<and> (\<forall>k n a t d. bc_decrypt c k n a d = Some t \<longrightarrow> d = bc_encrypt c k n a t)"

lemma crypto_okD:
  assumes "crypto_ok c"
  shows "platform_ok (bc_platform c)" "nearest (bc_platform c) (num_of_int 1) = num_of_int 1"
    "bc_decrypt c k n a (bc_encrypt c k n a t) = Some t" "length (bc_encrypt c k n a t) = length t + 16"
    "bc_decrypt c k n a d = Some t \<Longrightarrow> d = bc_encrypt c k n a t"
  using assms by (simp_all add: crypto_ok_def)

section \<open>Locking\<close>

lemma exportSeed_32 [simp]: "length sk = 32 \<Longrightarrow> exportSeed sk = sk"
  by (simp add: exportSeed_def Let_def PKCS8_PREFIX_def)

lemma importSeed_32 [simp]: "length seed = 32 \<Longrightarrow> importSeed seed = Some seed"
  by (simp add: importSeed_def)

lemma wrapWith_parts [simp]:
  "kb_unlock (wrapWith c pair u key salt nonce) = u" "kb_salt (wrapWith c pair u key salt nonce) = salt"
  "kb_nonce (wrapWith c pair u key salt nonce) = nonce" "kb_version (wrapWith c pair u key salt nonce) = 1" "kb_publicKey (wrapWith c pair u key salt nonce) = snd pair"
  by (simp_all add: wrapWith_def Let_def BACKUP_FORMAT_VERSION_def)

lemma wrap_parts [simp]:
  "kb_unlock (wrapPersonKey c pair pw kdf salt nonce) = By_passphrase kdf" "kb_salt (wrapPersonKey c pair pw kdf salt nonce) = salt"
  by (simp_all add: wrapPersonKey_def)

text \<open>The settings this reader accepts, as bytes hold them.\<close>

definition unlock_ok :: "unlock_method \<Rightarrow> bool" where
  "unlock_ok u = (case u of
     By_passphrase kdf \<Rightarrow> kdf_supported kdf \<and> ap_iterations kdf < 256 \<and> ap_parallelism kdf < 256
   | By_passkey rp cred \<Rightarrow> length rp = 32 \<and> 1 \<le> length cred \<and> length cred \<le> 1023)"

lemma wrapped_ok:
  assumes "crypto_ok c" "unlock_ok u" "length salt = 16" "length nonce = 12" "length sk = 32" "length pk = 32"
  shows "backup_ok (wrapWith c (sk, pk) u key salt nonce)"
  using assms by (simp add: backup_ok_def unlock_ok_def wrapWith_def Let_def crypto_ok_def BACKUP_FORMAT_VERSION_def)

lemma key_backup_eq:
  "b = (b' :: key_backup) \<longleftrightarrow> kb_version b = kb_version b' \<and> kb_unlock b = kb_unlock b' \<and> kb_salt b = kb_salt b'
     \<and> kb_nonce b = kb_nonce b' \<and> kb_publicKey b = kb_publicKey b' \<and> kb_ciphertext b = kb_ciphertext b'"
  by (cases b; cases b') auto

text \<open>A record opens under a key to what that key wraps as the record, and to nothing else.\<close>

lemma open_iff:
  assumes "crypto_ok c" "backup_ok b"
  shows "open_backup c b (key (kb_salt b)) failure = Inr ((sk, pk), t) \<longleftrightarrow>
    length sk = 32 \<and> pk = ed_public (bc_platform c) sk \<and> t = toBase64Url pk
    \<and> b = wrapWith c (sk, pk) (kb_unlock b) key (kb_salt b) (kb_nonce b)"
proof -
  let ?k = "key (kb_salt b)"
  note ok = crypto_okD [OF assms(1)] and b_ok = assms(2) [unfolded backup_ok_def]
  have wrapped: "b = wrapWith c (sk, pk) (kb_unlock b) key (kb_salt b) (kb_nonce b) \<longleftrightarrow>
      pk = kb_publicKey b \<and> kb_ciphertext b = bc_encrypt c ?k (kb_nonce b) (encodeHeader b) sk" if "length sk = 32"
  proof (cases "pk = kb_publicKey b")
    case True
    then have "kb_ciphertext (wrapWith c (sk, pk) (kb_unlock b) key (kb_salt b) (kb_nonce b)) =
        bc_encrypt c ?k (kb_nonce b) (encodeHeader b) sk"
      using that b_ok by (simp add: wrapWith_def Let_def BACKUP_FORMAT_VERSION_def encodeHeader_def)
    then show ?thesis using True b_ok unfolding key_backup_eq [of b] by simp
  next
    case False
    then show ?thesis unfolding key_backup_eq [of b] by simp
  qed
  have seed: "bc_decrypt c ?k (kb_nonce b) (encodeHeader b) (kb_ciphertext b) = Some s \<longleftrightarrow>
      kb_ciphertext b = bc_encrypt c ?k (kb_nonce b) (encodeHeader b) s" for s
    using ok(3,5) by auto
  have len: "length s = 32" if "kb_ciphertext b = bc_encrypt c ?k (kb_nonce b) (encodeHeader b) s" for s
    using ok(4) [of ?k "kb_nonce b" "encodeHeader b" s] that b_ok by simp
  show ?thesis
  proof (cases "bc_decrypt c ?k (kb_nonce b) (encodeHeader b) (kb_ciphertext b)")
    case None
    then show ?thesis using seed [of sk] wrapped by (auto simp: open_backup_def)
  next
    case (Some s)
    then have s: "kb_ciphertext b = bc_encrypt c ?k (kb_nonce b) (encodeHeader b) s" using seed by simp
    then have "bc_encrypt c ?k (kb_nonce b) (encodeHeader b) s = bc_encrypt c ?k (kb_nonce b) (encodeHeader b) sk \<longleftrightarrow> s = sk"
      using ok(3) by (metis option.inject)
    then show ?thesis
      using Some len [OF s] s wrapped base64url.enc_inj
      by (auto simp: open_backup_def Let_def exportPublicKey_def split: if_splits)
  qed
qed

text \<open>The ciphertext of a record that opens was made under its header, and a header is in one record only.\<close>

datatype secret = Passphrase jstr | Passkey_secret "u8 list"

fun unlock_with :: "backup_crypto \<Rightarrow> key_backup \<Rightarrow> secret \<Rightarrow> unwrap_problem + (u8 list \<times> u8 list) \<times> jstr" where
  "unlock_with c b (Passphrase t) = unwrapPersonKey c b t"
| "unlock_with c b (Passkey_secret prf) = unwrapPersonKeyWithPasskey c b prf"

fun secret_key :: "backup_crypto \<Rightarrow> key_backup \<Rightarrow> secret \<Rightarrow> u8 list" where
  "secret_key c b (Passphrase t) =
     (case kb_unlock b of By_passphrase kdf \<Rightarrow> passphraseKey c t (kb_salt b) kdf | By_passkey _ _ \<Rightarrow> [])"
| "secret_key c b (Passkey_secret prf) = passkeyKey c prf (kb_salt b)"

definition opens_to :: "backup_crypto \<Rightarrow> key_backup \<Rightarrow> secret \<Rightarrow> u8 list \<Rightarrow> bool" where
  "opens_to c b s sk \<longleftrightarrow> (\<exists>pk t. unlock_with c b s = Inr ((sk, pk), t))"

lemma opened_ciphertext:
  assumes "crypto_ok c" "backup_ok b" "opens_to c b s sk"
  shows "kb_ciphertext b = bc_encrypt c (secret_key c b s) (kb_nonce b) (encodeHeader b) sk"
proof -
  from assms(3) obtain pk t failure where o: "open_backup c b (secret_key c b s) failure = Inr ((sk, pk), t)"
    by (cases s; cases "kb_unlock b") (auto simp: opens_to_def unwrapPersonKey_def unwrapPersonKeyWithPasskey_def)
  then obtain seed where seed: "bc_decrypt c (secret_key c b s) (kb_nonce b) (encodeHeader b) (kb_ciphertext b) = Some seed"
    "importSeed seed = Some sk"
    by (auto simp: open_backup_def Let_def split: option.splits if_splits)
  note made = crypto_okD(5) [OF assms(1) seed(1)]
  then have "length seed = 32"
    using crypto_okD(4) [OF assms(1), of "secret_key c b s" "kb_nonce b" "encodeHeader b" seed] assms(2)
    by (simp add: backup_ok_def)
  with made seed(2) show ?thesis by simp
qed

lemma other_header:
  assumes "backup_ok b" "backup_ok b'" "kb_ciphertext b' = kb_ciphertext b" "b' \<noteq> b"
  shows "encodeHeader b' \<noteq> encodeHeader b"
proof
  assume "encodeHeader b' = encodeHeader b"
  with assms(3) have "encodeBackup b' = encodeBackup b" by (simp add: encodeBackup_def)
  with decode_encode [OF assms(1)] decode_encode [OF assms(2)] assms(4) show False by simp
qed

lemma wrapped_read_back:
  assumes "backup_ok b" "crypto_ok c"
  shows "parseBackupText (bc_platform c) (backupToText b) = Inr b"
    "parseBackupText (bc_platform c) (backupToFileText b createdAt) = Inr b"
  using parse_text parse_file crypto_okD(2) assms by blast+

lemma word_listE:
  assumes "w \<in> set (word_list t)"
  shows "w \<noteq> []" "\<forall>u \<in> set w. \<not> separator u"
proof -
  have "\<forall>w \<in> set (word_list t). w \<noteq> [] \<and> (\<forall>u \<in> set w. \<not> separator u)"
  proof (induction t rule: word_list.induct)
    case (1 t)
    show ?case
    proof (cases "dropWhile separator t")
      case Nil
      then have "word_list t = []" by (metis word_list_drop word_list_unfold(1))
      then show ?thesis by simp
    next
      case (Cons u us)
      then have u: "\<not> separator u" using hd_dropWhile [of separator t] by simp
      define w where "w = u # takeWhile (\<lambda>v. \<not> separator v) us"
      have words: "word_list t = w # word_list (dropWhile (\<lambda>v. \<not> separator v) us)"
        using word_list_drop [of t] word_list_unfold(3) [OF u, of us] unfolding Cons w_def by simp
      have "\<forall>v \<in> set (takeWhile (\<lambda>v. \<not> separator v) us). \<not> separator v" by (metis set_takeWhileD)
      then have "w \<noteq> [] \<and> (\<forall>v \<in> set w. \<not> separator v)" using u by (simp add: w_def)
      then show ?thesis using 1 [OF Cons] unfolding words list.set(2) by blast
    qed
  qed
  then show "w \<noteq> []" "\<forall>u \<in> set w. \<not> separator u" using assms by auto
qed

lemma word_list_of_word:
  "w \<noteq> [] \<Longrightarrow> \<forall>u \<in> set w. \<not> separator u \<Longrightarrow> rest = [] \<or> separator (hd rest) \<Longrightarrow> word_list (w @ rest) = w # word_list rest"
proof -
  assume w: "w \<noteq> []" "\<forall>u \<in> set w. \<not> separator u" and rest: "rest = [] \<or> separator (hd rest)"
  from w(1) obtain u us where eq: "w = u # us" by (cases w) auto
  with w(2) have us: "\<forall>v \<in> set us. \<not> separator v" by simp
  have "takeWhile (\<lambda>v. \<not> separator v) (us @ rest) = us" "dropWhile (\<lambda>v. \<not> separator v) (us @ rest) = rest"
    using us rest by (cases rest; simp add: takeWhile_append2 dropWhile_append2)+
  then show ?thesis using w by (simp add: eq word_list_unfold)
qed

lemma word_list_join:
  "\<forall>w \<in> set ws. w \<noteq> [] \<and> (\<forall>u \<in> set w. \<not> separator u) \<Longrightarrow> word_list (join [0x20] ws) = ws"
proof (induction ws)
  case (Cons w ws)
  then show ?case
    using word_list_of_word [of w "[]"] word_list_of_word [of w "0x20 # join [0x20] ws"]
    by (cases ws) (simp_all add: word_list_unfold)
qed (simp add: word_list_unfold)

text \<open>Two passphrases are one to the derivation exactly when they have the same words.\<close>

lemma same_passphrase:
  "normalizePassphrase c t = normalizePassphrase c t' \<longleftrightarrow> word_list (bc_fold c t) = word_list (bc_fold c t')"
  unfolding normalize_words using word_list_join word_listE by metis

lemma passkey_wrap:
  assumes "wrapPersonKeyWithPasskey c pair prf rpId credential salt nonce = Some b" "platform_ok (bc_platform c)"
  obtains cred where "fromBase64Url credential = Some cred"
    "unlock_ok (By_passkey (sha256 (bc_platform c) (utf8_encode rpId)) cred)"
    "b = wrapWith c pair (By_passkey (sha256 (bc_platform c) (utf8_encode rpId)) cred) (passkeyKey c prf) salt nonce"
  using assms by (auto simp: wrapPersonKeyWithPasskey_def unlock_ok_def platform_ok_def MAX_CREDENTIAL_ID_LENGTH_def
      not_less Suc_le_eq split: option.splits if_splits)

section \<open>A concrete cipher\<close>

text \<open>
  On this one letters are folded as in ASCII, keys are their secrets, and a text is encrypted to itself and a
  tag of the first bytes of the key and of the additional data. It satisfies \<open>crypto_ok\<close> and is no cryptography.
\<close>

definition tag16 :: "u8 list \<Rightarrow> u8 list \<Rightarrow> u8 list" where
  "tag16 k a = take 8 (k @ replicate 8 0) @ take 8 (a @ replicate 8 0)"

lemma tag16_length [simp]: "length (tag16 k a) = 16"
  by (simp add: tag16_def)

definition toy_crypto :: backup_crypto where
  "toy_crypto = \<lparr>bc_platform = toy, bc_fold = map (\<lambda>u. if 0x41 \<le> u \<and> u \<le> 0x5a then u + 0x20 else u),
     bc_derive = (\<lambda>t salt kdf. map ucast t), bc_hkdf = (\<lambda>secret salt info. secret),
     bc_encrypt = (\<lambda>k n a t. t @ tag16 k a),
     bc_decrypt = (\<lambda>k n a d. let m = length d - 16 in if drop m d = tag16 k a then Some (take m d) else None)\<rparr>"

lemma toy_crypto_ok: "crypto_ok toy_crypto"
proof -
  have "d = t @ tag16 k a" if "drop (length d - 16) d = tag16 k a" "take (length d - 16) d = t" for d k a t
    using that append_take_drop_id [of "length d - 16" d] by simp
  then show ?thesis
    using toy_ok by (auto simp: crypto_ok_def toy_crypto_def Let_def split: if_splits)
qed

lemma toy_additional_data:
  assumes "bc_encrypt toy_crypto k n a t = bc_encrypt toy_crypto k' n' a' t'" "8 \<le> length a" "8 \<le> length a'"
  shows "take 8 a = take 8 a'"
proof -
  have "t @ tag16 k a = t' @ tag16 k' a'" using assms(1) by (simp add: toy_crypto_def)
  then have "tag16 k a = tag16 k' a'" by (simp add: append_eq_append_conv)
  then have "drop 8 (tag16 k a) = drop 8 (tag16 k' a')" by simp
  then show ?thesis using assms(2,3) by (simp add: tag16_def)
qed

lemma header_long: "backup_ok b \<Longrightarrow> 8 \<le> length (encodeHeader b)"
  by (simp add: header_length backup_ok_def)

lemma toy_crypto_platform [simp]: "bc_platform toy_crypto = toy"
  by (simp add: toy_crypto_def)

lemma toy_public: "ed_public toy = pad32"
  by (simp add: toy_def plain_platform_def)

definition ex_kdf :: argon_params where "ex_kdf = BACKUP_KDF"

definition ex_sk :: "u8 list" where "ex_sk = replicate 32 7"

definition ex_passphrase :: jstr where "ex_passphrase = js ''yellow tape''"
definition ex_entered :: jstr where "ex_entered = js '' Yellow.  TAPE,''"

lemma ex_words: "word_list (bc_fold toy_crypto ex_entered) = word_list (bc_fold toy_crypto ex_passphrase)"
  by (simp add: ex_entered_def ex_passphrase_def toy_crypto_def js_def word_list_unfold separator_def space_unit_def is_space_def)

lemma ex_unlock_ok: "unlock_ok (By_passphrase ex_kdf)"
  by (simp add: unlock_ok_def ex_kdf_def BACKUP_KDF_def kdf_supported_def)

definition ex_backup :: key_backup where
  "ex_backup = wrapPersonKey toy_crypto (ex_sk, pad32 ex_sk) ex_passphrase ex_kdf (replicate 16 1) (replicate 12 2)"

lemma ex_backup_ok: "backup_ok ex_backup"
  unfolding ex_backup_def wrapPersonKey_def using toy_crypto_ok ex_unlock_ok by (intro wrapped_ok) (simp_all add: ex_sk_def)

section \<open>Properties\<close>

text \<open>
  C38. The binary form of a backup is exact. Bytes are read as a record if and only if the record is one
  this version writes (fixed lengths, a supported method and settings, a credential id of 1 to 1023 bytes)
  and they are the bytes it is written as: nothing is read from a truncated, extended or altered layout, and
  no two byte strings are read as one record.
\<close>

theorem backup_bytes_exact: "decodeBackup bytes = Inr b \<longleftrightarrow> backup_ok b \<and> encodeBackup b = bytes"
  using decode_encode encode_decode by blast

text \<open>
  C37. A key locked with a passphrase comes back. The record's text, as a QR code holds it, and its file are
  both read as the record, and the record opens to the same private and public key with the same passphrase
  or any other that has the same words once letters are folded: case, blanks, dots, commas and underscores do
  not matter.
\<close>

theorem passphrase_backup_restored:
  assumes "crypto_ok c" "unlock_ok (By_passphrase kdf)" "length sk = 32" "length salt = 16" "length nonce = 12"
    "pk = ed_public (bc_platform c) sk" "b = wrapPersonKey c (sk, pk) passphrase kdf salt nonce"
    "word_list (bc_fold c entered) = word_list (bc_fold c passphrase)"
  shows "parseBackupText (bc_platform c) (backupToText b) = Inr b
    \<and> parseBackupText (bc_platform c) (backupToFileText b createdAt) = Inr b
    \<and> unwrapPersonKey c b entered = Inr ((sk, pk), exportPublicKey pk)"
proof (intro conjI)
  let ?key = "\<lambda>salt. passphraseKey c passphrase salt kdf"
  have b: "b = wrapWith c (sk, pk) (By_passphrase kdf) ?key salt nonce" using assms(7) by (simp add: wrapPersonKey_def)
  have "length pk = 32" using crypto_okD(1) [OF assms(1)] assms(6) by (simp add: platform_ok_def)
  then have ok: "backup_ok b" unfolding b using assms by (intro wrapped_ok) simp_all
  then show "parseBackupText (bc_platform c) (backupToText b) = Inr b"
    "parseBackupText (bc_platform c) (backupToFileText b createdAt) = Inr b"
    by (rule wrapped_read_back [OF _ assms(1)])+
  have "passphraseKey c entered salt kdf = ?key salt" for salt 
    by (simp add: passphraseKey_def same_passphrase [THEN iffD2, OF assms(8)])
  moreover have "open_backup c b (?key (kb_salt b)) Wrong_passphrase = Inr ((sk, pk), toBase64Url pk)"
    by (rule open_iff [OF assms(1) ok, THEN iffD2]) (use assms(3,6) in \<open>simp add: b\<close>)
  ultimately show "unwrapPersonKey c b entered = Inr ((sk, pk), exportPublicKey pk)"
    by (simp add: unwrapPersonKey_def exportPublicKey_def) (simp add: b)
qed

theorem passphrase_backup_restored_witness:
  "parseBackupText toy (backupToText ex_backup) = Inr ex_backup
    \<and> parseBackupText toy (backupToFileText ex_backup 0) = Inr ex_backup
    \<and> unwrapPersonKey toy_crypto ex_backup ex_entered = Inr ((ex_sk, pad32 ex_sk), exportPublicKey (pad32 ex_sk))"
proof -
  have "length ex_sk = 32" "length (replicate 16 1 :: u8 list) = 16" "length (replicate 12 2 :: u8 list) = 12"
    "pad32 ex_sk = ed_public (bc_platform toy_crypto) ex_sk" by (simp_all add: ex_sk_def toy_public)
  from passphrase_backup_restored [OF toy_crypto_ok ex_unlock_ok this ex_backup_def ex_words, of 0]
  show ?thesis by simp
qed

text \<open>
  A key locked with a passkey comes back. The record is kept under the passkey's own credential id, its
  text and its file are read as the record, and it opens to the same private and public key with the secret
  the passkey gives.
\<close>

lemma passkey_restored:
  assumes "crypto_ok c" "length sk = 32" "length salt = 16" "length nonce = 12" "pk = ed_public (bc_platform c) sk"
    "wrapPersonKeyWithPasskey c (sk, pk) prf rpId credential salt nonce = Some b"
  shows "passkeyRecordKey b = Some credential"
    and "parseBackupText (bc_platform c) (backupToText b) = Inr b"
    and "parseBackupText (bc_platform c) (backupToFileText b createdAt) = Inr b"
    and "unwrapPersonKeyWithPasskey c b prf = Inr ((sk, pk), exportPublicKey pk)"
proof -
  from passkey_wrap [OF assms(6) crypto_okD(1) [OF assms(1)]] obtain cred where cred: "fromBase64Url credential = Some cred"
    and u: "unlock_ok (By_passkey (sha256 (bc_platform c) (utf8_encode rpId)) cred)"
    and b: "b = wrapWith c (sk, pk) (By_passkey (sha256 (bc_platform c) (utf8_encode rpId)) cred) (passkeyKey c prf) salt nonce" .
  have "length pk = 32" using crypto_okD(1) [OF assms(1)] assms(5) by (simp add: platform_ok_def)
  then have ok: "backup_ok b" unfolding b using assms u by (intro wrapped_ok) simp_all
  then show "parseBackupText (bc_platform c) (backupToText b) = Inr b"
    "parseBackupText (bc_platform c) (backupToFileText b createdAt) = Inr b"
    by (rule wrapped_read_back [OF _ assms(1)])+
  show "passkeyRecordKey b = Some credential"
    using base64url.dec_sound [OF cred] by (simp add: passkeyRecordKey_def b)
  have "open_backup c b (passkeyKey c prf (kb_salt b)) Wrong_passkey = Inr ((sk, pk), toBase64Url pk)"
    by (rule open_iff [OF assms(1) ok, THEN iffD2]) (use assms(2,5) in \<open>simp add: b\<close>)
  then show "unwrapPersonKeyWithPasskey c b prf = Inr ((sk, pk), exportPublicKey pk)"
    by (simp add: unwrapPersonKeyWithPasskey_def exportPublicKey_def) (simp add: b)
qed

text \<open>
  C36. What opens is what was locked. A record that is read opens with a passphrase to a key pair exactly
  when it is the record that locking this pair with this passphrase makes, and the public key is the private
  key's own; the same holds for a passkey's secret. And the header is locked with the key: of the records
  with one ciphertext, when one opens, any other - with a changed method, settings, relying party, credential
  id, salt, nonce or public key - opens with no secret to no key, unless AES-GCM, under the keys of the two
  secrets and the nonces of the two records, encrypts the two keys with two different headers as additional
  data to one and the same ciphertext and tag.
\<close>

theorem opens_only_as_locked:
  assumes "crypto_ok c" "backup_ok b"
  shows "(unwrapPersonKey c b passphrase = Inr ((sk, pk), t) \<longleftrightarrow>
      length sk = 32 \<and> pk = ed_public (bc_platform c) sk \<and> t = exportPublicKey pk
      \<and> (\<exists>kdf. b = wrapPersonKey c (sk, pk) passphrase kdf (kb_salt b) (kb_nonce b)))
    \<and> (unwrapPersonKeyWithPasskey c b prf = Inr ((sk, pk), t) \<longleftrightarrow>
      length sk = 32 \<and> pk = ed_public (bc_platform c) sk \<and> t = exportPublicKey pk
      \<and> (\<exists>rp cred. b = wrapWith c (sk, pk) (By_passkey rp cred) (passkeyKey c prf) (kb_salt b) (kb_nonce b)))
    \<and> (\<forall>b' s s' key key'. opens_to c b s key \<and> backup_ok b' \<and> b' \<noteq> b \<and> kb_ciphertext b' = kb_ciphertext b
        \<and> \<not> (encodeHeader b' \<noteq> encodeHeader b
             \<and> bc_encrypt c (secret_key c b' s') (kb_nonce b') (encodeHeader b') key'
               = bc_encrypt c (secret_key c b s) (kb_nonce b) (encodeHeader b) key)
        \<longrightarrow> \<not> opens_to c b' s' key')"
proof (intro conjI)
  note opens = open_iff [OF assms]
  have passphrase: "(\<exists>kdf. b = wrapPersonKey c (sk, pk) passphrase kdf (kb_salt b) (kb_nonce b)) \<longleftrightarrow>
      (\<exists>kdf. kb_unlock b = By_passphrase kdf
        \<and> b = wrapWith c (sk, pk) (kb_unlock b) (\<lambda>salt. passphraseKey c passphrase salt kdf) (kb_salt b) (kb_nonce b))"
    unfolding wrapPersonKey_def by (metis wrapWith_parts(1))
  show "unwrapPersonKey c b passphrase = Inr ((sk, pk), t) \<longleftrightarrow>
      length sk = 32 \<and> pk = ed_public (bc_platform c) sk \<and> t = exportPublicKey pk
      \<and> (\<exists>kdf. b = wrapPersonKey c (sk, pk) passphrase kdf (kb_salt b) (kb_nonce b))"
    unfolding passphrase using opens [of "\<lambda>salt. passphraseKey c passphrase salt _"]
    by (cases "kb_unlock b") (auto simp: unwrapPersonKey_def exportPublicKey_def)
  have passkey: "(\<exists>rp cred. b = wrapWith c (sk, pk) (By_passkey rp cred) (passkeyKey c prf) (kb_salt b) (kb_nonce b)) \<longleftrightarrow>
      (\<exists>rp cred. kb_unlock b = By_passkey rp cred)
        \<and> b = wrapWith c (sk, pk) (kb_unlock b) (passkeyKey c prf) (kb_salt b) (kb_nonce b)"
    by (metis wrapWith_parts(1))
  show "unwrapPersonKeyWithPasskey c b prf = Inr ((sk, pk), t) \<longleftrightarrow>
      length sk = 32 \<and> pk = ed_public (bc_platform c) sk \<and> t = exportPublicKey pk
      \<and> (\<exists>rp cred. b = wrapWith c (sk, pk) (By_passkey rp cred) (passkeyKey c prf) (kb_salt b) (kb_nonce b))"
    unfolding passkey using opens [of "passkeyKey c prf"]
    by (cases "kb_unlock b") (auto simp: unwrapPersonKeyWithPasskey_def exportPublicKey_def)
  show "\<forall>b' s s' key key'. opens_to c b s key \<and> backup_ok b' \<and> b' \<noteq> b \<and> kb_ciphertext b' = kb_ciphertext b
        \<and> \<not> (encodeHeader b' \<noteq> encodeHeader b
             \<and> bc_encrypt c (secret_key c b' s') (kb_nonce b') (encodeHeader b') key'
               = bc_encrypt c (secret_key c b s) (kb_nonce b) (encodeHeader b) key)
        \<longrightarrow> \<not> opens_to c b' s' key'"
    using opened_ciphertext [OF assms(1)] other_header assms(2) by metis
qed

text \<open>
  The example record opens with its passphrase and not with a passkey; with other settings in its header it
  opens to no key, with the right passphrase or any other secret.
\<close>

definition ex_altered :: key_backup where
  "ex_altered = ex_backup\<lparr>kb_unlock := By_passphrase (ex_kdf\<lparr>ap_iterations := 4\<rparr>)\<rparr>"

lemma ex_altered:
  "backup_ok ex_altered" "ex_altered \<noteq> ex_backup" "kb_ciphertext ex_altered = kb_ciphertext ex_backup"
  "take 8 (encodeHeader ex_altered) \<noteq> take 8 (encodeHeader ex_backup)"
proof -
  have u: "kb_unlock ex_backup = By_passphrase ex_kdf" "kb_version ex_backup = 1" by (simp_all add: ex_backup_def wrapPersonKey_def)
  show "backup_ok ex_altered"
    using ex_backup_ok by (simp add: ex_altered_def backup_ok_def u ex_kdf_def BACKUP_KDF_def kdf_supported_def)
  show "kb_ciphertext ex_altered = kb_ciphertext ex_backup" by (simp add: ex_altered_def)
  show h: "take 8 (encodeHeader ex_altered) \<noteq> take 8 (encodeHeader ex_backup)"
    by (simp add: ex_altered_def encodeHeader_def u unlock_params_def u32_bytes_def Let_def ex_kdf_def BACKUP_KDF_def)
  then show "ex_altered \<noteq> ex_backup" by metis
qed

theorem opens_only_as_locked_witness:
  "unwrapPersonKey toy_crypto ex_backup ex_passphrase = Inr ((ex_sk, pad32 ex_sk), exportPublicKey (pad32 ex_sk))
    \<and> unwrapPersonKeyWithPasskey toy_crypto ex_backup ex_sk \<noteq> Inr ((ex_sk, pad32 ex_sk), exportPublicKey (pad32 ex_sk))
    \<and> (\<nexists>s key. opens_to toy_crypto ex_altered s key)"
proof (intro conjI)
  note opens = opens_only_as_locked [OF toy_crypto_ok ex_backup_ok]
  have b: "ex_backup = wrapPersonKey toy_crypto (ex_sk, pad32 ex_sk) ex_passphrase ex_kdf (kb_salt ex_backup) (kb_nonce ex_backup)"
    by (simp add: ex_backup_def wrapPersonKey_def)
  show opened: "unwrapPersonKey toy_crypto ex_backup ex_passphrase = Inr ((ex_sk, pad32 ex_sk), exportPublicKey (pad32 ex_sk))"
    unfolding opens [THEN conjunct1] using b by (auto simp: toy_public ex_sk_def)
  have "kb_unlock ex_backup = By_passphrase ex_kdf" by (simp add: ex_backup_def)
  then show "unwrapPersonKeyWithPasskey toy_crypto ex_backup ex_sk \<noteq> Inr ((ex_sk, pad32 ex_sk), exportPublicKey (pad32 ex_sk))"
    unfolding opens [THEN conjunct2, THEN conjunct1] by (metis unlock_method.distinct(1) wrapWith_parts(1))
  have "opens_to toy_crypto ex_backup (Passphrase ex_passphrase) ex_sk" using opened by (simp add: opens_to_def)
  moreover have "bc_encrypt toy_crypto k n (encodeHeader ex_altered) t \<noteq> bc_encrypt toy_crypto k' n' (encodeHeader ex_backup) t'"
    for k n t k' n' t'
    using toy_additional_data [of k n "encodeHeader ex_altered" t k' n' "encodeHeader ex_backup" t'] ex_altered(4)
      header_long [OF ex_altered(1)] header_long [OF ex_backup_ok] by metis
  ultimately show "\<nexists>s key. opens_to toy_crypto ex_altered s key"
    using opens [THEN conjunct2, THEN conjunct2, rule_format, of "Passphrase ex_passphrase" ex_sk ex_altered] ex_altered(1-3)
    by blast
qed

end
