(* ===== verification/Passkey_Records.thy ===== *)
theory Passkey_Records
  imports Key_Restore Host_Safety Statement_Store
begin

text \<open>
  The passkey records a host keeps for the people on its roster (\<^verbatim>\<open>passkeyRecords.ts\<close>) and their routes
  (\<^verbatim>\<open>passkeyRecordsHttp.ts\<close>). Storing and fetching are threads over the host of \<open>Host_Vouching\<close>, with
  the windows of the throttle beside it.
\<close>

section \<open>State\<close>

definition MAX_FETCHES_PER_WINDOW :: int where "MAX_FETCHES_PER_WINDOW = 10"
definition FETCH_WINDOW_MS :: int where "FETCH_WINDOW_MS = 60000"
definition MAX_RECORDS_PER_PERSON :: nat where "MAX_RECORDS_PER_PERSON = 5"

record fetch_window =
  fw_count :: int
  fw_until :: int

record keeper =
  kp_host :: host_state
  kp_fetches :: "(jstr \<times> fetch_window) list"

datatype keep_error = Host_error host_error | Body_failed

type_synonym 'a keep_call = "(stretch, keeper, keep_error, 'a) call"

definition on_host :: "(host_state, host_error, 'a) eff \<Rightarrow> (keeper, keep_error, 'a) eff" where
  "on_host m = (\<lambda>s. case m (kp_host s) of (r, h) \<Rightarrow> (map_sum Host_error id r, s\<lparr>kp_host := h\<rparr>))"

datatype put_error = Put_malformed | Bad_record | Bad_signature | Stale_put | Unknown_signer | Not_yours | Too_many_records

type_synonym put_answer = "put_error option"

section \<open>Storing\<close>

definition passkeys_of :: "roster_entry \<Rightarrow> stored_passkey list" where
  "passkeys_of e = (case re_passkeyRecords e of None \<Rightarrow> [] | Some rs \<Rightarrow> rs)"

definition write_problem :: "problem \<Rightarrow> put_error" where
  "write_problem problem =
     (case problem of BadSignature \<Rightarrow> Bad_signature | WrongRecord \<Rightarrow> Bad_record | _ \<Rightarrow> Put_malformed)"

text \<open>A passkey record for the credential id the write names, holding the key that signed it.\<close>

definition record_fits :: "platform \<Rightarrow> jstr \<Rightarrow> passkey_record_write \<Rightarrow> bool" where
  "record_fits p rec write =
     (case parseBackupText p rec of
        Inl _ \<Rightarrow> False
      | Inr b \<Rightarrow> (case kb_unlock b of By_passkey _ _ \<Rightarrow> True | By_passphrase _ \<Rightarrow> False)
          \<and> passkeyRecordKey b = Some (pw_credentialId write)
          \<and> toBase64Url (kb_publicKey b) = pw_personKey write)"

definition credential_owner :: "jstr \<Rightarrow> roster_entry list \<Rightarrow> roster_entry option" where
  "credential_owner credId people =
     find (\<lambda>e. \<exists>r \<in> set (passkeys_of e). sp_credentialId r = credId) people"

definition add_record :: "stored_passkey \<Rightarrow> roster_entry \<Rightarrow> roster_entry option" where
  "add_record stored e =
     (let kept = filter (\<lambda>r. sp_credentialId r \<noteq> sp_credentialId stored) (passkeys_of e)
      in if MAX_RECORDS_PER_PERSON \<le> length kept then None
         else Some (e\<lparr>re_passkeyRecords := Some (kept @ [stored])\<rparr>))"

text \<open>The change sets \<open>error\<close> when it is asked and refuses; without the person it is not asked.\<close>

definition keep_record :: "jstr \<Rightarrow> stored_passkey \<Rightarrow> (roster_state, roster_error, put_answer) eff" where
  "keep_record personKey stored =
     and_then (find_person personKey) (\<lambda>found.
       and_then (update_person personKey (add_record stored)) (\<lambda>written.
         ret (if written \<noteq> None then None
              else if found = None then Some Unknown_signer else Some Too_many_records)))"

definition token_hash :: "platform \<Rightarrow> jstr \<Rightarrow> jstr" where
  "token_hash p token = sha256Hex (sha256 p) (utf8_encode token)"

definition stored_at :: "platform \<Rightarrow> jstr \<Rightarrow> jstr \<Rightarrow> jstr \<Rightarrow> int \<Rightarrow> stored_passkey" where
  "stored_at p credId rec token now =
     \<lparr>sp_credentialId = credId, sp_tokenHash = token_hash p token, sp_record = rec, sp_storedAt = toISOString now\<rparr>"

definition consume_once :: "jstr \<Rightarrow> (host_state, host_error, bool) eff" where
  "consume_once challenge = (\<lambda>s. case consume (hs_challenges s) (hs_clock s) challenge of
     (fresh, st) \<Rightarrow> (Inr fresh, s\<lparr>hs_challenges := st\<rparr>))"

text \<open>A credential id belongs to the first person who stored one under it.\<close>

definition put_owned :: "platform \<Rightarrow> passkey_record_write \<Rightarrow> jstr \<Rightarrow> jstr \<Rightarrow> roster_entry list \<Rightarrow> put_answer keep_call" where
  "put_owned p write rec token people =
     (let owner = credential_owner (pw_credentialId write) people
      in if owner \<noteq> None \<and> map_option re_personKey owner \<noteq> Some (pw_personKey write) then give (Some Not_yours)
         else perform Plain (on_host (\<lambda>s. on_roster
           (keep_record (pw_personKey write) (stored_at p (pw_credentialId write) rec token (hs_clock s))) s)))"

definition put_checked :: "platform \<Rightarrow> passkey_record_write \<Rightarrow> jstr \<Rightarrow> jstr \<Rightarrow> put_answer keep_call" where
  "put_checked p write rec token =
     chain (perform Plain (on_host (consume_once (pw_challenge write)))) (\<lambda>fresh.
       if \<not> fresh then give (Some Stale_put)
       else chain (perform Plain (on_host (on_roster load))) (put_owned p write rec token))"

definition put_record :: "platform \<Rightarrow> jstr \<Rightarrow> jsval \<Rightarrow> jsval \<Rightarrow> put_answer keep_call" where
  "put_record p encodedWrite rec token =
     (case (decodeSignedStatement p encodedWrite, as_string rec, as_string token) of
        (Some st, Some text, Some tok) \<Rightarrow>
          (case checkPasskeyRecordWrite p st text of
             Inl problem \<Rightarrow> give (Some (write_problem problem))
           | Inr (_, write) \<Rightarrow>
               if \<not> record_fits p text write then give (Some Bad_record) else put_checked p write text tok)
      | _ \<Rightarrow> give (Some Put_malformed))"

section \<open>Fetching\<close>

text \<open>Windows that have ended are swept when one opens.\<close>

definition throttled :: "jstr \<Rightarrow> int \<Rightarrow> (jstr \<times> fetch_window) list \<Rightarrow> bool \<times> (jstr \<times> fetch_window) list" where
  "throttled credId at fetches =
     (let open_window = (case map_of fetches credId of
            Some w \<Rightarrow> if fw_until w \<le> at then None else Some w | None \<Rightarrow> None)
      in case open_window of
           None \<Rightarrow> (False, filter (\<lambda>(k, w). \<not> fw_until w \<le> at)
             (AList.update credId \<lparr>fw_count = 1, fw_until = at + FETCH_WINDOW_MS\<rparr> fetches))
         | Some w \<Rightarrow> (MAX_FETCHES_PER_WINDOW < fw_count w + 1,
             AList.update credId (w\<lparr>fw_count := fw_count w + 1\<rparr>) fetches))"

definition throttle :: "jstr \<Rightarrow> (keeper, keep_error, bool) eff" where
  "throttle credId = (\<lambda>s. case throttled credId (hs_clock (kp_host s)) (kp_fetches s) of
     (slow, fetches) \<Rightarrow> (Inr slow, s\<lparr>kp_fetches := fetches\<rparr>))"

definition find_record :: "platform \<Rightarrow> jstr \<Rightarrow> jstr \<Rightarrow> roster_entry list \<Rightarrow> jstr option" where
  "find_record p credId token people = map_option sp_record
     (find (\<lambda>r. sp_credentialId r = credId \<and> timingSafeMatch (sp_tokenHash r) (token_hash p token))
        (concat (map passkeys_of people)))"

text \<open>\<open>None\<close> is the one answer \<open>NO_RECORD\<close>.\<close>

definition fetch_record :: "platform \<Rightarrow> jsval \<Rightarrow> jsval \<Rightarrow> jstr option keep_call" where
  "fetch_record p credId token =
     (case (as_string credId, as_string token) of
        (Some c, Some t) \<Rightarrow>
          if c = [] then give None
          else chain (perform Plain (throttle c)) (\<lambda>slow.
            if slow then give None
            else chain (perform Plain (on_host (on_roster load))) (\<lambda>people. give (find_record p c t people)))
      | _ \<Rightarrow> give None)"

section \<open>The routes\<close>

definition PASSKEY_RECORDS_PATH :: jstr where "PASSKEY_RECORDS_PATH = js ''/person-key-records''"
definition PASSKEY_RECORD_FETCH_PATH :: jstr where "PASSKEY_RECORD_FETCH_PATH = PASSKEY_RECORDS_PATH @ js ''/fetch''"
definition RECORD_BODY_BYTES :: nat where "RECORD_BODY_BYTES = 8 * 1024"

text \<open>A request with its body; \<open>kr_parse\<close> is \<open>JSON.parse\<close> of the text of the bytes.\<close>

record body_request = http_request +
  kr_source :: byte_source

definition plain_body_request :: "body_request \<Rightarrow> http_request" where
  "plain_body_request rq = http_request.truncate rq"

text \<open>\<open>typeof parsed === 'object' && parsed !== null\<close>: objects and arrays.\<close>

definition read_json_body :: "(u8 list \<Rightarrow> jsval option) \<Rightarrow> nat \<Rightarrow> byte_source \<Rightarrow> keep_error + jsval option" where
  "read_json_body parse maxBytes src =
     (case readStatementBody maxBytes src of
        Inl (BlobTooLarge _) \<Rightarrow> Inr None
      | Inl _ \<Rightarrow> Inl Body_failed
      | Inr bytes \<Rightarrow> Inr (case parse bytes of
          Some v \<Rightarrow> if is_object v then Some v else None | None \<Rightarrow> None))"

definition put_error_text :: "put_error \<Rightarrow> jstr" where
  "put_error_text e = js (case e of Put_malformed \<Rightarrow> ''malformed'' | Bad_record \<Rightarrow> ''bad-record''
     | Bad_signature \<Rightarrow> ''bad-signature'' | Stale_put \<Rightarrow> ''stale-challenge'' | Unknown_signer \<Rightarrow> ''unknown-person''
     | Not_yours \<Rightarrow> ''not-yours'' | Too_many_records \<Rightarrow> ''too-many-records'')"

definition refused_value :: "jstr \<Rightarrow> jsval" where
  "refused_value e = obj [(''ok'', JBool False), (''error'', JString e)]"

definition put_status :: "put_answer \<Rightarrow> nat" where
  "put_status a = (case a of None \<Rightarrow> 200
     | Some e \<Rightarrow> (case e of Unknown_signer \<Rightarrow> 404 | Not_yours \<Rightarrow> 403 | Too_many_records \<Rightarrow> 409 | _ \<Rightarrow> 400))"

definition put_reply :: "put_answer \<Rightarrow> reply" where
  "put_reply a = Json (put_status a)
     (case a of None \<Rightarrow> obj [(''ok'', JBool True)] | Some e \<Rightarrow> refused_value (put_error_text e))"

definition fetch_reply :: "jstr option \<Rightarrow> reply" where
  "fetch_reply found = (case found of
     None \<Rightarrow> Json 404 (refused_value (js ''no-record''))
   | Some rec \<Rightarrow> Json 200 (obj [(''ok'', JBool True), (''record'', JString rec)]))"

definition store_route :: "platform \<Rightarrow> jsval \<Rightarrow> reply keep_call" where
  "store_route p body =
     (case (as_string (field body ''write''), as_string (field body ''record''), as_string (field body ''token'')) of
        (Some w, Some r, Some t) \<Rightarrow> chain (put_record p w (JString r) (JString t)) (\<lambda>a. give (put_reply a))
      | _ \<Rightarrow> give (Json 400 (refused_value (js ''malformed''))))"

definition fetch_route :: "platform \<Rightarrow> jsval \<Rightarrow> reply keep_call" where
  "fetch_route p body =
     (case (as_string (field body ''credentialId''), as_string (field body ''token'')) of
        (Some c, Some t) \<Rightarrow> chain (fetch_record p (JString c) (JString t)) (\<lambda>a. give (fetch_reply a))
      | _ \<Rightarrow> give (fetch_reply None))"

definition handlePasskeyRecordRequest ::
  "platform \<Rightarrow> (u8 list \<Rightarrow> jsval option) \<Rightarrow> jstr option \<Rightarrow> body_request \<Rightarrow> reply keep_call" where
  "handlePasskeyRecordRequest p parse token rq =
     (let fetching = (rq_path rq = PASSKEY_RECORD_FETCH_PATH); method = method_of (plain_body_request rq)
      in if \<not> fetching \<and> rq_path rq \<noteq> PASSKEY_RECORDS_PATH then give NotMine
         else if method = js ''OPTIONS'' then give (Status 204)
         else if \<not> isAuthorized (plain_body_request rq) token then give (Json 401 (error_body ''Unauthorized''))
         else if method \<noteq> js ''POST'' then give (Status 405)
         else chain (perform Plain (lift_sum (read_json_body parse RECORD_BODY_BYTES (kr_source rq)))) (\<lambda>body.
           case body of
             None \<Rightarrow> give (Json 400 (refused_value (js ''malformed'')))
           | Some b \<Rightarrow> if fetching then fetch_route p b else store_route p b))"

end
