(* ===== verification/Passkey_Safety.thy ===== *)
theory Passkey_Safety
  imports Passkey_Records
begin

text \<open>
  What a host promises about passkey records: however the operations of the host interleave, every record
  was signed for by the person it stands with; a stored record is fetched back with its token; fetching is
  throttled.
\<close>

section \<open>The people of a roster\<close>

lemma people_of_writable [simp]: "people_of (st\<lparr>writable := w\<rparr>) = people_of st"
  by (simp add: people_of_def load_def split: option.split)

lemma load_people: "load st = (r, st') \<Longrightarrow> people_of st' = people_of st"
  by (cases st rule: load_cases) (auto simp: people_of_def load_def)

lemma find_people: "find_person k st = (r, st') \<Longrightarrow> people_of st' = people_of st"
  by (cases st rule: load_cases) (auto simp: find_person_def people_of_def load_def)

lemma replaced_people:
  assumes "replace_entry (people_of st) e (st\<lparr>cached := Some (Inr (people_of st))\<rparr>) = (r, st')" "x \<in> set (people_of st')"
  shows "x \<in> set (people_of st) \<or> x = e"
  using assms by (auto simp: replace_entry_def writeRoster_def Let_def and_then_def split: if_splits)

lemma put_people: "put_person e st = (r, st') \<Longrightarrow> x \<in> set (people_of st') \<Longrightarrow> x \<in> set (people_of st) \<or> x = e"
  using replaced_people [of st e r st' x]
  by (cases st rule: load_cases) (auto simp: put_person_def people_of_def load_def)

lemma update_people:
  assumes "update_person k change st = (r, st')" "x \<in> set (people_of st')"
  shows "x \<in> set (people_of st) \<or> (\<exists>e \<in> set (people_of st). re_personKey e = k \<and> change e = Some x)"
proof (cases st rule: load_cases)
  case (1 es)
  show ?thesis
  proof (cases "Option.bind (find (\<lambda>e. re_personKey e = k) es) change")
    case None
    then show ?thesis using assms 1 by (auto simp: update_person_def people_of_def load_def)
  next
    case (Some nx)
    then obtain e where "find (\<lambda>e. re_personKey e = k) es = Some e" "change e = Some nx" by (auto simp: bind_eq_Some_conv)
    then have e: "e \<in> set es" "re_personKey e = k" "change e = Some nx" by (auto simp: find_Some_iff)
    obtain r1 st1 where r1: "replace_entry es nx (st\<lparr>cached := Some (Inr es)\<rparr>) = (r1, st1)" by fastforce
    then have "st' = st1" using assms(1) 1 Some by (auto simp: update_person_def and_then_def split: sum.splits)
    with replaced_people [of st nx r1 st1 x] r1 assms(2) 1(2) e show ?thesis by auto
  qed
next
  case (2 e)
  then show ?thesis using assms by (auto simp: update_person_def people_of_def load_def)
qed

section \<open>Genuine records\<close>

text \<open>A record whose person signed a write for it, and that holds that person's key.\<close>

definition signed_for :: "platform \<Rightarrow> jstr \<Rightarrow> stored_passkey \<Rightarrow> bool" where
  "signed_for p key r \<longleftrightarrow> (\<exists>st w. checkPasskeyRecordWrite p st (sp_record r) = Inr (st, w) \<and> pw_personKey w = key
     \<and> pw_credentialId w = sp_credentialId r \<and> record_fits p (sp_record r) w)"

definition good_entry :: "platform \<Rightarrow> roster_entry \<Rightarrow> bool" where
  "good_entry p e \<longleftrightarrow> (\<forall>r \<in> set (passkeys_of e). signed_for p (re_personKey e) r)
     \<and> distinct (map sp_credentialId (passkeys_of e)) \<and> length (passkeys_of e) \<le> MAX_RECORDS_PER_PERSON"

definition good_people :: "platform \<Rightarrow> host_state \<Rightarrow> bool" where
  "good_people p h \<longleftrightarrow> (\<forall>e \<in> set (people_of (hs_roster h)). good_entry p e)"

lemma good_roster:
  assumes "\<And>st r st' x. (\<forall>e \<in> set (people_of st). good_entry p e) \<Longrightarrow> m st = (r, st') \<Longrightarrow> x \<in> set (people_of st') \<Longrightarrow> good_entry p x"
  shows "keeps (good_people p) (on_roster m)"
  unfolding keeps_def on_roster_def good_people_def using assms by (auto split: prod.split)

lemma good_load: "keeps (good_people p) (on_roster load)"
  by (rule good_roster) (use load_people in metis)

lemma good_find: "keeps (good_people p) (on_roster (find_person k))"
  by (rule good_roster) (use find_people in metis)

lemma good_put: "good_entry p e \<Longrightarrow> keeps (good_people p) (on_roster (put_person e))"
  by (rule good_roster) (use put_people in metis)

lemma good_update:
  assumes "\<And>e x. good_entry p e \<Longrightarrow> re_personKey e = k \<Longrightarrow> change e = Some x \<Longrightarrow> good_entry p x"
  shows "keeps (good_people p) (on_roster (update_person k change))"
  by (rule good_roster) (use update_people assms in metis)

text \<open>The other operations on the roster leave the records of an entry as they are.\<close>

lemma good_update_same:
  assumes "\<And>e x. change e = Some x \<Longrightarrow> re_passkeyRecords x = re_passkeyRecords e \<and> re_personKey x = re_personKey e"
  shows "keeps (good_people p) (on_roster (update_person k change))"
proof (rule good_update)
  fix e x assume "good_entry p e" "change e = Some x"
  with assms [of e x] show "good_entry p x" by (simp add: good_entry_def passkeys_of_def)
qed

lemma good_changes:
  "keeps (good_people p) (on_roster (update_person k count_guess))"
  "keeps (good_people p) (on_roster (update_person k clear_failures))"
  "keeps (good_people p) (on_roster (update_person k (new_pin h)))"
  "keeps (good_people p) (on_roster (update_person k (add_vouch v)))"
  "keeps (good_people p) (on_roster (update_person k (rename name pin h)))"
  "keeps (good_people p) (on_roster (update_person k (mark_revoked address revokedAt revocation)))"
  "keeps (good_people p) (on_roster (update_person k unlock))"
  by (rule good_update_same, auto simp: count_guess_def clear_failures_def new_pin_def add_vouch_def rename_def
      mark_revoked_def unlock_def Let_def split: if_splits)+

lemma good_newcomer: "keeps (good_people p) (\<lambda>s. on_roster (put_person (newcomer request name cert h (hs_clock s))) s)"
proof -
  have "keeps (good_people p) (on_roster (put_person (newcomer request name cert h now)))" for now
    by (rule good_put) (simp add: good_entry_def newcomer_def passkeys_of_def)
  then show ?thesis by (simp add: keeps_def)
qed

lemma good_roster_same: "hs_roster h' = hs_roster h \<Longrightarrow> good_people p h' = good_people p h"
  by (simp add: good_people_def)

lemma roster_same [simp]:
  "hs_roster (dropStale s) = hs_roster s" "hs_roster (changed s) = hs_roster s" "hs_roster (set_entry rid f s) = hs_roster s"
  by (simp_all add: dropStale_def changed_def set_entry_def Let_def)

lemma good_elsewhere: "(\<And>s. hs_roster (snd (m s)) = hs_roster s) \<Longrightarrow> keeps (good_people p) m"
  by (simp add: keeps_def good_people_def)

lemma good_stretches:
  "keeps (good_people p) (pendingEntry rid)" "keeps (good_people p) (writes dropStale)"
  "keeps (good_people p) (\<lambda>s. (g s, s))"
  "keeps (good_people p) (writes (\<lambda>s. changed (set_entry rid f s)))"
  "keeps (good_people p) (\<lambda>s. let s' = dropStale s in (g' s', s'))"
  "keeps (good_people p) (\<lambda>s. (g s, case find_pending (dropStale s) rid of None \<Rightarrow> dropStale s
        | Some e \<Rightarrow> changed (set_entry rid (ve_status_update (\<lambda>_. Rejected)) (dropStale s))))"
  "keeps (good_people p) (\<lambda>s. (g s, dropStale s))"
  "keeps (good_people p) (\<lambda>s. case consume (hs_challenges s) (hs_clock s) c of
              (fresh, st) \<Rightarrow> (Inr fresh, s\<lparr>hs_challenges := st\<rparr>))"
  "keeps (good_people p) (insert_request rid request personName fingerprint)"
  by (rule good_elsewhere, simp add: pendingEntry_def Let_def insert_request_def split: prod.split option.split)+

lemma safe_good_people: "t \<in> host_calls env \<Longrightarrow> safe (good_people p) t"
proof (induction rule: host_calls_induct)
  case (settled t)
  then show ?case
    by (induction rule: settled_calls.induct)
      (auto simp: host_operations Let_def intro!: safe_chain safe_perform good_load good_find good_changes good_stretches
        split: option.split sum.split prod.split)
qed (auto simp: host_operations Let_def intro!: safe_chain safe_perform good_load good_find good_changes good_stretches
      good_newcomer split: option.split sum.split prod.split)

section \<open>Storing and fetching\<close>

text \<open>An operation of \<open>Host_Vouching\<close> beside the records.\<close>

primrec hosted :: "(stretch, host_state, 'r) thread \<Rightarrow> (stretch, keeper, 'r) thread" where
  "hosted (Done r) = Done r"
| "hosted (Await l f g) = Await l (\<lambda>s. hosted (f (kp_host s))) (\<lambda>s. s\<lparr>kp_host := g (kp_host s)\<rparr>)"

definition keeper_good :: "platform \<Rightarrow> keeper \<Rightarrow> bool" where
  "keeper_good p s = good_people p (kp_host s)"

lemma safe_hosted: "safe (good_people p) t \<Longrightarrow> safe (keeper_good p) (hosted t)"
  by (induction t) (auto simp: keeper_good_def)

lemma keeper_on_host: "keeps (good_people p) m \<Longrightarrow> keeps (keeper_good p) (on_host m)"
  by (auto simp: keeps_def keeper_good_def on_host_def split: prod.splits)

lemma keeper_elsewhere: "(\<And>s. kp_host (snd (m s)) = kp_host s) \<Longrightarrow> keeps (keeper_good p) m"
  by (simp add: keeps_def keeper_good_def)

lemma genuine_write:
  "checkPasskeyRecordWrite p st rec = Inr (st', write) \<Longrightarrow> record_fits p rec write \<Longrightarrow>
     signed_for p (pw_personKey write) (stored_at p (pw_credentialId write) rec token now)"
  by (auto simp: signed_for_def stored_at_def checkPasskeyRecordWrite_ok_iff)

lemma good_added:
  assumes "signed_for p (re_personKey e) r" "good_entry p e" "add_record r e = Some x"
  shows "good_entry p x"
proof -
  let ?kept = "filter (\<lambda>q. sp_credentialId q \<noteq> sp_credentialId r) (passkeys_of e)"
  have x: "x = e\<lparr>re_passkeyRecords := Some (?kept @ [r])\<rparr>" "length ?kept < MAX_RECORDS_PER_PERSON"
    using assms(3) by (auto simp: add_record_def Let_def split: if_splits)
  then have "passkeys_of x = ?kept @ [r]" "re_personKey x = re_personKey e" by (simp_all add: passkeys_of_def)
  with assms(1,2) x(2) show ?thesis by (auto simp: good_entry_def distinct_map_filter)
qed

lemma and_then_keeps_people:
  assumes "\<And>r st st' x. (\<forall>e \<in> set (people_of st). good_entry p e) \<Longrightarrow> m st = (r, st') \<Longrightarrow> x \<in> set (people_of st') \<Longrightarrow> good_entry p x"
    "\<And>a r st st' x. (\<forall>e \<in> set (people_of st). good_entry p e) \<Longrightarrow> f a st = (r, st') \<Longrightarrow> x \<in> set (people_of st') \<Longrightarrow> good_entry p x"
    "\<forall>e \<in> set (people_of st). good_entry p e" "and_then m f st = (r, st')" "x \<in> set (people_of st')"
  shows "good_entry p x"
proof (cases "m st")
  case (Pair a st1)
  with assms(1) [of st a st1] assms(3) have mid: "\<forall>e \<in> set (people_of st1). good_entry p e" by blast
  show ?thesis
  proof (cases a)
    case (Inl e)
    with Pair assms(4,5) mid show ?thesis by (auto simp: and_then_def)
  next
    case (Inr y)
    with Pair assms(4) have "f y st1 = (r, st')" by (simp add: and_then_def)
    with assms(2) mid assms(5) show ?thesis by blast
  qed
qed

lemma good_store:
  assumes "signed_for p key r"
  shows "keeps (good_people p) (on_roster (keep_record key r))"
proof (rule good_roster)
  fix st out st' x
  assume good: "\<forall>e \<in> set (people_of st). good_entry p e" and st': "keep_record key r st = (out, st')" and x: "x \<in> set (people_of st')"
  obtain f st1 where 1: "find_person key st = (f, st1)" by fastforce
  obtain w st2 where 2: "update_person key (add_record r) st1 = (w, st2)" by fastforce
  have good1: "\<forall>e \<in> set (people_of st1). good_entry p e" using find_people [OF 1] good by simp
  have "good_entry p y" if "y \<in> set (people_of st2)" for y
    using update_people [OF 2 that] good1 good_added assms by metis
  moreover have "st' = st1 \<or> st' = st2"
    using st' 1 2 by (auto simp: keep_record_def and_then_def split: sum.splits)
  ultimately show "good_entry p x" using x good1 by blast
qed

lemma safe_put_checked:
  assumes "checkPasskeyRecordWrite p st rec = Inr (st', write)" "record_fits p rec write"
  shows "safe (keeper_good p) (put_checked p write rec token)"
proof -
  have store: "keeps (good_people p) (\<lambda>s. on_roster (keep_record (pw_personKey write)
      (stored_at p (pw_credentialId write) rec token (hs_clock s))) s)"
    using good_store [OF genuine_write [OF assms]] by (simp add: keeps_def)
  have consume: "keeps (good_people p) (consume_once c)" for c
    by (rule good_elsewhere) (simp add: consume_once_def split: prod.split)
  show ?thesis
    unfolding put_checked_def put_owned_def Let_def
    by (auto intro!: safe_chain safe_perform keeper_on_host store consume good_load)
qed

lemma safe_put: "safe (keeper_good p) (put_record p w rec token)"
  unfolding put_record_def
  by (auto intro!: safe_put_checked split: option.split sum.split)

lemma safe_fetch: "safe (keeper_good p) (fetch_record p c token)"
proof -
  have "keeps (keeper_good p) (throttle k)" for k
    by (rule keeper_elsewhere) (simp add: throttle_def split: prod.split)
  then show ?thesis
    unfolding fetch_record_def by (auto intro!: safe_chain safe_perform keeper_on_host good_load split: option.split)
qed

lemma safe_passkey_routes: "safe (keeper_good p) (handlePasskeyRecordRequest p parse token rq)"
  unfolding handlePasskeyRecordRequest_def store_route_def fetch_route_def Let_def
  by (auto intro!: safe_chain safe_perform safe_put safe_fetch split: option.split)

definition keeper_calls :: "host_env \<Rightarrow> (stretch, keeper, unit) thread set" where
  "keeper_calls env = hosted ` host_calls env
     \<union> {forget (put_record (he_platform env) w rec token) | w rec token. True}
     \<union> {forget (fetch_record (he_platform env) c token) | c token. True}
     \<union> {forget (handlePasskeyRecordRequest (he_platform env) parse token rq) | parse token rq. True}"

definition keeper_world :: "keeper \<Rightarrow> keeper \<Rightarrow> bool" where
  "keeper_world s s' = (\<exists>h. world (kp_host s) h \<and> s' = s\<lparr>kp_host := h\<rparr>)"

lemma keeper_invariant:
  assumes "interleaved (keeper_calls env) keeper_world s0 tr ts s" "keeper_good (he_platform env) s0"
  shows "keeper_good (he_platform env) s"
proof -
  have "safe (keeper_good (he_platform env)) t" if "t \<in> keeper_calls env" for t
    using that by (auto simp: keeper_calls_def intro!: safe_put safe_fetch safe_passkey_routes
      intro: safe_hosted safe_good_people)
  moreover have "keeper_good (he_platform env) s'" if "keeper_world s s'" "keeper_good (he_platform env) s" for s s'
    using that by (auto simp: keeper_world_def world_def keeper_good_def good_people_def)
  ultimately show ?thesis 
    using interleaved_invariant [OF assms(1), of "keeper_good (he_platform env)"] assms(2) by blast
qed

section \<open>A stored record is fetched back\<close>

lemma keep_ok:
  assumes "keep_record key r st = (Inr None, st')"
  obtains e x where "person st key = Some e" "add_record r e = Some x"
    "load st' = (Inr (filter (\<lambda>y. re_personKey y \<noteq> key) (people_of st) @ [x]), st')"
proof (cases st rule: load_cases)
  case (1 es)
  let ?c = "st\<lparr>cached := Some (Inr es)\<rparr>"
  have load: "load ?c = (Inr es, ?c)" by (simp add: load_def)
  have find: "find_person key st = (Inr (find (\<lambda>e. re_personKey e = key) es), ?c)"
    using 1(1) by (simp add: find_person_def)
  show ?thesis
  proof (cases "Option.bind (find (\<lambda>e. re_personKey e = key) es) (add_record r)")
    case None
    then show ?thesis using assms find load by (auto simp: keep_record_def update_person_def split: if_splits)
  next
    case (Some x)
    then obtain e where e: "find (\<lambda>e. re_personKey e = key) es = Some e" "add_record r e = Some x"
      by (auto simp: bind_eq_Some_conv)
    then have key: "re_personKey x = key" by (auto simp: find_Some_iff add_record_def Let_def split: if_splits)
    have "keep_record key r st = (case replace_entry es x ?c of (Inl e, st1) \<Rightarrow> (Inl e, st1) | (Inr _, st1) \<Rightarrow> (Inr None, st1))"
      using find load Some by (auto simp: keep_record_def update_person_def and_then_def split: prod.split sum.split)
    then have "st' = snd (replace_entry es x ?c)" "writable st"
      using assms by (auto simp: replace_entry_def writeRoster_def Let_def and_then_def split: if_splits)
    then have "load st' = (Inr (filter (\<lambda>y. re_personKey y \<noteq> key) es @ [x]), st')"
      using key by (simp add: replace_entry_def writeRoster_def Let_def load_def)
    with e 1(2) show ?thesis by (intro that [of e x]) (simp_all add: person_def)
  qed
next
  case (2 e)
  then show ?thesis using assms by (simp add: keep_record_def find_person_def)
qed

lemma find_record_stored:
  assumes "add_record r e = Some x" "sp_credentialId r = c"
    "\<forall>y \<in> set es. re_personKey y \<noteq> key \<longrightarrow> (\<forall>q \<in> set (passkeys_of y). sp_credentialId q \<noteq> c)"
  shows "find_record p c t (filter (\<lambda>y. re_personKey y \<noteq> key) es @ [x])
    = (if timingSafeMatch (sp_tokenHash r) (token_hash p t) then Some (sp_record r) else None)"
proof -
  have x: "passkeys_of x = filter (\<lambda>q. sp_credentialId q \<noteq> c) (passkeys_of e) @ [r]"
    using assms(1,2) by (auto simp: add_record_def Let_def passkeys_of_def split: if_splits)
  have none: "find P xs = None" if "\<forall>q \<in> set xs. \<not> P q" for P and xs :: "stored_passkey list"
    using that by (simp add: find_None_iff)
  have append: "find P (xs @ ys) = (case find P xs of None \<Rightarrow> find P ys | Some z \<Rightarrow> Some z)" for P and xs ys :: "stored_passkey list"
    by (induction xs) auto
  let ?P = "\<lambda>q. sp_credentialId q = c \<and> timingSafeMatch (sp_tokenHash q) (token_hash p t)"
  have "find ?P (concat (map passkeys_of (filter (\<lambda>y. re_personKey y \<noteq> key) es))) = None"
    using assms(3) by (intro none) auto
  moreover have "find ?P (filter (\<lambda>q. sp_credentialId q \<noteq> c) (passkeys_of e)) = None" by (intro none) auto
  ultimately show ?thesis using assms(2) by (simp add: find_record_def append x)
qed

lemma fits_credential: "record_fits p rec write \<Longrightarrow> pw_credentialId write \<noteq> []"
proof -
  assume "record_fits p rec write"
  then obtain b rp cred where b: "parseBackupText p rec = Inr b" "kb_unlock b = By_passkey rp cred"
      "toBase64Url cred = pw_credentialId write"
    by (auto simp: record_fits_def passkeyRecordKey_def split: sum.splits unlock_method.splits)
  then have "\<exists>bytes. decodeBackup bytes = Inr b"
    by (auto simp: parseBackupText_def parseCompact_def Let_def split: if_splits option.splits)
  with encode_decode have "backup_ok b" by blast
  with b(2) have "cred \<noteq> []" by (auto simp: backup_ok_def)
  moreover have "toBase64Url [] = []" by code_simp
  ultimately show ?thesis using b(3) base64url.enc_inj by metis
qed

lemma map_sum_Inr: "map_sum f id r = Inr y \<longleftrightarrow> r = Inr y"
  by (cases r) auto

lemma put_ok:
  assumes "run (put_record p w (JString rec) (JString token)) s = (Inr None, s1)"
    "decodeSignedStatement p w = Some st" "checkPasskeyRecordWrite p st rec = Inr (st', write)"
  obtains h where "record_fits p rec write" "people_of (hs_roster h) = people_of (hs_roster (kp_host s))"
    "on_roster (keep_record (pw_personKey write) (stored_at p (pw_credentialId write) rec token (hs_clock h))) h = (Inr None, kp_host s1)"
    "kp_fetches s1 = kp_fetches s"
proof -
  have fits: "record_fits p rec write"
    using assms by (auto simp: put_record_def split: if_splits)
  let ?h0 = "snd (consume_once (pw_challenge write) (kp_host s))"
  have r0: "hs_roster ?h0 = hs_roster (kp_host s)" by (simp add: consume_once_def split: prod.split)
  have run: "run (put_checked p write rec token) s = (Inr None, s1)"
    using assms fits by (simp add: put_record_def)
  obtain l ro where l: "load (hs_roster (kp_host s)) = (l, ro)" by fastforce
  let ?h = "?h0\<lparr>hs_roster := ro\<rparr>"
  have "on_roster (keep_record (pw_personKey write) (stored_at p (pw_credentialId write) rec token (hs_clock ?h))) ?h = (Inr None, kp_host s1)
      \<and> kp_fetches s1 = kp_fetches s"
    using run l r0
    by (auto simp: put_checked_def put_owned_def run_chain on_host_def consume_once_def on_roster_def Let_def map_sum_Inr
        split: prod.splits sum.splits if_splits)
  then show ?thesis using that [of ?h] fits load_people [OF l] by simp
qed

lemma fetch_run:
  assumes "load (hs_roster (kp_host s)) = (Inr people, ro)" "c \<noteq> []" "\<not> fst (throttled c (hs_clock (kp_host s)) (kp_fetches s))"
  shows "fst (run (fetch_record p (JString c) (JString token)) s) = Inr (find_record p c token people)"
  using assms by (auto simp: fetch_record_def run_chain throttle_def on_host_def on_roster_def split: prod.split)

lemma same_token: "timingSafeMatch (token_hash p a) (token_hash p b) \<longleftrightarrow> token_hash p a = token_hash p b"
  by (simp add: token_hash_def timingSafeMatch_iff)

text \<open>
  A stored record comes back. After a put that is answered with success, a fetch of its credential id
  answers the record to whoever shows the same token, up to the hash, and nothing to anybody else, as long as
  the fetch is not throttled and no other person had a record under that id.
\<close>

lemma stored_record_is_fetched:
  assumes "run (put_record p w (JString rec) (JString token)) s = (Inr None, s1)"
    "decodeSignedStatement p w = Some st" "checkPasskeyRecordWrite p st rec = Inr (st', write)"
    "\<forall>e \<in> set (people_of (hs_roster (kp_host s))). re_personKey e \<noteq> pw_personKey write \<longrightarrow>
      (\<forall>r \<in> set (passkeys_of e). sp_credentialId r \<noteq> pw_credentialId write)"
    "\<not> fst (throttled (pw_credentialId write) (hs_clock (kp_host s1)) (kp_fetches s1))"
  shows "fst (run (fetch_record p (JString (pw_credentialId write)) (JString offered)) s1)
    = Inr (if token_hash p token = token_hash p offered then Some rec else None)"
proof -
  from put_ok [OF assms(1-3)] obtain h where h: "record_fits p rec write"
      "people_of (hs_roster h) = people_of (hs_roster (kp_host s))"
      "on_roster (keep_record (pw_personKey write) (stored_at p (pw_credentialId write) rec token (hs_clock h))) h = (Inr None, kp_host s1)"
    by metis
  let ?r = "stored_at p (pw_credentialId write) rec token (hs_clock h)"
  have "keep_record (pw_personKey write) ?r (hs_roster h) = (Inr None, hs_roster (kp_host s1))"
    using h(3) by (auto simp: on_roster_def map_sum_Inr split: prod.splits dest!: arg_cong [of _ "kp_host s1" hs_roster])
  then obtain e x where x: "add_record ?r e = Some x"
      "load (hs_roster (kp_host s1)) = (Inr (filter (\<lambda>y. re_personKey y \<noteq> pw_personKey write) (people_of (hs_roster h)) @ [x]),
        hs_roster (kp_host s1))"
    by (rule keep_ok)
  have "sp_credentialId ?r = pw_credentialId write" by (simp add: stored_at_def)
  from find_record_stored [OF x(1) this] have "find_record p (pw_credentialId write) offered
      (filter (\<lambda>y. re_personKey y \<noteq> pw_personKey write) (people_of (hs_roster h)) @ [x])
    = (if timingSafeMatch (sp_tokenHash ?r) (token_hash p offered) then Some (sp_record ?r) else None)"
    using assms(4) h(2) by simp
  then have "find_record p (pw_credentialId write) offered
      (filter (\<lambda>y. re_personKey y \<noteq> pw_personKey write) (people_of (hs_roster h)) @ [x])
    = (if token_hash p token = token_hash p offered then Some rec else None)"
    by (simp add: stored_at_def same_token)
  with fetch_run [OF x(2) fits_credential [OF h(1)] assms(5)] show ?thesis by simp
qed

section \<open>A write that is taken\<close>

lemma keep_succeeds:
  assumes "roster_ready st" "person st key = Some e" "length (passkeys_of e) < MAX_RECORDS_PER_PERSON"
  obtains x st' where "add_record r e = Some x" "keep_record key r st = (Inr None, st')" "roster_ready st'"
    "person st' = (person st)(key \<mapsto> x)"
proof -
  obtain st1 where 1: "find_person key st = (Inr (person st key), st1)" "roster_ready st1" "person st1 = person st"
    by (rule roster.find_run [OF assms(1), of key])
  obtain x where x: "add_record r e = Some x"
    using assms(3) length_filter_le [of "\<lambda>q. sp_credentialId q \<noteq> sp_credentialId r" "passkeys_of e"]
    by (simp add: add_record_def Let_def)
  have same: "re_personKey y = re_personKey z" if "add_record r z = Some y" for y z
    using that by (auto simp: add_record_def Let_def split: if_splits)
  from 1(2) obtain st2 where "update_person key (add_record r) st1 = (Inr (Option.bind (person st1 key) (add_record r)), st2)"
      "roster_ready st2" "person st2 = (case Option.bind (person st1 key) (add_record r) of
        None \<Rightarrow> person st1 | Some e \<Rightarrow> (person st1)(key \<mapsto> e))"
    by (rule roster.update_run [where k = key and change = "add_record r"]) (rule same)
  then show ?thesis using that [of x st2] 1 assms(2) x by (simp add: keep_record_def)
qed

text \<open>A host that can take a write: its challenge is good, its person known with room, the roster writable.\<close>

definition can_take :: "passkey_record_write \<Rightarrow> keeper \<Rightarrow> bool" where
  "can_take write s \<longleftrightarrow> good_challenge (hs_challenges (kp_host s)) (hs_clock (kp_host s)) (pw_challenge write)
     \<and> roster_ready (hs_roster (kp_host s))
     \<and> (\<exists>e. person (hs_roster (kp_host s)) (pw_personKey write) = Some e \<and> length (passkeys_of e) < MAX_RECORDS_PER_PERSON)"

definition held_only_by :: "jstr \<Rightarrow> jstr \<Rightarrow> keeper \<Rightarrow> bool" where
  "held_only_by key cred s \<longleftrightarrow> (\<forall>e \<in> set (people_of (hs_roster (kp_host s))). re_personKey e \<noteq> key \<longrightarrow>
      (\<forall>r \<in> set (passkeys_of e). sp_credentialId r \<noteq> cred))"

lemma held_owner:
  assumes "held_only_by key cred s" "people_of (hs_roster (kp_host s)) = es"
  shows "credential_owner cred es \<noteq> None \<Longrightarrow> map_option re_personKey (credential_owner cred es) = Some key"
proof -
  assume "credential_owner cred es \<noteq> None"
  then obtain o' where o': "credential_owner cred es = Some o'" by blast
  then have "o' \<in> set es" "\<exists>r \<in> set (passkeys_of o'). sp_credentialId r = cred"
    by (auto simp: credential_owner_def find_Some_iff)
  with assms o' show ?thesis by (auto simp: held_only_by_def)
qed

text \<open>The two waits of a put before it writes.\<close>

lemma put_waits:
  assumes "can_take write s"
  obtains es h where "load (hs_roster (kp_host s)) = (Inr es, hs_roster h)" "people_of (hs_roster (kp_host s)) = es"
    "roster_ready (hs_roster h)" "person (hs_roster h) = person (hs_roster (kp_host s))" "hs_clock h = hs_clock (kp_host s)"
    "hs_challenges h = snd (consume (hs_challenges (kp_host s)) (hs_clock (kp_host s)) (pw_challenge write))"
    "\<forall>k. interrupt 2 k (put_checked p write rec token) s = run (put_owned p write rec token es) (k (s\<lparr>kp_host := h\<rparr>))"
proof -
  note take = assms [unfolded can_take_def]
  obtain cs where cs: "consume (hs_challenges (kp_host s)) (hs_clock (kp_host s)) (pw_challenge write) = (True, cs)"
    using take by (auto simp: good_challenge_def consume_def Let_def)
  obtain es where es: "load (hs_roster (kp_host s)) = (Inr es, (hs_roster (kp_host s))\<lparr>cached := Some (Inr es)\<rparr>)"
      "people_of (hs_roster (kp_host s)) = es" "writable (hs_roster (kp_host s))"
    using take by (metis roster_ready_load)
  let ?h1 = "(kp_host s)\<lparr>hs_challenges := cs\<rparr>"
  let ?h = "?h1\<lparr>hs_roster := (hs_roster (kp_host s))\<lparr>cached := Some (Inr es)\<rparr>\<rparr>"
  have 1: "on_host (consume_once (pw_challenge write)) s = (Inr True, s\<lparr>kp_host := ?h1\<rparr>)"
    by (simp add: on_host_def consume_once_def cs)
  have 2: "on_host (on_roster load) (s\<lparr>kp_host := ?h1\<rparr>) = (Inr es, s\<lparr>kp_host := ?h\<rparr>)"
    by (simp add: on_host_def on_roster_def es(1))
  have wait: "interrupt 2 k (put_checked p write rec token) s = run (put_owned p write rec token es) (k (s\<lparr>kp_host := ?h\<rparr>))" for k
    unfolding put_checked_def numeral_2_eq_2
      by (subst interrupt_perform_chain [where m = "on_host (consume_once (pw_challenge write))" and s = s, OF 1],
          simp, subst interrupt_perform_chain [where m = "on_host (on_roster load)", OF 2]) simp
  show ?thesis by (rule that [of es ?h]) (use es cs wait in \<open>simp_all add: person_def fun_eq_iff\<close>)
qed

lemma run_as_interrupt: "run t s = interrupt n (\<lambda>s. s) t s"
proof (induction n arbitrary: t s)
  case (Suc n)
  show ?case by (cases t) (simp_all add: Suc [symmetric])
qed simp

lemma put_succeeds:
  assumes "can_take write s" "held_only_by (pw_personKey write) (pw_credentialId write) s"
  obtains s1 e x where "run (put_checked p write rec token) s = (Inr None, s1)" "kp_fetches s1 = kp_fetches s"
    "hs_clock (kp_host s1) = hs_clock (kp_host s)"
    "person (hs_roster (kp_host s)) (pw_personKey write) = Some e"
    "add_record (stored_at p (pw_credentialId write) rec token (hs_clock (kp_host s))) e = Some x"
    "person (hs_roster (kp_host s1)) = (person (hs_roster (kp_host s)))(pw_personKey write \<mapsto> x)"
    "roster_ready (hs_roster (kp_host s1))"
    "hs_challenges (kp_host s1) = snd (consume (hs_challenges (kp_host s)) (hs_clock (kp_host s)) (pw_challenge write))"
proof -
  obtain es h where h: "load (hs_roster (kp_host s)) = (Inr es, hs_roster h)" "people_of (hs_roster (kp_host s)) = es"
      "roster_ready (hs_roster h)" "person (hs_roster h) = person (hs_roster (kp_host s))" "hs_clock h = hs_clock (kp_host s)"
      "hs_challenges h = snd (consume (hs_challenges (kp_host s)) (hs_clock (kp_host s)) (pw_challenge write))"
    and wait: "\<forall>k. interrupt 2 k (put_checked p write rec token) s = run (put_owned p write rec token es) (k (s\<lparr>kp_host := h\<rparr>))"
    by (rule put_waits [OF assms(1), where p = p and rec = rec and token = token])
  obtain e where e: "person (hs_roster (kp_host s)) (pw_personKey write) = Some e" "length (passkeys_of e) < MAX_RECORDS_PER_PERSON"
    using assms(1) by (auto simp: can_take_def)
  then have e': "person (hs_roster h) (pw_personKey write) = Some e" using h(4) by simp
  let ?r = "stored_at p (pw_credentialId write) rec token (hs_clock h)"
  obtain x ro where x: "add_record ?r e = Some x" "keep_record (pw_personKey write) ?r (hs_roster h) = (Inr None, ro)"
      "roster_ready ro" "person ro = (person (hs_roster h))(pw_personKey write \<mapsto> x)"
    by (rule keep_succeeds [OF h(3) e' e(2)])
  have "run (put_checked p write rec token) s = (Inr None, s\<lparr>kp_host := h\<lparr>hs_roster := ro\<rparr>\<rparr>)"
    unfolding run_as_interrupt [of _ s 2] wait [rule_format] using x(2) held_owner [OF assms(2) h(2)]
    by (cases "credential_owner (pw_credentialId write) es") (auto simp: on_host_def on_roster_def put_owned_def Let_def)
  then show ?thesis using x h e by (intro that [of "s\<lparr>kp_host := h\<lparr>hs_roster := ro\<rparr>\<rparr>" e x]) simp_all
qed

text \<open>
  The owner of a credential id is looked up before the write and not again: of two people whose puts cross,
  both end up with a record under one id.
\<close>

lemma crossing_puts_share_id:
  assumes "can_take a s" "can_take b s" "pw_personKey a \<noteq> pw_personKey b" "pw_credentialId a = pw_credentialId b"
    "pw_challenge a \<noteq> pw_challenge b" "held_only_by (pw_personKey a) (pw_credentialId a) s"
    "held_only_by (pw_personKey b) (pw_credentialId b) s"
  shows "\<exists>s'. interrupt 2 (\<lambda>s. snd (run (put_checked p b rec' token') s)) (put_checked p a rec token) s = (Inr None, s')
    \<and> (\<forall>w \<in> {a, b}. \<exists>e r. person (hs_roster (kp_host s')) (pw_personKey w) = Some e \<and> r \<in> set (passkeys_of e)
        \<and> sp_credentialId r = pw_credentialId a)"
proof -
  obtain es h where h: "load (hs_roster (kp_host s)) = (Inr es, hs_roster h)" "people_of (hs_roster (kp_host s)) = es"
    "roster_ready (hs_roster h)" "person (hs_roster h) = person (hs_roster (kp_host s))" "hs_clock h = hs_clock (kp_host s)"
    "hs_challenges h = snd (consume (hs_challenges (kp_host s)) (hs_clock (kp_host s)) (pw_challenge a))"
    and wait: "\<forall>k. interrupt 2 k (put_checked p a rec token) s = run (put_owned p a rec token es) (k (s\<lparr>kp_host := h\<rparr>))"
    by (rule put_waits [OF assms(1), where p = p and rec = rec and token = token])
  let ?s = "s\<lparr>kp_host := h\<rparr>"
  have people: "people_of (hs_roster h) = es" using load_people [OF h(1)] h(2) by simp
  have "can_take b ?s"
    using assms(2,5) h by (auto simp: can_take_def good_challenge_def consume_def Let_def delete_conv split: option.splits)
  moreover have "held_only_by (pw_personKey b) (pw_credentialId b) ?s"
    using assms(7) h(2) people by (simp add: held_only_by_def)
  ultimately obtain s1 eb xb where s1: "run (put_checked p b rec' token') ?s = (Inr None, s1)"
      "add_record (stored_at p (pw_credentialId b) rec' token' (hs_clock h)) eb = Some xb"
      "person (hs_roster (kp_host s1)) = (person (hs_roster h))(pw_personKey b \<mapsto> xb)" "roster_ready (hs_roster (kp_host s1))"
    by (rule put_succeeds) simp
  obtain e where e: "person (hs_roster (kp_host s)) (pw_personKey a) = Some e" "length (passkeys_of e) < MAX_RECORDS_PER_PERSON"
    using assms(1) by (auto simp: can_take_def)
  then have e': "person (hs_roster (kp_host s1)) (pw_personKey a) = Some e" using s1(3) h(4) assms(3) by simp
  let ?r = "stored_at p (pw_credentialId a) rec token (hs_clock (kp_host s1))"
  obtain x ro where x: "add_record ?r e = Some x" "keep_record (pw_personKey a) ?r (hs_roster (kp_host s1)) = (Inr None, ro)"
      "person ro = (person (hs_roster (kp_host s1)))(pw_personKey a \<mapsto> x)"
    by (rule keep_succeeds [OF s1(4) e' e(2)])
  have "run (put_owned p a rec token es) s1 = (Inr None, s1\<lparr>kp_host := (kp_host s1)\<lparr>hs_roster := ro\<rparr>\<rparr>)"
    using x(2) held_owner [OF assms(6) h(2)]
    by (cases "credential_owner (pw_credentialId a) es") (auto simp: on_host_def on_roster_def put_owned_def Let_def)
  moreover have "r \<in> set (passkeys_of y)" if "add_record r z = Some y" for r y z
    using that by (auto simp: add_record_def Let_def passkeys_of_def split: if_splits)
  ultimately show ?thesis
    using wait s1(1,2,3) x(1,3) assms(3,4) by (fastforce simp: stored_at_def)
qed


lemma own_write:
  assumes "platform_ok p" "createPasskeyRecordWrite p cred rec challenge sk = Inr st" "encodeSignedStatement st = Inr w"
  obtains st' where "decodeSignedStatement p w = Some st'"
    "checkPasskeyRecordWrite p st' rec = Inr (st', \<lparr>pw_personKey = keyText p sk, pw_credentialId = cred,
       pw_record = passkeyRecordDigest p rec, pw_challenge = challenge\<rparr>)"
proof -
  let ?w = "\<lparr>pw_personKey = keyText p sk, pw_credentialId = cred, pw_record = passkeyRecordDigest p rec, pw_challenge = challenge\<rparr>"
  have sign: "signStatement p (write_value ?w) sk = Inr st" using assms(2) by (simp add: createPasskeyRecordWrite_def)
  note v = verifyStatement_sign [OF assms(1) sign]
  have wf: "wf_json n (write_value ?w)" for n by (simp add: write_value_def obj_def js_def)
  have "decodeSignedStatement p w = Some (sorted_signed st)"
    using decode_encoded [OF assms(3)] wf v(3) by (simp add: write_value_def obj_def)
  moreover have "isPasskeyRecordWrite (payload (sorted_signed st)) = Some ?w"
    using sorted_w [OF wf] view_w v(3) by (simp add: sorted_signed_def)
  ultimately show ?thesis using that v(1) by (simp add: checkPasskeyRecordWrite_def sorted_signed_verifies)
qed

section \<open>The throttle\<close>

text \<open>How many of a sequence of fetches, each an id and a time, are let through for one id.\<close>

fun let_through :: "jstr \<Rightarrow> (jstr \<times> int) list \<Rightarrow> (jstr \<times> fetch_window) list \<Rightarrow> nat" where
  "let_through c [] fetches = 0"
| "let_through c ((k, at) # rest) fetches =
     (if k = c \<and> \<not> fst (throttled k at fetches) then 1 else 0) + let_through c rest (snd (throttled k at fetches))"

text \<open>What can still be let through until \<open>until_at\<close>: the rest of an open window and ten for every later one.\<close>

definition later_windows :: "int \<Rightarrow> int \<Rightarrow> int" where
  "later_windows at until_at = (if at \<le> until_at then 10 * (1 + (until_at - at) div FETCH_WINDOW_MS) else 0)"

definition still_allowed :: "jstr \<Rightarrow> int \<Rightarrow> int \<Rightarrow> (jstr \<times> fetch_window) list \<Rightarrow> int" where
  "still_allowed c now until_at fetches =
     (case map_of fetches c of
        Some w \<Rightarrow> if now < fw_until w then max 0 (10 - fw_count w) + later_windows (fw_until w) until_at else later_windows now until_at
      | None \<Rightarrow> later_windows now until_at)"

lemma later_windows_mono: "a \<le> b \<Longrightarrow> later_windows b until_at \<le> later_windows a until_at"
  using zdiv_mono1 [of "until_at - b" "until_at - a" FETCH_WINDOW_MS]
  by (auto simp: later_windows_def FETCH_WINDOW_MS_def pos_imp_zdiv_nonneg_iff)

lemma later_windows_0: "0 \<le> later_windows a until_at"
  by (simp add: later_windows_def FETCH_WINDOW_MS_def pos_imp_zdiv_nonneg_iff)

lemma still_allowed_mono:
  assumes "a \<le> b"
  shows "still_allowed c b until_at fetches \<le> still_allowed c a until_at fetches"
proof (cases "map_of fetches c")
  case (Some w)
  have "later_windows b until_at \<le> max 0 (10 - fw_count w) + later_windows (fw_until w) until_at" if "fw_until w \<le> b"
    using later_windows_mono [OF that, of until_at] by linarith
  with Some later_windows_mono [OF assms, of until_at] assms show ?thesis by (auto simp: still_allowed_def)
qed (use later_windows_mono [OF assms] in \<open>simp add: still_allowed_def\<close>)

lemma new_window: "at \<le> until_at \<Longrightarrow> 10 + later_windows (at + FETCH_WINDOW_MS) until_at \<le> later_windows at until_at"
proof -
  have "(until_at - at) div FETCH_WINDOW_MS = 1 + (until_at - (at + FETCH_WINDOW_MS)) div FETCH_WINDOW_MS"
    using div_add_self2 [of FETCH_WINDOW_MS "until_at - (at + FETCH_WINDOW_MS)"] by (simp add: FETCH_WINDOW_MS_def)
  then show "at \<le> until_at \<Longrightarrow> ?thesis" by (auto simp: later_windows_def FETCH_WINDOW_MS_def)
qed

lemma throttled_step:
  assumes "distinct (map fst fetches)" "at \<le> until_at"
  shows "(if k = c \<and> \<not> fst (throttled k at fetches) then 1 else 0) + still_allowed c at until_at (snd (throttled k at fetches))
    \<le> still_allowed c at until_at fetches" (is ?step)
    and "distinct (map fst (snd (throttled k at fetches)))"
proof -
  have keys: "distinct (map fst (AList.update k w fetches))" for w using assms(1) by (rule distinct_update)
  then show "distinct (map fst (snd (throttled k at fetches)))"
    by (auto simp: throttled_def Let_def distinct_map_filter split: option.split)
  have swept: "map_of (filter (\<lambda>(k, w). \<not> fw_until w \<le> at) xs) c
      = (case map_of xs c of Some w \<Rightarrow> if fw_until w \<le> at then None else Some w | None \<Rightarrow> None)"
    if "distinct (map fst xs)" for xs
    using that by (induction xs) (auto split: option.split simp: map_of_eq_None_iff image_iff)
  show ?step
  proof (cases "\<exists>w. map_of fetches k = Some w \<and> at < fw_until w")
    case True
    then obtain w where w: "map_of fetches k = Some w" "at < fw_until w" by blast
    then show ?thesis
      by (auto simp: throttled_def Let_def still_allowed_def update_conv MAX_FETCHES_PER_WINDOW_def)
  next
    case False
    then have new: "throttled k at fetches = (False, filter (\<lambda>(k, w). \<not> fw_until w \<le> at)
        (AList.update k \<lparr>fw_count = 1, fw_until = at + FETCH_WINDOW_MS\<rparr> fetches))"
      by (auto simp: throttled_def Let_def split: option.split)
    show ?thesis
    proof (cases "k = c")
      case True
      with False have "still_allowed c at until_at fetches = later_windows at until_at"
        by (auto simp: still_allowed_def split: option.split)
      with True new_window [OF assms(2)] show ?thesis
        by (simp add: new [unfolded True] swept [OF keys, unfolded True] still_allowed_def [of c at until_at "filter _ _"] update_conv)
          (simp add: FETCH_WINDOW_MS_def)
    next
      case False
      then show ?thesis
        by (auto simp: new swept [OF keys] still_allowed_def update_conv split: option.split)
    qed
  qed
qed

lemma let_through_allowed:
  assumes "distinct (map fst fetches)" "sorted (map snd reqs)" "\<forall>r \<in> set reqs. now \<le> snd r \<and> snd r \<le> until_at"
  shows "int (let_through c reqs fetches) \<le> still_allowed c now until_at fetches"
  using assms
proof (induction reqs arbitrary: now fetches)
  case Nil
  then show ?case using later_windows_0 by (auto simp: still_allowed_def split: option.split)
next
  case (Cons r reqs)
  obtain k at where r: "r = (k, at)" by (cases r)
  have at: "now \<le> at" "at \<le> until_at" using Cons.prems(3) by (auto simp: r)
  note step = throttled_step [OF Cons.prems(1) at(2)]
  have "int (let_through c reqs (snd (throttled k at fetches))) \<le> still_allowed c at until_at (snd (throttled k at fetches))"
    using Cons.prems(2,3) by (intro Cons.IH [OF step(2)]) (auto simp: r)
  with step(1) [of k c] still_allowed_mono [OF at(1), of c until_at fetches] show ?case
    by (cases "k = c"; cases "fst (throttled k at fetches)") (simp_all add: r)
qed

text \<open>
  Of the fetches of one credential id, however those of others come between, at most ten are let through for
  each minute begun since the first.
\<close>

lemma fetches_bounded:
  assumes "sorted (map snd reqs)" "\<forall>r \<in> set reqs. now \<le> snd r \<and> snd r \<le> until_at" "now \<le> until_at"
  shows "int (let_through c reqs []) \<le> 10 * (1 + (until_at - now) div FETCH_WINDOW_MS)"
  using let_through_allowed [of "[]", OF _ assms(1,2), of c] assms(3) by (simp add: still_allowed_def later_windows_def)

section \<open>A person puts the record of their own key\<close>

lemma own_put:
  assumes "crypto_ok c" "length sk = 32" "length slt = 16" "length nonce = 12"
    "wrapPersonKeyWithPasskey c (sk, ed_public (bc_platform c) sk) secret rpId credential slt nonce = Some b"
    "createPasskeyRecordWrite (bc_platform c) credential (backupToFileText b createdAt) challenge sk = Inr st"
    "encodeSignedStatement st = Inr w" "good_challenge (hs_challenges (kp_host s)) (hs_clock (kp_host s)) challenge"
    "roster_ready (hs_roster (kp_host s))" "person (hs_roster (kp_host s)) (keyText (bc_platform c) sk) = Some e"
    "length (passkeys_of e) < MAX_RECORDS_PER_PERSON" "held_only_by (keyText (bc_platform c) sk) credential s"
  obtains st' wr s1 x r where "decodeSignedStatement (bc_platform c) w = Some st'"
    "checkPasskeyRecordWrite (bc_platform c) st' (backupToFileText b createdAt) = Inr (st', wr)"
    "pw_personKey wr = keyText (bc_platform c) sk" "pw_credentialId wr = credential"
    "run (put_record (bc_platform c) w (JString (backupToFileText b createdAt)) (JString token)) s = (Inr None, s1)"
    "kp_fetches s1 = kp_fetches s" "hs_clock (kp_host s1) = hs_clock (kp_host s)"
    "person (hs_roster (kp_host s1)) (keyText (bc_platform c) sk) = Some x" "r \<in> set (passkeys_of x)"
    "sp_record r = backupToFileText b createdAt"
proof -
  let ?p = "bc_platform c" and ?rec = "backupToFileText b createdAt"
  note opens = passkey_restored [OF assms(1-4) refl assms(5)]
  define wr where "wr = \<lparr>pw_personKey = keyText ?p sk, pw_credentialId = credential,
     pw_record = passkeyRecordDigest ?p ?rec, pw_challenge = challenge\<rparr>"
  obtain st' where st': "decodeSignedStatement ?p w = Some st'" "checkPasskeyRecordWrite ?p st' ?rec = Inr (st', wr)"
    unfolding wr_def by (rule own_write [OF crypto_okD(1) [OF assms(1)] assms(6,7)])
  obtain cred where "b = wrapWith c (sk, ed_public ?p sk) (By_passkey (sha256 ?p (utf8_encode rpId)) cred) (passkeyKey c secret) slt nonce"
    by (rule passkey_wrap [OF assms(5) crypto_okD(1) [OF assms(1)]])
  then have "kb_publicKey b = ed_public ?p sk" "case kb_unlock b of By_passkey _ _ \<Rightarrow> True | By_passphrase _ \<Rightarrow> False"
    by simp_all
  then have fits: "record_fits ?p ?rec wr"
    using opens(1,3) by (simp add: record_fits_def wr_def exportPublicKey_def)
  have "can_take wr s" "held_only_by (pw_personKey wr) (pw_credentialId wr) s"
    using assms(8-12) by (auto simp: can_take_def wr_def)
  then obtain s1 e' x where s1: "run (put_checked ?p wr ?rec token) s = (Inr None, s1)" "kp_fetches s1 = kp_fetches s"
      "hs_clock (kp_host s1) = hs_clock (kp_host s)"
      "add_record (stored_at ?p (pw_credentialId wr) ?rec token (hs_clock (kp_host s))) e' = Some x"
      "person (hs_roster (kp_host s1)) = (person (hs_roster (kp_host s)))(pw_personKey wr \<mapsto> x)"
    by (rule put_succeeds)
  moreover from s1(1) st' fits have "run (put_record ?p w (JString ?rec) (JString token)) s = (Inr None, s1)"
    by (simp add: put_record_def)
  moreover have "stored_at ?p (pw_credentialId wr) ?rec token (hs_clock (kp_host s)) \<in> set (passkeys_of x)"
    using s1(4) by (auto simp: add_record_def Let_def passkeys_of_def split: if_splits)
  ultimately show ?thesis using st'
    by (intro that [of st' wr s1 x "stored_at ?p (pw_credentialId wr) ?rec token (hs_clock (kp_host s))"])
      (simp_all add: wr_def stored_at_def)
qed

section \<open>Properties\<close>

text \<open>
  C40. However the operations of the host interleave with storing and fetching, with the clock moving and the
  disk refusing writes, a person has at most five passkey records, under different credential ids, and for
  each of them there is a write that verifies under that person's key, names the credential id and covers the
  record's bytes; the record is a passkey record of that id and of that person's key.
\<close>

theorem records_are_signed_for:
  assumes "interleaved (keeper_calls env) keeper_world s0 tr ts s" "keeper_good (he_platform env) s0"
    "e \<in> set (people_of (hs_roster (kp_host s)))"
  shows "length (passkeys_of e) \<le> MAX_RECORDS_PER_PERSON \<and> distinct (map sp_credentialId (passkeys_of e))
    \<and> (\<forall>r \<in> set (passkeys_of e).
      (\<exists>st w. checkPasskeyRecordWrite (he_platform env) st (sp_record r) = Inr (st, w)
        \<and> pw_personKey w = re_personKey e \<and> pw_credentialId w = sp_credentialId r)
      \<and> (\<exists>b. parseBackupText (he_platform env) (sp_record r) = Inr b \<and> passkeyRecordKey b = Some (sp_credentialId r)
        \<and> toBase64Url (kb_publicKey b) = re_personKey e))"
proof -
  have good: "good_entry (he_platform env) e"
    using keeper_invariant [OF assms(1,2)] assms(3) by (simp add: keeper_good_def good_people_def)
  have "(\<exists>st w. checkPasskeyRecordWrite (he_platform env) st (sp_record r) = Inr (st, w)
        \<and> pw_personKey w = re_personKey e \<and> pw_credentialId w = sp_credentialId r)
      \<and> (\<exists>b. parseBackupText (he_platform env) (sp_record r) = Inr b \<and> passkeyRecordKey b = Some (sp_credentialId r)
        \<and> toBase64Url (kb_publicKey b) = re_personKey e)" if "r \<in> set (passkeys_of e)" for r
  proof -
    from good that obtain st w where w: "checkPasskeyRecordWrite (he_platform env) st (sp_record r) = Inr (st, w)"
        "pw_personKey w = re_personKey e" "pw_credentialId w = sp_credentialId r" "record_fits (he_platform env) (sp_record r) w"
      by (auto simp: good_entry_def signed_for_def)
    then show ?thesis by (auto simp: record_fits_def split: sum.splits)
  qed
  with good show ?thesis by (simp add: good_entry_def)
qed

text \<open>
  C39. A lost phone is replaced. A person on the host's roster locks their key with a passkey, sends the
  record's file with a write they signed over a good challenge and the token the passkey derives, and the
  host stores it. Whoever then has nothing but the passkey, and so its credential id and secret, fetches the
  record and opens it to the same key pair.
\<close>

theorem lost_phone_recovers:
  assumes "crypto_ok c" "length sk = 32" "length slt = 16" "length nonce = 12"
    "wrapPersonKeyWithPasskey c (sk, ed_public (bc_platform c) sk) secret rpId credential slt nonce = Some b"
    "createPasskeyRecordWrite (bc_platform c) credential (backupToFileText b createdAt) challenge sk = Inr st"
    "encodeSignedStatement st = Inr w" "good_challenge (hs_challenges (kp_host s)) (hs_clock (kp_host s)) challenge"
    "roster_ready (hs_roster (kp_host s))" "person (hs_roster (kp_host s)) (keyText (bc_platform c) sk) = Some e"
    "length (passkeys_of e) < MAX_RECORDS_PER_PERSON" "held_only_by (keyText (bc_platform c) sk) credential s"
    "\<not> fst (throttled credential (hs_clock (kp_host s)) (kp_fetches s))"
  shows "\<exists>s1 fetched b'. run (put_record (bc_platform c) w (JString (backupToFileText b createdAt))
      (JString (personKeyServiceToken c secret))) s = (Inr None, s1)
    \<and> fst (run (fetch_record (bc_platform c) (JString credential) (JString (personKeyServiceToken c secret))) s1) = Inr (Some fetched)
    \<and> parseBackupText (bc_platform c) fetched = Inr b'
    \<and> unwrapPersonKeyWithPasskey c b' secret = Inr ((sk, ed_public (bc_platform c) sk), keyText (bc_platform c) sk)"
proof -
  let ?p = "bc_platform c" and ?rec = "backupToFileText b createdAt" and ?token = "personKeyServiceToken c secret"
  note opens = passkey_restored [OF assms(1-4) refl assms(5)]
  obtain st' wr s1 where put: "decodeSignedStatement ?p w = Some st'" "checkPasskeyRecordWrite ?p st' ?rec = Inr (st', wr)"
      "pw_personKey wr = keyText ?p sk" "pw_credentialId wr = credential"
      "run (put_record ?p w (JString ?rec) (JString ?token)) s = (Inr None, s1)"
      "kp_fetches s1 = kp_fetches s" "hs_clock (kp_host s1) = hs_clock (kp_host s)"
    by (rule own_put [OF assms(1-12)])
  have "fst (run (fetch_record ?p (JString credential) (JString ?token)) s1) = Inr (Some ?rec)"
    using stored_record_is_fetched [OF put(5,1,2)] assms(12,13) put by (simp add: held_only_by_def)
  with put(5) opens(3,4) show ?thesis by (auto simp: exportPublicKey_def)
qed

end
