(* ===== verification/Passkey_Examples.thy ===== *)
theory Passkey_Examples
  imports Passkey_Safety Host_Examples
begin

text \<open>A person of the example platform stores the record of a passkey with the host and fetches it back.\<close>

definition ex_keeper :: keeper where
  "ex_keeper = \<lparr>kp_host = ex_host\<lparr>hs_roster := \<lparr>disk = Missing, writable = True,
     cached = Some (Inr [ex_entry\<lparr>re_personKey := keyText toy ex_sk\<rparr>])\<rparr>\<rparr>, kp_fetches = []\<rparr>"

definition ex_record :: key_backup where
  "ex_record = the (wrapPersonKeyWithPasskey toy_crypto (ex_sk, pad32 ex_sk) ex_sk (js ''tapes.example'') (js ''AQ'')
     (replicate 16 1) (replicate 12 2))"

definition ex_file :: jstr where "ex_file = backupToFileText ex_record 0"

definition ex_write :: signed where
  "ex_write = projr (createPasskeyRecordWrite toy (js ''AQ'') ex_file (js ''nonce'') ex_sk)"

definition ex_write_text :: jstr where "ex_write_text = projr (encodeSignedStatement ex_write)"

definition ex_token :: jstr where "ex_token = personKeyServiceToken toy_crypto ex_sk"

lemma ex_record: "wrapPersonKeyWithPasskey toy_crypto (ex_sk, pad32 ex_sk) ex_sk (js ''tapes.example'') (js ''AQ'')
     (replicate 16 1) (replicate 12 2) = Some ex_record"
proof -
  have "fromBase64Url (js ''AQ'') = Some [1]" by code_simp
  then show ?thesis by (simp add: ex_record_def wrapPersonKeyWithPasskey_def MAX_CREDENTIAL_ID_LENGTH_def)
qed

lemma ex_write: "createPasskeyRecordWrite toy (js ''AQ'') ex_file (js ''nonce'') ex_sk = Inr ex_write"
    "encodeSignedStatement ex_write = Inr ex_write_text"
proof -
  let ?v = "write_value \<lparr>pw_personKey = keyText toy ex_sk, pw_credentialId = js ''AQ'',
     pw_record = passkeyRecordDigest toy ex_file, pw_challenge = js ''nonce''\<rparr>"
  have "serializable ?v"
    by (simp add: write_value_def obj_def statement_types wellFormed_js plain_unit_def exportPublicKey_def passkeyRecordDigest_def)
  note t = sign_total_projr [OF this, of toy ex_sk]
  show "createPasskeyRecordWrite toy (js ''AQ'') ex_file (js ''nonce'') ex_sk = Inr ex_write"
    using t(1) by (simp add: ex_write_def createPasskeyRecordWrite_def)
  then have "ex_write = projr (signStatement toy ?v ex_sk)" by (simp add: ex_write_def createPasskeyRecordWrite_def)
  with t(2) have "\<exists>bytes. statementBytes ex_write = Inr bytes" by metis
  then show "encodeSignedStatement ex_write = Inr ex_write_text"
    by (cases "canonicalJson (signed_value ex_write)")
      (auto simp: ex_write_text_def statementBytes_def encodeSignedStatement_def)
qed

lemma ex_people: "people_of (hs_roster (kp_host ex_keeper)) = [ex_entry\<lparr>re_personKey := keyText toy ex_sk\<rparr>]"
  by (simp add: ex_keeper_def people_of_def load_def)

lemma ex_conditions:
  "length ex_sk = 32" "length (replicate 16 (1 :: u8)) = 16" "length (replicate 12 (2 :: u8)) = 12"
  "wrapPersonKeyWithPasskey toy_crypto (ex_sk, ed_public (bc_platform toy_crypto) ex_sk) ex_sk (js ''tapes.example'') (js ''AQ'')
     (replicate 16 1) (replicate 12 2) = Some ex_record"
  "createPasskeyRecordWrite (bc_platform toy_crypto) (js ''AQ'') (backupToFileText ex_record 0) (js ''nonce'') ex_sk = Inr ex_write"
  "encodeSignedStatement ex_write = Inr ex_write_text"
  "good_challenge (hs_challenges (kp_host ex_keeper)) (hs_clock (kp_host ex_keeper)) (js ''nonce'')"
  "roster_ready (hs_roster (kp_host ex_keeper))"
  "person (hs_roster (kp_host ex_keeper)) (keyText (bc_platform toy_crypto) ex_sk) = Some (ex_entry\<lparr>re_personKey := keyText toy ex_sk\<rparr>)"
  "length (passkeys_of (ex_entry\<lparr>re_personKey := keyText toy ex_sk\<rparr>)) < MAX_RECORDS_PER_PERSON"
  "held_only_by (keyText (bc_platform toy_crypto) ex_sk) (js ''AQ'') ex_keeper"
  using ex_record ex_write
  by (simp_all add: toy_public ex_file_def good_challenge_def held_only_by_def ex_people person_def)
    (simp_all add: ex_sk_def ex_keeper_def ex_host_def ex_store_def roster_ready_def load_def passkeys_of_def ex_entry_def
      MAX_RECORDS_PER_PERSON_def)

lemma lost_phone_recovers_witness:
  "\<exists>s1 fetched b'. run (put_record toy ex_write_text (JString ex_file) (JString ex_token)) ex_keeper = (Inr None, s1)
    \<and> fst (run (fetch_record toy (JString (js ''AQ'')) (JString ex_token)) s1) = Inr (Some fetched)
    \<and> parseBackupText toy fetched = Inr b'
    \<and> unwrapPersonKeyWithPasskey toy_crypto b' ex_sk = Inr ((ex_sk, pad32 ex_sk), keyText toy ex_sk)"
proof -
  have "\<not> fst (throttled (js ''AQ'') (hs_clock (kp_host ex_keeper)) (kp_fetches ex_keeper))"
    by (simp add: throttled_def ex_keeper_def)
  from lost_phone_recovers [OF toy_crypto_ok ex_conditions this] show ?thesis
    by (simp add: toy_public ex_file_def ex_token_def)
qed

text \<open>After that put the person has a record, and it was signed for.\<close>

lemma records_are_signed_for_witness:
  "\<exists>tr s e r st w. interleaved (keeper_calls ex_env) keeper_world ex_keeper tr [Done ()] s
    \<and> e \<in> set (people_of (hs_roster (kp_host s))) \<and> r \<in> set (passkeys_of e) \<and> sp_record r = ex_file
    \<and> checkPasskeyRecordWrite toy st ex_file = Inr (st, w) \<and> pw_personKey w = re_personKey e"
proof -
  have toy: "he_platform ex_env = toy" by (simp add: ex_env_def)
  let ?t = "forget (put_record toy ex_write_text (JString ex_file) (JString ex_token))"
  have "?t \<in> keeper_calls ex_env" unfolding keeper_calls_def toy by blast
  from interleaved_run [OF interleaved.start this] obtain tr where
    i: "interleaved (keeper_calls ex_env) keeper_world ex_keeper tr [Done ()] (snd (run ?t ex_keeper))" by auto
  obtain s1 x r where s1: "run (put_record (bc_platform toy_crypto) ex_write_text (JString (backupToFileText ex_record 0)) (JString ex_token)) ex_keeper
        = (Inr None, s1)"
      "person (hs_roster (kp_host s1)) (keyText (bc_platform toy_crypto) ex_sk) = Some x" "r \<in> set (passkeys_of x)"
      "sp_record r = backupToFileText ex_record 0"
    by (rule own_put [OF toy_crypto_ok ex_conditions])
  then have end_state: "snd (run ?t ex_keeper) = s1" by (simp add: ex_file_def)
  have x: "x \<in> set (people_of (hs_roster (kp_host s1)))" using s1(2) by (auto simp: person_def find_Some_iff)
  have good: "keeper_good (he_platform ex_env) ex_keeper"
    by (simp add: keeper_good_def good_people_def ex_people good_entry_def passkeys_of_def ex_entry_def)
  from records_are_signed_for [OF i good, unfolded end_state, OF x] s1(3) obtain st w where
    "checkPasskeyRecordWrite toy st (sp_record r) = Inr (st, w)" "pw_personKey w = re_personKey x"
    unfolding toy by blast
  moreover have "interleaved (keeper_calls ex_env) keeper_world ex_keeper tr [Done ()] s1" using i unfolding end_state .
  ultimately show ?thesis using x s1(3,4) unfolding ex_file_def by metis
qed

end
