(* ===== verification/Spec2Isabelle.thy ===== *)
theory Spec2Isabelle
  imports Recording_Provenance Statement_Properties Sync_Challenges Person_Roster Host_Examples Event_Http Blob_Gc Host_Session Blob_Serving Passkey_Examples
begin

text \<open>
  Tapes is a recorder whose recordings are synced between a desktop host and its guests, with an
  origin that anyone can check: devices sign claims about what they recorded, people certify their
  devices, hosts sign receipts and vouch for guests, and a reader decides from the listed statements
  what to show. Beside that the host keeps a roster of people and counts what was played.

  \<^bold>\<open>Ground.\<close> \<^theory_text>\<open>Prelude\<close> has bytes, JavaScript strings as UTF-16 units, insertion-ordered maps and
  the \<open>codec\<close> locales; \<^theory_text>\<open>Js_Value\<close>, \<^theory_text>\<open>Utf8\<close>, \<^theory_text>\<open>Json_Text\<close>, \<^theory_text>\<open>Json_Copy\<close> and \<^theory_text>\<open>Js_Date\<close> have the
  values, text, JSON and dates of the language. A finite number is what \<open>Number::toString\<close> prints.
  \<^theory_text>\<open>Effects\<close> has operations on a state that may fail, \<^theory_text>\<open>Threads\<close> has asynchronous calls: a call is a
  sequence of uninterrupted stretches, \<open>run\<close> is the call alone, \<open>passes\<close> the states at which a crash
  can find it, and \<open>interleaved\<close> lets any calls take turns at every \<open>await\<close>.

  \<^bold>\<open>Signed statements\<close> (\<^verbatim>\<open>packages/provenance/lib\<close>). \<^theory_text>\<open>Encoding\<close> (\<^verbatim>\<open>encoding.ts\<close>), \<^theory_text>\<open>Canonical_Json\<close>
  (\<^verbatim>\<open>canonicalJson.ts\<close>) and \<^theory_text>\<open>Signing\<close> (\<^verbatim>\<open>signing.ts\<close>, WebCrypto being the record \<open>platform\<close> with the
  laws \<open>platform_ok\<close>) give bytes, text, addresses and signatures. \<^theory_text>\<open>Statements\<close> and \<^theory_text>\<open>Statement_Checks\<close>
  have every constructor, guard and check of the nine kinds of statement, \<^theory_text>\<open>Statement_Text\<close> and
  \<^theory_text>\<open>Json_Roundtrip\<close> the way through text and back, \<^theory_text>\<open>Statement_Properties\<close> what holds across kinds.
  \<^theory_text>\<open>Recording_Provenance\<close> (\<^verbatim>\<open>recordingProvenance.ts\<close>) is the verdict on a recording: what is shown as
  verified is signed by the keys it names, each of the five results is given under its own condition,
  failures are exactly the offenders, and what the constructors make verifies. \<^theory_text>\<open>Example_Platform\<close> is a platform on which all of it runs.

  \<^bold>\<open>The host and its guests\<close> (\<^verbatim>\<open>apps/electron-client/src\<close>, \<^verbatim>\<open>packages/sync-protocol/lib\<close>). \<^theory_text>\<open>Labels\<close>
  is \<^verbatim>\<open>label.ts\<close>, \<^theory_text>\<open>Http_Auth\<close> \<^verbatim>\<open>tokenAuth.ts\<close> and \<^verbatim>\<open>httpResponses.ts\<close>, \<^theory_text>\<open>Sync_Challenges\<close>
  \<^verbatim>\<open>syncChallenges.ts\<close>: its eviction loop is a \<open>partial_function\<close>, its store implements the locale
  \<open>one_time\<close>. \<^theory_text>\<open>Person_Roster\<close> is \<^verbatim>\<open>personRoster.ts\<close> and \<^verbatim>\<open>pinHash.ts\<close>: a refinement of a map from
  keys to people, durable through failed writes; its interpretation of \<open>reliable_store\<close> is what the
  vouching operations rest on. \<^theory_text>\<open>Host_Vouching\<close> has every operation of \<^verbatim>\<open>hostVouching.ts\<close> as a thread;
  \<^theory_text>\<open>Host_Safety\<close> bounds waiting requests and PIN guesses and ties vouches to the roster under any
  interleaving, \<^theory_text>\<open>Host_Outcomes\<close> states what a guess, a join and a revocation do, \<^theory_text>\<open>Host_Examples\<close> runs
  them.

  \<^bold>\<open>Playback events.\<close> \<^theory_text>\<open>Event_Queue\<close> is the guest's outbox (\<^verbatim>\<open>packages/core/app/eventQueue.ts\<close>),
  \<^theory_text>\<open>Event_Log\<close> the host's log (\<^verbatim>\<open>eventStore.ts\<close>) with its index and retention, \<^theory_text>\<open>Aggregates\<close> the
  numbers derived from it (\<^verbatim>\<open>aggregates.ts\<close>) and \<^theory_text>\<open>Event_Http\<close> the routes between them
  (\<^verbatim>\<open>eventHttp.ts\<close>). A play is on the log at most once, wherever a crash cuts a batch; the index is exact
  as long as nothing is taken onto a torn line or without a log directory, and a restart makes it exact
  again; a retry is a duplicate. While baselines can be saved, retention and crashes inside it change no
  total, and, with a clock that does not go back to an earlier day and batches cut only between lines, the
  rollup equals a replay. The host's answer empties the queue of exactly the plays it holds or will never
  take. \<^theory_text>\<open>Aggregate_Examples\<close> runs the stores and shows what a refused save costs.

  \<^bold>\<open>Stored audio.\<close> \<^theory_text>\<open>Blob_Store\<close> is the content-addressed store (\<^verbatim>\<open>blobStore.ts\<close>): an upload is a thread,
  and a file is always at the address of its bytes, whatever interleaves. It also shows the upload that a
  removal overtakes. \<^theory_text>\<open>Blob_Gc\<close> is the mark and sweep (\<^verbatim>\<open>blobGc.ts\<close>): what it removes is exactly what no
  recording reaches, is old, and is no statement of a live document. \<^theory_text>\<open>Statement_Store\<close>
  (\<^verbatim>\<open>statementUpload.ts\<close>) reads statements back and decides which are taken in, \<^theory_text>\<open>Claim_Ingest\<close>
  (\<^verbatim>\<open>claimIngest.ts\<close>) is the claim that comes with an upload and its receipt, and \<^theory_text>\<open>Blob_Http\<close>
  (\<^verbatim>\<open>blobHttp.ts\<close>) the routes. \<^theory_text>\<open>Blob_Serving\<close> states what they promise together: uploaded bytes are
  served as they were, and what is served as a statement is a genuine one.

  \<^bold>\<open>Sessions.\<close> \<^theory_text>\<open>Session_Recorder\<close> is the registry of connections (\<^verbatim>\<open>syncConnections.ts\<close>) and the recorder
  (\<^verbatim>\<open>sessionRecorder.ts\<close>), whose close waits, signs and stores as a thread. \<^theory_text>\<open>Session_Safety\<close> shows that a
  stored record names only proven devices and verified claims, with spans inside the session;
  \<^theory_text>\<open>Session_Outcomes\<close> that a close signs, and what a claim that comes too late does. \<^theory_text>\<open>Host_Session\<close>
  (\<^verbatim>\<open>hostSession.ts\<close>, \<^verbatim>\<open>sessionDelivery.ts\<close>) publishes the open session and lists its record.

  \<^bold>\<open>Key backups.\<close> \<^theory_text>\<open>Key_Backup\<close> is \<^verbatim>\<open>packages/provenance/lib/personKeyBackup.ts\<close>: the binary layout of a
  wrapped person key, its text and file, and locking and unlocking it. \<^theory_text>\<open>Key_Restore\<close> shows that the
  layout is read exactly as it is written, that a locked key comes back from text or file with the words or
  the passkey that locked it, and that nothing else opens, under another header neither. \<^theory_text>\<open>Passkey_Records\<close> is where the host keeps such
  records (\<^verbatim>\<open>passkeyRecords.ts\<close>, \<^verbatim>\<open>passkeyRecordsHttp.ts\<close>), beside its other operations; \<^theory_text>\<open>Passkey_Safety\<close>
  shows that each was signed for by its person, that a stored record brings a lost key back, how often one
  can be asked for, and how two puts that cross share an id. \<^theory_text>\<open>Passkey_Examples\<close> runs it.

  \<^bold>\<open>Parameters.\<close> SHA-256, Ed25519, PBKDF2, Argon2id, HKDF, AES-GCM, Unicode folding and random bytes; \<open>Date.parse\<close> and the rounding of a decimal
  to a double; addition and division of doubles in the aggregates; the answers of \<open>fetch\<close>, of the
  disk and of lookups in other components. Hypotheses on them are named (\<open>platform_ok\<close>, \<open>crypto_ok\<close>,
  \<open>node_ok\<close>, \<open>add_ok\<close>) and hold of the example instances. Nesting of parsed JSON is bounded by the number of its
  tokens, which is enough fuel (\<^theory_text>\<open>Json_Roundtrip\<close>).

  \<^bold>\<open>Not modelled.\<close> The React views and hooks, the Electron shell, Automerge repositories and sockets,
  the X.509 certificates of the host, the service worker, and browser
  storage outside the event queue: rendering, input and output, and calls of third-party packages.
  The vouch routes and pairing links are not modelled yet.
\<close>

end
